(* ===== verification/Prelude.thy ===== *)
theory Prelude
  imports Main "HOL-Library.Word"
begin

text \<open>
  The vocabulary every component shares: C's integer types as words, \<open>size_t\<close>
  arithmetic with its wrap-around, the shape of a C function that returns zero or one and
  updates an object through a pointer (an \<open>action\<close>), and big-endian numbers as
  lists of bytes.
\<close>

unbundle bit_operations_syntax

section \<open>Integer types\<close>

type_synonym byte = "8 word"
type_synonym u16 = "16 word"
type_synonym u32 = "32 word"
type_synonym u64 = "64 word"

text \<open>
  A \<open>size_t\<close> is a natural number below \<open>2 ^ 64\<close>; sums that the code does not
  guard are taken modulo \<open>2 ^ 64\<close>.
\<close>

definition size_mod :: nat where
  "size_mod = 2 ^ 64"

definition size_add :: "nat \<Rightarrow> nat \<Rightarrow> nat" where
  "size_add a b = (a + b) mod size_mod"

definition size_mul :: "nat \<Rightarrow> nat \<Rightarrow> nat" where
  "size_mul a b = (a * b) mod size_mod"

definition INT_MAX :: nat where
  "INT_MAX = 2147483647"

lemma size_add_exact [simp]: "a + b < size_mod \<Longrightarrow> size_add a b = a + b"
  by (simp add: size_add_def)

lemma size_add_less: "size_add a b < size_mod"
  by (simp add: size_add_def size_mod_def)

lemma size_mul_exact [simp]: "a * b < size_mod \<Longrightarrow> size_mul a b = a * b"
  by (simp add: size_mul_def)

text \<open>The unsigned overflow test \<open>a + b < a\<close> is exact.\<close>

lemma size_add_overflow_iff:
  assumes "a < size_mod" and "b < size_mod"
  shows "size_add a b < a \<longleftrightarrow> size_mod \<le> a + b"
proof (cases "a + b < size_mod")
  case False
  then have "(a + b) mod size_mod = a + b - size_mod"
    using assms by (simp add: mod_if)
  then show ?thesis
    using False assms by (simp add: size_add_def)
qed simp

section \<open>Functions that succeed or fail and update an object\<close>

text \<open>
  A C function \<open>int f(T *s, \<dots>, U *out)\<close> that returns one on success and zero on
  error becomes an action: the value it stores through \<open>out\<close> (or \<open>None\<close> when it
  returns zero), together with \<open>*s\<close> as the call leaves it. On failure the state is the one
  the code leaves behind; what a failing call may have stored through \<open>out\<close> is
  not part of the model, since no caller reads it.
\<close>

type_synonym ('s, 'a) action = "'s \<Rightarrow> 'a option \<times> 's"

definition act_ret :: "'a \<Rightarrow> ('s, 'a) action" where
  "act_ret a s = (Some a, s)"

definition act_fail :: "('s, 'a) action" where
  "act_fail s = (None, s)"

definition act_bind :: "('s, 'a) action \<Rightarrow> ('a \<Rightarrow> ('s, 'b) action) \<Rightarrow> ('s, 'b) action" where
  "act_bind m f s = (case m s of (None, t) \<Rightarrow> (None, t) | (Some a, t) \<Rightarrow> f a t)"

definition act_check :: "bool \<Rightarrow> ('s, unit) action" where
  "act_check p s = (if p then Some () else None, s)"

definition act_option :: "'a option \<Rightarrow> ('s, 'a) action" where
  "act_option x s = (x, s)"

named_theorems act_simps \<open>unfolding of the action combinators\<close>

lemma act_ret_simp [act_simps]: "act_ret a s = (Some a, s)"
  by (simp add: act_ret_def)

lemma act_fail_simp [act_simps]: "act_fail s = (None, s)"
  by (simp add: act_fail_def)

lemma act_check_simp [act_simps]: "act_check p s = (if p then Some () else None, s)"
  by (simp add: act_check_def)

lemma act_option_simp [act_simps]: "act_option x s = (x, s)"
  by (simp add: act_option_def)

lemma act_bind_Some [simp]: "m s = (Some a, t) \<Longrightarrow> act_bind m f s = f a t"
  by (simp add: act_bind_def)

lemma act_bind_None [simp]: "m s = (None, t) \<Longrightarrow> act_bind m f s = (None, t)"
  by (simp add: act_bind_def)

lemma act_bind_eq_Some:
  "act_bind m f s = (Some b, u) \<longleftrightarrow> (\<exists>a t. m s = (Some a, t) \<and> f a t = (Some b, u))"
  by (auto simp: act_bind_def split: prod.splits option.splits)

lemma act_bind_SomeE:
  assumes "act_bind m f s = (Some b, u)"
  obtains a t where "m s = (Some a, t)" and "f a t = (Some b, u)"
  using assms by (auto simp: act_bind_eq_Some)

lemma act_check_eq_Some [simp]: "act_check p s = (Some r, t) \<longleftrightarrow> p \<and> t = s"
  by (auto simp: act_check_def)

lemma act_ret_eq_Some [simp]: "act_ret a s = (Some b, t) \<longleftrightarrow> b = a \<and> t = s"
  by (auto simp: act_ret_def)

text \<open>A property of the state that both halves of a sequence keep is kept by the sequence.\<close>

lemma act_bind_keeps:
  assumes "P (snd (m s))" and "\<And>a t. m s = (Some a, t) \<Longrightarrow> P t \<Longrightarrow> P (snd (f a t))"
  shows "P (snd (act_bind m f s))"
  using assms by (auto simp: act_bind_def split: prod.splits option.splits)

text \<open>A loop that calls an action on each element and returns zero as soon as one call does.\<close>

fun act_each :: "('a \<Rightarrow> ('s, unit) action) \<Rightarrow> 'a list \<Rightarrow> ('s, unit) action" where
  "act_each f [] = act_ret ()"
| "act_each f (x # xs) = act_bind (f x) (\<lambda>_. act_each f xs)"

lemma act_each_append:
  "act_each f (xs @ ys) = act_bind (act_each f xs) (\<lambda>_. act_each f ys)"
  by (induction xs) (auto simp: fun_eq_iff act_bind_def act_simps split: prod.splits option.splits)

section \<open>Big-endian numbers\<close>

fun be_val :: "byte list \<Rightarrow> nat" where
  "be_val [] = 0"
| "be_val (b # bs) = unat b * 256 ^ length bs + be_val bs"

fun be_bytes :: "nat \<Rightarrow> nat \<Rightarrow> byte list" where
  "be_bytes 0 v = []"
| "be_bytes (Suc n) v = be_bytes n (v div 256) @ [of_nat v]"

lemma unat_byte_less [simp]: "unat (b :: byte) < 256"
  using unsigned_less [of b] by simp

lemma unat_u64_less: "unat (r :: u64) < 2 ^ 64"
  using unsigned_less [of r, where 'a = nat] by simp

lemma unat_u32_less: "unat (r :: u32) < 2 ^ 32"
  using unsigned_less [of r, where 'a = nat] by simp

lemma unat_of_nat_byte [simp]: "unat (of_nat v :: byte) = v mod 256"
  by (simp add: unat_of_nat)

lemma length_be_bytes [simp]: "length (be_bytes n v) = n"
  by (induction n arbitrary: v) auto

lemma be_val_append: "be_val (xs @ ys) = be_val xs * 256 ^ length ys + be_val ys"
  by (induction xs) (auto simp: algebra_simps power_add)

lemma be_val_snoc [simp]: "be_val (xs @ [b]) = be_val xs * 256 + unat b"
  by (simp add: be_val_append)

lemma be_val_less: "be_val bs < 256 ^ length bs"
proof (induction bs)
  case (Cons b bs)
  have "unat b * 256 ^ length bs + be_val bs < (unat b + 1) * 256 ^ length bs"
    using Cons.IH by simp
  also have "\<dots> \<le> 256 * 256 ^ length bs"
    using unat_byte_less [of b] by (intro mult_right_mono) linarith+
  finally show ?case by simp
qed simp

lemma be_val_be_bytes [simp]: "be_val (be_bytes n v) = v mod 256 ^ n"
proof (induction n arbitrary: v)
  case (Suc n)
  have "v mod 256 ^ Suc n = v div 256 mod 256 ^ n * 256 + v mod 256"
    using mod_mult2_eq [of v 256 "256 ^ n"] by (simp add: mult.commute)
  then show ?case
    using Suc [of "v div 256"] by (simp add: be_val_append)
qed simp

lemma of_nat_byte_digit [simp]: "(of_nat (k * 256 + unat b) :: byte) = b"
  by (rule word_unat_eq_iff [THEN iffD2]) (simp only: unat_of_nat_byte mod_mult_self3 mod_less unat_byte_less)

lemma be_bytes_be_val [simp]: "be_bytes (length bs) (be_val bs) = bs"
  by (induction bs rule: rev_induct) (simp_all del: of_nat_add of_nat_mult)

lemma be_bytes_be_val_eq: "length bs = n \<Longrightarrow> be_bytes n (be_val bs) = bs"
  by auto

lemma be_val_inj: "be_val xs = be_val ys \<Longrightarrow> length xs = length ys \<Longrightarrow> xs = ys"
  by (metis be_bytes_be_val)

section \<open>Words built byte by byte\<close>

text \<open>Widening a word does not change its value.\<close>

lemma unat_ucast_widen:
  "LENGTH('a) \<le> LENGTH('b) \<Longrightarrow> unat (ucast (w :: 'a::len word) :: 'b::len word) = unat w"
  by (simp add: unsigned_ucast_eq take_bit_nat_eq_self_iff) (rule less_le_trans [OF unsigned_less], simp)

text \<open>Narrowing keeps the value modulo the width.\<close>

lemma unat_ucast_narrow:
  "unat (ucast (w :: 'a::len word) :: 'b::len word) = unat w mod 2 ^ LENGTH('b)"
  by (simp add: unsigned_ucast_eq take_bit_eq_mod)

text \<open>Shifting in fresh low bits: \<open>r << k | w\<close>.\<close>

lemma bit_less_of_unat_less:
  assumes "unat (w :: 'a::len word) < 2 ^ k" and "bit w n"
  shows "n < k"
proof (rule ccontr)
  assume "\<not> n < k"
  have "bit (unat w) n"
    using assms(2) by (simp add: bit_unsigned_iff)
  then have "unat w div 2 ^ n \<noteq> 0"
    by (metis bit_iff_odd even_zero)
  then have "2 ^ n \<le> unat w" by (metis div_less not_le)
  moreover have "(2 :: nat) ^ k \<le> 2 ^ n" using \<open>\<not> n < k\<close> by simp
  ultimately show False using assms(1) by simp
qed

lemma unat_push_or:
  fixes r w :: "'a::len word"
  assumes "unat r * 2 ^ k + 2 ^ k \<le> 2 ^ LENGTH('a)" and "unat w < 2 ^ k"
    and "k < LENGTH('a)"
  shows "unat (push_bit k r OR w) = unat r * 2 ^ k + unat w"
proof -
  have "push_bit k r AND w = 0"
    by (rule bit_word_eqI) (auto simp: bit_simps dest: bit_less_of_unat_less [OF assms(2)])
  then have "push_bit k r OR w = push_bit k r + w"
    by (simp add: disjunctive_add_eq_or)
  moreover have "push_bit k r = r * 2 ^ k"
    by (simp add: push_bit_eq_mult)
  moreover have "unat (r * 2 ^ k + w) = unat r * 2 ^ k + unat w"
  proof -
    have "unat (2 ^ k :: 'a word) = 2 ^ k"
      using assms(3) unat_of_nat [of "2 ^ k", where 'a = 'a] by simp
    then show ?thesis using assms by (simp add: unat_word_ariths)
  qed
  ultimately show ?thesis by simp
qed

lemma drop_bit_eq_0_iff_unat: "drop_bit k (w :: 'a::len word) = 0 \<longleftrightarrow> unat w < 2 ^ k"
  by (simp only: word_unat_eq_iff unat_drop_bit_eq drop_bit_eq_div [where 'a = nat] unat_0 div_eq_0_iff)
     simp

lemma unat_and_mask: "unat (w AND mask k :: 'a::len word) = unat w mod 2 ^ k"
  by (simp only: take_bit_eq_mask [symmetric] unsigned_take_bit_eq take_bit_eq_mod [where 'a = nat])

lemma unat_and_7f: "unat (b AND 0x7f :: byte) = unat b mod 128"
  using unat_and_mask [of b 7] by (simp add: mask_numeral)

lemma and_80_iff: "(b :: byte) AND 0x80 \<noteq> 0 \<longleftrightarrow> 128 \<le> unat b"
proof -
  have "b AND 0x80 \<noteq> 0 \<longleftrightarrow> bit b 7"
    using and_exp_eq_0_iff_not_bit [of b 7] by simp
  also have "\<dots> \<longleftrightarrow> bit (unat b) 7"
    by (simp add: bit_unsigned_iff)
  also have "\<dots> \<longleftrightarrow> odd (unat b div 128)"
    by (simp add: bit_iff_odd)
  also have "\<dots> \<longleftrightarrow> 128 \<le> unat b"
  proof -
    have "n < 256 \<Longrightarrow> odd (n div 128) \<longleftrightarrow> 128 \<le> n" for n :: nat
      by (cases "n < 128") (simp_all add: le_div_geq)
    then show ?thesis by simp
  qed
  finally show ?thesis .
qed

lemma unat_push8_or:
  "unat (r :: u64) < 2 ^ 56 \<Longrightarrow> unat (push_bit 8 r OR ucast (b :: byte)) = unat r * 256 + unat b"
  by (subst unat_push_or) (simp_all add: unat_ucast_widen)

lemma unat_push7_or:
  "unat (r :: u64) < 2 ^ 57 \<Longrightarrow>
   unat (push_bit 7 r OR ucast (b AND 0x7f :: byte)) = unat r * 128 + unat b mod 128"
  by (subst unat_push_or) (simp_all add: unat_ucast_widen unat_and_7f)

end
