(* ===== verification/Mem.thy ===== *)
theory Mem
  imports Prelude
begin

text \<open>
  \<open>crypto/mem.c\<close>: the allocator wrappers and the memory and string helpers the other
  components call. The C library's \<open>malloc\<close> is not part of the repository: an
  \<open>alloc\<close> record says which requests it grants and what a fresh block holds.
\<close>

record alloc =
  malloc_ok :: "nat \<Rightarrow> bool"
  fresh :: "nat \<Rightarrow> byte"

text \<open>
  No C library grants an object larger than \<open>PTRDIFF_MAX\<close>. Lemmas that need this fact
  name it.
\<close>

definition malloc_bounded :: "alloc \<Rightarrow> bool" where
  "malloc_bounded env \<longleftrightarrow> (\<forall>n. malloc_ok env n \<longrightarrow> n < 2 ^ 63)"

definition OPENSSL_MALLOC_PREFIX :: nat where
  "OPENSSL_MALLOC_PREFIX = 8"

text \<open>
  The result is the block behind the eight-byte prefix, as its bytes. The sum
  \<open>size + OPENSSL_MALLOC_PREFIX\<close> is not guarded in the code, so it wraps. The store of the prefix
  itself, which then goes beyond the granted block, is not modelled; the block is empty.
\<close>

definition OPENSSL_malloc :: "alloc \<Rightarrow> nat \<Rightarrow> byte list option" where
  "OPENSSL_malloc env sz =
     (let total = size_add sz OPENSSL_MALLOC_PREFIX
      in if malloc_ok env total
         then Some (map (fresh env) [0..<total - OPENSSL_MALLOC_PREFIX]) else None)"

text \<open>A null pointer is \<open>None\<close>; the old size is the one the prefix of the block records.\<close>

definition OPENSSL_realloc :: "alloc \<Rightarrow> byte list option \<Rightarrow> nat \<Rightarrow> byte list option" where
  "OPENSSL_realloc env orig_ptr new_size =
     (case orig_ptr of
        None \<Rightarrow> OPENSSL_malloc env new_size
      | Some old \<Rightarrow>
          (case OPENSSL_malloc env new_size of
             None \<Rightarrow> None
           | Some ret \<Rightarrow>
               (let to_copy = (if length old < new_size then length old else new_size)
                in Some (take to_copy old @ drop to_copy ret))))"

definition CRYPTO_memcmp :: "byte list \<Rightarrow> byte list \<Rightarrow> nat \<Rightarrow> byte" where
  "CRYPTO_memcmp a b n = foldl (\<lambda>x i. x OR (a ! i XOR b ! i)) 0 [0..<n]"

definition OPENSSL_hash32 :: "byte list \<Rightarrow> nat \<Rightarrow> u32" where
  "OPENSSL_hash32 p n = foldl (\<lambda>h i. (h XOR ucast (p ! i)) * 16777619) 2166136261 [0..<n]"

function strnlen_from :: "byte list \<Rightarrow> nat \<Rightarrow> nat \<Rightarrow> nat" where
  "strnlen_from s i n =
     (if i < n then (if s ! i = 0 then i else strnlen_from s (Suc i) n) else n)"
  by pat_completeness auto
termination
  by (relation "measure (\<lambda>(s, i, n). n - i)") auto

declare strnlen_from.simps [simp del]

definition OPENSSL_strnlen :: "byte list \<Rightarrow> nat \<Rightarrow> nat" where
  "OPENSSL_strnlen s n = strnlen_from s 0 n"

definition OPENSSL_strndup :: "alloc \<Rightarrow> byte list \<Rightarrow> nat \<Rightarrow> byte list option" where
  "OPENSSL_strndup env str sz =
     (let sz = OPENSSL_strnlen str sz;
          alloc_size = size_add sz 1
      in if alloc_size < sz then None
         else (case OPENSSL_malloc env alloc_size of
                 None \<Rightarrow> None
               | Some ret \<Rightarrow> Some ((take sz str @ drop sz ret)[sz := 0])))"

definition OPENSSL_memdup :: "alloc \<Rightarrow> byte list \<Rightarrow> nat \<Rightarrow> byte list option" where
  "OPENSSL_memdup env d n =
     (if n = 0 then None
      else (case OPENSSL_malloc env n of
              None \<Rightarrow> None
            | Some ret \<Rightarrow> Some (take n d @ drop n ret)))"

section \<open>Allocation\<close>

lemma OPENSSL_malloc_length:
  assumes "OPENSSL_malloc env n = Some p" and "n + 8 < size_mod"
  shows "length p = n"
  using assms by (auto simp: OPENSSL_malloc_def OPENSSL_MALLOC_PREFIX_def Let_def split: if_splits)

lemma OPENSSL_malloc_bound:
  assumes "OPENSSL_malloc env n = Some p" and "malloc_bounded env" and "n + 8 < size_mod"
  shows "n + 8 < 2 ^ 63"
  using assms
  by (auto simp: OPENSSL_malloc_def malloc_bounded_def OPENSSL_MALLOC_PREFIX_def Let_def
      split: if_splits)

lemma OPENSSL_malloc_grants:
  assumes "malloc_ok env (n + 8)" and "n + 8 < size_mod"
  shows "\<exists>p. OPENSSL_malloc env n = Some p \<and> length p = n"
  using assms by (auto simp: OPENSSL_malloc_def OPENSSL_MALLOC_PREFIX_def)

text \<open>A grown block keeps the old bytes and has the new size.\<close>

lemma OPENSSL_realloc_grow:
  assumes "OPENSSL_realloc env (Some old) n = Some p"
    and "length old \<le> n" and "n + 8 < size_mod"
  shows "length p = n \<and> take (length old) p = old"
proof -
  from assms(1) obtain ret where "OPENSSL_malloc env n = Some ret"
    and "p = take (min (length old) n) old @ drop (min (length old) n) ret"
    by (auto simp: OPENSSL_realloc_def Let_def min_def split: option.splits if_splits)
  then show ?thesis
    using assms(2,3) OPENSSL_malloc_length by fastforce
qed

lemma OPENSSL_realloc_bound:
  assumes "OPENSSL_realloc env old n = Some p" and "malloc_bounded env" and "n + 8 < size_mod"
  shows "n + 8 < 2 ^ 63"
  using assms OPENSSL_malloc_bound
  by (auto simp: OPENSSL_realloc_def Let_def split: option.splits)

lemma OPENSSL_realloc_grants:
  assumes "malloc_ok env (n + 8)" and "n + 8 < size_mod"
  shows "\<exists>p. OPENSSL_realloc env old n = Some p"
  using OPENSSL_malloc_grants [OF assms]
  by (auto simp: OPENSSL_realloc_def Let_def split: option.splits)

section \<open>Comparison, length, copies\<close>

lemma or_eq_0_byte: "(a OR b = (0 :: byte)) \<longleftrightarrow> a = 0 \<and> b = 0"
  by (auto simp: bit_eq_iff bit_simps)

lemma xor_eq_0_byte: "(a XOR b = (0 :: byte)) \<longleftrightarrow> a = b"
  by (auto simp: bit_eq_iff bit_simps)

lemma memcmp_loop_zero:
  "foldl (\<lambda>x i. x OR (a ! i XOR b ! i)) x [0..<n] = (0 :: byte) \<longleftrightarrow>
     x = 0 \<and> (\<forall>i < n. a ! i = b ! i)"
  by (induction n) (auto simp: or_eq_0_byte xor_eq_0_byte less_Suc_eq)

text \<open>The constant-time comparison returns zero exactly for equal contents.\<close>

lemma CRYPTO_memcmp_zero_iff:
  assumes "n \<le> length a" and "n \<le> length b"
  shows "CRYPTO_memcmp a b n = 0 \<longleftrightarrow> take n a = take n b"
  using assms by (auto simp: CRYPTO_memcmp_def memcmp_loop_zero list_eq_iff_nth_eq)

lemma strnlen_from_bounds: "i \<le> n \<Longrightarrow> i \<le> strnlen_from s i n \<and> strnlen_from s i n \<le> n"
  by (induction s i n rule: strnlen_from.induct) (subst (1 2) strnlen_from.simps, auto)

lemma strnlen_from_eq:
  assumes "i \<le> n" and "n \<le> length s"
  shows "strnlen_from s i n = i + length (takeWhile (\<lambda>b. b \<noteq> 0) (drop i (take n s)))"
  using assms
proof (induction s i n rule: strnlen_from.induct)
  case (1 s i n)
  show ?case
  proof (cases "i < n")
    case True
    then have "drop i (take n s) = s ! i # drop (Suc i) (take n s)"
      using "1.prems" by (simp add: Cons_nth_drop_Suc [symmetric])
    then show ?thesis
      using 1 True by (subst strnlen_from.simps) auto
  next
    case False
    then show ?thesis using 1 by (subst strnlen_from.simps) auto
  qed
qed

text \<open>\<open>OPENSSL_strnlen\<close> is the length of the text before the first zero byte.\<close>

lemma OPENSSL_strnlen_eq:
  "n \<le> length s \<Longrightarrow> OPENSSL_strnlen s n = length (takeWhile (\<lambda>b. b \<noteq> 0) (take n s))"
  by (simp add: OPENSSL_strnlen_def strnlen_from_eq)

lemma OPENSSL_memdup_eq:
  assumes "OPENSSL_memdup env d n = Some p" and "n + 8 < size_mod" and "n \<le> length d"
  shows "p = take n d"
  using assms OPENSSL_malloc_length [of env n]
  by (auto simp: OPENSSL_memdup_def split: if_splits option.splits)

end
