(* ===== verification/Cbs.thy ===== *)
theory Cbs
  imports Mem
begin

text \<open>
  \<open>crypto/bytestring/cbs.c\<close>: the parser over a window of bytes. A \<open>CBS\<close> is
  modelled with its two fields: \<open>cbs_data\<close> is what the pointer \<open>data\<close> points at
  (every byte from there to the end of the object it points into) and \<open>cbs_len\<close> is
  the number of those bytes that belong to the window. Advancing the pointer drops
  bytes from the front. Functions that take a \<open>CBS *\<close> and return zero or one are
  actions on it.
\<close>

section \<open>The window\<close>

record cbs =
  cbs_data :: "byte list"
  cbs_len :: nat

definition CBS_init :: "byte list \<Rightarrow> nat \<Rightarrow> cbs" where
  "CBS_init d n = \<lparr>cbs_data = d, cbs_len = n\<rparr>"

definition cbs_get :: "nat \<Rightarrow> (cbs, byte list) action" where
  "cbs_get n cbs =
     (if cbs_len cbs < n then (None, cbs)
      else (Some (cbs_data cbs),
            \<lparr>cbs_data = drop n (cbs_data cbs), cbs_len = cbs_len cbs - n\<rparr>))"

definition CBS_skip :: "nat \<Rightarrow> (cbs, unit) action" where
  "CBS_skip n = act_bind (cbs_get n) (\<lambda>dummy. act_ret ())"

definition CBS_data :: "cbs \<Rightarrow> byte list" where
  "CBS_data cbs = cbs_data cbs"

definition CBS_len :: "cbs \<Rightarrow> nat" where
  "CBS_len cbs = cbs_len cbs"

text \<open>
  \<open>CBS_stow\<close> and \<open>CBS_strdup\<close> copy the window into fresh memory; the first
  component is the return value, the second the stored pointer (\<open>None\<close> for
  \<open>NULL\<close>), the third of \<open>CBS_stow\<close> the stored length.
\<close>

definition CBS_stow :: "alloc \<Rightarrow> cbs \<Rightarrow> bool \<times> byte list option \<times> nat" where
  "CBS_stow env cbs =
     (if cbs_len cbs = 0 then (True, None, 0)
      else (case OPENSSL_memdup env (cbs_data cbs) (cbs_len cbs) of
              None \<Rightarrow> (False, None, 0)
            | Some p \<Rightarrow> (True, Some p, cbs_len cbs)))"

definition CBS_strdup :: "alloc \<Rightarrow> cbs \<Rightarrow> bool \<times> byte list option" where
  "CBS_strdup env cbs =
     (let p = OPENSSL_strndup env (cbs_data cbs) (cbs_len cbs) in (p \<noteq> None, p))"

definition CBS_contains_zero_byte :: "cbs \<Rightarrow> bool" where
  "CBS_contains_zero_byte cbs = (0 \<in> set (take (cbs_len cbs) (cbs_data cbs)))"

definition CBS_mem_equal :: "cbs \<Rightarrow> byte list \<Rightarrow> nat \<Rightarrow> bool" where
  "CBS_mem_equal cbs d n =
     (if n \<noteq> cbs_len cbs then False else CRYPTO_memcmp (cbs_data cbs) d n = 0)"

section \<open>Integers\<close>

definition CRYPTO_bswap2 :: "u16 \<Rightarrow> u16" where
  "CRYPTO_bswap2 x = drop_bit 8 x OR push_bit 8 x"

definition CRYPTO_bswap4 :: "u32 \<Rightarrow> u32" where
  "CRYPTO_bswap4 x =
     (let x = drop_bit 16 x OR push_bit 16 x
      in drop_bit 8 (x AND 0xff00ff00) OR push_bit 8 (x AND 0x00ff00ff))"

definition CRYPTO_bswap8 :: "u64 \<Rightarrow> u64" where
  "CRYPTO_bswap8 x =
     ucast (CRYPTO_bswap4 (ucast (drop_bit 32 x))) OR
     push_bit 32 (ucast (CRYPTO_bswap4 (ucast x)))"

definition cbs_get_u :: "nat \<Rightarrow> (cbs, u64) action" where
  "cbs_get_u n =
     act_bind (cbs_get n) (\<lambda>d.
     act_ret (foldl (\<lambda>result i. push_bit 8 result OR ucast (d ! i)) 0 [0..<n]))"

definition CBS_get_u8 :: "(cbs, byte) action" where
  "CBS_get_u8 = act_bind (cbs_get 1) (\<lambda>v. act_ret (v ! 0))"

definition CBS_get_u16 :: "(cbs, u16) action" where
  "CBS_get_u16 = act_bind (cbs_get_u 2) (\<lambda>v. act_ret (ucast v))"

definition CBS_get_u16le :: "(cbs, u16) action" where
  "CBS_get_u16le = act_bind CBS_get_u16 (\<lambda>v. act_ret (CRYPTO_bswap2 v))"

definition CBS_get_u24 :: "(cbs, u32) action" where
  "CBS_get_u24 = act_bind (cbs_get_u 3) (\<lambda>v. act_ret (ucast v))"

definition CBS_get_u32 :: "(cbs, u32) action" where
  "CBS_get_u32 = act_bind (cbs_get_u 4) (\<lambda>v. act_ret (ucast v))"

definition CBS_get_u32le :: "(cbs, u32) action" where
  "CBS_get_u32le = act_bind CBS_get_u32 (\<lambda>v. act_ret (CRYPTO_bswap4 v))"

definition CBS_get_u64 :: "(cbs, u64) action" where
  "CBS_get_u64 = cbs_get_u 8"

definition CBS_get_u64le :: "(cbs, u64) action" where
  "CBS_get_u64le = act_bind (cbs_get_u 8) (\<lambda>v. act_ret (CRYPTO_bswap8 v))"

definition CBS_get_last_u8 :: "(cbs, byte) action" where
  "CBS_get_last_u8 cbs =
     (if cbs_len cbs = 0 then (None, cbs)
      else (Some (cbs_data cbs ! (cbs_len cbs - 1)), cbs\<lparr>cbs_len := cbs_len cbs - 1\<rparr>))"

definition CBS_get_bytes :: "nat \<Rightarrow> (cbs, cbs) action" where
  "CBS_get_bytes n = act_bind (cbs_get n) (\<lambda>v. act_ret (CBS_init v n))"

definition CBS_copy_bytes :: "nat \<Rightarrow> (cbs, byte list) action" where
  "CBS_copy_bytes n = act_bind (cbs_get n) (\<lambda>v. act_ret (take n v))"

definition cbs_get_length_prefixed :: "nat \<Rightarrow> (cbs, cbs) action" where
  "cbs_get_length_prefixed len_len =
     act_bind (cbs_get_u len_len) (\<lambda>n. CBS_get_bytes (unat n))"

definition CBS_get_u8_length_prefixed :: "(cbs, cbs) action" where
  "CBS_get_u8_length_prefixed = cbs_get_length_prefixed 1"

definition CBS_get_u16_length_prefixed :: "(cbs, cbs) action" where
  "CBS_get_u16_length_prefixed = cbs_get_length_prefixed 2"

definition CBS_get_u24_length_prefixed :: "(cbs, cbs) action" where
  "CBS_get_u24_length_prefixed = cbs_get_length_prefixed 3"

section \<open>What a window holds\<close>

definition wf_cbs :: "cbs \<Rightarrow> bool" where
  "wf_cbs c \<longleftrightarrow> cbs_len c \<le> length (cbs_data c) \<and> length (cbs_data c) < 2 ^ 63"

definition cbs_view :: "cbs \<Rightarrow> byte list" where
  "cbs_view c = take (cbs_len c) (cbs_data c)"

definition cbs_of :: "byte list \<Rightarrow> cbs" where
  "cbs_of bs = CBS_init bs (length bs)"

lemma length_cbs_view [simp]: "wf_cbs c \<Longrightarrow> length (cbs_view c) = cbs_len c"
  by (simp add: wf_cbs_def cbs_view_def)

lemma cbs_view_of [simp]: "cbs_view (cbs_of bs) = bs"
  by (simp add: cbs_view_def cbs_of_def CBS_init_def)

lemma cbs_len_of [simp]: "cbs_len (cbs_of bs) = length bs"
  by (simp add: cbs_of_def CBS_init_def)

lemma wf_cbs_of [simp]: "length bs < 2 ^ 63 \<Longrightarrow> wf_cbs (cbs_of bs)"
  by (simp add: wf_cbs_def cbs_of_def CBS_init_def)

text \<open>
  The contract of every parsing function: whatever it returns, it leaves a window that is
  the old one without a prefix. \<open>cbs_after n c\<close> is the window \<open>c\<close> advanced by
  \<open>n\<close> bytes.
\<close>

definition cbs_after :: "nat \<Rightarrow> cbs \<Rightarrow> cbs" where
  "cbs_after n c = \<lparr>cbs_data = drop n (cbs_data c), cbs_len = cbs_len c - n\<rparr>"

definition cbs_tail :: "cbs \<Rightarrow> cbs \<Rightarrow> bool" where
  "cbs_tail c c' \<longleftrightarrow> (\<exists>n \<le> cbs_len c. c' = cbs_after n c)"

lemma cbs_after_0 [simp]: "cbs_after 0 c = c"
  by (simp add: cbs_after_def)

lemma cbs_after_after [simp]: "cbs_after m (cbs_after n c) = cbs_after (n + m) c"
  by (simp add: cbs_after_def add.commute)

lemma cbs_len_after [simp]: "cbs_len (cbs_after n c) = cbs_len c - n"
  by (simp add: cbs_after_def)

lemma cbs_data_after [simp]: "cbs_data (cbs_after n c) = drop n (cbs_data c)"
  by (simp add: cbs_after_def)

lemma cbs_view_after [simp]: "cbs_view (cbs_after n c) = drop n (cbs_view c)"
  by (simp add: cbs_after_def cbs_view_def drop_take)

lemma wf_cbs_after [simp]: "wf_cbs c \<Longrightarrow> wf_cbs (cbs_after n c)"
  by (auto simp: wf_cbs_def cbs_after_def)

lemma cbs_tail_refl [simp, intro]: "cbs_tail c c"
  unfolding cbs_tail_def by (rule exI [of _ 0]) simp

lemma cbs_tail_after [intro]: "n \<le> cbs_len c \<Longrightarrow> cbs_tail c (cbs_after n c)"
  by (auto simp: cbs_tail_def)

lemma cbs_tail_trans [trans]: "cbs_tail a b \<Longrightarrow> cbs_tail b c \<Longrightarrow> cbs_tail a c"
proof -
  assume "cbs_tail a b" and "cbs_tail b c"
  then obtain m n where "m \<le> cbs_len a" and "b = cbs_after m a"
    and "n \<le> cbs_len b" and "c = cbs_after n b"
    by (auto simp: cbs_tail_def)
  then show ?thesis
    by (auto simp: cbs_tail_def intro!: exI [of _ "m + n"])
qed

lemma cbs_tail_wf: "cbs_tail c c' \<Longrightarrow> wf_cbs c \<Longrightarrow> wf_cbs c'"
  by (auto simp: cbs_tail_def)

lemma cbs_tail_len: "cbs_tail c c' \<Longrightarrow> cbs_len c' \<le> cbs_len c"
  by (auto simp: cbs_tail_def)

lemma cbs_get_eq: "cbs_get n c = (if n \<le> cbs_len c then (Some (cbs_data c), cbs_after n c) else (None, c))"
  by (auto simp: cbs_get_def cbs_after_def)


section \<open>Readers\<close>

text \<open>
  The interface the parsers above this theory rely on: a reader never moves the window
  outside itself, and a strict reader makes progress whenever it succeeds. The loops
  \<open>while (CBS_len(&cbs) != 0) \<dots>\<close> of the code need exactly the second fact to
  end.
\<close>

locale cbs_reader =
  fixes get :: "(cbs, 'a) action"
  assumes tail: "cbs_tail c (snd (get c))"
begin

lemma get_tail: "get c = (r, c') \<Longrightarrow> cbs_tail c c'"
  using tail [of c] by simp

lemma get_wf: "get c = (r, c') \<Longrightarrow> wf_cbs c \<Longrightarrow> wf_cbs c'"
  using get_tail cbs_tail_wf by blast

lemma get_len: "get c = (r, c') \<Longrightarrow> cbs_len c' \<le> cbs_len c"
  using get_tail cbs_tail_len by blast

lemma get_split: "get c = (r, c') \<Longrightarrow> \<exists>used. cbs_view c = used @ cbs_view c'"
  using get_tail [of c r c'] unfolding cbs_tail_def
  by (metis append_take_drop_id cbs_view_after)

end

locale strict_reader = cbs_reader +
  assumes strict: "wf_cbs c \<Longrightarrow> get c = (Some a, c') \<Longrightarrow> cbs_len c' < cbs_len c"

lemma cbs_reader_bind:
  assumes "cbs_reader m" and "\<And>a. cbs_reader (f a)"
  shows "cbs_reader (act_bind m f)"
proof
  fix c
  obtain r t where m: "m c = (r, t)" by fastforce
  then have tail: "cbs_tail c t"
    using assms(1) by (simp add: cbs_reader.get_tail)
  show "cbs_tail c (snd (act_bind m f c))"
  proof (cases r)
    case None
    then show ?thesis using m tail by simp
  next
    case (Some a)
    have "cbs_tail t (snd (f a t))"
      using assms(2) by (simp add: cbs_reader.tail)
    then show ?thesis
      using m Some tail by (auto intro: cbs_tail_trans)
  qed
qed

lemma strict_reader_reader: "strict_reader m \<Longrightarrow> cbs_reader m"
  by (simp add: strict_reader_def)

lemma strict_reader_bind:
  assumes "strict_reader m" and "\<And>a. cbs_reader (f a)"
  shows "strict_reader (act_bind m f)"
proof (intro strict_reader.intro strict_reader_axioms.intro)
  show "cbs_reader (act_bind m f)"
    using strict_reader_reader [OF assms(1)] assms(2) by (rule cbs_reader_bind)
next
  fix c b c'
  assume wf: "wf_cbs c" and "act_bind m f c = (Some b, c')"
  from this(2) obtain a t where m: "m c = (Some a, t)" and f: "f a t = (Some b, c')"
    by (rule act_bind_SomeE)
  have "cbs_len t < cbs_len c"
    using assms(1) wf m by (rule strict_reader.strict)
  moreover have "cbs_len c' \<le> cbs_len t"
    using assms(2) f by (rule cbs_reader.get_len)
  ultimately show "cbs_len c' < cbs_len c" by simp
qed

lemma cbs_reader_ret [intro]: "cbs_reader (act_ret a)"
  by (auto simp: cbs_reader_def act_simps)

lemma cbs_reader_check [intro]: "cbs_reader (act_check p)"
  by (auto simp: cbs_reader_def act_simps)

lemma cbs_reader_get: "cbs_reader (cbs_get n)"
  by (auto simp: cbs_reader_def cbs_get_eq)

lemma strict_reader_get: "0 < n \<Longrightarrow> strict_reader (cbs_get n)"
  by (auto simp: strict_reader_def strict_reader_axioms_def cbs_reader_get cbs_get_eq split: if_splits)

lemma strict_reader_get_u: "0 < n \<Longrightarrow> strict_reader (cbs_get_u n)"
  unfolding cbs_get_u_def by (intro strict_reader_bind strict_reader_get) auto

lemma CBS_get_u8_decreases: "CBS_get_u8 c = (Some b, c') \<Longrightarrow> cbs_len c' < cbs_len c"
  by (auto simp: CBS_get_u8_def cbs_get_eq act_bind_eq_Some split: if_splits)

interpretation u8: strict_reader CBS_get_u8
  unfolding CBS_get_u8_def by (intro strict_reader_bind strict_reader_get) auto

interpretation u16: strict_reader CBS_get_u16
  unfolding CBS_get_u16_def by (intro strict_reader_bind strict_reader_get_u) auto

interpretation u32: strict_reader CBS_get_u32
  unfolding CBS_get_u32_def by (intro strict_reader_bind strict_reader_get_u) auto

lemma cbs_reader_bytes: "cbs_reader (CBS_get_bytes n)"
  unfolding CBS_get_bytes_def by (intro cbs_reader_bind cbs_reader_get) auto

lemma strict_reader_length_prefixed: "0 < n \<Longrightarrow> strict_reader (cbs_get_length_prefixed n)"
  unfolding cbs_get_length_prefixed_def
  by (intro strict_reader_bind strict_reader_get_u cbs_reader_bytes)

interpretation u8_prefixed: strict_reader CBS_get_u8_length_prefixed
  unfolding CBS_get_u8_length_prefixed_def by (rule strict_reader_length_prefixed) simp

interpretation u16_prefixed: strict_reader CBS_get_u16_length_prefixed
  unfolding CBS_get_u16_length_prefixed_def by (rule strict_reader_length_prefixed) simp

interpretation u24_prefixed: strict_reader CBS_get_u24_length_prefixed
  unfolding CBS_get_u24_length_prefixed_def by (rule strict_reader_length_prefixed) simp

section \<open>Loops over a window\<close>

text \<open>
  The loop \<open>while (CBS_len(cbs) != 0) { if (!get(cbs, &x)) return 0; \<dots> }\<close>,
  collecting what each call returns. The fuel bounds the number of rounds; the length of the
  window is always enough for a strict reader.
\<close>

fun cbs_while_fuel :: "nat \<Rightarrow> (cbs, 'a) action \<Rightarrow> (cbs, 'a list) action" where
  "cbs_while_fuel fuel get c =
     (if cbs_len c = 0 then (Some [], c)
      else case fuel of
             0 \<Rightarrow> (None, c)
           | Suc n \<Rightarrow>
               act_bind get (\<lambda>x. act_bind (cbs_while_fuel n get) (\<lambda>xs. act_ret (x # xs))) c)"

declare cbs_while_fuel.simps [simp del]

definition cbs_while :: "(cbs, 'a) action \<Rightarrow> (cbs, 'a list) action" where
  "cbs_while get c = cbs_while_fuel (cbs_len c) get c"

lemma cbs_while_fuel_0: "cbs_len c = 0 \<Longrightarrow> cbs_while_fuel n get c = (Some [], c)"
  by (simp add: cbs_while_fuel.simps)

lemma cbs_while_fuel_Suc:
  assumes "cbs_len c \<noteq> 0"
  shows "cbs_while_fuel (Suc n) get c =
    act_bind get (\<lambda>x. act_bind (cbs_while_fuel n get) (\<lambda>xs. act_ret (x # xs))) c"
  using assms by (subst cbs_while_fuel.simps) simp

lemma act_bind_cong_state:
  assumes "\<And>a t. m s = (Some a, t) \<Longrightarrow> f a t = g a t"
  shows "act_bind m f s = act_bind m g s"
  using assms by (simp add: act_bind_def split: prod.split option.split)

lemma act_bind_cong_left:
  assumes "m s = m' s"
  shows "act_bind m f s = act_bind m' f s"
  using assms by (simp add: act_bind_def)

context strict_reader
begin

lemma while_fuel_enough:
  "wf_cbs c \<Longrightarrow> cbs_len c \<le> m \<Longrightarrow> cbs_while_fuel m get c = cbs_while_fuel (cbs_len c) get c"
proof (induction m arbitrary: c rule: less_induct)
  case (less m)
  show ?case
  proof (cases "cbs_len c = 0")
    case False
    then obtain k n where k: "cbs_len c = Suc k" and n: "m = Suc n" and "k \<le> n"
      using less.prems by (cases "cbs_len c"; cases m) auto
    have rest: "cbs_while_fuel n get c' = cbs_while_fuel k get c'"
      if "get c = (Some x, c')" for x c'
    proof -
      have "cbs_len c' \<le> k" using strict [OF less.prems(1) that] k by simp
      moreover have "wf_cbs c'" using that less.prems(1) by (rule get_wf)
      ultimately show ?thesis using less.IH [of n c'] less.IH [of k c'] less.prems k n \<open>k \<le> n\<close>
        by simp
    qed
    show ?thesis
      unfolding n k cbs_while_fuel_Suc [OF False]
      by (intro act_bind_cong_state act_bind_cong_left rest)
  qed (simp add: cbs_while_fuel_0)
qed

lemma while_empty: "cbs_len c = 0 \<Longrightarrow> cbs_while get c = (Some [], c)"
  by (simp add: cbs_while_def cbs_while_fuel_0)

lemma while_step:
  assumes "wf_cbs c" and "cbs_len c \<noteq> 0"
  shows "cbs_while get c =
     act_bind get (\<lambda>x. act_bind (cbs_while get) (\<lambda>xs. act_ret (x # xs))) c"
proof -
  obtain k where k: "cbs_len c = Suc k" using assms(2) by (cases "cbs_len c") auto
  have rest: "cbs_while_fuel k get c' = cbs_while get c'" if "get c = (Some x, c')" for x c'
    unfolding cbs_while_def using strict [OF assms(1) that] get_wf [OF that assms(1)] k
    by (intro while_fuel_enough) simp_all
  show ?thesis
    unfolding cbs_while_def [of get c] k cbs_while_fuel_Suc [OF assms(2)]
    by (intro act_bind_cong_state act_bind_cong_left rest)
qed

text \<open>The loop ends with an empty window or with the failure of one of its calls.\<close>

lemma while_tail: "wf_cbs c \<Longrightarrow> cbs_tail c (snd (cbs_while get c))"
proof (induction "cbs_len c" arbitrary: c rule: less_induct)
  case less
  show ?case
  proof (cases "cbs_len c = 0")
    case False
    obtain r t where t: "get c = (r, t)" by fastforce
    then have tail: "cbs_tail c t" by (rule get_tail)
    show ?thesis
    proof (cases r)
      case (Some x)
      then have "cbs_tail t (snd (cbs_while get t))"
        using less t strict get_wf by blast
      then show ?thesis
        using False t Some tail less.prems
        by (cases "cbs_while get t")
           (auto simp: while_step act_bind_def act_simps split: option.splits intro: cbs_tail_trans)
    qed (use False t tail less.prems in \<open>simp add: while_step\<close>)
  qed (simp add: while_empty)
qed

lemma while_reads_all: "wf_cbs c \<Longrightarrow> cbs_while get c = (Some xs, c') \<Longrightarrow> cbs_len c' = 0"
proof (induction "cbs_len c" arbitrary: c xs c' rule: less_induct)
  case less
  show ?case
  proof (cases "cbs_len c = 0")
    case False
    then obtain x t ys where "get c = (Some x, t)" and "cbs_while get t = (Some ys, c')"
      using less.prems
      by (auto simp: while_step act_bind_eq_Some)
    then show ?thesis using less.hyps less.prems(1) strict get_wf by blast
  qed (use less.prems in \<open>simp add: while_empty\<close>)
qed

end

section \<open>What the integer readers compute\<close>

lemma foldl_push8:
  assumes "length d \<le> 8"
  shows "unat (foldl (\<lambda>r b. push_bit 8 r OR ucast b) (0 :: u64) (d :: byte list)) = be_val d"
  using assms
proof (induction d rule: rev_induct)
  case (snoc b d)
  have "be_val d < 256 ^ length d" by (rule be_val_less)
  also have "(256 :: nat) ^ length d \<le> 256 ^ 7"
    using snoc.prems by (intro power_increasing) auto
  finally have "be_val d < 2 ^ 56" by simp
  then show ?case
    using snoc by (simp add: unat_push8_or be_val_append)
qed simp

lemma map_nth_take: "n \<le> length d \<Longrightarrow> map ((!) d) [0..<n] = take n d"
  by (rule nth_equalityI) auto

lemma foldl_nth:
  "n \<le> length d \<Longrightarrow> foldl (\<lambda>r i. f r (d ! i)) a [0..<n] = foldl f a (take n d)"
  by (simp flip: map_nth_take add: foldl_map)

text \<open>\<open>cbs_get_u\<close> reads a big-endian number of at most eight bytes.\<close>

lemma cbs_get_u_eq:
  assumes "wf_cbs c" and "n \<le> 8"
  shows "cbs_get_u n c =
    (if n \<le> cbs_len c then (Some (of_nat (be_val (take n (cbs_view c)))), cbs_after n c)
     else (None, c))"
proof (cases "n \<le> cbs_len c")
  case True
  then have n: "n \<le> length (cbs_data c)" and take: "take n (cbs_data c) = take n (cbs_view c)"
    using assms by (auto simp: wf_cbs_def cbs_view_def min_def)
  have "foldl (\<lambda>r i. push_bit 8 r OR ucast (cbs_data c ! i)) (0 :: u64) [0..<n] =
      of_nat (be_val (take n (cbs_view c)))"
    unfolding foldl_nth [OF n, of "\<lambda>r b. push_bit 8 r OR ucast b"] take using assms(2)
    by (subst foldl_push8 [symmetric]) simp_all
  then show ?thesis
    using True by (simp add: cbs_get_u_def act_bind_def cbs_get_eq act_simps)
qed (simp add: cbs_get_u_def cbs_get_eq)

lemma CBS_get_u8_eq:
  assumes "wf_cbs c"
  shows "CBS_get_u8 c =
    (case cbs_view c of [] \<Rightarrow> (None, c) | b # _ \<Rightarrow> (Some b, cbs_after 1 c))"
proof (cases "cbs_view c")
  case Nil
  then have "cbs_len c = 0" using assms length_cbs_view [of c] by simp
  then show ?thesis using Nil by (simp add: CBS_get_u8_def cbs_get_eq)
next
  case (Cons b bs)
  then have "cbs_len c = Suc (length bs)" using assms length_cbs_view [of c] by simp
  moreover from this have "cbs_data c ! 0 = b"
    using Cons assms by (simp add: cbs_view_def wf_cbs_def) (metis hd_conv_nth hd_take length_greater_0_conv list.sel(1) list.size(3) not_less_eq_eq zero_le zero_less_Suc)
  ultimately show ?thesis
    using Cons by (simp add: CBS_get_u8_def cbs_get_eq act_bind_def act_simps)
qed

lemma CBS_get_bytes_eq:
  "CBS_get_bytes n c =
     (if n \<le> cbs_len c then (Some (CBS_init (cbs_data c) n), cbs_after n c) else (None, c))"
  by (simp add: CBS_get_bytes_def cbs_get_eq act_bind_def act_simps)

lemma cbs_view_init: "n \<le> cbs_len c \<Longrightarrow> cbs_view (CBS_init (cbs_data c) n) = take n (cbs_view c)"
  by (simp add: cbs_view_def CBS_init_def min_absorb2)

lemma wf_cbs_init: "wf_cbs c \<Longrightarrow> n \<le> cbs_len c \<Longrightarrow> wf_cbs (CBS_init (cbs_data c) n)"
  by (auto simp: wf_cbs_def CBS_init_def)

end
