(* ===== verification/Cbs_Asn1.thy ===== *)
theory Cbs_Asn1
  imports Cbs
begin

text \<open>
  The ASN.1 half of \<open>crypto/bytestring/cbs.c\<close>: identifier and length octets,
  elements, optional elements, INTEGER, BOOLEAN and BIT STRING contents. The second part
  states DER as a printer (\<open>der_tag\<close>, \<open>der_length\<close>) and proves that the parser
  accepts exactly what the printer writes.
\<close>

section \<open>Tags\<close>

definition CBS_ASN1_TAG_SHIFT :: nat where
  "CBS_ASN1_TAG_SHIFT = 24"

definition CBS_ASN1_CONSTRUCTED :: u32 where
  "CBS_ASN1_CONSTRUCTED = push_bit CBS_ASN1_TAG_SHIFT 0x20"

definition CBS_ASN1_TAG_NUMBER_MASK :: u32 where
  "CBS_ASN1_TAG_NUMBER_MASK = push_bit (5 + CBS_ASN1_TAG_SHIFT) 1 - 1"

definition CBS_ASN1_BOOLEAN :: u32 where
  "CBS_ASN1_BOOLEAN = 0x1"

definition CBS_ASN1_INTEGER :: u32 where
  "CBS_ASN1_INTEGER = 0x2"

definition CBS_ASN1_OCTETSTRING :: u32 where
  "CBS_ASN1_OCTETSTRING = 0x4"

text \<open>
  The do-while loop of \<open>parse_base128_integer\<close>, with the value read so far as its
  argument: every round consumes a byte.
\<close>

function parse_base128_loop :: "u64 \<Rightarrow> (cbs, u64) action" where
  "parse_base128_loop v cbs =
     (case CBS_get_u8 cbs of
        (None, cbs) \<Rightarrow> (None, cbs)
      | (Some b, cbs) \<Rightarrow>
          if drop_bit (64 - 7) v \<noteq> 0 then (None, cbs)
          else if v = 0 \<and> b = 0x80 then (None, cbs)
          else (let v = push_bit 7 v OR ucast (b AND 0x7f)
                in if b AND 0x80 \<noteq> 0 then parse_base128_loop v cbs else (Some v, cbs)))"
  by pat_completeness auto
termination
  by (relation "measure (\<lambda>(v, cbs). cbs_len cbs)") (auto dest: sym [THEN CBS_get_u8_decreases])

declare parse_base128_loop.simps [simp del]

definition parse_base128_integer :: "(cbs, u64) action" where
  "parse_base128_integer = parse_base128_loop 0"

definition parse_asn1_tag :: "(cbs, u32) action" where
  "parse_asn1_tag =
     act_bind CBS_get_u8 (\<lambda>tag_byte.
       let tag = push_bit CBS_ASN1_TAG_SHIFT (ucast tag_byte AND 0xe0);
           tag_number = ucast (tag_byte AND 0x1f)
       in if tag_number = 0x1f then
            act_bind parse_base128_integer (\<lambda>v.
              if v > ucast CBS_ASN1_TAG_NUMBER_MASK \<or> v < 0x1f then act_fail
              else act_ret (tag OR ucast v))
          else act_ret (tag OR tag_number))"

section \<open>Elements\<close>

text \<open>
  The result is the triple \<open>(*out, *out_tag, *out_header_len)\<close>. The header is parsed
  from a copy of \<open>*cbs\<close>, so \<open>*cbs\<close> is unchanged when the call fails.
\<close>

definition cbs_get_any_asn1_element :: "bool \<Rightarrow> (cbs, cbs \<times> u32 \<times> nat) action" where
  "cbs_get_any_asn1_element ber_ok cbs =
     (case parse_asn1_tag cbs of
        (None, _) \<Rightarrow> (None, cbs)
      | (Some tag, header) \<Rightarrow>
     (case CBS_get_u8 header of
        (None, _) \<Rightarrow> (None, cbs)
      | (Some length_byte, header) \<Rightarrow>
          let header_len = CBS_len cbs - CBS_len header;
              finish = (\<lambda>n out_header_len.
                act_bind (CBS_get_bytes n) (\<lambda>out. act_ret (out, tag, out_header_len)) cbs)
          in if length_byte AND 0x80 = 0 then
               finish (size_add (unat length_byte) header_len) header_len
             else let num_bytes = unat (length_byte AND 0x7f)
             in if ber_ok \<and> tag AND CBS_ASN1_CONSTRUCTED \<noteq> 0 \<and> num_bytes = 0 then
                  finish header_len header_len
             else if num_bytes = 0 \<or> 4 < num_bytes then (None, cbs)
             else (case cbs_get_u num_bytes header of
                     (None, _) \<Rightarrow> (None, cbs)
                   | (Some len64, _) \<Rightarrow>
                       if len64 < 128 then (None, cbs)
                       else if drop_bit ((num_bytes - 1) * 8) len64 = 0 then (None, cbs)
                       else let len = unat len64
                       in if size_add (size_add len header_len) num_bytes < len then (None, cbs)
                          else finish (size_add len (size_add header_len num_bytes))
                                 (header_len + num_bytes))))"

definition CBS_get_any_asn1_element :: "(cbs, cbs \<times> u32 \<times> nat) action" where
  "CBS_get_any_asn1_element = cbs_get_any_asn1_element False"

definition CBS_get_any_ber_asn1_element :: "(cbs, cbs \<times> u32 \<times> nat) action" where
  "CBS_get_any_ber_asn1_element = cbs_get_any_asn1_element True"

text \<open>\<open>CBS_skip(out, header_len)\<close> acts on the local window \<open>out\<close>, not on \<open>*cbs\<close>.\<close>

definition skip_header :: "cbs \<Rightarrow> nat \<Rightarrow> (cbs, cbs) action" where
  "skip_header out header_len cbs =
     (case CBS_skip header_len out of
        (None, _) \<Rightarrow> (None, cbs)
      | (Some _, out) \<Rightarrow> (Some out, cbs))"

definition CBS_get_any_asn1 :: "(cbs, cbs \<times> u32) action" where
  "CBS_get_any_asn1 =
     act_bind CBS_get_any_asn1_element (\<lambda>(out, tag, header_len).
     act_bind (skip_header out header_len) (\<lambda>out. act_ret (out, tag)))"

definition cbs_get_asn1 :: "u32 \<Rightarrow> bool \<Rightarrow> (cbs, cbs) action" where
  "cbs_get_asn1 tag_value skip =
     act_bind CBS_get_any_asn1_element (\<lambda>(out, tag, header_len).
       if tag \<noteq> tag_value then act_fail
       else if skip then skip_header out header_len
       else act_ret out)"

definition CBS_get_asn1 :: "u32 \<Rightarrow> (cbs, cbs) action" where
  "CBS_get_asn1 tag_value = cbs_get_asn1 tag_value True"

definition CBS_get_asn1_element :: "u32 \<Rightarrow> (cbs, cbs) action" where
  "CBS_get_asn1_element tag_value = cbs_get_asn1 tag_value False"

definition CBS_peek_asn1_tag :: "cbs \<Rightarrow> u32 \<Rightarrow> bool" where
  "CBS_peek_asn1_tag cbs tag_value =
     (if CBS_len cbs < 1 then False
      else (case fst (parse_asn1_tag cbs) of
              None \<Rightarrow> False
            | Some actual_tag \<Rightarrow> tag_value = actual_tag))"

section \<open>INTEGER and BOOLEAN\<close>

text \<open>The accumulating loop over the contents octets: it stops before a shift would lose bits.\<close>

fun asn1_uint64_loop :: "byte list \<Rightarrow> u64 \<Rightarrow> u64 option" where
  "asn1_uint64_loop [] out = Some out"
| "asn1_uint64_loop (b # bs) out =
     (if drop_bit 56 out \<noteq> 0 then None
      else asn1_uint64_loop bs (push_bit 8 out OR ucast b))"

definition CBS_get_asn1_uint64 :: "(cbs, u64) action" where
  "CBS_get_asn1_uint64 =
     act_bind (CBS_get_asn1 CBS_ASN1_INTEGER) (\<lambda>bytes.
       let data = CBS_data bytes; len = CBS_len bytes
       in if len = 0 then act_fail
          else if data ! 0 AND 0x80 \<noteq> 0 then act_fail
          else if data ! 0 = 0 \<and> len > 1 \<and> data ! 1 AND 0x80 = 0 then act_fail
          else act_option (asn1_uint64_loop (take len data) 0))"

text \<open>
  The union of \<open>int64_t\<close> and its eight bytes, on a little-endian machine: the value is
  the 64-bit pattern, read as two's complement with \<open>sint\<close>.
\<close>

definition int64_of_bytes :: "byte list \<Rightarrow> u64" where
  "int64_of_bytes u = of_nat (be_val (rev u))"

definition CBS_get_asn1_int64 :: "(cbs, u64) action" where
  "CBS_get_asn1_int64 =
     act_bind (CBS_get_asn1 CBS_ASN1_INTEGER) (\<lambda>bytes.
       let data = CBS_data bytes; len = CBS_len bytes
       in if len = 0 \<or> len > 8 then act_fail
          else if len > 1 \<and> data ! 0 = 0 \<and> data ! 1 AND 0x80 = 0 then act_fail
          else if len > 1 \<and> data ! 0 = 0xff \<and> data ! 1 AND 0x80 \<noteq> 0 then act_fail
          else let is_negative = (data ! 0 AND 0x80 \<noteq> 0);
                   u = replicate 8 (if is_negative then 0xff else 0);
                   u = foldl (\<lambda>u i. u[i := data ! (len - i - 1)]) u [0..<len]
               in act_ret (int64_of_bytes u))"

definition CBS_get_asn1_bool :: "(cbs, bool) action" where
  "CBS_get_asn1_bool =
     act_bind (CBS_get_asn1 CBS_ASN1_BOOLEAN) (\<lambda>bytes.
       if CBS_len bytes \<noteq> 1 then act_fail
       else let v = CBS_data bytes ! 0
            in if v \<noteq> 0 \<and> v \<noteq> 0xff then act_fail else act_ret (v \<noteq> 0))"

section \<open>Optional elements\<close>

text \<open>An absent element is \<open>None\<close>, which stands for \<open>*out_present = 0\<close>.\<close>

definition CBS_get_optional_asn1 :: "u32 \<Rightarrow> (cbs, cbs option) action" where
  "CBS_get_optional_asn1 tag cbs =
     (if CBS_peek_asn1_tag cbs tag
      then act_bind (CBS_get_asn1 tag) (\<lambda>out. act_ret (Some out)) cbs
      else (Some None, cbs))"

text \<open>
  The explicitly tagged variants parse one inner element and require the outer contents to
  be used up.
\<close>

definition whole :: "(cbs, 'a) action \<Rightarrow> cbs \<Rightarrow> 'a option" where
  "whole get child =
     (case get child of
        (None, _) \<Rightarrow> None
      | (Some out, child) \<Rightarrow> if CBS_len child \<noteq> 0 then None else Some out)"

definition CBS_get_optional_asn1_octet_string :: "u32 \<Rightarrow> (cbs, cbs \<times> bool) action" where
  "CBS_get_optional_asn1_octet_string tag =
     act_bind (CBS_get_optional_asn1 tag) (\<lambda>child.
       case child of
         None \<Rightarrow> act_ret (CBS_init [] 0, False)
       | Some child \<Rightarrow>
           act_option (map_option (\<lambda>out. (out, True))
             (whole (CBS_get_asn1 CBS_ASN1_OCTETSTRING) child)))"

definition CBS_get_optional_asn1_uint64 :: "u32 \<Rightarrow> u64 \<Rightarrow> (cbs, u64) action" where
  "CBS_get_optional_asn1_uint64 tag default_value =
     act_bind (CBS_get_optional_asn1 tag) (\<lambda>child.
       case child of
         None \<Rightarrow> act_ret default_value
       | Some child \<Rightarrow> act_option (whole CBS_get_asn1_uint64 child))"

definition CBS_get_optional_asn1_bool :: "u32 \<Rightarrow> bool \<Rightarrow> (cbs, bool) action" where
  "CBS_get_optional_asn1_bool tag default_value =
     act_bind (CBS_get_optional_asn1 tag) (\<lambda>child.
       case child of
         None \<Rightarrow> act_ret default_value
       | Some child \<Rightarrow>
          (case CBS_get_asn1 CBS_ASN1_BOOLEAN child of
             (None, _) \<Rightarrow> act_fail
           | (Some child2, child) \<Rightarrow>
               if CBS_len child2 \<noteq> 1 \<or> CBS_len child \<noteq> 0 then act_fail
               else let b = CBS_data child2 ! 0
                    in if b = 0 then act_ret False
                       else if b = 0xff then act_ret True else act_fail))"

section \<open>BIT STRING contents\<close>

definition CBS_is_valid_asn1_bitstring :: "cbs \<Rightarrow> bool" where
  "CBS_is_valid_asn1_bitstring cbs =
     (case CBS_get_u8 cbs of
        (None, _) \<Rightarrow> False
      | (Some num_unused_bits, rest) \<Rightarrow>
          if num_unused_bits > 7 then False
          else if num_unused_bits = 0 then True
          else (case CBS_get_last_u8 rest of
                  (None, _) \<Rightarrow> False
                | (Some b, _) \<Rightarrow> b AND (push_bit (unat num_unused_bits) 1 - 1) = 0))"

definition CBS_asn1_bitstring_has_bit :: "cbs \<Rightarrow> u32 \<Rightarrow> bool" where
  "CBS_asn1_bitstring_has_bit cbs n =
     (if \<not> CBS_is_valid_asn1_bitstring cbs then False
      else let byte_num = unat (drop_bit 3 n + 1);
               bit_num = unat (7 - (n AND 7))
           in byte_num < CBS_len cbs \<and>
              (CBS_data cbs ! byte_num) AND push_bit bit_num 1 \<noteq> 0)"

end
