(* ===== verification/Cbb.thy ===== *)
theory Cbb
  imports Cbs_Asn1
begin

text \<open>
  \<open>crypto/bytestring/cbb.c\<close>: the builder. A root \<open>CBB\<close> owns a growing buffer; each
  \<open>CBB\<close> has at most one open child, which writes to the same buffer behind a length
  prefix that is filled in when the child is closed. The chain root, child, grandchild,
  \dots is the list \<open>cbb_kids\<close>, outermost first. An operation takes the depth \<open>d\<close> of
  the \<open>CBB\<close> it is called on (zero for the root); a depth below every open child is a
  handle whose \<open>base\<close> the code has already set to \<open>NULL\<close>. The assertions of the code
  are not part of the model: the invariant of \<open>Cbb_Spec\<close> implies them.
\<close>

section \<open>State\<close>

text \<open>\<open>struct cbb_buffer_st\<close>; the bytes of \<open>bb_buf\<close> are the block the pointer names, and
  \<open>NULL\<close> is the empty block.\<close>

record cbb_buffer =
  bb_buf :: "byte list"
  bb_len :: nat
  bb_cap :: nat
  bb_can_resize :: bool
  bb_error :: bool

record cbb_child =
  k_offset :: nat
  k_pending_len_len :: nat
  k_pending_is_asn1 :: bool

record cbb =
  cbb_base :: "cbb_buffer option"
  cbb_kids :: "cbb_child list"

definition CBB_zero :: cbb where
  "CBB_zero = \<lparr>cbb_base = None, cbb_kids = []\<rparr>"

definition sizeof_cbb_buffer :: nat where
  "sizeof_cbb_buffer = 32"

definition cbb_init :: "alloc \<Rightarrow> byte list \<Rightarrow> nat \<Rightarrow> (cbb, unit) action" where
  "cbb_init env buf cap cbb =
     (case OPENSSL_malloc env sizeof_cbb_buffer of
        None \<Rightarrow> (None, cbb)
      | Some _ \<Rightarrow>
          (Some (), \<lparr>cbb_base = Some \<lparr>bb_buf = buf, bb_len = 0, bb_cap = cap,
                       bb_can_resize = True, bb_error = False\<rparr>, cbb_kids = []\<rparr>))"

definition CBB_init :: "alloc \<Rightarrow> nat \<Rightarrow> unit option \<times> cbb" where
  "CBB_init env initial_capacity =
     (let buf = OPENSSL_malloc env initial_capacity
      in if initial_capacity > 0 \<and> buf = None then (None, CBB_zero)
         else cbb_init env (case buf of None \<Rightarrow> [] | Some p \<Rightarrow> p) initial_capacity CBB_zero)"

definition CBB_init_fixed :: "alloc \<Rightarrow> byte list \<Rightarrow> nat \<Rightarrow> unit option \<times> cbb" where
  "CBB_init_fixed env buf n =
     (case cbb_init env buf n CBB_zero of
        (None, cbb) \<Rightarrow> (None, cbb)
      | (Some _, cbb) \<Rightarrow>
          (Some (), cbb\<lparr>cbb_base := map_option (\<lambda>b. b\<lparr>bb_can_resize := False\<rparr>) (cbb_base cbb)\<rparr>))"

definition CBB_cleanup :: "nat \<Rightarrow> cbb \<Rightarrow> cbb" where
  "CBB_cleanup d cbb = (if d \<noteq> 0 then cbb else cbb\<lparr>cbb_base := None\<rparr>)"

section \<open>The buffer\<close>

definition bb_fail :: "(cbb_buffer, 'a) action" where
  "bb_fail b = (None, b\<lparr>bb_error := True\<rparr>)"

text \<open>\<open>*out = base->buf + base->len\<close> is the index of the reserved space.\<close>

definition cbb_buffer_reserve :: "alloc \<Rightarrow> nat \<Rightarrow> (cbb_buffer, nat) action" where
  "cbb_buffer_reserve env n b =
     (let newlen = size_add (bb_len b) n
      in if newlen < bb_len b then bb_fail b
         else if newlen > bb_cap b then
           (let newcap = size_mul (bb_cap b) 2
            in if \<not> bb_can_resize b then bb_fail b
               else let newcap = (if newcap < bb_cap b \<or> newcap < newlen then newlen else newcap)
                    in (case OPENSSL_realloc env (Some (bb_buf b)) newcap of
                          None \<Rightarrow> bb_fail b
                        | Some newbuf \<Rightarrow>
                            (Some (bb_len b), b\<lparr>bb_buf := newbuf, bb_cap := newcap\<rparr>)))
         else (Some (bb_len b), b))"

definition cbb_buffer_add :: "alloc \<Rightarrow> nat \<Rightarrow> (cbb_buffer, nat) action" where
  "cbb_buffer_add env n =
     act_bind (cbb_buffer_reserve env n) (\<lambda>out b.
       (Some out, b\<lparr>bb_len := bb_len b + n\<rparr>))"

text \<open>
  \<open>for (i = n - 1; i < n; i--) { buf[pos + i] = v; v >>= 8; }\<close>, and what is left of
  \<open>v\<close> after it.
\<close>

fun put_be :: "byte list \<Rightarrow> nat \<Rightarrow> nat \<Rightarrow> nat \<Rightarrow> byte list \<times> nat" where
  "put_be buf pos 0 v = (buf, v)"
| "put_be buf pos (Suc n) v = put_be (buf[pos + n := of_nat v]) pos n (v div 256)"

definition cbb_buffer_add_u :: "alloc \<Rightarrow> u64 \<Rightarrow> nat \<Rightarrow> (cbb_buffer, unit) action" where
  "cbb_buffer_add_u env v len_len =
     (if len_len = 0 then act_ret ()
      else act_bind (cbb_buffer_add env len_len) (\<lambda>pos b.
        let (buf, v) = put_be (bb_buf b) pos len_len (unat v);
            b = b\<lparr>bb_buf := buf\<rparr>
        in if v \<noteq> 0 then bb_fail b else (Some (), b)))"

section \<open>Flushing\<close>

text \<open>
  The write-back of one child of length \<open>n\<close>, after its own children are closed: the
  prefix of a DER element may have to grow, which moves the contents along.
\<close>

definition flush_asn1_prefix :: "alloc \<Rightarrow> cbb_child \<Rightarrow> nat \<Rightarrow> nat \<Rightarrow> (cbb_buffer, cbb_child \<times> nat) action" where
  "flush_asn1_prefix env k child_start n =
     (if n > 0xfffffffe then act_fail
      else let (len_len, initial_length_byte, n') =
             (if n > 0xffffff then (5, 0x84, n)
              else if n > 0xffff then (4, 0x83, n)
              else if n > 0xff then (3, 0x82, n)
              else if n > 0x7f then (2, 0x81, n)
              else (1, of_nat n, 0))
      in act_bind
          (if len_len \<noteq> 1 then
             (let extra_bytes = len_len - 1
              in act_bind (cbb_buffer_add env extra_bytes) (\<lambda>_ b.
                   (Some (), b\<lparr>bb_buf :=
                      take (child_start + extra_bytes) (bb_buf b) @
                      take n' (drop child_start (bb_buf b)) @
                      drop (child_start + extra_bytes + n') (bb_buf b)\<rparr>)))
           else act_ret ())
          (\<lambda>_ b. (Some (k\<lparr>k_offset := k_offset k + 1, k_pending_len_len := len_len - 1\<rparr>, n'),
                  b\<lparr>bb_buf := (bb_buf b)[k_offset k := initial_length_byte]\<rparr>)))"

definition close_kid :: "alloc \<Rightarrow> cbb_child \<Rightarrow> nat \<Rightarrow> nat \<Rightarrow> cbb_child list \<Rightarrow> cbb_buffer \<Rightarrow>
    bool \<times> cbb_buffer \<times> cbb_child list" where
  "close_kid env k child_start n ks b =
     (case (if k_pending_is_asn1 k then flush_asn1_prefix env k child_start n b
            else (Some (k, n), b)) of
        (None, b) \<Rightarrow> (False, b\<lparr>bb_error := True\<rparr>, k # ks)
      | (Some (k, n), b) \<Rightarrow>
          let (buf, n) = put_be (bb_buf b) (k_offset k) (k_pending_len_len k) n;
              b = b\<lparr>bb_buf := buf\<rparr>
          in if n \<noteq> 0 then (False, b\<lparr>bb_error := True\<rparr>, k # ks)
             else (True, b, []))"

fun flush_kids :: "alloc \<Rightarrow> cbb_child list \<Rightarrow> cbb_buffer \<Rightarrow> bool \<times> cbb_buffer \<times> cbb_child list" where
  "flush_kids env [] b = (\<not> bb_error b, b, [])"
| "flush_kids env (k # ks) b =
     (if bb_error b then (False, b, k # ks)
      else if k_pending_len_len k = 0 then (True, b, k # ks)
      else
        let child_start = size_add (k_offset k) (k_pending_len_len k);
            (ok, b, ks) = flush_kids env ks b
        in if \<not> ok \<or> child_start < k_offset k \<or> bb_len b < child_start
           then (False, b\<lparr>bb_error := True\<rparr>, k # ks)
           else close_kid env k child_start (bb_len b - child_start) ks b)"

definition CBB_flush :: "alloc \<Rightarrow> nat \<Rightarrow> (cbb, unit) action" where
  "CBB_flush env d cbb =
     (case cbb_base cbb of
        None \<Rightarrow> (None, cbb)
      | Some b \<Rightarrow>
          if length (cbb_kids cbb) < d then (None, cbb)
          else let (ok, b, ks) = flush_kids env (drop d (cbb_kids cbb)) b
               in (if ok then Some () else None,
                   \<lparr>cbb_base = Some b, cbb_kids = take d (cbb_kids cbb) @ ks\<rparr>))"

text \<open>A buffer operation on \<open>cbb->base\<close>, after a flush has shown that it is not \<open>NULL\<close>.\<close>

definition on_base :: "(cbb_buffer, 'a) action \<Rightarrow> (cbb, 'a) action" where
  "on_base f cbb =
     (case cbb_base cbb of
        None \<Rightarrow> (None, cbb)
      | Some b \<Rightarrow> (case f b of (r, b) \<Rightarrow> (r, cbb\<lparr>cbb_base := Some b\<rparr>)))"

text \<open>The result is the buffer and its length; \<open>want\<close> says that both out-pointers are given.\<close>

definition CBB_finish :: "alloc \<Rightarrow> nat \<Rightarrow> bool \<Rightarrow> (cbb, byte list \<times> nat) action" where
  "CBB_finish env d want =
     (if d \<noteq> 0 then act_fail
      else act_bind (CBB_flush env 0) (\<lambda>_ cbb.
        case cbb_base cbb of
          None \<Rightarrow> (None, cbb)
        | Some b \<Rightarrow>
            if bb_can_resize b \<and> \<not> want then (None, cbb)
            else (Some (bb_buf b, bb_len b), CBB_cleanup 0 cbb)))"

text \<open>Where the contents of the \<open>CBB\<close> at depth \<open>d\<close> start.\<close>

definition cbb_start :: "nat \<Rightarrow> cbb_child list \<Rightarrow> nat" where
  "cbb_start d ks = (if d = 0 then 0 else k_offset (ks ! (d - 1)) + k_pending_len_len (ks ! (d - 1)))"

definition CBB_data :: "nat \<Rightarrow> cbb \<Rightarrow> byte list" where
  "CBB_data d cbb =
     (case cbb_base cbb of None \<Rightarrow> [] | Some b \<Rightarrow> drop (cbb_start d (cbb_kids cbb)) (bb_buf b))"

definition CBB_len :: "nat \<Rightarrow> cbb \<Rightarrow> nat" where
  "CBB_len d cbb =
     (case cbb_base cbb of None \<Rightarrow> 0 | Some b \<Rightarrow> bb_len b - cbb_start d (cbb_kids cbb))"

section \<open>Children\<close>

definition open_child :: "nat \<Rightarrow> cbb_child \<Rightarrow> (cbb, unit) action" where
  "open_child d k cbb = (Some (), cbb\<lparr>cbb_kids := take d (cbb_kids cbb) @ [k]\<rparr>)"

definition cbb_add_length_prefixed :: "alloc \<Rightarrow> nat \<Rightarrow> nat \<Rightarrow> (cbb, unit) action" where
  "cbb_add_length_prefixed env d len_len =
     act_bind (CBB_flush env d) (\<lambda>_.
     act_bind (on_base (act_bind (cbb_buffer_add env len_len) (\<lambda>prefix b.
       (Some prefix, b\<lparr>bb_buf := take prefix (bb_buf b) @ replicate len_len 0 @
                                  drop (prefix + len_len) (bb_buf b)\<rparr>)))) (\<lambda>offset.
     open_child d \<lparr>k_offset = offset, k_pending_len_len = len_len, k_pending_is_asn1 = False\<rparr>))"

definition CBB_add_u8_length_prefixed :: "alloc \<Rightarrow> nat \<Rightarrow> (cbb, unit) action" where
  "CBB_add_u8_length_prefixed env d = cbb_add_length_prefixed env d 1"

definition CBB_add_u16_length_prefixed :: "alloc \<Rightarrow> nat \<Rightarrow> (cbb, unit) action" where
  "CBB_add_u16_length_prefixed env d = cbb_add_length_prefixed env d 2"

definition CBB_add_u24_length_prefixed :: "alloc \<Rightarrow> nat \<Rightarrow> (cbb, unit) action" where
  "CBB_add_u24_length_prefixed env d = cbb_add_length_prefixed env d 3"

section \<open>Bytes and integers\<close>

definition put_bytes :: "nat \<Rightarrow> byte list \<Rightarrow> (cbb_buffer, unit) action" where
  "put_bytes pos d b =
     (Some (), b\<lparr>bb_buf := take pos (bb_buf b) @ d @ drop (pos + length d) (bb_buf b)\<rparr>)"

definition CBB_add_bytes :: "alloc \<Rightarrow> nat \<Rightarrow> byte list \<Rightarrow> nat \<Rightarrow> (cbb, unit) action" where
  "CBB_add_bytes env d dat n =
     act_bind (CBB_flush env d) (\<lambda>_.
       on_base (act_bind (cbb_buffer_add env n) (\<lambda>dest. put_bytes dest (take n dat))))"

definition CBB_add_space :: "alloc \<Rightarrow> nat \<Rightarrow> nat \<Rightarrow> (cbb, nat) action" where
  "CBB_add_space env d n =
     act_bind (CBB_flush env d) (\<lambda>_. on_base (cbb_buffer_add env n))"

definition CBB_reserve :: "alloc \<Rightarrow> nat \<Rightarrow> nat \<Rightarrow> (cbb, nat) action" where
  "CBB_reserve env d n =
     act_bind (CBB_flush env d) (\<lambda>_. on_base (cbb_buffer_reserve env n))"

definition CBB_did_write :: "nat \<Rightarrow> nat \<Rightarrow> (cbb, unit) action" where
  "CBB_did_write d n cbb =
     on_base (\<lambda>b.
       let newlen = size_add (bb_len b) n
       in if length (cbb_kids cbb) \<noteq> d \<or> newlen < bb_len b \<or> newlen > bb_cap b then (None, b)
          else (Some (), b\<lparr>bb_len := newlen\<rparr>)) cbb"

definition cbb_add_u :: "alloc \<Rightarrow> nat \<Rightarrow> u64 \<Rightarrow> nat \<Rightarrow> (cbb, unit) action" where
  "cbb_add_u env d v len_len =
     act_bind (CBB_flush env d) (\<lambda>_. on_base (cbb_buffer_add_u env v len_len))"

definition CBB_add_u8 :: "alloc \<Rightarrow> nat \<Rightarrow> byte \<Rightarrow> (cbb, unit) action" where
  "CBB_add_u8 env d v = cbb_add_u env d (ucast v) 1"

definition CBB_add_u16 :: "alloc \<Rightarrow> nat \<Rightarrow> u16 \<Rightarrow> (cbb, unit) action" where
  "CBB_add_u16 env d v = cbb_add_u env d (ucast v) 2"

definition CBB_add_u24 :: "alloc \<Rightarrow> nat \<Rightarrow> u32 \<Rightarrow> (cbb, unit) action" where
  "CBB_add_u24 env d v = cbb_add_u env d (ucast v) 3"

definition CBB_add_u32 :: "alloc \<Rightarrow> nat \<Rightarrow> u32 \<Rightarrow> (cbb, unit) action" where
  "CBB_add_u32 env d v = cbb_add_u env d (ucast v) 4"

definition CBB_add_u64 :: "alloc \<Rightarrow> nat \<Rightarrow> u64 \<Rightarrow> (cbb, unit) action" where
  "CBB_add_u64 env d v = cbb_add_u env d v 8"

definition CBB_add_u16le :: "alloc \<Rightarrow> nat \<Rightarrow> u16 \<Rightarrow> (cbb, unit) action" where
  "CBB_add_u16le env d v = CBB_add_u16 env d (CRYPTO_bswap2 v)"

definition CBB_add_u32le :: "alloc \<Rightarrow> nat \<Rightarrow> u32 \<Rightarrow> (cbb, unit) action" where
  "CBB_add_u32le env d v = CBB_add_u32 env d (CRYPTO_bswap4 v)"

definition CBB_add_u64le :: "alloc \<Rightarrow> nat \<Rightarrow> u64 \<Rightarrow> (cbb, unit) action" where
  "CBB_add_u64le env d v = CBB_add_u64 env d (CRYPTO_bswap8 v)"

definition CBB_discard_child :: "nat \<Rightarrow> cbb \<Rightarrow> cbb" where
  "CBB_discard_child d cbb =
     (if length (cbb_kids cbb) \<le> d then cbb
      else cbb\<lparr>cbb_base := map_option (\<lambda>b. b\<lparr>bb_len := k_offset (cbb_kids cbb ! d)\<rparr>) (cbb_base cbb),
               cbb_kids := take d (cbb_kids cbb)\<rparr>)"

section \<open>ASN.1\<close>

text \<open>The count of seven-bit groups of \<open>add_base128_integer\<close>.\<close>

function base128_groups :: "u64 \<Rightarrow> nat" where
  "base128_groups copy = (if copy > 0 then Suc (base128_groups (drop_bit 7 copy)) else 0)"
  by pat_completeness auto
termination
proof (relation "measure unat")
  fix copy :: u64
  assume "copy > 0"
  then have "0 < unat copy" by (simp add: word_less_nat_alt)
  then show "(drop_bit 7 copy, copy) \<in> measure unat"
    by (simp add: unat_drop_bit_eq drop_bit_eq_div [where 'a = nat])
qed simp

declare base128_groups.simps [simp del]

text \<open>\<open>for (i = n - 1; i < n; i--)\<close>, with \<open>n\<close> the number of rounds left.\<close>

fun base128_loop :: "alloc \<Rightarrow> nat \<Rightarrow> u64 \<Rightarrow> nat \<Rightarrow> (cbb, unit) action" where
  "base128_loop env d v 0 = act_ret ()"
| "base128_loop env d v (Suc i) =
     act_bind (CBB_add_u8 env d
       (let byt = ucast (drop_bit (7 * i) v) AND 0x7f in if i \<noteq> 0 then byt OR 0x80 else byt))
       (\<lambda>_. base128_loop env d v i)"

definition add_base128_integer :: "alloc \<Rightarrow> nat \<Rightarrow> u64 \<Rightarrow> (cbb, unit) action" where
  "add_base128_integer env d v =
     (let len_len = base128_groups v;
          len_len = (if len_len = 0 then 1 else len_len)
      in base128_loop env d v len_len)"

definition CBB_add_asn1 :: "alloc \<Rightarrow> nat \<Rightarrow> u32 \<Rightarrow> (cbb, unit) action" where
  "CBB_add_asn1 env d tag =
     act_bind (CBB_flush env d) (\<lambda>_.
       let tag_bits = ucast (drop_bit CBS_ASN1_TAG_SHIFT tag) AND 0xe0;
           tag_number = tag AND CBS_ASN1_TAG_NUMBER_MASK
       in act_bind
           (if tag_number \<ge> 0x1f
            then act_bind (CBB_add_u8 env d (tag_bits OR 0x1f)) (\<lambda>_.
                   add_base128_integer env d (ucast tag_number))
            else CBB_add_u8 env d (tag_bits OR ucast tag_number)) (\<lambda>_.
         act_bind (on_base (\<lambda>b. (Some (bb_len b), b))) (\<lambda>offset.
         act_bind (CBB_add_u8 env d 0) (\<lambda>_.
           open_child d \<lparr>k_offset = offset, k_pending_len_len = 1, k_pending_is_asn1 = True\<rparr>))))"

text \<open>The loop over the eight bytes of the value; the first component is \<open>started\<close>.\<close>

fun asn1_uint64_bytes :: "alloc \<Rightarrow> nat \<Rightarrow> bool \<Rightarrow> byte list \<Rightarrow> (cbb, bool) action" where
  "asn1_uint64_bytes env d started [] = act_ret started"
| "asn1_uint64_bytes env d started (byt # bs) =
     (if \<not> started \<and> byt = 0 then asn1_uint64_bytes env d started bs
      else act_bind (if \<not> started \<and> byt AND 0x80 \<noteq> 0 then CBB_add_u8 env d 0 else act_ret ()) (\<lambda>_.
           act_bind (CBB_add_u8 env d byt) (\<lambda>_. asn1_uint64_bytes env d True bs)))"

definition CBB_add_asn1_uint64 :: "alloc \<Rightarrow> nat \<Rightarrow> u64 \<Rightarrow> (cbb, unit) action" where
  "CBB_add_asn1_uint64 env d v =
     act_bind (CBB_add_asn1 env d CBS_ASN1_INTEGER) (\<lambda>_.
     act_bind (asn1_uint64_bytes env (Suc d) False
                (map (\<lambda>i. ucast (drop_bit (8 * (7 - i)) v)) [0..<8])) (\<lambda>started.
     act_bind (if \<not> started then CBB_add_u8 env (Suc d) 0 else act_ret ()) (\<lambda>_.
       CBB_flush env d)))"

text \<open>\<open>while (start > 0 && \<dots>) start--\<close> over the little-endian bytes of the value.\<close>

fun int64_start :: "byte list \<Rightarrow> nat \<Rightarrow> nat" where
  "int64_start u 0 = 0"
| "int64_start u (Suc n) =
     (if u ! Suc n = 0xff \<and> u ! n AND 0x80 \<noteq> 0 then int64_start u n else Suc n)"

definition CBB_add_asn1_int64 :: "alloc \<Rightarrow> nat \<Rightarrow> u64 \<Rightarrow> (cbb, unit) action" where
  "CBB_add_asn1_int64 env d v =
     (if 0 \<le> sint v then CBB_add_asn1_uint64 env d v
      else let u = map (\<lambda>i. ucast (drop_bit (8 * i) v)) [0..<8];
               start = int64_start u 7
           in act_bind (CBB_add_asn1 env d CBS_ASN1_INTEGER) (\<lambda>_.
              act_bind (act_each (CBB_add_u8 env (Suc d)) (map ((!) u) (rev [0..<Suc start]))) (\<lambda>_.
                CBB_flush env d)))"

definition CBB_add_asn1_octet_string :: "alloc \<Rightarrow> nat \<Rightarrow> byte list \<Rightarrow> nat \<Rightarrow> (cbb, unit) action" where
  "CBB_add_asn1_octet_string env d dat n =
     act_bind (CBB_add_asn1 env d CBS_ASN1_OCTETSTRING) (\<lambda>_.
     act_bind (CBB_add_bytes env (Suc d) dat n) (\<lambda>_. CBB_flush env d))"

definition CBB_add_asn1_bool :: "alloc \<Rightarrow> nat \<Rightarrow> bool \<Rightarrow> (cbb, unit) action" where
  "CBB_add_asn1_bool env d v =
     act_bind (CBB_add_asn1 env d CBS_ASN1_BOOLEAN) (\<lambda>_.
     act_bind (CBB_add_u8 env (Suc d) (if v then 0xff else 0)) (\<lambda>_. CBB_flush env d))"

end
