(* ===== verification/Der.thy ===== *)
theory Der
  imports Cbs_Asn1
begin

text \<open>
  DER as a printer, and the proof that the parser of \<open>Cbs_Asn1\<close> is its exact inverse:
  base-128 integers, identifier octets, length octets and whole elements. The builder
  (\<open>Cbb\<close>) is proved against the same printer.
\<close>

section \<open>Base-128 integers\<close>

text \<open>
  \<open>b128_prefix v\<close> writes \<open>v\<close> with the continuation bit set in every octet (and nothing
  for zero); \<open>base128 v\<close> is the minimal encoding, whose last octet has it clear.
\<close>

fun b128_prefix :: "nat \<Rightarrow> byte list" where
  "b128_prefix v = (if v = 0 then [] else b128_prefix (v div 128) @ [of_nat (128 + v mod 128)])"

declare b128_prefix.simps [simp del]

definition base128 :: "nat \<Rightarrow> byte list" where
  "base128 v = b128_prefix (v div 128) @ [of_nat (v mod 128)]"

lemma b128_prefix_0 [simp]: "b128_prefix 0 = []"
  by (simp add: b128_prefix.simps)

lemma b128_prefix_pos: "0 < v \<Longrightarrow> b128_prefix v = b128_prefix (v div 128) @ [of_nat (128 + v mod 128)]"
  by (subst b128_prefix.simps) simp

lemma base128_neq_Nil [simp]: "base128 v \<noteq> []"
  by (simp add: base128_def)

lemma unat_high_digit: "unat (of_nat (128 + v mod 128) :: byte) = 128 + v mod 128"
proof -
  have "128 + v mod 128 < (256 :: nat)"
    using mod_less_divisor [of 128 v] by linarith
  then show ?thesis by (simp add: unat_of_nat del: of_nat_add)
qed

lemma unat_low_digit: "unat (of_nat (v mod 128) :: byte) = v mod 128"
proof -
  have "v mod 128 < (256 :: nat)"
    using mod_less_divisor [of 128 v] by linarith
  then show ?thesis by (simp add: unat_of_nat)
qed

text \<open>Reading digits, as the loop of \<open>parse_base128_integer\<close> does.\<close>

definition b128_read :: "nat \<Rightarrow> byte list \<Rightarrow> nat" where
  "b128_read = foldl (\<lambda>v b. v * 128 + unat b mod 128)"

lemma b128_read_Nil [simp]: "b128_read v [] = v"
  by (simp add: b128_read_def)

lemma b128_read_Cons [simp]: "b128_read v (b # bs) = b128_read (v * 128 + unat b mod 128) bs"
  by (simp add: b128_read_def)

lemma b128_read_append: "b128_read v (xs @ ys) = b128_read (b128_read v xs) ys"
  by (simp add: b128_read_def)

lemma b128_read_ge: "v \<le> b128_read v bs"
proof (induction bs arbitrary: v)
  case (Cons b bs)
  have "v \<le> v * 128 + unat b mod 128" by simp
  also have "\<dots> \<le> b128_read (v * 128 + unat b mod 128) bs" by (rule Cons.IH)
  finally show ?case by simp
qed simp

lemma b128_read_prefix [simp]: "b128_read 0 (b128_prefix v) = v"
proof (induction v rule: b128_prefix.induct)
  case (1 v)
  then show ?case
    by (cases "v = 0")
       (simp_all add: b128_prefix_pos b128_read_append unat_high_digit del: of_nat_add)
qed

lemma b128_read_base128 [simp]: "b128_read 0 (base128 v) = v"
  by (simp add: base128_def b128_read_append unat_low_digit)

lemma b128_prefix_high: "b \<in> set (b128_prefix v) \<Longrightarrow> 128 \<le> unat b"
proof (induction v rule: b128_prefix.induct)
  case (1 v)
  then show ?case
    by (cases "v = 0")
       (auto simp: b128_prefix_pos unat_high_digit simp del: of_nat_add)
qed

text \<open>A minimal encoding does not start with the octet \<open>0x80\<close>.\<close>

lemma b128_prefix_hd: "b128_prefix v = b # bs \<Longrightarrow> unat b \<noteq> 128"
proof (induction v arbitrary: b bs rule: b128_prefix.induct)
  case (1 v)
  show ?case
  proof (cases "b128_prefix (v div 128)")
    case Nil
    then have "v div 128 = 0"
      by (metis b128_read_Nil b128_read_prefix)
    moreover have "v \<noteq> 0" using "1.prems" by (intro notI) simp
    ultimately have "b = of_nat (128 + v mod 128)" and "v mod 128 \<noteq> 0"
      using "1.prems" Nil by (auto simp: b128_prefix_pos div_eq_0_iff)
    then show ?thesis by (simp add: unat_high_digit del: of_nat_add)
  next
    case (Cons c cs)
    moreover have "v \<noteq> 0" using "1.prems" by (intro notI) simp
    ultimately show ?thesis
      using "1.prems" "1.IH" by (auto simp: b128_prefix_pos)
  qed
qed

lemma b128_prefix_snoc:
  assumes "128 \<le> unat b" and "v \<noteq> 0 \<or> unat b \<noteq> 128"
  shows "b128_prefix (v * 128 + unat b mod 128) = b128_prefix v @ [b]"
proof -
  have low: "unat b = 128 + unat b mod 128"
    using assms(1) unat_byte_less [of b] by (simp add: le_mod_geq del: unat_byte_less)
  then have "0 < v * 128 + unat b mod 128" using assms(2) by auto
  moreover have "of_nat (128 + unat b mod 128) = b"
    unfolding word_unat_eq_iff unat_high_digit using low by simp
  ultimately show ?thesis
    by (simp add: b128_prefix_pos del: of_nat_add)
qed

lemma base128_snoc:
  assumes "unat b < 128"
  shows "base128 (v * 128 + unat b mod 128) = b128_prefix v @ [b]"
  using assms by (simp add: base128_def)

text \<open>One round of the loop.\<close>

lemma parse_base128_loop_step:
  assumes "wf_cbs c" and "cbs_view c = b # bs"
  shows "parse_base128_loop v c =
    (if 2 ^ 57 \<le> unat v \<or> unat v = 0 \<and> unat b = 128 then (None, cbs_after 1 c)
     else let v' = push_bit 7 v OR ucast (b AND 0x7f)
          in if 128 \<le> unat b then parse_base128_loop v' (cbs_after 1 c)
             else (Some v', cbs_after 1 c))"
proof -
  have "drop_bit (64 - 7) v \<noteq> 0 \<longleftrightarrow> 2 ^ 57 \<le> unat v"
    by (simp add: drop_bit_eq_0_iff_unat not_less)
  moreover have "v = 0 \<longleftrightarrow> unat v = 0" and "b = 0x80 \<longleftrightarrow> unat b = 128"
    by (simp_all add: word_unat_eq_iff)
  ultimately show ?thesis
    using assms by (subst parse_base128_loop.simps) (simp add: CBS_get_u8_eq and_80_iff Let_def)
qed

lemma parse_base128_loop_end:
  "wf_cbs c \<Longrightarrow> cbs_view c = [] \<Longrightarrow> parse_base128_loop v c = (None, c)"
  by (subst parse_base128_loop.simps) (simp add: CBS_get_u8_eq)

lemma parse_base128_loop_sound:
  assumes "parse_base128_loop v c = (Some r, c')" and "wf_cbs c"
  shows "\<exists>bs. cbs_view c = bs @ cbs_view c' \<and> c' = cbs_after (length bs) c \<and>
    b128_prefix (unat v) @ bs = base128 (unat r)"
  using assms
proof (induction "cbs_view c" arbitrary: v c)
  case Nil
  then show ?case by (simp add: parse_base128_loop_end)
next
  case (Cons b bs)
  define v' where "v' = push_bit 7 v OR ucast (b AND 0x7f)"
  have view: "cbs_view c = b # bs" using Cons.hyps(2) by (rule sym)
  note step = parse_base128_loop_step [OF Cons.prems(2) view, of v, folded v'_def]
  have small: "unat v < 2 ^ 57" and minimal: "unat v \<noteq> 0 \<or> unat b \<noteq> 128"
    using Cons.prems(1) by (auto simp: step split: if_splits)
  have v': "unat v' = unat v * 128 + unat b mod 128"
    unfolding v'_def using small by (rule unat_push7_or)
  have rest: "cbs_view (cbs_after 1 c) = bs"
    by (simp add: view)
  show ?case
  proof (cases "128 \<le> unat b")
    case True
    then have "parse_base128_loop v' (cbs_after 1 c) = (Some r, c')"
      using Cons.prems(1) small minimal by (auto simp: step Let_def split: if_splits)
    then obtain bs' where "bs = bs' @ cbs_view c'" and "c' = cbs_after (length bs') (cbs_after 1 c)"
      and "b128_prefix (unat v') @ bs' = base128 (unat r)"
      using Cons.hyps(1) [of "cbs_after 1 c" v'] Cons.prems(2) rest by auto
    moreover have "b128_prefix (unat v') = b128_prefix (unat v) @ [b]"
      unfolding v' using True minimal by (intro b128_prefix_snoc) auto
    ultimately show ?thesis
      by (intro exI [of _ "b # bs'"]) (simp add: view)
  next
    case False
    then have "r = v'" and "c' = cbs_after 1 c"
      using Cons.prems(1) small minimal by (auto simp: step Let_def split: if_splits)
    moreover have "base128 (unat v') = b128_prefix (unat v) @ [b]"
      unfolding v' using False by (intro base128_snoc) simp
    ultimately show ?thesis
      by (intro exI [of _ "[b]"]) (simp add: view)
  qed
qed

lemma parse_base128_loop_complete:
  assumes "wf_cbs c" and "cbs_view c = bs @ rest" and "bs \<noteq> []"
    and "b128_prefix (unat v) @ bs = base128 (unat r)"
  shows "parse_base128_loop v c = (Some r, cbs_after (length bs) c)"
  using assms
proof (induction bs arbitrary: v c)
  case (Cons b bs)
  define v' where "v' = push_bit 7 v OR ucast (b AND 0x7f)"
  note step = parse_base128_loop_step [of c b "bs @ rest" v, folded v'_def]
  have rval: "unat r = b128_read (unat v * 128 + unat b mod 128) bs"
    using arg_cong [OF Cons.prems(4), of "b128_read 0"] by (simp add: b128_read_append)
  have "unat v * 128 \<le> unat r"
    unfolding rval using b128_read_ge [of "unat v * 128 + unat b mod 128" bs] by simp
  then have small: "unat v < 2 ^ 57"
    using unat_u64_less [of r] by simp
  have v': "unat v' = unat v * 128 + unat b mod 128"
    unfolding v'_def using small by (rule unat_push7_or)
  show ?case
  proof (cases bs)
    case Nil
    have "b = of_nat (unat r mod 128)"
      using Cons.prems(4) Nil by (simp add: base128_def)
    then have low: "unat b < 128" by (simp add: unat_low_digit)
    moreover have "v' = r"
      using rval Nil v' by (simp add: word_unat_eq_iff)
    ultimately show ?thesis
      using Cons.prems(1,2) small Nil by (simp add: step)
  next
    case (Cons b' bs')
    have pre: "b128_prefix (unat v) @ b # butlast bs = b128_prefix (unat r div 128)"
      using arg_cong [OF Cons.prems(4), of butlast] Cons
      by (simp add: base128_def butlast_append)
    have high: "128 \<le> unat b"
      by (rule b128_prefix_high [of _ "unat r div 128"]) (simp flip: pre)
    have minimal: "unat v \<noteq> 0 \<or> unat b \<noteq> 128"
      using b128_prefix_hd [of "unat r div 128" b "butlast bs"] pre by (cases "unat v = 0") auto
    have "b128_prefix (unat v') = b128_prefix (unat v) @ [b]"
      unfolding v' using high minimal by (intro b128_prefix_snoc) auto
    then have "parse_base128_loop v' (cbs_after 1 c) = (Some r, cbs_after (length bs) (cbs_after 1 c))"
      using Cons.prems Cons by (intro Cons.IH) auto
    then show ?thesis
      using Cons.prems(1,2) small minimal high by (auto simp: step)
  qed
qed simp

section \<open>Identifier octets\<close>

text \<open>A tag is three class bits above a 29-bit number.\<close>

lemma and_e0: "b AND 0xe0 = push_bit 5 (drop_bit 5 (b :: byte))"
proof -
  have "b AND NOT (mask 5) = push_bit 5 (drop_bit 5 b)"
    by (rule bit_word_eqI) (auto simp: bit_simps)
  moreover have "NOT (mask 5) = (0xe0 :: byte)" by (simp add: mask_numeral word_eq_iff_unsigned)
  ultimately show ?thesis by simp
qed

lemma unat_and_1f: "unat (b AND 0x1f :: byte) = unat b mod 32"
  using unat_and_mask [of b 5] by (simp add: mask_numeral)

lemma unat_high_bits:
  "unat (w :: byte) < 32 \<Longrightarrow> unat (b AND 0xe0 OR w) = unat b div 32 * 32 + unat w"
proof -
  assume w: "unat w < 32"
  have d: "unat (drop_bit 5 b) = unat b div 32"
    unfolding unat_drop_bit_eq drop_bit_eq_div [where 'a = nat] by simp
  moreover have "unat b div 32 < 8"
    using unat_byte_less [of b] by (simp add: div_less_iff_less_mult del: unat_byte_less)
  ultimately have "unat (push_bit 5 (drop_bit 5 b) OR w) = unat (drop_bit 5 b) * 2 ^ 5 + unat w"
    using w by (intro unat_push_or) auto
  then show ?thesis by (simp add: and_e0 d)
qed

definition tag_class :: "u32 \<Rightarrow> nat" where
  "tag_class tag = unat tag div 2 ^ 29"

definition tag_number :: "u32 \<Rightarrow> nat" where
  "tag_number tag = unat tag mod 2 ^ 29"

lemma tag_class_less: "tag_class tag < 8"
  using unat_u32_less [of tag] by (simp add: tag_class_def div_less_iff_less_mult)

definition mk_tag :: "nat \<Rightarrow> nat \<Rightarrow> u32" where
  "mk_tag cls n = of_nat (cls * 2 ^ 29 + n)"

definition der_tag :: "u32 \<Rightarrow> byte list" where
  "der_tag tag =
     (if tag_number tag < 31 then [of_nat (tag_class tag * 32 + tag_number tag)]
      else of_nat (tag_class tag * 32 + 31) # base128 (tag_number tag))"

lemma unat_mk_tag: "cls < 8 \<Longrightarrow> n < 2 ^ 29 \<Longrightarrow> unat (mk_tag cls n) = cls * 2 ^ 29 + n"
  unfolding mk_tag_def by (simp add: unat_of_nat del: of_nat_add of_nat_mult)

lemma tag_class_mk [simp]: "cls < 8 \<Longrightarrow> n < 2 ^ 29 \<Longrightarrow> tag_class (mk_tag cls n) = cls"
  unfolding tag_class_def unat_mk_tag by simp

lemma tag_number_mk [simp]: "cls < 8 \<Longrightarrow> n < 2 ^ 29 \<Longrightarrow> tag_number (mk_tag cls n) = n"
  unfolding tag_number_def unat_mk_tag by simp

lemma mk_tag_parts [simp]: "mk_tag (tag_class tag) (tag_number tag) = tag"
  unfolding mk_tag_def tag_class_def tag_number_def div_mult_mod_eq
  by (simp add: word_unat_eq_iff)

lemma tag_number_less: "tag_number tag < 2 ^ 29"
  by (simp add: tag_number_def)

lemma unat_tag_bits:
  "unat (w :: u32) < 2 ^ 29 \<Longrightarrow>
   unat (push_bit CBS_ASN1_TAG_SHIFT (ucast (b :: byte) AND 0xe0) OR w) = unat b div 32 * 2 ^ 29 + unat w"
proof -
  assume w: "unat w < 2 ^ 29"
  have "ucast b AND 0xe0 = (ucast (b AND 0xe0) :: u32)"
    by (simp add: unsigned_and_eq)
  also have "\<dots> = push_bit 5 (ucast (drop_bit 5 b))"
    unfolding and_e0 by (rule bit_word_eqI) (auto simp: bit_simps dest: bit_imp_le_length)
  finally have "push_bit CBS_ASN1_TAG_SHIFT (ucast b AND 0xe0 :: u32) = push_bit 29 (ucast (drop_bit 5 b))"
    by (simp add: CBS_ASN1_TAG_SHIFT_def)
  moreover have d: "unat (ucast (drop_bit 5 b) :: u32) = unat b div 32"
    unfolding unat_ucast_widen [where 'a = 8 and 'b = 32, simplified] unat_drop_bit_eq drop_bit_eq_div [where 'a = nat] by simp
  moreover have "unat b div 32 < 8"
    using unat_byte_less [of b] by (simp add: div_less_iff_less_mult del: unat_byte_less)
  ultimately show ?thesis
    using w by (simp add: unat_push_or)
qed

lemma parse_asn1_tag_step:
  assumes "wf_cbs c" and view: "cbs_view c = b # bs"
  shows "parse_asn1_tag c =
    (if unat b mod 32 = 31 then
       (case parse_base128_integer (cbs_after 1 c) of
          (None, c') \<Rightarrow> (None, c')
        | (Some v, c') \<Rightarrow>
            if 2 ^ 29 \<le> unat v \<or> unat v < 31 then (None, c')
            else (Some (mk_tag (unat b div 32) (unat v)), c'))
     else (Some (mk_tag (unat b div 32) (unat b mod 32)), cbs_after 1 c))"
proof -
  have cls: "unat b div 32 < 8"
    using unat_byte_less [of b] by (simp add: div_less_iff_less_mult del: unat_byte_less)
  have tag: "push_bit CBS_ASN1_TAG_SHIFT (ucast b AND 0xe0) OR w = mk_tag (unat b div 32) (unat w)"
    if "unat w < 2 ^ 29" for w
    using that cls unat_tag_bits [OF that, of b] by (simp add: word_unat_eq_iff unat_mk_tag)
  have num: "unat (ucast (b AND 0x1f) :: u32) = unat b mod 32"
    by (simp add: unat_ucast_widen unat_and_1f)
  then have is31: "(ucast (b AND 0x1f) :: u32) = 0x1f \<longleftrightarrow> unat b mod 32 = 31"
    by (simp add: word_unat_eq_iff)
  have "unat (ucast (b AND 0x1f) :: u32) < 2 ^ 29"
    unfolding num by (rule less_trans [OF mod_less_divisor]) simp_all
  note small = tag [OF this, unfolded num]
  have mask: "(v > ucast CBS_ASN1_TAG_NUMBER_MASK) = (2 ^ 29 \<le> unat v)"
    and low: "(v < 0x1f) = (unat v < 31)" for v :: u64
    by (auto simp: word_less_nat_alt CBS_ASN1_TAG_NUMBER_MASK_def CBS_ASN1_TAG_SHIFT_def)
  have large: "push_bit CBS_ASN1_TAG_SHIFT (ucast b AND 0xe0) OR ucast v = mk_tag (unat b div 32) (unat v)"
    if "unat v < 2 ^ 29" for v :: u64
  proof -
    have "unat (ucast v :: u32) = unat v"
      using that by (simp add: unat_ucast_narrow)
    then show ?thesis using tag [of "ucast v"] that by simp
  qed
  show ?thesis
    using assms large small
    by (auto simp: parse_asn1_tag_def CBS_get_u8_eq act_bind_def Let_def is31 mask low not_le
        act_simps split: prod.splits option.splits)
qed

theorem parse_asn1_tag_sound:
  assumes "parse_asn1_tag c = (Some tag, c')" and "wf_cbs c"
  shows "cbs_view c = der_tag tag @ cbs_view c' \<and> c' = cbs_after (length (der_tag tag)) c"
proof (cases "cbs_view c")
  case Nil
  then show ?thesis
    using assms by (simp add: parse_asn1_tag_def CBS_get_u8_eq act_bind_def)
next
  case (Cons b bs)
  have cls: "unat b div 32 < 8"
    using unat_byte_less [of b] by (simp add: div_less_iff_less_mult del: unat_byte_less)
  have first: "of_nat (unat b div 32 * 32 + unat b mod 32) = b"
    by (simp add: word_unat_eq_iff)
  show ?thesis
  proof (cases "unat b mod 32 = 31")
    case True
    then obtain v where v: "parse_base128_integer (cbs_after 1 c) = (Some v, c')"
      and "unat v < 2 ^ 29" "31 \<le> unat v" and tag: "tag = mk_tag (unat b div 32) (unat v)"
      using assms(1) parse_asn1_tag_step [OF assms(2) Cons]
      by (auto split: prod.splits option.splits if_splits)
    then have "der_tag tag = b # base128 (unat v)"
      using cls first True by (simp add: der_tag_def)
    then show ?thesis
      using parse_base128_loop_sound [of 0 "cbs_after 1 c" v c'] v assms(2) Cons
      by (auto simp: parse_base128_integer_def)
  next
    case False
    then have "unat b mod 32 < 31"
      using mod_less_divisor [of 32 "unat b"] by linarith
    moreover from this have "unat b mod 32 < 2 ^ 29" by simp
    ultimately show ?thesis
      using assms(1) parse_asn1_tag_step [OF assms(2) Cons] False cls first Cons
      by (auto simp: der_tag_def simp del: of_nat_add of_nat_mult)
  qed
qed

theorem parse_asn1_tag_complete:
  assumes "wf_cbs c" and view: "cbs_view c = der_tag tag @ rest"
  shows "parse_asn1_tag c = (Some tag, cbs_after (length (der_tag tag)) c)"
proof (cases "tag_number tag < 31")
  case True
  define b :: byte where "b = of_nat (tag_class tag * 32 + tag_number tag)"
  have "tag_class tag * 32 + tag_number tag < 256"
    using True tag_class_less [of tag] by linarith
  then have "unat b = tag_class tag * 32 + tag_number tag"
    by (simp add: b_def del: of_nat_add of_nat_mult)
  then have "unat b div 32 = tag_class tag" and "unat b mod 32 = tag_number tag"
    using True by simp_all
  moreover have tag: "der_tag tag = [b]"
    using True by (simp add: der_tag_def b_def)
  ultimately show ?thesis
    using True view parse_asn1_tag_step [OF assms(1), of b rest] by simp
next
  case False
  define n where "n = tag_number tag"
  have n: "n < 2 ^ 29" "31 \<le> n" using False tag_number_less [of tag] by (simp_all add: n_def)
  define b :: byte where "b = of_nat (tag_class tag * 32 + 31)"
  have "tag_class tag * 32 + 31 < 256"
    using tag_class_less [of tag] by linarith
  then have "unat b = tag_class tag * 32 + 31"
    by (simp add: b_def del: of_nat_add of_nat_mult)
  then have parts: "unat b div 32 = tag_class tag" "unat b mod 32 = 31"
    by simp_all
  have tag: "der_tag tag = b # base128 n"
    using False by (simp add: der_tag_def b_def n_def)
  have r: "unat (of_nat n :: u64) = n"
    using n by (simp add: unat_of_nat)
  have "parse_base128_integer (cbs_after 1 c) =
      (Some (of_nat n), cbs_after (length (base128 n)) (cbs_after 1 c))"
    unfolding parse_base128_integer_def using assms(1) view tag r
    by (intro parse_base128_loop_complete) auto
  moreover have "mk_tag (tag_class tag) n = tag" by (simp add: n_def)
  ultimately show ?thesis
    using view n r parts tag parse_asn1_tag_step [OF assms(1), of b "base128 n @ rest"]
    by simp
qed

section \<open>Length octets\<close>

definition len_octets :: "nat \<Rightarrow> nat" where
  "len_octets n = (if n < 256 ^ 1 then 1 else if n < 256 ^ 2 then 2 else if n < 256 ^ 3 then 3 else 4)"

definition der_length :: "nat \<Rightarrow> byte list" where
  "der_length n =
     (if n < 128 then [of_nat n] else of_nat (128 + len_octets n) # be_bytes (len_octets n) n)"

definition der_header :: "u32 \<Rightarrow> nat \<Rightarrow> byte list" where
  "der_header tag n = der_tag tag @ der_length n"

lemma len_octets_range: "1 \<le> len_octets n \<and> len_octets n \<le> 4"
  by (simp add: len_octets_def)

lemma len_octets_eq:
  assumes "1 \<le> k" and "k \<le> 4" and "256 ^ (k - 1) \<le> n" and "n < 256 ^ k"
  shows "len_octets n = k"
proof -
  have "k = 1 \<or> k = 2 \<or> k = 3 \<or> k = 4" using assms(1,2) by auto
  then show ?thesis using assms(3,4) by (auto simp: len_octets_def)
qed

lemma len_octets_bounds:
  assumes "128 \<le> n" and "n < 2 ^ 32"
  shows "256 ^ (len_octets n - 1) \<le> n" and "n < 256 ^ len_octets n"
  using assms by (auto simp: len_octets_def)

lemma length_der_length: "length (der_length n) \<le> 5"
  using len_octets_range [of n] by (simp add: der_length_def)

lemma length_base128: "v < 2 ^ 35 \<Longrightarrow> length (base128 v) \<le> 5"
proof -
  assume "v < 2 ^ 35"
  then have "v div 128 < 2 ^ 28" by (simp add: div_less_iff_less_mult)
  moreover have "x < 128 ^ k \<Longrightarrow> length (b128_prefix x) \<le> k" for x k :: nat
  proof (induction k arbitrary: x)
    case (Suc k)
    then show ?case
      by (cases "x = 0") (auto simp: b128_prefix_pos div_less_iff_less_mult mult.commute)
  qed simp
  from this [of "v div 128" 4] calculation show ?thesis
    by (simp add: base128_def)
qed

lemma length_der_header: "length (der_header tag n) \<le> 11"
  using length_der_length [of n] length_base128 [of "tag_number tag"] tag_number_less [of tag]
  by (simp add: der_header_def der_tag_def)

section \<open>Elements\<close>

text \<open>
  The header is read from a copy. Once it is known to be \<open>hl\<close> octets announcing a body of
  \<open>n\<close>, the element is the first \<open>hl + n\<close> bytes, if the window holds them.
\<close>

lemma element_finish:
  "act_bind (CBS_get_bytes m) (\<lambda>out. act_ret (out, x)) c =
     (if m \<le> cbs_len c then (Some (CBS_init (cbs_data c) m, x), cbs_after m c) else (None, c))"
  by (simp add: CBS_get_bytes_eq act_bind_def act_simps)

theorem cbs_get_any_asn1_element_der:
  assumes "wf_cbs c" and view: "cbs_view c = der_header tag n @ rest" and n: "n < 2 ^ 32"
  shows "cbs_get_any_asn1_element ber_ok c =
    (let hl = length (der_header tag n)
     in if n \<le> length rest
        then (Some (CBS_init (cbs_data c) (hl + n), tag, hl), cbs_after (hl + n) c)
        else (None, c))"
proof -
  define t where "t = length (der_tag tag)"
  define ls where "ls = der_length n @ rest"
  have len: "cbs_len c = t + length ls"
    using length_cbs_view [OF assms(1)] view by (simp add: t_def ls_def der_header_def)
  have bound: "cbs_len c < 2 ^ 63" using assms(1) by (simp add: wf_cbs_def)
  have tag: "parse_asn1_tag c = (Some tag, cbs_after t c)"
    unfolding t_def using assms(1) view by (intro parse_asn1_tag_complete) (auto simp: der_header_def)
  have rest: "cbs_view (cbs_after t c) = ls"
    by (simp add: view t_def ls_def der_header_def)
  show ?thesis
  proof (cases "n < 128")
    case True
    define b :: byte where "b = of_nat n"
    have b: "unat b = n" using True by (simp add: b_def)
    have ls: "ls = b # rest" using True by (simp add: ls_def der_length_def b_def)
    have hl: "length (der_header tag n) = Suc t"
      using True by (simp add: der_header_def der_length_def t_def)
    have "CBS_get_u8 (cbs_after t c) = (Some b, cbs_after (Suc t) c)"
      using assms(1) rest ls by (simp add: CBS_get_u8_eq)
    moreover have "b AND 0x80 = 0" using and_80_iff [of b] b True by simp
    ultimately show ?thesis
      using len bound ls b n
      by (simp add: cbs_get_any_asn1_element_def tag CBS_len_def hl element_finish size_mod_def add.commute [of n t])
  next
    case False
    define k where "k = len_octets n"
    define b :: byte where "b = of_nat (128 + k)"
    have k: "1 \<le> k" "k \<le> 4" using len_octets_range [of n] by (simp_all add: k_def)
    then have b: "unat b = 128 + k" by (simp add: b_def del: of_nat_add)
    have ls: "ls = b # be_bytes k n @ rest"
      using False by (simp add: ls_def der_length_def b_def k_def)
    have hl: "length (der_header tag n) = Suc t + k"
      using False by (simp add: der_header_def der_length_def t_def k_def)
    have len8: "CBS_get_u8 (cbs_after t c) = (Some b, cbs_after (Suc t) c)"
      using assms(1) rest ls by (simp add: CBS_get_u8_eq)
    have form: "b AND 0x80 \<noteq> 0" "unat (b AND 0x7f) = k"
      using and_80_iff [of b] b k by (auto simp: unat_and_7f)
    have lower: "256 ^ (k - 1) \<le> n" and "n < 256 ^ k"
      using len_octets_bounds [of n] False n by (simp_all add: k_def)
    moreover have "drop (Suc t) (cbs_view c) = be_bytes k n @ rest"
      using rest ls by (metis cbs_view_after drop_Suc list.sel(3) tl_drop)
    ultimately have len64:
      "cbs_get_u k (cbs_after (Suc t) c) = (Some (of_nat n), cbs_after (Suc t + k) c)"
      using assms(1) k ls len by (subst cbs_get_u_eq) auto
    have u: "unat (of_nat n :: u64) = n" using n by (simp add: unat_of_nat)
    have minimal: "\<not> (of_nat n :: u64) < 128" "drop_bit ((k - 1) * 8) (of_nat n :: u64) \<noteq> 0"
      using False lower power_mult [of "2 :: nat" 8 "k - 1"]
      by (simp_all add: word_less_nat_alt drop_bit_eq_0_iff_unat u mult.commute [of 8])
    show ?thesis
      using len bound ls b n k form minimal
      by (simp add: cbs_get_any_asn1_element_def tag len8 len64 CBS_len_def hl element_finish
          size_mod_def u Let_def add.commute [of n "t + k"])
  qed
qed

text \<open>The one form that BER adds: a constructed tag with the length octet \<open>0x80\<close>.\<close>

lemma cbs_get_any_asn1_element_indefinite:
  assumes "wf_cbs c" and view: "cbs_view c = der_tag tag @ 0x80 # rest"
    and "tag AND CBS_ASN1_CONSTRUCTED \<noteq> 0"
  shows "cbs_get_any_asn1_element True c =
    (let hl = Suc (length (der_tag tag))
     in (Some (CBS_init (cbs_data c) hl, tag, hl), cbs_after hl c))"
proof -
  define t where "t = length (der_tag tag)"
  have len: "cbs_len c = t + Suc (length rest)"
    using length_cbs_view [OF assms(1)] view by (simp add: t_def)
  have tag: "parse_asn1_tag c = (Some tag, cbs_after t c)"
    unfolding t_def using assms(1) view by (rule parse_asn1_tag_complete)
  have "CBS_get_u8 (cbs_after t c) = (Some 0x80, cbs_after (Suc t) c)"
    using assms(1) view by (simp add: CBS_get_u8_eq t_def)
  then show ?thesis
    using assms(3) len unfolding t_def [symmetric]
    by (simp add: cbs_get_any_asn1_element_def tag CBS_len_def element_finish)
qed

lemma element_step:
  assumes "parse_asn1_tag c = (Some tag, h1)" and "CBS_get_u8 h1 = (Some lb, h2)"
  shows "cbs_get_any_asn1_element ber_ok c =
    (let hl = cbs_len c - cbs_len h2; k = unat (lb AND 0x7f);
         finish = (\<lambda>m hl. if m \<le> cbs_len c
                    then (Some (CBS_init (cbs_data c) m, tag, hl), cbs_after m c) else (None, c))
     in if lb AND 0x80 = 0 then finish (size_add (unat lb) hl) hl
        else if ber_ok \<and> tag AND CBS_ASN1_CONSTRUCTED \<noteq> 0 \<and> k = 0 then finish hl hl
        else if k = 0 \<or> 4 < k then (None, c)
        else case cbs_get_u k h2 of
               (None, _) \<Rightarrow> (None, c)
             | (Some v, _) \<Rightarrow>
                 if v < 128 \<or> drop_bit ((k - 1) * 8) v = 0
                    \<or> size_add (size_add (unat v) hl) k < unat v then (None, c)
                 else finish (size_add (unat v) (size_add hl k)) (hl + k))"
  unfolding cbs_get_any_asn1_element_def assms prod.case option.case Let_def CBS_len_def element_finish
  by (simp split: prod.split option.split)

theorem cbs_get_any_asn1_element_sound:
  assumes get: "cbs_get_any_asn1_element ber_ok c = (Some e, c')" and wf: "wf_cbs c"
  obtains
    (definite) tag n rest where "cbs_view c = der_header tag n @ rest" and "n < 2 ^ 32" and "n \<le> length rest"
  | (indefinite) tag rest where "ber_ok" and "tag AND CBS_ASN1_CONSTRUCTED \<noteq> 0"
      and "cbs_view c = der_tag tag @ 0x80 # rest"
proof -
  obtain r h1 where r: "parse_asn1_tag c = (r, h1)" by fastforce
  have "r \<noteq> None"
    using get [unfolded cbs_get_any_asn1_element_def r prod.case] by (intro notI) simp
  then obtain tag where tag: "parse_asn1_tag c = (Some tag, h1)" using r by auto
  obtain r h2 where r: "CBS_get_u8 h1 = (r, h2)" by fastforce
  have "r \<noteq> None"
  proof
    assume "r = None"
    show False
      using get unfolding cbs_get_any_asn1_element_def tag r \<open>r = None\<close> prod.case option.case by simp
  qed
  then obtain lb where lb: "CBS_get_u8 h1 = (Some lb, h2)" using r by auto
  define t where "t = length (der_tag tag)"
  have h1: "h1 = cbs_after t c" "cbs_view c = der_tag tag @ cbs_view h1"
    using parse_asn1_tag_sound [OF tag wf] unfolding t_def by blast+
  have wf1: "wf_cbs h1" using wf unfolding h1(1) by simp
  obtain bs where view1: "cbs_view h1 = lb # bs" and "h2 = cbs_after 1 h1"
    using lb unfolding CBS_get_u8_eq [OF wf1] by (cases "cbs_view h1") auto
  then have h2: "h2 = cbs_after (Suc t) c" using h1(1) by simp
  have view: "cbs_view c = der_tag tag @ lb # bs" using h1(2) unfolding view1 .
  have len: "cbs_len c = t + Suc (length bs)"
    using length_cbs_view [OF wf] view by (simp add: t_def)
  have bound: "cbs_len c < 2 ^ 63" using wf by (simp add: wf_cbs_def)
  have hl: "cbs_len c - cbs_len h2 = Suc t" using len h2 by simp
  show thesis
  proof (cases "unat lb < 128")
    case True
    then have "lb AND 0x80 = 0" using and_80_iff [of lb] by simp
    then have "unat lb \<le> length bs"
      using get [unfolded element_step [OF tag lb] hl] len bound True
      by (auto simp: size_mod_def split: if_splits)
    then show thesis
      using True view by (intro definite [of tag "unat lb" bs]) (auto simp: der_header_def der_length_def)
  next
    case False
    define k where "k = unat lb - 128"
    have k: "unat (lb AND 0x7f) = k"
      using False unat_byte_less [of lb] by (simp add: unat_and_7f k_def le_mod_geq del: unat_byte_less)
    have "lb AND 0x80 \<noteq> 0" using and_80_iff [of lb] False by simp
    note get' = get [unfolded element_step [OF tag lb] hl k, folded k_def, simplified this, simplified]
    show thesis
    proof (cases "k = 0")
      case True
      then have "unat lb = 128" using False by (simp add: k_def)
      then have "lb = 0x80" by (simp add: word_unat_eq_iff)
      then show thesis
        using get' True view by (intro indefinite [of tag bs]) (auto split: if_splits)
    next
      case False
      then obtain v h3 where v: "cbs_get_u k h2 = (Some v, h3)"
        and k4: "k \<le> 4" and min: "\<not> v < 128" "drop_bit ((k - 1) * 8) v \<noteq> 0"
        and fin: "size_add (unat v) (size_add (Suc t) k) \<le> cbs_len c"
        using get' by (auto split: if_splits prod.splits option.splits)
      have view2: "cbs_view h2 = bs" using view h2 by (simp add: t_def)
      have kb: "k \<le> length bs" and v': "v = of_nat (be_val (take k bs))"
        using v k4 view2 wf h2 len by (auto simp: cbs_get_u_eq split: if_splits)
      define n where "n = be_val (take k bs)"
      have "n < 256 ^ k" using be_val_less [of "take k bs"] kb by (simp add: n_def)
      moreover have "(256 :: nat) ^ k \<le> 256 ^ 4" using k4 by (intro power_increasing) auto
      ultimately have n: "n < 2 ^ 32" "n < 256 ^ k" by simp_all
      then have u: "unat v = n" by (simp add: v' n_def [symmetric] unat_of_nat)
      have n128: "128 \<le> n" and "256 ^ (k - 1) \<le> n"
        using min u power_mult [of "2 :: nat" 8 "k - 1"]
        by (simp_all add: word_less_nat_alt drop_bit_eq_0_iff_unat mult.commute [of 8])
      then have "len_octets n = k" using False k4 n by (intro len_octets_eq) auto
      moreover have "be_bytes k n = take k bs" using kb by (simp add: n_def be_bytes_be_val_eq)
      moreover have "of_nat (128 + k) = lb"
        using \<open>\<not> unat lb < 128\<close> by (simp add: k_def word_unat_eq_iff del: of_nat_add)
      ultimately have "cbs_view c = der_header tag n @ drop k bs"
        using n128 view by (simp add: der_header_def der_length_def)
      moreover have "n \<le> length (drop k bs)"
        using fin u n(1) k4 bound len by (simp add: size_mod_def)
      ultimately show thesis using n by (intro definite)
    qed
  qed
qed

end
