(* ===== verification/Cbb_Spec.thy ===== *)
theory Cbb_Spec
  imports Cbb Der
begin

text \<open>
  What the builder promises. The abstract builder keeps the contents of every open
  \<open>CBB\<close> apart (\<open>builder\<close>, \<open>spec_flush\<close>, \<open>spec_write\<close>, \<open>spec_open\<close>); the abstraction
  function \<open>abs_from\<close> cuts the one buffer of the code at the offsets of its children, and
  the lemmas show that the operations of \<open>Cbb\<close> refine the abstract ones: what they write,
  that they fail only by setting the error flag, and that they do not fail when memory is
  plentiful.
\<close>

section \<open>The buffer\<close>

definition bb_data :: "cbb_buffer \<Rightarrow> byte list" where
  "bb_data b = take (bb_len b) (bb_buf b)"

definition wf_buffer :: "cbb_buffer \<Rightarrow> bool" where
  "wf_buffer b \<longleftrightarrow> bb_len b \<le> bb_cap b \<and> length (bb_buf b) = bb_cap b \<and> bb_cap b + 8 < 2 ^ 63 \<and> \<not> bb_error b"

text \<open>
  Enough memory: the allocator grants every request below \<open>2 ^ 40\<close> bytes, and the buffer
  can grow and has at most \<open>2 ^ 39\<close>. Then data of less than \<open>2 ^ 38\<close> bytes is always
  accepted.
\<close>

definition plenty :: "alloc \<Rightarrow> bool" where
  "plenty env \<longleftrightarrow> (\<forall>m < 2 ^ 40. malloc_ok env m)"

definition room :: "cbb_buffer \<Rightarrow> bool" where
  "room b \<longleftrightarrow> bb_can_resize b \<and> bb_cap b < 2 ^ 39"

lemma length_bb_data [simp]: "wf_buffer b \<Longrightarrow> length (bb_data b) = bb_len b"
  by (simp add: wf_buffer_def bb_data_def)

text \<open>What a buffer operation may do to the buffer besides adding the bytes \<open>w\<close>.\<close>

definition grows :: "cbb_buffer \<Rightarrow> byte list \<Rightarrow> cbb_buffer \<Rightarrow> bool" where
  "grows b w b' \<longleftrightarrow> wf_buffer b' \<and> bb_data b' = bb_data b @ w \<and> bb_can_resize b' = bb_can_resize b"

lemma cbb_buffer_reserve_cases:
  assumes "wf_buffer b" and "malloc_bounded env" and "n < 2 ^ 63"
  obtains (ok) b' where "cbb_buffer_reserve env n b = (Some (bb_len b), b')" and "grows b [] b'"
      and "bb_len b' = bb_len b" and "bb_len b + n \<le> bb_cap b'" and "room b \<Longrightarrow> bb_len b + n < 2 ^ 38 \<Longrightarrow> room b'"
  | (fail) "cbb_buffer_reserve env n b = (None, b\<lparr>bb_error := True\<rparr>)"
      and "bb_cap b < bb_len b + n" and "plenty env \<Longrightarrow> room b \<Longrightarrow> 2 ^ 38 \<le> bb_len b + n"
proof -
  have cap: "bb_len b \<le> bb_cap b" "length (bb_buf b) = bb_cap b" "bb_cap b + 8 < 2 ^ 63"
    using assms(1) by (simp_all add: wf_buffer_def)
  then have small: "bb_len b + n < size_mod" "bb_cap b * 2 < size_mod"
    using assms(3) by (simp_all add: size_mod_def)
  show thesis
  proof (cases "bb_len b + n \<le> bb_cap b")
    case True
    then show thesis
      using small assms(1)
      by (intro ok [of b]) (simp_all add: cbb_buffer_reserve_def grows_def)
  next
    case grow: False
    show thesis
    proof (cases "bb_can_resize b")
      case False
      then show thesis
        using grow small by (intro fail) (simp_all add: cbb_buffer_reserve_def bb_fail_def room_def)
    next
      case True
      define newcap where "newcap = (if bb_cap b * 2 < bb_len b + n then bb_len b + n else bb_cap b * 2)"
      have nc: "bb_len b + n \<le> newcap" "bb_cap b \<le> newcap" "newcap + 8 < size_mod"
        using grow cap assms(3) by (simp_all add: newcap_def size_mod_def)
      have code: "cbb_buffer_reserve env n b =
         (case OPENSSL_realloc env (Some (bb_buf b)) newcap of
            None \<Rightarrow> (None, b\<lparr>bb_error := True\<rparr>)
          | Some newbuf \<Rightarrow> (Some (bb_len b), b\<lparr>bb_buf := newbuf, bb_cap := newcap\<rparr>))"
        using True small grow by (simp add: cbb_buffer_reserve_def bb_fail_def newcap_def Let_def split: option.split)
      show thesis
      proof (cases "OPENSSL_realloc env (Some (bb_buf b)) newcap")
        case None
        have "2 ^ 38 \<le> bb_len b + n" if "plenty env" "room b"
        proof (rule ccontr)
          assume "\<not> 2 ^ 38 \<le> bb_len b + n"
          then have "newcap + 8 < 2 ^ 40"
            using grow by (simp add: newcap_def)
          then have "\<exists>p. OPENSSL_realloc env (Some (bb_buf b)) newcap = Some p"
            using that nc(3) by (intro OPENSSL_realloc_grants) (simp_all add: plenty_def)
          then show False using None by simp
        qed
        then show thesis
          using None code grow by (intro fail) simp_all
      next
        case (Some p)
        have p: "length p = newcap" "take (bb_cap b) p = bb_buf b"
          using OPENSSL_realloc_grow [OF Some] nc cap by simp_all
        moreover have "take (bb_len b) p = take (bb_len b) (bb_buf b)"
          using cap(1) unfolding p(2) [symmetric] by (simp add: min_def)
        moreover have "newcap + 8 < 2 ^ 63"
          using OPENSSL_realloc_bound [OF Some assms(2) nc(3)] .
        moreover have "newcap < 2 ^ 39" if "bb_len b + n < 2 ^ 38"
          using that grow by (simp add: newcap_def)
        ultimately show thesis
          using Some code nc assms(1)
          by (intro ok [of "b\<lparr>bb_buf := p, bb_cap := newcap\<rparr>"])
             (simp_all add: grows_def wf_buffer_def bb_data_def room_def)
      qed
    qed
  qed
qed

lemma cbb_buffer_add_cases:
  assumes "wf_buffer b" and "malloc_bounded env" and "n < 2 ^ 63"
  obtains (ok) b' where "cbb_buffer_add env n b = (Some (bb_len b), b')"
      and "wf_buffer b'" and "bb_len b' = bb_len b + n" and "take (bb_len b) (bb_buf b') = bb_data b"
      and "bb_can_resize b' = bb_can_resize b" and "room b \<Longrightarrow> bb_len b + n < 2 ^ 38 \<Longrightarrow> room b'"
  | (fail) "cbb_buffer_add env n b = (None, b\<lparr>bb_error := True\<rparr>)"
      and "plenty env \<Longrightarrow> room b \<Longrightarrow> 2 ^ 38 \<le> bb_len b + n"
proof (rule cbb_buffer_reserve_cases [OF assms])
  fix b'
  assume *: "cbb_buffer_reserve env n b = (Some (bb_len b), b')" "grows b [] b'" "bb_len b' = bb_len b"
    "bb_len b + n \<le> bb_cap b'" "room b \<Longrightarrow> bb_len b + n < 2 ^ 38 \<Longrightarrow> room b'"
  then have "take (bb_len b) (bb_buf b') = bb_data b"
    by (simp add: grows_def bb_data_def)
  with * show thesis
    by (intro ok [of "b'\<lparr>bb_len := bb_len b' + n\<rparr>"])
       (simp_all add: cbb_buffer_add_def act_bind_def grows_def wf_buffer_def room_def)
qed (auto intro: fail simp: cbb_buffer_add_def act_bind_def)

text \<open>The loop writes the low \<open>n\<close> bytes, most significant first.\<close>

lemma put_be_eq:
  "pos + n \<le> length buf \<Longrightarrow>
   put_be buf pos n v = (take pos buf @ be_bytes n v @ drop (pos + n) buf, v div 256 ^ n)"
proof (induction n arbitrary: buf v)
  case (Suc n)
  then have "drop (pos + n) (buf[pos + n := of_nat v]) = of_nat v # drop (pos + Suc n) buf"
    by (subst Cons_nth_drop_Suc [symmetric]) simp_all
  then show ?case
    using Suc by (simp add: div_mult2_eq)
qed simp

section \<open>Operations that append\<close>

text \<open>
  The contract of the buffer operations that write: \<open>f\<close> adds the bytes \<open>w\<close>, or sets
  the error flag, and it does not do the latter when memory is plentiful.
\<close>

definition appends :: "alloc \<Rightarrow> (cbb_buffer, 'a) action \<Rightarrow> byte list \<Rightarrow> cbb_buffer \<Rightarrow> bool" where
  "appends env f w b \<longleftrightarrow>
     (case f b of
        (Some _, b') \<Rightarrow> grows b w b' \<and> (room b \<and> bb_len b + length w < 2 ^ 38 \<longrightarrow> room b')
      | (None, b') \<Rightarrow> bb_error b' \<and> (plenty env \<and> room b \<longrightarrow> 2 ^ 38 \<le> bb_len b + length w))"

lemma appends_add_then:
  assumes "wf_buffer b" and "malloc_bounded env" and "length w < 2 ^ 63"
    and f: "\<And>b'. length (bb_buf b') = bb_cap b' \<Longrightarrow> bb_len b + length w \<le> bb_cap b' \<Longrightarrow>
       f (bb_len b) b' = (Some r, b'\<lparr>bb_buf :=
          take (bb_len b) (bb_buf b') @ w @ drop (bb_len b + length w) (bb_buf b')\<rparr>)"
  shows "appends env (act_bind (cbb_buffer_add env (length w)) f) w b"
proof (rule cbb_buffer_add_cases [OF assms(1-3)])
  fix b'
  assume add: "cbb_buffer_add env (length w) b = (Some (bb_len b), b')"
    and b': "wf_buffer b'" "bb_len b' = bb_len b + length w" "take (bb_len b) (bb_buf b') = bb_data b"
      "bb_can_resize b' = bb_can_resize b" "room b \<Longrightarrow> bb_len b + length w < 2 ^ 38 \<Longrightarrow> room b'"
  have "f (bb_len b) b' = (Some r, b'\<lparr>bb_buf :=
          take (bb_len b) (bb_buf b') @ w @ drop (bb_len b + length w) (bb_buf b')\<rparr>)"
    using b' by (intro f) (simp_all add: wf_buffer_def)
  with add b' show ?thesis
    using length_bb_data [OF assms(1)]
    by (simp add: appends_def grows_def wf_buffer_def bb_data_def [of "bb_buf_update _ _"] room_def)
next
  assume "cbb_buffer_add env (length w) b = (None, b\<lparr>bb_error := True\<rparr>)"
    and "plenty env \<Longrightarrow> room b \<Longrightarrow> 2 ^ 38 \<le> bb_len b + length w"
  then show ?thesis by (auto simp: appends_def)
qed

lemma appends_add_u:
  assumes "wf_buffer b" and "malloc_bounded env" and "n \<le> 8" and "unat v < 256 ^ n"
  shows "appends env (cbb_buffer_add_u env v n) (be_bytes n (unat v)) b"
proof (cases "n = 0")
  case True
  then show ?thesis
    using assms(1) by (simp add: appends_def cbb_buffer_add_u_def act_simps grows_def)
next
  case False
  have "appends env (act_bind (cbb_buffer_add env (length (be_bytes n (unat v))))
       (\<lambda>pos b. let (buf, v) = put_be (bb_buf b) pos n (unat v);
            b = b\<lparr>bb_buf := buf\<rparr>
        in if v \<noteq> 0 then bb_fail b else (Some (), b))) (be_bytes n (unat v)) b"
    using assms by (intro appends_add_then) (simp_all add: put_be_eq)
  then show ?thesis
    using False by (simp add: cbb_buffer_add_u_def)
qed

lemma appends_put_bytes:
  assumes "wf_buffer b" and "malloc_bounded env" and "length w < 2 ^ 63"
  shows "appends env (act_bind (cbb_buffer_add env (length w)) (\<lambda>dest. put_bytes dest w)) w b"
  using assms by (intro appends_add_then) (simp_all add: put_bytes_def)

lemma appends_zeros:
  assumes "wf_buffer b" and "malloc_bounded env" and "n < 2 ^ 63"
  shows "appends env (act_bind (cbb_buffer_add env n) (\<lambda>prefix b.
       (Some prefix, b\<lparr>bb_buf := take prefix (bb_buf b) @ replicate n 0 @
                                  drop (prefix + n) (bb_buf b)\<rparr>))) (replicate n 0) b"
proof -
  have "appends env (act_bind (cbb_buffer_add env (length (replicate n (0 :: byte)))) (\<lambda>prefix b.
       (Some prefix, b\<lparr>bb_buf := take prefix (bb_buf b) @ replicate n 0 @
                                  drop (prefix + n) (bb_buf b)\<rparr>))) (replicate n 0) b"
    using assms by (intro appends_add_then) simp_all
  then show ?thesis by simp
qed

section \<open>The abstract builder\<close>

text \<open>
  A builder is its own contents followed by the open children, outermost first, each with
  the prefix it will get and its contents. Closing a child puts the prefix and the contents
  into its parent.
\<close>

datatype prefix = Fixed nat | DerLength

type_synonym builder = "byte list \<times> (prefix \<times> byte list) list"

fun enc_prefix :: "prefix \<Rightarrow> byte list \<Rightarrow> byte list option" where
  "enc_prefix (Fixed n) c = (if length c < 256 ^ n then Some (be_bytes n (length c) @ c) else None)"
| "enc_prefix DerLength c = (if length c < 2 ^ 32 - 1 then Some (der_length (length c) @ c) else None)"

fun spec_close :: "byte list \<Rightarrow> (prefix \<times> byte list) list \<Rightarrow> byte list option" where
  "spec_close c [] = Some c"
| "spec_close c ((p, x) # fs) =
     Option.bind (spec_close x fs) (\<lambda>y. map_option (\<lambda>e. c @ e) (enc_prefix p y))"

text \<open>Closing every child below depth \<open>d\<close>.\<close>

fun spec_flush :: "nat \<Rightarrow> builder \<Rightarrow> builder option" where
  "spec_flush 0 (c, fs) = map_option (\<lambda>y. (y, [])) (spec_close c fs)"
| "spec_flush (Suc d) (c, []) = None"
| "spec_flush (Suc d) (c, (p, x) # fs) =
     map_option (\<lambda>(y, gs). (c, (p, y) # gs)) (spec_flush d (x, fs))"

fun spec_append :: "byte list \<Rightarrow> builder \<Rightarrow> builder" where
  "spec_append w (c, []) = (c @ w, [])"
| "spec_append w (c, (p, x) # fs) = (let (y, gs) = spec_append w (x, fs) in (c, (p, y) # gs))"

definition spec_write :: "nat \<Rightarrow> byte list \<Rightarrow> builder \<Rightarrow> builder option" where
  "spec_write d w st = map_option (spec_append w) (spec_flush d st)"

definition spec_open :: "nat \<Rightarrow> prefix \<Rightarrow> builder \<Rightarrow> builder option" where
  "spec_open d p st = map_option (\<lambda>(c, fs). (c, fs @ [(p, [])])) (spec_flush d st)"

section \<open>The abstraction function\<close>

definition kid_prefix :: "cbb_child \<Rightarrow> prefix" where
  "kid_prefix k = (if k_pending_is_asn1 k then DerLength else Fixed (k_pending_len_len k))"

abbreviation kid_start :: "cbb_child \<Rightarrow> nat" where
  "kid_start k \<equiv> k_offset k + k_pending_len_len k"

fun abs_from :: "nat \<Rightarrow> byte list \<Rightarrow> cbb_child list \<Rightarrow> builder" where
  "abs_from s dat [] = (drop s dat, [])"
| "abs_from s dat (k # ks) =
     (drop s (take (k_offset k) dat), (case abs_from (kid_start k) dat ks of (x, fs) \<Rightarrow> (kid_prefix k, x) # fs))"

fun wf_kids :: "nat \<Rightarrow> cbb_child list \<Rightarrow> nat \<Rightarrow> bool" where
  "wf_kids s [] n \<longleftrightarrow> s \<le> n"
| "wf_kids s (k # ks) n \<longleftrightarrow>
     s \<le> k_offset k \<and> 1 \<le> k_pending_len_len k \<and> k_pending_len_len k \<le> 8 \<and>
     (k_pending_is_asn1 k \<longrightarrow> k_pending_len_len k = 1) \<and> wf_kids (kid_start k) ks n"

lemma wf_kids_le: "wf_kids s ks n \<Longrightarrow> s \<le> n"
  by (induction ks arbitrary: s) fastforce+

lemma wf_kids_mono: "wf_kids s ks n \<Longrightarrow> n \<le> m \<Longrightarrow> wf_kids s ks m"
  by (induction ks arbitrary: s) auto

lemma abs_from_append:
  "wf_kids s ks (length dat) \<Longrightarrow> abs_from s (dat @ w) ks = spec_append w (abs_from s dat ks)"
proof (induction ks arbitrary: s)
  case (Cons k ks)
  then have "k_offset k \<le> length dat" using wf_kids_le by fastforce
  then show ?case using Cons by (auto split: prod.split)
qed simp

lemma wf_kids_snoc:
  "wf_kids s (ks @ [k]) n \<longleftrightarrow>
     wf_kids s ks (k_offset k) \<and> 1 \<le> k_pending_len_len k \<and> k_pending_len_len k \<le> 8 \<and>
     (k_pending_is_asn1 k \<longrightarrow> k_pending_len_len k = 1) \<and> kid_start k \<le> n"
  by (induction ks arbitrary: s) auto

lemma abs_from_open:
  "wf_kids s ks (length dat) \<Longrightarrow> k_offset k = length dat \<Longrightarrow> length w = k_pending_len_len k \<Longrightarrow>
   abs_from s (dat @ w) (ks @ [k]) = (case abs_from s dat ks of (c, fs) \<Rightarrow> (c, fs @ [(kid_prefix k, [])]))"
proof (induction ks arbitrary: s)
  case (Cons k' ks)
  then have "k_offset k' \<le> length dat" using wf_kids_le by fastforce
  then show ?case using Cons by (auto split: prod.split)
qed simp

text \<open>The bytes in front of the subtree do not matter to it.\<close>

lemma length_abs_from [simp]: "length (snd (abs_from s dat ks)) = length ks"
  by (induction ks arbitrary: s) (auto split: prod.split, metis snd_conv)

section \<open>Closing one child\<close>

lemma bb_data_write:
  assumes "wf_buffer b" and "pos + length w \<le> bb_len b"
  shows "bb_data (b\<lparr>bb_buf := take pos (bb_buf b) @ w @ drop (pos + length w) (bb_buf b)\<rparr>) =
      take pos (bb_data b) @ w @ drop (pos + length w) (bb_data b)"
    and "wf_buffer (b\<lparr>bb_buf := take pos (bb_buf b) @ w @ drop (pos + length w) (bb_buf b)\<rparr>)"
proof -
  have "bb_len b \<le> length (bb_buf b)" using assms(1) by (simp add: wf_buffer_def)
  moreover from this have "bb_len b - (pos + length w) = bb_len b - length w - pos" by simp
  ultimately show "bb_data (b\<lparr>bb_buf := take pos (bb_buf b) @ w @ drop (pos + length w) (bb_buf b)\<rparr>) =
      take pos (bb_data b) @ w @ drop (pos + length w) (bb_data b)"
    and "wf_buffer (b\<lparr>bb_buf := take pos (bb_buf b) @ w @ drop (pos + length w) (bb_buf b)\<rparr>)"
    using assms by (auto simp: bb_data_def wf_buffer_def drop_take min_absorb1 min_absorb2 add.commute)
qed

text \<open>What closing a child guarantees; \<open>e\<close> is the encoded child, at \<open>pos\<close>.\<close>

definition closes :: "alloc \<Rightarrow> nat \<Rightarrow> byte list option \<Rightarrow> cbb_buffer \<Rightarrow>
    bool \<times> cbb_buffer \<times> cbb_child list \<Rightarrow> bool" where
  "closes env pos e b res \<longleftrightarrow>
     (case res of (ok, b', ks') \<Rightarrow>
        if ok then ks' = [] \<and> wf_buffer b' \<and> bb_can_resize b' = bb_can_resize b \<and>
           (\<exists>y. e = Some y \<and> bb_data b' = take pos (bb_data b) @ y) \<and>
           (room b \<and> bb_len b' < 2 ^ 38 \<longrightarrow> room b')
        else bb_error b' \<and> (plenty env \<and> room b \<longrightarrow> (\<forall>y. e = Some y \<longrightarrow> 2 ^ 38 \<le> pos + length y)))"

lemma close_kid_fixed:
  assumes "wf_buffer b" and "kid_start k \<le> bb_len b" and "\<not> k_pending_is_asn1 k"
  shows "closes env (k_offset k) (enc_prefix (kid_prefix k) (drop (kid_start k) (bb_data b))) b
    (close_kid env k (kid_start k) (bb_len b - kid_start k) ks b)"
proof -
  define n where "n = bb_len b - kid_start k"
  define w where "w = be_bytes (k_pending_len_len k) n"
  have "put_be (bb_buf b) (k_offset k) (k_pending_len_len k) n =
      (take (k_offset k) (bb_buf b) @ w @ drop (k_offset k + length w) (bb_buf b), n div 256 ^ k_pending_len_len k)"
    using assms by (subst put_be_eq) (simp_all add: w_def wf_buffer_def)
  moreover have "n div 256 ^ k_pending_len_len k = 0 \<longleftrightarrow> n < 256 ^ k_pending_len_len k"
    by (simp add: div_eq_0_iff)
  moreover have "k_offset k + length w \<le> bb_len b" using assms by (simp add: w_def)
  note bb_data_write [OF assms(1) this]
  moreover have "length (drop (kid_start k) (bb_data b)) = n"
    using assms by (simp add: n_def)
  ultimately show ?thesis
    using assms(3) unfolding n_def [symmetric] closes_def close_kid_def kid_prefix_def
    by (auto simp: w_def room_def)
qed

lemma len_len_code:
  assumes "n \<le> 0xfffffffe" and "\<not> n \<le> 0x7f"
  shows "(if n > 0xffffff then (5, 0x84, n) else if n > 0xffff then (4, 0x83, n)
      else if n > 0xff then (3, 0x82, n) else if n > 0x7f then (2, 0x81, n) else (1, of_nat n, 0)) =
    (Suc (len_octets n), of_nat (128 + len_octets n) :: byte, n)"
  using assms by (auto simp: len_octets_def)

lemma der_length_long:
  "\<not> n \<le> 0x7f \<Longrightarrow> der_length n = of_nat (128 + len_octets n) # be_bytes (len_octets n) n"
  by (simp add: der_length_def)

text \<open>The memory after the contents \<open>y\<close> have moved up by \<open>e\<close> and the prefix is written.\<close>

lemma move_along:
  assumes "length p = pos" and "length y = n" and "e \<le> length rest"
  shows "let buf = p @ z # y @ rest;
             buf = take (Suc pos + e) buf @ take n (drop (Suc pos) buf) @ drop (Suc pos + e + n) buf;
             buf = buf[pos := x]
         in length buf = length (p @ z # y @ rest) \<and>
            put_be buf (Suc pos) e v = (p @ x # be_bytes e v @ y @ drop e rest, v div 256 ^ e)"
proof -
  define m where "m = take e (y @ rest)"
  have m: "length m = e" using assms(3) by (simp add: m_def)
  have "take (Suc pos + e) (p @ z # y @ rest) = p @ z # m"
    using assms by (simp add: m_def)
  moreover have "drop (Suc pos + e + n) (p @ z # y @ rest) = drop e rest"
    using assms by (simp add: drop_Cons')
  ultimately have buf: "take (Suc pos + e) (p @ z # y @ rest) @
        take n (drop (Suc pos) (p @ z # y @ rest)) @ drop (Suc pos + e + n) (p @ z # y @ rest) =
      p @ z # m @ y @ drop e rest"
    using assms by simp
  then show ?thesis
    using assms m by (simp add: Let_def buf [simplified] list_update_append put_be_eq)
qed

lemma close_kid_asn1_long:
  assumes "wf_buffer b" and "malloc_bounded env" and "k_pending_is_asn1 k" and "bb_len b = Suc (k_offset k) + n"
    and "y = drop (Suc (k_offset k)) (bb_data b)" and "n \<le> 0xfffffffe" and "\<not> n \<le> 0x7f"
  shows "closes env (k_offset k) (Some (der_length n @ y)) b (close_kid env k (Suc (k_offset k)) n ks b)"
proof -
  define e where "e = len_octets n"
  define x :: byte where "x = 128 + of_nat e"
  have e: "1 \<le> e" "e \<le> 4" "n < 256 ^ e"
    using len_octets_range [of n] len_octets_bounds [of n] assms(6,7) by (simp_all add: e_def)
  have n0: "n div 256 ^ e = 0" using e(3) by simp
  have der: "der_length n = x # be_bytes e n" using assms(7) by (simp add: der_length_def e_def x_def)
  note code = close_kid_def flush_asn1_prefix_def if_P [OF assms(3)] len_len_code [OF assms(6,7)]
  have e63: "e < 2 ^ 63" using e by simp
  show ?thesis
  proof (rule cbb_buffer_add_cases [OF assms(1,2) e63])
    fix b1
    assume add: "cbb_buffer_add env e b = (Some (bb_len b), b1)"
      and b1: "wf_buffer b1" "bb_len b1 = bb_len b + e" "take (bb_len b) (bb_buf b1) = bb_data b"
        "bb_can_resize b1 = bb_can_resize b" "room b \<Longrightarrow> bb_len b + e < 2 ^ 38 \<Longrightarrow> room b1"
    define p where "p = take (k_offset k) (bb_data b)"
    define z where "z = bb_data b ! k_offset k"
    define rest where "rest = drop (bb_len b) (bb_buf b1)"
    have data: "bb_data b = p @ z # y" 
      using assms length_bb_data [OF assms(1)] by (simp add: p_def z_def id_take_nth_drop)
    then have buf1: "bb_buf b1 = p @ z # y @ rest"
      using b1(3) append_take_drop_id [of "bb_len b" "bb_buf b1"] by (simp add: rest_def)
    have lens: "length p = k_offset k" "length y = n" 
      using assms length_bb_data [OF assms(1)] by (simp_all add: p_def)
    have rest: "e \<le> length rest"
      using b1(1,2) by (auto simp: rest_def wf_buffer_def)
    note mv = move_along [OF lens rest, of z x n, folded buf1, unfolded Let_def]
    define b' where "b' = b1\<lparr>bb_buf := p @ x # be_bytes e n @ y @ drop e rest\<rparr>"
    have "close_kid env k (Suc (k_offset k)) n ks b = (True, b', [])"
      using assms(6,3) add mv e n0
      by (simp add: code act_bind_def act_simps e_def [symmetric] x_def [symmetric] b'_def)
    moreover have "bb_data b' = p @ der_length n @ y"
      using b1(2) assms(4) lens der by (simp add: b'_def bb_data_def)
    moreover have "wf_buffer b'"
      using b1(1) buf1 rest by (simp add: b'_def wf_buffer_def)
    ultimately show ?thesis
      using b1 by (simp add: closes_def p_def b'_def room_def)
  next
    assume "cbb_buffer_add env e b = (None, b\<lparr>bb_error := True\<rparr>)"
      and "plenty env \<Longrightarrow> room b \<Longrightarrow> 2 ^ 38 \<le> bb_len b + e"
    moreover have "length (der_length n @ y) = Suc e + n"
      using assms by (simp add: der)
    ultimately show ?thesis
      using assms(3,4,6) e
      by (auto simp: closes_def code act_bind_def act_simps e_def [symmetric])
  qed
qed

lemma close_kid_asn1:
  assumes "wf_buffer b" and "malloc_bounded env" and "kid_start k \<le> bb_len b"
    and "k_pending_is_asn1 k" and "k_pending_len_len k = 1"
  shows "closes env (k_offset k) (enc_prefix (kid_prefix k) (drop (kid_start k) (bb_data b))) b
    (close_kid env k (kid_start k) (bb_len b - kid_start k) ks b)"
proof -
  define n where "n = bb_len b - kid_start k"
  define y where "y = drop (kid_start k) (bb_data b)"
  have y: "length y = n" using assms by (simp add: y_def n_def)
  have start: "kid_start k = Suc (k_offset k)" using assms(5) by simp
  have len: "bb_len b = Suc (k_offset k) + n" using assms(3) start by (simp add: n_def)
  have data: "bb_data b = take (Suc (k_offset k)) (bb_data b) @ y" by (simp add: y_def start)
  show ?thesis
    unfolding n_def [symmetric] y_def [symmetric]
  proof (cases "n \<le> 0xfffffffe")
    case False
    then show "closes env (k_offset k) (enc_prefix (kid_prefix k) y) b (close_kid env k (kid_start k) n ks b)"
      using assms(4) y
      by (simp add: closes_def close_kid_def flush_asn1_prefix_def act_simps kid_prefix_def)
  next
    case fits: True
    then have enc: "enc_prefix (kid_prefix k) y = Some (der_length n @ y)"
      using assms(4) y by (simp add: kid_prefix_def)
    show "closes env (k_offset k) (enc_prefix (kid_prefix k) y) b (close_kid env k (kid_start k) n ks b)"
    proof (cases "n \<le> 0x7f")
      case True
      define b' where "b' = b\<lparr>bb_buf := (bb_buf b)[k_offset k := of_nat n]\<rparr>"
      have "k_offset k < length (bb_buf b)" using assms(1) len by (simp add: wf_buffer_def)
      then have "b' = b\<lparr>bb_buf := take (k_offset k) (bb_buf b) @ [of_nat n] @ drop (k_offset k + length [of_nat n :: byte]) (bb_buf b)\<rparr>"
        by (simp add: b'_def upd_conv_take_nth_drop)
      then have "wf_buffer b'" and "bb_data b' = take (k_offset k) (bb_data b) @ [of_nat n] @ y"
        using bb_data_write [OF assms(1), of "k_offset k" "[of_nat n]"] len by (simp_all add: y_def start)
      moreover have "close_kid env k (kid_start k) n ks b = (True, b', [])"
        using True fits assms(4) by (simp add: close_kid_def flush_asn1_prefix_def act_bind_def act_simps b'_def)
      moreover have "der_length n = [of_nat n]" using True by (simp add: der_length_def)
      ultimately show ?thesis
        by (simp add: closes_def enc b'_def room_def)
    next
      case False
      then show ?thesis
        using close_kid_asn1_long [OF assms(1,2,4) len y_def [unfolded start] fits False] start enc
        by simp
    qed
  qed
qed

section \<open>Flushing\<close>

lemma close_kid_closes:
  assumes "wf_buffer b" and "malloc_bounded env" and "kid_start k \<le> bb_len b"
    and "k_pending_is_asn1 k \<Longrightarrow> k_pending_len_len k = 1"
  shows "closes env (k_offset k) (enc_prefix (kid_prefix k) (drop (kid_start k) (bb_data b))) b
    (close_kid env k (kid_start k) (bb_len b - kid_start k) ks b)"
  using close_kid_asn1 [OF assms(1-3)] close_kid_fixed [OF assms(1,3)] assms(4)
  by (cases "k_pending_is_asn1 k") blast+

lemma enc_prefix_length: "enc_prefix p y = Some e \<Longrightarrow> length y \<le> length e"
  by (cases p) (auto split: if_splits)

lemma enc_prefix_kid_length:
  "enc_prefix (kid_prefix k) y = Some e \<Longrightarrow> (k_pending_is_asn1 k \<Longrightarrow> k_pending_len_len k = 1) \<Longrightarrow>
   k_pending_len_len k + length y \<le> length e"
  by (auto simp: kid_prefix_def der_length_def split: if_splits)

lemma spec_close_length: "spec_close c fs = Some y \<Longrightarrow> length c \<le> length y"
  by (cases "(c, fs)" rule: spec_close.cases) (auto simp: bind_eq_Some_conv)

text \<open>The same closing, seen from a parent whose contents start at \<open>s\<close>.\<close>

lemma closes_outer:
  assumes "closes env pos e bm res" and "take pos (bb_data bm) = take s (bb_data b) @ w"
    and "pos = s + length w" and "\<And>y. e = Some y \<Longrightarrow> bb_len bm \<le> pos + length y"
    and "pos \<le> length (bb_data bm)" and "bb_can_resize bm = bb_can_resize b"
    and "room b \<Longrightarrow> bb_len bm < 2 ^ 38 \<Longrightarrow> room bm"
  shows "closes env s (map_option (\<lambda>y. w @ y) e) b res"
proof -
  obtain ok b' ks' where res: "res = (ok, b', ks')" by (cases res)
  show ?thesis
  proof (cases ok)
    case True
    obtain y where *: "ks' = []" "wf_buffer b'" "bb_can_resize b' = bb_can_resize b" "e = Some y"
      "bb_data b' = take s (bb_data b) @ w @ y" "room bm \<Longrightarrow> bb_len b' < 2 ^ 38 \<Longrightarrow> room b'"
      using True assms(1,2,6) by (auto simp: closes_def res)
    have "bb_data b' = take pos (bb_data bm) @ y" using *(5) assms(2) by simp
    then have "bb_len b' = pos + length y"
      using assms(5) length_bb_data [OF *(2)] by (metis length_append length_take min.absorb2)
    then show ?thesis
      using * assms(7) assms(4) [OF *(4)] True by (auto simp: closes_def res)
  next
    case False
    then show ?thesis
      using assms(1,3,4,7) by (fastforce simp: closes_def res)
  qed
qed

lemma flush_kids_closes:
  assumes "wf_buffer b" and "malloc_bounded env" and "wf_kids s ks (bb_len b)"
  shows "closes env s (case abs_from s (bb_data b) ks of (c, fs) \<Rightarrow> spec_close c fs) b (flush_kids env ks b)"
  using assms(1,3)
proof (induction ks arbitrary: s)
  case Nil
  then have "bb_data b = take s (bb_data b) @ drop s (bb_data b)" by simp
  then show ?case using Nil by (simp add: closes_def wf_buffer_def)
next
  case (Cons k ks)
  obtain c fs where sub: "abs_from (kid_start k) (bb_data b) ks = (c, fs)" by fastforce
  obtain ok b1 ks1 where fl: "flush_kids env ks b = (ok, b1, ks1)" by (cases "flush_kids env ks b") auto
  have IH: "closes env (kid_start k) (spec_close c fs) b (ok, b1, ks1)"
    using Cons sub fl by fastforce
  have k: "s \<le> k_offset k" "1 \<le> k_pending_len_len k" "k_pending_len_len k \<le> 8"
    "k_pending_is_asn1 k \<Longrightarrow> k_pending_len_len k = 1" and le: "kid_start k \<le> bb_len b"
    using Cons.prems(2) wf_kids_le by auto
  have cs: "size_add (k_offset k) (k_pending_len_len k) = kid_start k"
    using Cons.prems(1) le by (simp add: wf_buffer_def size_mod_def)
  have pre: "take (k_offset k) (bb_data b) = take s (bb_data b) @ drop s (take (k_offset k) (bb_data b))"
    using k(1) by (metis append_take_drop_id min.absorb_iff1 take_take)
  have abs: "(case abs_from s (bb_data b) (k # ks) of (c, fs) \<Rightarrow> spec_close c fs) =
     Option.bind (spec_close c fs) (\<lambda>y. map_option (\<lambda>e. drop s (take (k_offset k) (bb_data b)) @ e)
        (enc_prefix (kid_prefix k) y))"
    by (simp add: sub)
  have lens: "length (drop s (take (k_offset k) (bb_data b))) = k_offset k - s"
    using Cons.prems(1) le by (simp add: min_absorb2)
  show ?case
  proof (cases ok)
    case False
    then have "bb_error b1" and small: "plenty env \<and> room b \<longrightarrow> (\<forall>y. spec_close c fs = Some y \<longrightarrow> 2 ^ 38 \<le> kid_start k + length y)"
      using IH by (simp_all add: closes_def)
    have "flush_kids env (k # ks) b = (False, b1\<lparr>bb_error := True\<rparr>, k # ks1)"
      using False Cons.prems(1) fl k by (simp add: wf_buffer_def)
    moreover have "2 ^ 38 \<le> s + length y'"
      if prems: "plenty env" "room b" "(case abs_from s (bb_data b) (k # ks) of (c, fs) \<Rightarrow> spec_close c fs) = Some y'" for y'
    proof -
      obtain y e where y: "spec_close c fs = Some y" and e: "enc_prefix (kid_prefix k) y = Some e"
        and y': "y' = drop s (take (k_offset k) (bb_data b)) @ e"
        using prems(3) unfolding abs by (auto simp: bind_eq_Some_conv)
      have "k_pending_len_len k + length y \<le> length e"
        using e k(4) by (rule enc_prefix_kid_length)
      then show ?thesis
        using small prems(1,2) y k lens unfolding y' by fastforce
    qed
    ultimately show ?thesis by (simp add: closes_def)
  next
    case True
    then obtain y where ks1: "ks1 = []" and b1: "wf_buffer b1" "bb_can_resize b1 = bb_can_resize b"
      and y: "spec_close c fs = Some y" and data: "bb_data b1 = take (kid_start k) (bb_data b) @ y"
      and rm: "room b \<Longrightarrow> bb_len b1 < 2 ^ 38 \<Longrightarrow> room b1"
      using IH by (auto simp: closes_def)
    have len1: "bb_len b1 = kid_start k + length y"
      using arg_cong [OF data, of length] length_bb_data [OF b1(1)] length_bb_data [OF Cons.prems(1)] le by simp
    have code: "flush_kids env (k # ks) b = close_kid env k (kid_start k) (bb_len b1 - kid_start k) [] b1"
      using True Cons.prems(1) fl k ks1 len1 by (simp add: wf_buffer_def cs Let_def)
    have drop: "drop (kid_start k) (bb_data b1) = y"
      using data le length_bb_data [OF Cons.prems(1)] by simp
    have take: "take (k_offset k) (bb_data b1) = take (k_offset k) (bb_data b)"
      using data le length_bb_data [OF Cons.prems(1)] by simp
    have "closes env (k_offset k) (enc_prefix (kid_prefix k) y) b1 (flush_kids env (k # ks) b)"
      unfolding code using close_kid_closes [OF b1(1) assms(2), of k "[]"] k(4) len1 drop by simp
    moreover have "take (k_offset k) (bb_data b1) = take s (bb_data b) @ drop s (take (k_offset k) (bb_data b))"
      using take pre by simp
    moreover have "k_offset k = s + length (drop s (take (k_offset k) (bb_data b)))"
      unfolding lens using k(1) by simp
    moreover have "bb_len b1 \<le> k_offset k + length e" if "enc_prefix (kid_prefix k) y = Some e" for e
      using enc_prefix_kid_length [OF that k(4)] len1 by simp
    moreover have "k_offset k \<le> length (bb_data b1)"
      using length_bb_data [OF b1(1)] len1 by simp
    ultimately have "closes env s (map_option (\<lambda>e. drop s (take (k_offset k) (bb_data b)) @ e)
       (enc_prefix (kid_prefix k) y)) b (flush_kids env (k # ks) b)"
      using b1(2) rm by (rule closes_outer)
    then show ?thesis
      unfolding abs by (simp add: y)
  qed
qed

section \<open>Refinement\<close>

definition wf_cbb :: "cbb \<Rightarrow> bool" where
  "wf_cbb s \<longleftrightarrow>
     (case cbb_base s of None \<Rightarrow> False | Some b \<Rightarrow> wf_buffer b \<and> wf_kids 0 (cbb_kids s) (bb_len b))"

definition abs_cbb :: "cbb \<Rightarrow> builder" where
  "abs_cbb s = (case cbb_base s of None \<Rightarrow> ([], []) | Some b \<Rightarrow> abs_from 0 (bb_data b) (cbb_kids s))"

definition roomy :: "cbb \<Rightarrow> bool" where
  "roomy s \<longleftrightarrow> (case cbb_base s of None \<Rightarrow> False | Some b \<Rightarrow> room b)"

definition failed :: "cbb \<Rightarrow> bool" where
  "failed s \<longleftrightarrow> (case cbb_base s of None \<Rightarrow> True | Some b \<Rightarrow> bb_error b)"

text \<open>The bytes of a builder, with the placeholders of the open prefixes.\<close>

fun placeholder :: "prefix \<Rightarrow> nat" where
  "placeholder (Fixed n) = n"
| "placeholder DerLength = 1"

fun spec_size :: "builder \<Rightarrow> nat" where
  "spec_size (c, fs) = length c + (\<Sum>(p, x)\<leftarrow>fs. placeholder p + length x)"

definition refines :: "alloc \<Rightarrow> (cbb, 'a) action \<Rightarrow> (builder \<Rightarrow> builder option) \<Rightarrow> cbb \<Rightarrow> bool" where
  "refines env f g s \<longleftrightarrow>
     (case f s of
        (Some _, s') \<Rightarrow> wf_cbb s' \<and> g (abs_cbb s) = Some (abs_cbb s') \<and>
          (roomy s \<and> spec_size (abs_cbb s') < 2 ^ 38 \<longrightarrow> roomy s')
      | (None, s') \<Rightarrow>
          (\<forall>st. g (abs_cbb s) = Some st \<longrightarrow>
             failed s' \<and> (plenty env \<and> roomy s \<longrightarrow> 2 ^ 38 \<le> spec_size st)))"

definition size_mono :: "(builder \<Rightarrow> builder option) \<Rightarrow> bool" where
  "size_mono g \<longleftrightarrow> (\<forall>st st'. g st = Some st' \<longrightarrow> spec_size st \<le> spec_size st')"

lemma refines_bind:
  assumes "refines env f g s" and "size_mono g'"
    and "\<And>r s'. f s = (Some r, s') \<Longrightarrow> wf_cbb s' \<Longrightarrow> g (abs_cbb s) = Some (abs_cbb s') \<Longrightarrow> refines env (h r) g' s'"
  shows "refines env (act_bind f h) (\<lambda>st. Option.bind (g st) g') s"
proof -
  obtain r s' where f: "f s = (r, s')" by fastforce
  show ?thesis
  proof (cases r)
    case None
    then have *: "failed s' \<and> (plenty env \<and> roomy s \<longrightarrow> 2 ^ 38 \<le> spec_size st)" if "g (abs_cbb s) = Some st" for st
      using assms(1) f that by (simp add: refines_def)
    have "failed s' \<and> (plenty env \<and> roomy s \<longrightarrow> 2 ^ 38 \<le> spec_size st')"
      if prem: "Option.bind (g (abs_cbb s)) g' = Some st'" for st'
    proof -
      obtain st where st: "g (abs_cbb s) = Some st" "g' st = Some st'"
        using prem unfolding bind_eq_Some_conv by blast
      then show ?thesis
        using * [OF st(1)] assms(2) unfolding size_mono_def by fastforce
    qed
    moreover have "act_bind f h s = (None, s')" using f None by simp
    ultimately show ?thesis
      unfolding refines_def by simp blast
  next
    case (Some a)
    then have s': "wf_cbb s'" "g (abs_cbb s) = Some (abs_cbb s')"
      "roomy s \<Longrightarrow> spec_size (abs_cbb s') < 2 ^ 38 \<Longrightarrow> roomy s'"
      using assms(1) f by (auto simp: refines_def)
    have h: "refines env (h a) g' s'"
      using assms(3) f Some s' by blast
    have mono: "spec_size (abs_cbb s') \<le> spec_size st" if "g' (abs_cbb s') = Some st" for st
      using assms(2) that unfolding size_mono_def by blast
    obtain r2 s2 where h2: "h a s' = (r2, s2)" by fastforce
    have code: "act_bind f h s = (r2, s2)" using f Some h2 by simp
    have comp: "Option.bind (g (abs_cbb s)) g' = g' (abs_cbb s')" by (simp add: s'(2))
    show ?thesis
    proof (cases r2)
      case None
      then have "failed s2 \<and> (plenty env \<and> roomy s' \<longrightarrow> 2 ^ 38 \<le> spec_size st)" if "g' (abs_cbb s') = Some st" for st
        using h h2 that by (simp add: refines_def)
      then have "failed s2 \<and> (plenty env \<and> roomy s \<longrightarrow> 2 ^ 38 \<le> spec_size st)" if "g' (abs_cbb s') = Some st" for st
        using that mono [OF that] s'(3) by (cases "spec_size st < 2 ^ 38") (fastforce, simp)
      then show ?thesis
        unfolding refines_def code None comp by simp blast
    next
      case (Some a2)
      then have *: "wf_cbb s2" "g' (abs_cbb s') = Some (abs_cbb s2)"
        "roomy s' \<Longrightarrow> spec_size (abs_cbb s2) < 2 ^ 38 \<Longrightarrow> roomy s2"
        using h h2 by (auto simp: refines_def)
      then have "roomy s \<Longrightarrow> spec_size (abs_cbb s2) < 2 ^ 38 \<Longrightarrow> roomy s2"
        using mono [OF *(2)] s'(3) by simp
      then show ?thesis
        unfolding refines_def code Some comp using *(1,2) by simp
    qed
  qed
qed

lemma size_mono_bind: "size_mono g \<Longrightarrow> size_mono g' \<Longrightarrow> size_mono (\<lambda>st. Option.bind (g st) g')"
  by (fastforce simp: size_mono_def bind_eq_Some_conv)

lemma size_mono_Some [intro]: "size_mono Some"
  by (simp add: size_mono_def)

lemma snd_spec_append: "map fst (snd (spec_append w st)) = map fst (snd st)"
  by (induction w st rule: spec_append.induct) (auto simp: Let_def split: prod.splits)

lemma spec_size_append: "spec_size (spec_append w st) = spec_size st + length w"
  by (induction w st rule: spec_append.induct) (auto simp: Let_def split: prod.splits)

lemma size_mono_append [intro]: "size_mono (\<lambda>st. Some (spec_append w st))"
  by (auto simp: size_mono_def spec_size_append simp del: spec_size.simps)

lemma spec_close_size: "spec_close c fs = Some y \<Longrightarrow> spec_size (c, fs) \<le> length y"
proof (induction c fs arbitrary: y rule: spec_close.induct)
  case (2 c p x fs)
  obtain z e where z: "spec_close x fs = Some z" and e: "enc_prefix p z = Some e" and y: "y = c @ e"
    using "2.prems" by (auto simp: bind_eq_Some_conv)
  have "placeholder p + length z \<le> length e"
    using e by (cases p) (auto simp: der_length_def split: if_splits)
  then show ?case using "2.IH" [OF z] y by simp
qed simp

lemma spec_flush_size: "spec_flush d st = Some st' \<Longrightarrow> spec_size st \<le> spec_size st'"
proof (induction d st arbitrary: st' rule: spec_flush.induct)
  case (1 c fs)
  then show ?case using spec_close_size [of c fs] by auto
qed (auto simp del: spec_size.simps, fastforce)

lemma size_mono_flush [intro]: "size_mono (spec_flush d)"
  by (simp add: size_mono_def spec_flush_size del: spec_size.simps)

lemma spec_flush_depth: "spec_flush d st = Some st' \<Longrightarrow> length (snd st') = d"
  by (induction d st arbitrary: st' rule: spec_flush.induct) auto

lemma spec_flush_at: "length (snd st) = d \<Longrightarrow> spec_flush d st = Some st"
  by (induction d st rule: spec_flush.induct) auto

lemma spec_flush_dead: "length (snd st) < d \<Longrightarrow> spec_flush d st = None"
  by (induction d st rule: spec_flush.induct) auto

section \<open>The operations refine the abstract ones\<close>

lemma spec_size_abs: "wf_kids s ks (length dat) \<Longrightarrow> spec_size (abs_from s dat ks) = length dat - s"
proof (induction ks arbitrary: s)
  case (Cons k ks)
  obtain c fs where sub: "abs_from (kid_start k) dat ks = (c, fs)" by fastforce
  have "k_offset k \<le> length dat" "kid_start k \<le> length dat"
    using Cons.prems wf_kids_le [of "kid_start k" ks "length dat"] by simp_all
  moreover have "placeholder (kid_prefix k) = k_pending_len_len k"
    using Cons.prems by (simp add: kid_prefix_def)
  moreover have "spec_size (c, fs) = length dat - kid_start k" "s \<le> k_offset k"
    using Cons sub by (simp_all flip: sub del: spec_size.simps)
  ultimately show ?case
    using sub by (simp add: min_absorb2)
qed simp

lemma abs_cbb_size: "wf_cbb s \<Longrightarrow> cbb_base s = Some b \<Longrightarrow> spec_size (abs_cbb s) = bb_len b"
  by (simp add: wf_cbb_def abs_cbb_def spec_size_abs)

text \<open>
  Flushing at depth \<open>d\<close> replaces everything behind the start of that \<open>CBB\<close> by its
  contents with the closed children.
\<close>

fun start_at :: "nat \<Rightarrow> nat \<Rightarrow> cbb_child list \<Rightarrow> nat" where
  "start_at s 0 ks = s"
| "start_at s (Suc d) [] = s"
| "start_at s (Suc d) (k # ks) = start_at (kid_start k) d ks"

lemma start_at_bounds:
  "wf_kids s ks n \<Longrightarrow> s \<le> start_at s d ks \<and> start_at s d ks \<le> n \<and> wf_kids (start_at s d ks) (drop d ks) n"
proof (induction s d ks rule: start_at.induct)
  case (3 s d k ks)
  then show ?case by auto
qed (auto simp: wf_kids_le)

lemma wf_kids_take_start: "wf_kids s ks n \<Longrightarrow> wf_kids s (take d ks) (start_at s d ks)"
  by (induction s d ks rule: start_at.induct) auto

lemma abs_from_flush:
  assumes "wf_kids s ks (length dat)" and "d \<le> length ks"
    and "abs_from (start_at s d ks) dat (drop d ks) = (c, fs)"
  shows "spec_flush d (abs_from s dat ks) =
    map_option (\<lambda>y. abs_from s (take (start_at s d ks) dat @ y) (take d ks)) (spec_close c fs)"
  using assms
proof (induction s d ks rule: start_at.induct)
  case (1 s ks)
  then have "s \<le> length dat" using wf_kids_le by blast
  then show ?case using 1 by (cases "spec_close c fs") auto
next
  case (3 s d k ks)
  have off: "k_offset k \<le> start_at (kid_start k) d ks" "kid_start k \<le> length dat"
    "start_at (kid_start k) d ks \<le> length dat"
    using start_at_bounds [of "kid_start k" ks "length dat" d] "3.prems"(1) wf_kids_le by auto
  obtain x gs where sub: "abs_from (kid_start k) dat ks = (x, gs)" by fastforce
  have IH: "spec_flush d (x, gs) = map_option (\<lambda>y. abs_from (kid_start k)
      (take (start_at (kid_start k) d ks) dat @ y) (take d ks)) (spec_close c fs)"
    using 3 sub by simp
  have "take (k_offset k) (take (start_at (kid_start k) d ks) dat @ y) = take (k_offset k) dat" for y
    using off by (simp add: min_absorb1 min_absorb2)
  then show ?case
    using IH sub by (cases "spec_close c fs") (auto split: prod.split)
qed simp

lemma CBB_flush_refines:
  assumes "wf_cbb s" and "malloc_bounded env"
  shows "refines env (CBB_flush env d) (spec_flush d) s"
    and "CBB_flush env d s = (Some (), s') \<Longrightarrow> length (cbb_kids s') = d"
    and "CBB_flush env d s = (None, s') \<Longrightarrow> d \<le> length (cbb_kids s) \<Longrightarrow> failed s'"
proof -
  obtain b where b: "cbb_base s = Some b" "wf_buffer b" and kids: "wf_kids 0 (cbb_kids s) (bb_len b)"
    using assms(1) by (auto simp: wf_cbb_def split: option.splits)
  define ks where "ks = cbb_kids s"
  define st where "st = start_at 0 d ks"
  have abs: "abs_cbb s = abs_from 0 (bb_data b) ks" by (simp add: abs_cbb_def b(1) ks_def)
  show "refines env (CBB_flush env d) (spec_flush d) s"
    and "CBB_flush env d s = (Some (), s') \<Longrightarrow> length (cbb_kids s') = d"
    and "CBB_flush env d s = (None, s') \<Longrightarrow> d \<le> length (cbb_kids s) \<Longrightarrow> failed s'"
  proof (atomize (full), cases "d \<le> length ks")
    case False
    then have "spec_flush d (abs_cbb s) = None"
      unfolding abs by (intro spec_flush_dead) simp
    then show "refines env (CBB_flush env d) (spec_flush d) s \<and>
       (CBB_flush env d s = (Some (), s') \<longrightarrow> length (cbb_kids s') = d) \<and>
       (CBB_flush env d s = (None, s') \<longrightarrow> d \<le> length (cbb_kids s) \<longrightarrow> failed s')"
      using False b by (auto simp: refines_def CBB_flush_def ks_def)
  next
    case True
    have len: "length (bb_data b) = bb_len b" using b(2) by simp
    have sub: "wf_kids st (drop d ks) (bb_len b)" "st \<le> bb_len b" "wf_kids 0 (take d ks) st"
      using start_at_bounds [OF kids, of d] wf_kids_take_start [OF kids, of d] by (simp_all add: st_def ks_def)
    obtain c fs where cfs: "abs_from st (bb_data b) (drop d ks) = (c, fs)" by fastforce
    have spec: "spec_flush d (abs_cbb s) = map_option (\<lambda>y. abs_from 0 (take st (bb_data b) @ y) (take d ks)) (spec_close c fs)"
      unfolding abs st_def using kids True cfs len by (intro abs_from_flush) (simp_all add: ks_def st_def)
    obtain ok b' ks' where fl: "flush_kids env (drop d ks) b = (ok, b', ks')" by (cases "flush_kids env (drop d ks) b") auto
    have cl: "closes env st (spec_close c fs) b (ok, b', ks')"
      using flush_kids_closes [OF b(2) assms(2) sub(1)] cfs fl by simp
    define s1 where "s1 = \<lparr>cbb_base = Some b', cbb_kids = take d ks @ ks'\<rparr>"
    have code: "CBB_flush env d s = (if ok then Some () else None, s1)"
      using True fl b(1) by (simp add: CBB_flush_def s1_def ks_def)
    show "refines env (CBB_flush env d) (spec_flush d) s \<and>
       (CBB_flush env d s = (Some (), s') \<longrightarrow> length (cbb_kids s') = d) \<and>
       (CBB_flush env d s = (None, s') \<longrightarrow> d \<le> length (cbb_kids s) \<longrightarrow> failed s')"
    proof (cases ok)
      case False
      then have *: "bb_error b'" "plenty env \<Longrightarrow> room b \<Longrightarrow> spec_close c fs = Some y \<Longrightarrow> 2 ^ 38 \<le> st + length y" for y
        using cl by (simp_all add: closes_def)
      have "2 ^ 38 \<le> spec_size t" if prems: "plenty env" "room b" "spec_flush d (abs_cbb s) = Some t" for t
      proof -
        obtain y where y: "spec_close c fs = Some y" and t: "t = abs_from 0 (take st (bb_data b) @ y) (take d ks)"
          using prems(3) spec by auto
        have "wf_kids 0 (take d ks) (length (take st (bb_data b) @ y))"
          using sub len by (intro wf_kids_mono [OF sub(3)]) simp
        then have "spec_size t = st + length y"
          unfolding t using sub(2) len by (simp add: spec_size_abs)
        then show ?thesis using *(2) [OF prems(1,2) y] by simp
      qed
      then show ?thesis
        using False *(1) b(1) by (auto simp: refines_def code s1_def failed_def roomy_def simp del: spec_size.simps)
    next
      case True
      then obtain y where *: "ks' = []" "wf_buffer b'" "bb_can_resize b' = bb_can_resize b"
        "spec_close c fs = Some y" "bb_data b' = take st (bb_data b) @ y" "room b \<Longrightarrow> bb_len b' < 2 ^ 38 \<Longrightarrow> room b'"
        using cl by (auto simp: closes_def)
      have "st \<le> bb_len b'"
        using arg_cong [OF *(5), of length] sub(2) len length_bb_data [OF *(2)] by simp
      then have wf: "wf_cbb s1"
        using *(1,2) sub(3) by (auto simp: wf_cbb_def s1_def intro: wf_kids_mono)
      have "abs_cbb s1 = abs_from 0 (take st (bb_data b) @ y) (take d ks)"
        using *(1,5) by (simp add: abs_cbb_def s1_def)
      then show ?thesis
        using True wf spec *(1,4,6) \<open>d \<le> length ks\<close> abs_cbb_size [OF wf, of b'] b(1)
        by (auto simp: s1_def refines_def code roomy_def simp del: spec_size.simps) 
    qed
  qed
qed

lemma appends_refines:
  assumes "wf_cbb s" and "\<And>b. cbb_base s = Some b \<Longrightarrow> wf_buffer b \<Longrightarrow> appends env f w b"
  shows "refines env (on_base f) (\<lambda>st. Some (spec_append w st)) s"
    and "on_base f s = (Some r, s') \<Longrightarrow> cbb_kids s' = cbb_kids s"
proof -
  obtain b where b: "cbb_base s = Some b" "wf_buffer b" and kids: "wf_kids 0 (cbb_kids s) (bb_len b)"
    using assms(1) by (auto simp: wf_cbb_def split: option.splits)
  obtain r1 b' where f: "f b = (r1, b')" by fastforce
  have app: "appends env f w b" using assms(2) b by blast
  have len: "length (bb_data b) = bb_len b" using b(2) by simp
  have size: "spec_size (spec_append w (abs_cbb s)) = bb_len b + length w"
    unfolding spec_size_append abs_cbb_size [OF assms(1) b(1)] ..
  show "refines env (on_base f) (\<lambda>st. Some (spec_append w st)) s"
  proof (cases r1)
    case None
    then show ?thesis
      using app f b(1) size
      by (auto simp: refines_def on_base_def appends_def failed_def roomy_def simp del: spec_size.simps)
  next
    case (Some a)
    then have g: "wf_buffer b'" "bb_data b' = bb_data b @ w" "room b \<and> bb_len b + length w < 2 ^ 38 \<longrightarrow> room b'"
      using app f by (auto simp: appends_def grows_def)
    have "bb_len b' = bb_len b + length w"
      using arg_cong [OF g(2), of length] length_bb_data [OF g(1)] len by simp
    then have "wf_cbb (s\<lparr>cbb_base := Some b'\<rparr>)"
      using g(1) kids by (auto simp: wf_cbb_def intro: wf_kids_mono)
    moreover have "abs_cbb (s\<lparr>cbb_base := Some b'\<rparr>) = spec_append w (abs_cbb s)"
      using kids len by (simp add: abs_cbb_def b(1) g(2) abs_from_append)
    ultimately show ?thesis
      using f Some b(1) g(3) size
      by (simp add: refines_def on_base_def roomy_def del: spec_size.simps)
  qed
  show "on_base f s = (Some r, s') \<Longrightarrow> cbb_kids s' = cbb_kids s"
    using f b(1) by (auto simp: on_base_def)
qed

text \<open>Opening a child behind a placeholder.\<close>

lemma opens_refines:
  assumes "wf_cbb s" and "length (cbb_kids s) = d"
    and "\<And>b. cbb_base s = Some b \<Longrightarrow> wf_buffer b \<Longrightarrow> appends env f (replicate n 0) b"
    and "\<And>b r b'. cbb_base s = Some b \<Longrightarrow> wf_buffer b \<Longrightarrow> f b = (Some r, b') \<Longrightarrow> k r = \<lparr>k_offset = bb_len b, k_pending_len_len = n, k_pending_is_asn1 = der\<rparr>"
    and "1 \<le> n" and "n \<le> 8" and "der \<Longrightarrow> n = 1"
  shows "refines env (act_bind (on_base f) (\<lambda>r. open_child d (k r)))
    (\<lambda>(c, fs). Some (c, fs @ [(if der then DerLength else Fixed n, [])])) s"
proof -
  obtain b where b: "cbb_base s = Some b" "wf_buffer b" and kids: "wf_kids 0 (cbb_kids s) (bb_len b)"
    using assms(1) by (auto simp: wf_cbb_def split: option.splits)
  obtain r1 b' where f: "f b = (r1, b')" by fastforce
  have app: "appends env f (replicate n 0) b" using assms(3) b by blast
  have len: "length (bb_data b) = bb_len b" using b(2) by simp
  obtain c fs where abs: "abs_cbb s = (c, fs)" by fastforce
  have size: "spec_size (c, fs) = bb_len b"
    using abs_cbb_size [OF assms(1) b(1)] by (simp only: abs)
  then have size': "spec_size (c, fs @ [(if der then DerLength else Fixed n, [])]) = bb_len b + n"
    using assms(7) by auto
  show ?thesis
  proof (cases r1)
    case None
    then show ?thesis
      using app f b(1) size' abs
      by (auto simp: refines_def on_base_def appends_def failed_def roomy_def simp del: spec_size.simps)
  next
    case (Some a)
    then have g: "wf_buffer b'" "bb_data b' = bb_data b @ replicate n 0" "room b \<and> bb_len b + n < 2 ^ 38 \<longrightarrow> room b'"
      using app f by (auto simp: appends_def grows_def)
    have len': "bb_len b' = bb_len b + n"
      using arg_cong [OF g(2), of length] length_bb_data [OF g(1)] len by simp
    define kid where "kid = \<lparr>k_offset = bb_len b, k_pending_len_len = n, k_pending_is_asn1 = der\<rparr>"
    have k: "k a = kid" using assms(4) b f Some by (simp add: kid_def)
    define s1 where "s1 = \<lparr>cbb_base = Some b', cbb_kids = cbb_kids s @ [kid]\<rparr>"
    have code: "act_bind (on_base f) (\<lambda>r. open_child d (k r)) s = (Some (), s1)"
      using f Some b(1) assms(2) by (simp add: on_base_def act_bind_def open_child_def k s1_def)
    have "wf_cbb s1"
      using g(1) kids assms(5-7) len' by (simp add: wf_cbb_def s1_def wf_kids_snoc kid_def)
    moreover have "abs_from 0 (bb_data b @ replicate n 0) (cbb_kids s @ [kid]) =
        (case abs_from 0 (bb_data b) (cbb_kids s) of (c, fs) \<Rightarrow> (c, fs @ [(kid_prefix kid, [])]))"
      using kids len by (intro abs_from_open) (simp_all add: kid_def)
    then have "abs_cbb s1 = (c, fs @ [(if der then DerLength else Fixed n, [])])"
      using abs by (simp add: abs_cbb_def b(1) s1_def g(2) kid_prefix_def kid_def)
    ultimately show ?thesis
      using abs size' g(3) by (simp add: refines_def code roomy_def s1_def b(1) del: spec_size.simps)
  qed
qed

end
