(* ===== verification/Cbb_Ops.thy ===== *)
theory Cbb_Ops
  imports Cbb_Spec
begin

text \<open>
  The builder's interface as a locale, \<open>builder_op\<close>, with its interpretation on every
  operation of \<open>Cbb\<close>: integers, bytes, children, base-128 integers, and the ASN.1
  elements, which write exactly what \<open>Der\<close> prints.
\<close>

section \<open>The contract of a builder operation\<close>

text \<open>
  Whatever the state, a call that succeeds does what the abstract operation says and keeps
  the invariant; a call that fails although the abstract operation is possible has set the
  error flag; and with plenty of memory it does not fail.
\<close>

locale builder_op =
  fixes env :: alloc and f :: "(cbb, 'a) action" and g :: "builder \<Rightarrow> builder option"
  assumes refine: "malloc_bounded env \<Longrightarrow> wf_cbb s \<Longrightarrow> refines env f g s"
    and mono: "size_mono g"
begin

lemma op_ok:
  "malloc_bounded env \<Longrightarrow> wf_cbb s \<Longrightarrow> f s = (Some r, s') \<Longrightarrow> wf_cbb s' \<and> g (abs_cbb s) = Some (abs_cbb s')"
  using refine [of s] by (simp add: refines_def)

lemma op_error:
  "malloc_bounded env \<Longrightarrow> wf_cbb s \<Longrightarrow> f s = (None, s') \<Longrightarrow> g (abs_cbb s) = None \<or> failed s'"
  using refine [of s] by (cases "g (abs_cbb s)") (auto simp: refines_def)

lemma op_total:
  assumes "malloc_bounded env" and "plenty env" and "wf_cbb s" and "roomy s"
    and "g (abs_cbb s) = Some st" and "spec_size st < 2 ^ 38"
  shows "\<exists>r s'. f s = (Some r, s') \<and> wf_cbb s' \<and> roomy s' \<and> abs_cbb s' = st"
  using refine [OF assms(1,3)] assms(2-6)
  by (cases "f s"; cases "fst (f s)") (auto simp: refines_def not_le [symmetric])

end

lemma builder_op_bind:
  assumes "builder_op env f g" and "\<And>r. builder_op env (h r) g'"
  shows "builder_op env (act_bind f h) (\<lambda>st. Option.bind (g st) g')"
proof
  fix s
  assume "malloc_bounded env" and "wf_cbb s"
  then show "refines env (act_bind f h) (\<lambda>st. Option.bind (g st) g') s"
    using assms by (intro refines_bind) (auto simp: builder_op_def)
next
  show "size_mono (\<lambda>st. Option.bind (g st) g')"
    using assms by (intro size_mono_bind) (auto simp: builder_op_def)
qed

interpretation flush_op: builder_op env "CBB_flush env d" "spec_flush d" for env d
  by unfold_locales (auto intro: CBB_flush_refines)

lemma builder_op_ret: "builder_op env (act_ret r) Some"
  by unfold_locales (auto simp: refines_def act_simps)

lemma builder_op_append:
  assumes "\<And>b. malloc_bounded env \<Longrightarrow> wf_buffer b \<Longrightarrow> appends env f w b"
  shows "builder_op env (act_bind (CBB_flush env d) (\<lambda>_. on_base f)) (spec_write d w)"
proof -
  have "builder_op env (on_base f) (\<lambda>st. Some (spec_append w st))"
    by unfold_locales (auto intro: appends_refines assms)
  then have "builder_op env (act_bind (CBB_flush env d) (\<lambda>_. on_base f))
      (\<lambda>st. Option.bind (spec_flush d st) (\<lambda>st. Some (spec_append w st)))"
    by (intro builder_op_bind flush_op.builder_op_axioms)
  moreover have "(\<lambda>st. Option.bind (spec_flush d st) (\<lambda>st. Some (spec_append w st))) = spec_write d w"
    by (simp add: spec_write_def fun_eq_iff map_conv_bind_option comp_def)
  ultimately show ?thesis by simp
qed

lemma builder_op_add_u:
  "n \<le> 8 \<Longrightarrow> unat v < 256 ^ n \<Longrightarrow>
   builder_op env (cbb_add_u env d v n) (spec_write d (be_bytes n (unat v)))"
  unfolding cbb_add_u_def by (intro builder_op_append appends_add_u)

lemma be_bytes_1 [simp]: "be_bytes (Suc 0) (unat (b :: byte)) = [b]"
  by simp

interpretation add_u8: builder_op env "CBB_add_u8 env d v" "spec_write d [v]" for env d v
proof -
  have u: "unat (ucast v :: u64) = unat v" by (simp add: unat_ucast_widen)
  show "builder_op env (CBB_add_u8 env d v) (spec_write d [v])"
    using builder_op_add_u [of 1 "ucast v" env d] by (simp add: CBB_add_u8_def u)
qed

interpretation add_u16: builder_op env "CBB_add_u16 env d v" "spec_write d (be_bytes 2 (unat v))" for env d v
proof -
  have u: "unat (ucast v :: u64) = unat v" by (simp add: unat_ucast_widen)
  have "unat v < 256 ^ 2" using unsigned_less [of v, where 'a = nat] by simp
  then show "builder_op env (CBB_add_u16 env d v) (spec_write d (be_bytes 2 (unat v)))"
    using builder_op_add_u [of 2 "ucast v" env d] by (simp add: CBB_add_u16_def u)
qed

interpretation add_u32: builder_op env "CBB_add_u32 env d v" "spec_write d (be_bytes 4 (unat v))" for env d v
proof -
  have u: "unat (ucast v :: u64) = unat v" by (simp add: unat_ucast_widen)
  have "unat v < 256 ^ 4" using unsigned_less [of v, where 'a = nat] by simp
  then show "builder_op env (CBB_add_u32 env d v) (spec_write d (be_bytes 4 (unat v)))"
    using builder_op_add_u [of 4 "ucast v" env d] by (simp add: CBB_add_u32_def u)
qed

interpretation add_u64: builder_op env "CBB_add_u64 env d v" "spec_write d (be_bytes 8 (unat v))" for env d v
proof -
  have "unat v < 256 ^ 8" using unat_u64_less [of v] by simp
  then show "builder_op env (CBB_add_u64 env d v) (spec_write d (be_bytes 8 (unat v)))"
    using builder_op_add_u [of 8 v env d] by (simp add: CBB_add_u64_def)
qed

lemma builder_op_add_u24:
  assumes "unat v < 2 ^ 24"
  shows "builder_op env (CBB_add_u24 env d v) (spec_write d (be_bytes 3 (unat v)))"
proof -
  have u: "unat (ucast v :: u64) = unat v" by (simp add: unat_ucast_widen)
  show ?thesis
    using builder_op_add_u [of 3 "ucast v" env d] assms by (simp add: CBB_add_u24_def u)
qed

lemma builder_op_add_bytes:
  "length w < 2 ^ 63 \<Longrightarrow> builder_op env (CBB_add_bytes env d w (length w)) (spec_write d w)"
  unfolding CBB_add_bytes_def take_all [OF order_refl] by (intro builder_op_append appends_put_bytes)

section \<open>Opening children\<close>

lemma abs_depth: "wf_cbb s \<Longrightarrow> length (snd (abs_cbb s)) = length (cbb_kids s)"
  by (simp add: wf_cbb_def abs_cbb_def split: option.splits)

lemma spec_write_depth: "spec_write d w st = Some st' \<Longrightarrow> length (snd st') = d"
proof -
  assume "spec_write d w st = Some st'"
  then obtain t where "spec_flush d st = Some t" and st': "st' = spec_append w t"
    unfolding spec_write_def by blast
  then have "length (snd t) = d" using spec_flush_depth by blast
  moreover have "length (snd st') = length (snd t)"
    unfolding st' using arg_cong [OF snd_spec_append, of length] by simp
  ultimately show ?thesis by simp
qed

lemma size_mono_push [intro]: "size_mono (\<lambda>(c, fs). Some (c, fs @ [(p, [])]))"
  by (auto simp: size_mono_def)

lemma spec_open_alt: "spec_open d p = (\<lambda>st. Option.bind (spec_flush d st) (\<lambda>(c, fs). Some (c, fs @ [(p, [])])))"
  by (auto simp: spec_open_def fun_eq_iff map_conv_bind_option split_def intro: arg_cong [where f = "Option.bind _"])

lemma cbb_buffer_add_pos:
  assumes "cbb_buffer_add env n b = (Some r, b')" and "wf_buffer b" and "malloc_bounded env" and "n < 2 ^ 63"
  shows "r = bb_len b"
  by (rule cbb_buffer_add_cases [OF assms(2-4)]) (use assms(1) in simp_all)

lemma builder_op_length_prefixed:
  assumes "1 \<le> n" and "n \<le> 8"
  shows "builder_op env (cbb_add_length_prefixed env d n) (spec_open d (Fixed n))"
proof
  fix s
  assume env: "malloc_bounded env" and wf: "wf_cbb s"
  show "refines env (cbb_add_length_prefixed env d n) (spec_open d (Fixed n)) s"
    unfolding cbb_add_length_prefixed_def spec_open_alt
  proof (rule refines_bind)
    show "refines env (CBB_flush env d) (spec_flush d) s"
      using wf env by (rule CBB_flush_refines)
    fix r s'
    assume fl: "CBB_flush env d s = (Some r, s')" and wf': "wf_cbb s'"
    then have "length (cbb_kids s') = d"
      using CBB_flush_refines(2) [OF wf env, of d s'] by simp
    then show "refines env (act_bind (on_base (act_bind (cbb_buffer_add env n) (\<lambda>prefix b.
         (Some prefix, b\<lparr>bb_buf := take prefix (bb_buf b) @ replicate n 0 @ drop (prefix + n) (bb_buf b)\<rparr>))))
         (\<lambda>offset. open_child d \<lparr>k_offset = offset, k_pending_len_len = n, k_pending_is_asn1 = False\<rparr>))
         (\<lambda>(c, fs). Some (c, fs @ [(Fixed n, [])])) s'"
      using wf' assms env
      by (intro opens_refines [where der = False, simplified])
         (auto intro: appends_zeros dest: cbb_buffer_add_pos elim!: act_bind_SomeE)
  qed auto
next
  show "size_mono (spec_open d (Fixed n))"
    unfolding spec_open_alt by (intro size_mono_bind) auto
qed

interpretation u8_child: builder_op env "CBB_add_u8_length_prefixed env d" "spec_open d (Fixed 1)" for env d
  unfolding CBB_add_u8_length_prefixed_def by (intro builder_op_length_prefixed) simp_all

interpretation u16_child: builder_op env "CBB_add_u16_length_prefixed env d" "spec_open d (Fixed 2)" for env d
  unfolding CBB_add_u16_length_prefixed_def by (intro builder_op_length_prefixed) simp_all

interpretation u24_child: builder_op env "CBB_add_u24_length_prefixed env d" "spec_open d (Fixed 3)" for env d
  unfolding CBB_add_u24_length_prefixed_def by (intro builder_op_length_prefixed) simp_all

section \<open>Sequences of bytes\<close>

text \<open>Writing nothing does not even flush.\<close>

definition spec_put :: "nat \<Rightarrow> byte list \<Rightarrow> builder \<Rightarrow> builder option" where
  "spec_put d w st = (if w = [] then Some st else spec_write d w st)"

lemma spec_append_append: "spec_append v (spec_append w st) = spec_append (w @ v) st"
  by (induction w st rule: spec_append.induct) (auto simp: Let_def split: prod.splits)

lemma spec_append_Nil [simp]: "spec_append [] st = st"
  by (induction "[] :: byte list" st rule: spec_append.induct) auto

lemma spec_write_at: "length (snd st) = d \<Longrightarrow> spec_write d w st = Some (spec_append w st)"
  by (simp add: spec_write_def spec_flush_at)

lemma spec_write_put: "Option.bind (spec_write d w st) (spec_put d v) = spec_write d (w @ v) st"
proof (cases "spec_flush d st")
  case (Some t)
  then have t: "spec_write d w st = Some (spec_append w t)"
    by (simp add: spec_write_def)
  then have "length (snd (spec_append w t)) = d" by (rule spec_write_depth)
  then show ?thesis
    using Some by (simp add: t spec_put_def spec_write_at spec_append_append) (simp add: spec_write_def)
qed (simp add: spec_write_def)

lemma size_mono_write [intro]: "size_mono (spec_write d w)"
proof -
  have "spec_write d w = (\<lambda>st. Option.bind (spec_flush d st) (\<lambda>st. Some (spec_append w st)))"
    by (simp add: spec_write_def fun_eq_iff map_conv_bind_option comp_def)
  then show ?thesis by (simp add: size_mono_bind size_mono_flush size_mono_append)
qed

lemma builder_op_seq:
  assumes "builder_op env f (spec_write d v)" and "\<And>r. builder_op env (h r) (spec_write d w)" and "w \<noteq> []"
  shows "builder_op env (act_bind f h) (spec_write d (v @ w))"
proof -
  have "spec_put d w = spec_write d w" using assms(3) by (simp add: fun_eq_iff spec_put_def)
  then have "spec_write d (v @ w) = (\<lambda>st. Option.bind (spec_write d v st) (spec_write d w))"
    unfolding spec_write_put [symmetric, abs_def] by simp
  then show ?thesis using builder_op_bind [OF assms(1,2)] by simp
qed

lemma builder_op_each: "builder_op env (act_each (CBB_add_u8 env d) ws) (spec_put d ws)"
proof (induction ws)
  case Nil
  have "spec_put d [] = Some" by (simp add: fun_eq_iff spec_put_def)
  then show ?case by (simp add: builder_op_ret)
next
  case (Cons b ws)
  have "spec_put d (b # ws) = (\<lambda>st. Option.bind (spec_write d [b] st) (spec_put d ws))"
    by (simp add: fun_eq_iff spec_write_put spec_put_def)
  then show ?case
    using builder_op_bind [OF add_u8.builder_op_axioms Cons.IH] by simp
qed

lemma builder_op_each_ne: "ws \<noteq> [] \<Longrightarrow> builder_op env (act_each (CBB_add_u8 env d) ws) (spec_write d ws)"
proof -
  assume "ws \<noteq> []"
  then have "spec_put d ws = spec_write d ws" by (simp add: fun_eq_iff spec_put_def)
  then show ?thesis using builder_op_each [of env d ws] by simp
qed

section \<open>Base-128 integers\<close>

lemma base128_loop_each:
  "base128_loop env d v n = act_each (CBB_add_u8 env d)
     (map (\<lambda>i. let byt = ucast (drop_bit (7 * i) v) AND 0x7f in if i \<noteq> 0 then byt OR 0x80 else byt) (rev [0..<n]))"
  by (induction n) simp_all

lemma unat_low7: "unat (ucast (w :: u64) AND 0x7f :: byte) = unat w mod 128"
  by (simp add: unat_and_7f unat_ucast_narrow mod_mod_cancel)

lemma base128_low: "ucast (w :: u64) AND 0x7f = (of_nat (unat w mod 128) :: byte)"
  unfolding word_unat_eq_iff unat_low7 unat_low_digit ..

lemma base128_high: "(ucast (w :: u64) AND 0x7f) OR 0x80 = (of_nat (128 + unat w mod 128) :: byte)"
proof -
  have "unat (push_bit 7 (1 :: byte) OR (ucast w AND 0x7f)) = unat (1 :: byte) * 2 ^ 7 + unat (ucast w AND 0x7f :: byte)"
    by (rule unat_push_or) (simp_all add: unat_low7)
  then show ?thesis
    unfolding word_unat_eq_iff unat_high_digit by (simp add: unat_low7 or.commute)
qed

lemma unat_drop7: "unat (drop_bit 7 (v :: u64)) = unat v div 128"
  unfolding unat_drop_bit_eq drop_bit_eq_div [where 'a = nat] by simp

text \<open>All groups but the last carry the continuation bit.\<close>

lemma base128_bytes_prefix:
  "map (\<lambda>i. (ucast (drop_bit (7 * i) v) AND 0x7f) OR 0x80) (rev [0..<base128_groups v]) = b128_prefix (unat v)"
proof (induction v rule: base128_groups.induct)
  case (1 v)
  show ?case
  proof (cases "v > 0")
    case True
    have "map (\<lambda>i. (ucast (drop_bit (7 * i) v) AND 0x7f) OR 0x80) (rev [0..<Suc n]) =
       map (\<lambda>i. (ucast (drop_bit (7 * i) (drop_bit 7 v)) AND 0x7f) OR 0x80) (rev [0..<n]) @
         [(ucast v AND 0x7f) OR (0x80 :: byte)]" for n
      by (simp add: upt_conv_Cons map_Suc_upt [symmetric] rev_map comp_def add.commute del: upt_Suc)
    moreover have "0 < unat v" using True by (simp add: word_less_nat_alt)
    ultimately show ?thesis
      using True 1 by (subst base128_groups.simps) (simp add: base128_high b128_prefix_pos unat_drop7 del: of_nat_add upt_Suc)
  next
    case False
    then have "v = 0" by (simp add: word_gt_0)
    then show ?thesis using False by (subst base128_groups.simps) simp
  qed
qed

lemma base128_bytes:
  "map (\<lambda>i. let byt = ucast (drop_bit (7 * i) v) AND 0x7f in if i \<noteq> 0 then byt OR 0x80 else byt)
     (rev [0..<if base128_groups v = 0 then 1 else base128_groups v]) = base128 (unat v)"
proof -
  define n where "n = base128_groups (drop_bit 7 v)"
  have "(if base128_groups v = 0 then 1 else base128_groups v) = Suc n"
  proof (cases "v > 0")
    case True
    then show ?thesis unfolding n_def by (subst (1 2) base128_groups.simps) simp
  next
    case False
    then have "v = 0" by (simp add: word_gt_0)
    then show ?thesis unfolding n_def by (subst (1 2 3) base128_groups.simps) simp
  qed
  moreover have "map (\<lambda>i. let byt = ucast (drop_bit (7 * i) v) AND 0x7f in if i \<noteq> 0 then byt OR 0x80 else byt) (rev [0..<Suc n]) =
     map (\<lambda>i. (ucast (drop_bit (7 * i) (drop_bit 7 v)) AND 0x7f) OR 0x80) (rev [0..<n]) @ [ucast v AND (0x7f :: byte)]"
    by (simp add: upt_conv_Cons map_Suc_upt [symmetric] rev_map comp_def add.commute Let_def del: upt_Suc)
  ultimately show ?thesis
    unfolding n_def base128_bytes_prefix by (simp add: base128_def base128_low unat_drop7)
qed

lemma builder_op_base128: "builder_op env (add_base128_integer env d v) (spec_write d (base128 (unat v)))"
  unfolding add_base128_integer_def Let_def base128_loop_each base128_bytes [unfolded Let_def]
  by (rule builder_op_each_ne) simp

end
