(* ===== verification/Asn1_Read.thy ===== *)
theory Asn1_Read
  imports Der
begin

text \<open>
  What the readers of \<open>crypto/bytestring/cbs.c\<close> return: every reader of one DER element
  accepts exactly the elements \<open>der_elem\<close> prints, and INTEGER, BOOLEAN and the optional
  forms accept exactly the canonical contents and return their value.
\<close>

section \<open>Elements as header and contents\<close>

definition der_elem :: "u32 \<Rightarrow> byte list \<Rightarrow> byte list" where
  "der_elem tag body = der_header tag (length body) @ body"

lemma length_der_elem: "length (der_elem tag body) = length (der_header tag (length body)) + length body"
  by (simp add: der_elem_def)

lemma der_header_neq_Nil [simp]: "der_header tag n \<noteq> []"
  by (simp add: der_header_def der_tag_def)

lemma der_elem_neq_Nil [simp]: "der_elem tag body \<noteq> []"
  by (simp add: der_elem_def)

lemma cbs_view_skip:
  "wf_cbs c \<Longrightarrow> cbs_view c = xs @ ys @ zs \<Longrightarrow>
   cbs_view (CBS_init (drop (length xs) (cbs_data c)) (length ys)) = ys"
proof -
  assume wf: "wf_cbs c" and view: "cbs_view c = xs @ ys @ zs"
  have "cbs_len c = length xs + length ys + length zs"
    using length_cbs_view [OF wf] view by simp
  then have "take (length ys) (drop (length xs) (cbs_data c)) = take (length ys) (drop (length xs) (cbs_view c))"
    by (simp add: cbs_view_def drop_take min_def)
  then show ?thesis unfolding view by (simp add: cbs_view_def CBS_init_def)
qed

text \<open>The definite-length element at the front of a window.\<close>

definition body_window :: "cbs \<Rightarrow> u32 \<Rightarrow> byte list \<Rightarrow> cbs" where
  "body_window c tag body =
     CBS_init (drop (length (der_header tag (length body))) (cbs_data c)) (length body)"

lemma body_window_view:
  assumes "wf_cbs c" and "cbs_view c = der_elem tag body @ rest"
  shows "cbs_view (body_window c tag body) = body"
  using cbs_view_skip [of c "der_header tag (length body)" body rest] assms
  by (simp add: body_window_def der_elem_def)

lemma body_window_wf:
  assumes "wf_cbs c" and "cbs_view c = der_elem tag body @ rest"
  shows "wf_cbs (body_window c tag body)"
proof -
  have "cbs_len c = length (der_elem tag body @ rest)"
    using length_cbs_view [OF assms(1)] assms(2) by simp
  then show ?thesis
    using assms(1) by (auto simp: wf_cbs_def body_window_def CBS_init_def length_der_elem)
qed

lemma body_window_len [simp]: "cbs_len (body_window c tag body) = length body"
  by (simp add: body_window_def CBS_init_def)

lemma CBS_get_any_asn1_element_der:
  assumes "wf_cbs c" and "cbs_view c = der_elem tag body @ rest" and "length body < 2 ^ 32"
  shows "CBS_get_any_asn1_element c =
    (Some (CBS_init (cbs_data c) (length (der_elem tag body)), tag, length (der_header tag (length body))),
     cbs_after (length (der_elem tag body)) c)"
  using cbs_get_any_asn1_element_der [of c tag "length body" "body @ rest" False] assms
  by (simp add: CBS_get_any_asn1_element_def der_elem_def Let_def)

lemma CBS_get_any_asn1_element_sound:
  assumes "CBS_get_any_asn1_element c = (Some e, c')" and wf: "wf_cbs c"
  obtains tag body rest where "cbs_view c = der_elem tag body @ rest" and "length body < 2 ^ 32"
proof (rule cbs_get_any_asn1_element_sound [OF assms(1) [unfolded CBS_get_any_asn1_element_def] wf])
  fix tag n rest
  assume "cbs_view c = der_header tag n @ rest" and "n < 2 ^ 32" and "n \<le> length rest"
  then show thesis
    by (intro that [of tag "take n rest" "drop n rest"]) (auto simp: der_elem_def min_absorb2)
qed simp

text \<open>DER determines the tag, the contents and the rest of its input.\<close>

lemma der_elem_inj:
  assumes "der_elem tag body @ rest = der_elem tag' body' @ rest'"
    and "length body < 2 ^ 32" and "length body' < 2 ^ 32" and "length (der_elem tag body @ rest) < 2 ^ 63"
  shows "tag = tag' \<and> body = body' \<and> rest = rest'"
proof -
  define c where "c = cbs_of (der_elem tag body @ rest)"
  have wf: "wf_cbs c" using assms(4) by (simp add: c_def)
  have view: "cbs_view c = der_elem tag body @ rest" "cbs_view c = der_elem tag' body' @ rest'"
    by (simp_all add: c_def assms(1))
  note e1 = CBS_get_any_asn1_element_der [OF wf view(1) assms(2)]
  note e2 = CBS_get_any_asn1_element_der [OF wf view(2) assms(3)]
  have tag: "tag = tag'" and "length (der_elem tag body) = length (der_elem tag' body')"
    and hdr: "length (der_header tag (length body)) = length (der_header tag' (length body'))"
    using e1 [unfolded e2] by (auto simp: CBS_init_def)
  then have "der_elem tag body = der_elem tag' body'" and "rest = rest'"
    using assms(1) by simp_all
  moreover from this have "body = body'"
    using hdr by (simp add: der_elem_def)
  ultimately show ?thesis using tag by simp
qed

section \<open>Readers of one element\<close>

lemma act_bind_skip_header:
  "skip_header out n c = (if n \<le> cbs_len out then (Some (cbs_after n out), c) else (None, c))"
  by (simp add: skip_header_def CBS_skip_def cbs_get_eq act_bind_def act_simps)

lemma body_window_skip:
  "cbs_after (length (der_header tag (length body))) (CBS_init (cbs_data c) (length (der_elem tag body)))
     = body_window c tag body"
  by (simp add: body_window_def cbs_after_def CBS_init_def length_der_elem)

lemma CBS_get_any_asn1_der:
  assumes "wf_cbs c" and "cbs_view c = der_elem tag body @ rest" and "length body < 2 ^ 32"
  shows "CBS_get_any_asn1 c =
    (Some (body_window c tag body, tag), cbs_after (length (der_elem tag body)) c)"
  using CBS_get_any_asn1_element_der [OF assms] body_window_skip [of tag body c]
  by (simp add: CBS_get_any_asn1_def act_bind_skip_header act_bind_def act_simps CBS_init_def length_der_elem)

lemma CBS_get_asn1_der:
  assumes "wf_cbs c" and "cbs_view c = der_elem tag body @ rest" and "length body < 2 ^ 32"
  shows "CBS_get_asn1 tag' c =
    (if tag' = tag then Some (body_window c tag body) else None, cbs_after (length (der_elem tag body)) c)"
  using CBS_get_any_asn1_element_der [OF assms] body_window_skip [of tag body c]
  by (cases "tag' = tag")
     (simp_all add: CBS_get_asn1_def cbs_get_asn1_def act_bind_skip_header act_bind_def act_simps
       CBS_init_def length_der_elem)

lemma CBS_get_asn1_sound:
  assumes get: "CBS_get_asn1 tag c = (Some out, c')" and wf: "wf_cbs c"
  obtains body rest where "cbs_view c = der_elem tag body @ rest" and "length body < 2 ^ 32"
    and "out = body_window c tag body" and "c' = cbs_after (length (der_elem tag body)) c"
proof -
  obtain e t where e: "CBS_get_any_asn1_element c = (Some e, t)"
    using get by (auto simp: CBS_get_asn1_def cbs_get_asn1_def act_bind_eq_Some)
  obtain tag' body rest where view: "cbs_view c = der_elem tag' body @ rest" and n: "length body < 2 ^ 32"
    by (rule CBS_get_any_asn1_element_sound [OF e wf])
  show thesis
    using that [of body rest] get CBS_get_asn1_der [OF wf view n, of tag] view n
    by (auto split: if_splits)
qed

section \<open>Contents of INTEGER\<close>

text \<open>
  Two's complement, most significant octet first. Contents are minimal when the first nine
  bits are not all equal.
\<close>

definition int_val :: "byte list \<Rightarrow> int" where
  "int_val bs =
     int (be_val bs) - (if bs \<noteq> [] \<and> 128 \<le> unat (hd bs) then 256 ^ length bs else 0)"

definition minimal_int :: "byte list \<Rightarrow> bool" where
  "minimal_int bs \<longleftrightarrow>
     (case bs of
        [] \<Rightarrow> False
      | [b] \<Rightarrow> True
      | b # b' # _ \<Rightarrow> \<not> (b = 0 \<and> unat b' < 128) \<and> \<not> (b = 0xff \<and> 128 \<le> unat b'))"

lemma asn1_uint64_loop_eq:
  "asn1_uint64_loop bs v =
     (if unat v * 256 ^ length bs + be_val bs < 2 ^ 64
      then Some (of_nat (unat v * 256 ^ length bs + be_val bs)) else None)"
proof (induction bs arbitrary: v)
  case Nil
  show ?case using unat_u64_less [of v] by simp
next
  case (Cons b bs)
  have top: "drop_bit 56 v \<noteq> 0 \<longleftrightarrow> 2 ^ 56 \<le> unat v"
    by (simp add: drop_bit_eq_0_iff_unat not_less)
  show ?case
  proof (cases "2 ^ 56 \<le> unat v")
    case True
    have "(2 :: nat) ^ 64 = 2 ^ 56 * 256" by simp
    also have "\<dots> \<le> unat v * 256 ^ length (b # bs)"
      using True by (intro mult_mono) simp_all
    finally show ?thesis using top True by (simp add: not_less)
  next
    case False
    then have "unat (push_bit 8 v OR ucast b) = unat v * 256 + unat b"
      by (intro unat_push8_or) simp
    then show ?thesis
      using False top Cons.IH [of "push_bit 8 v OR ucast b"] by (simp add: algebra_simps)
  qed
qed

lemma minimal_int_code:
  assumes "wf_cbs out" and "cbs_view out = body"
  shows "CBS_len out = length body" and "take (CBS_len out) (CBS_data out) = body"
    and "0 < length body \<Longrightarrow> CBS_data out ! 0 = hd body"
    and "1 < length body \<Longrightarrow> CBS_data out ! 1 = body ! 1"
  using assms length_cbs_view [of out]
  by (auto simp: CBS_len_def CBS_data_def cbs_view_def hd_conv_nth)

lemma int_val_nonneg:
  assumes "body = b # bs"
  shows "0 \<le> int_val body \<longleftrightarrow> unat b < 128"
    and "unat b < 128 \<Longrightarrow> int_val body = int (be_val body)"
proof -
  have "int (be_val body) < 256 ^ length body"
    using be_val_less [of body] by (metis of_nat_less_numeral_power_cancel_iff of_nat_numeral of_nat_power of_nat_less_iff)
  then show "0 \<le> int_val body \<longleftrightarrow> unat b < 128" and "unat b < 128 \<Longrightarrow> int_val body = int (be_val body)"
    using assms by (auto simp: int_val_def)
qed

lemma minimal_int_Cons2:
  "minimal_int (b # b' # bs) \<longleftrightarrow> \<not> (b = 0 \<and> unat b' < 128) \<and> \<not> (b = 0xff \<and> 128 \<le> unat b')"
  by (simp add: minimal_int_def)

lemma and_80_eq_0: "(b :: byte) AND 0x80 = 0 \<longleftrightarrow> unat b < 128"
  using and_80_iff [of b] by auto

lemma CBS_get_asn1_uint64_body:
  assumes "wf_cbs c" and "cbs_view c = der_elem CBS_ASN1_INTEGER body @ rest" and "length body < 2 ^ 32"
  shows "CBS_get_asn1_uint64 c =
    (if minimal_int body \<and> 0 \<le> int_val body \<and> int_val body < 2 ^ 64
     then Some (of_int (int_val body)) else None,
     cbs_after (length (der_elem CBS_ASN1_INTEGER body)) c)"
proof -
  note out = minimal_int_code [OF body_window_wf [OF assms(1,2)] body_window_view [OF assms(1,2)]]
  note unfold = CBS_get_asn1_uint64_def CBS_get_asn1_der [OF assms] act_bind_def out Let_def
    act_simps asn1_uint64_loop_eq and_80_eq_0
  show ?thesis
  proof (cases body)
    case Nil
    then show ?thesis using out by (simp add: unfold minimal_int_def)
  next
    case (Cons b bs)
    note nonneg = int_val_nonneg [OF Cons]
    have bound: "int_val body < 2 ^ 64 \<longleftrightarrow> be_val body < 2 ^ 64"
      if "unat b < 128" unfolding nonneg(2) [OF that] by simp
    show ?thesis
    proof (cases bs)
      case Nil
      then show ?thesis
        using Cons out nonneg bound by (simp add: unfold minimal_int_def)
    next
      fix b' bs'
      assume bs: "bs = b' # bs'"
      then have "minimal_int body \<longleftrightarrow> \<not> (b = 0 \<and> unat b' < 128)" if "unat b < 128"
        using that Cons by (auto simp: minimal_int_Cons2)
      moreover have "0 \<noteq> (255 :: byte)" by simp
      ultimately show ?thesis
        using Cons bs out nonneg bound by (cases "unat b < 128") (simp_all add: unfold)
    qed
  qed
qed

text \<open>How large a minimal encoding is.\<close>

lemma be_val_less_int: "int (be_val bs) < 256 ^ length bs"
  using be_val_less [of bs] by (metis of_nat_less_iff of_nat_numeral of_nat_power)

definition sbyte :: "byte \<Rightarrow> int" where
  "sbyte b = int (unat b) - (if 128 \<le> unat b then 256 else 0)"

lemma sbyte_range: "-128 \<le> sbyte b" "sbyte b \<le> 127"
proof -
  obtain n where "unat b = n" and "n < 256" using unat_byte_less [of b] by blast
  then show "-128 \<le> sbyte b" "sbyte b \<le> 127" by (simp_all only: sbyte_def) auto
qed

lemma sbyte_inj: "sbyte b = sbyte b' \<Longrightarrow> b = b'"
proof -
  assume eq: "sbyte b = sbyte b'"
  obtain n m where n: "unat b = n" "n < 256" "unat b' = m" "m < 256"
    using unat_byte_less [of b] unat_byte_less [of b'] by blast
  then have "n = m" using eq by (simp only: sbyte_def) (auto split: if_splits)
  then show ?thesis using n by (simp add: word_unat_eq_iff)
qed

lemma int_val_Cons: "int_val (b # bs) = sbyte b * 256 ^ length bs + int (be_val bs)"
  by (simp add: int_val_def sbyte_def algebra_simps)

lemma int_val_range:
  assumes "bs \<noteq> []"
  shows "- 128 * 256 ^ (length bs - 1) \<le> int_val bs" and "int_val bs < 128 * 256 ^ (length bs - 1)"
proof -
  obtain b bs' where bs: "bs = b # bs'" using assms by (cases bs) auto
  have "-128 * 256 ^ length bs' \<le> sbyte b * 256 ^ length bs'"
    using sbyte_range(1) by (intro mult_right_mono) simp_all
  then show "- 128 * 256 ^ (length bs - 1) \<le> int_val bs"
    unfolding bs int_val_Cons by simp
  have "sbyte b * 256 ^ length bs' \<le> 127 * 256 ^ length bs'"
    using sbyte_range(2) by (intro mult_right_mono) simp_all
  then have "sbyte b * 256 ^ length bs' + int (be_val bs') < 128 * 256 ^ length bs'"
    using be_val_less_int [of bs'] by linarith
  then show "int_val bs < 128 * 256 ^ (length bs - 1)"
    unfolding bs int_val_Cons by simp
qed

lemma minimal_int_large:
  assumes "minimal_int (b # b' # bs)"
  shows "128 * 256 ^ length bs \<le> int_val (b # b' # bs) \<or> int_val (b # b' # bs) < - 128 * 256 ^ length bs"
proof -
  define P :: int where "P = 256 ^ length bs"
  define d where "d = sbyte b * 256 + int (unat b')"
  have P: "0 < P" and be: "0 \<le> int (be_val bs)" "int (be_val bs) < P"
    using be_val_less_int [of bs] by (simp_all add: P_def)
  have v: "int_val (b # b' # bs) = d * P + int (be_val bs)"
    by (simp add: int_val_Cons P_def d_def algebra_simps)
  obtain n m where n: "unat b = n" "n < 256" and m: "unat b' = m" "m < 256"
    using unat_byte_less [of b] unat_byte_less [of b'] by blast
  have "b = 0 \<longleftrightarrow> n = 0" "b = 0xff \<longleftrightarrow> n = 255" using n by (simp_all add: word_unat_eq_iff)
  then have "128 \<le> d \<or> d \<le> -129"
    using assms n(2) m(2) unfolding d_def sbyte_def minimal_int_Cons2 n(1) m(1)
    by (simp split: if_splits) linarith
  then show ?thesis
  proof
    assume "128 \<le> d"
    then have "128 * P \<le> d * P" using P by (intro mult_right_mono) simp_all
    then show ?thesis unfolding v P_def [symmetric] using be by linarith
  next
    assume "d \<le> -129"
    then have "d * P \<le> -129 * P" using P by (intro mult_right_mono) simp_all
    then show ?thesis unfolding v P_def [symmetric] using be by linarith
  qed
qed

text \<open>Minimal contents are determined by their value.\<close>

lemma int_val_inj_length:
  assumes "int_val xs = int_val ys" and "length xs = length ys"
  shows "xs = ys"
proof (cases xs)
  case Nil
  then show ?thesis using assms by simp
next
  case (Cons b bs)
  then obtain b' bs' where ys: "ys = b' # bs'" and len: "length bs = length bs'"
    using assms(2) by (cases ys) auto
  define P :: int where "P = 256 ^ length bs"
  have eq: "sbyte b * P + int (be_val bs) = sbyte b' * P + int (be_val bs')"
    using assms(1) len by (simp add: Cons ys int_val_Cons P_def)
  have P: "0 < P" and be: "int (be_val bs) < P" "int (be_val bs') < P"
    using be_val_less_int [of bs] be_val_less_int [of bs'] len by (simp_all add: P_def)
  have "(sbyte b * P + int (be_val bs)) div P = sbyte b"
    and "(sbyte b' * P + int (be_val bs')) div P = sbyte b'"
    using P be by (simp_all add: div_pos_pos_trivial)
  then have sb: "sbyte b = sbyte b'" using eq by simp
  then have "b = b'" by (rule sbyte_inj)
  moreover have "be_val bs = be_val bs'" using eq sb by simp
  ultimately show ?thesis
    using be_val_inj [OF _ len] by (simp add: Cons ys)
qed

lemma minimal_int_length:
  assumes "minimal_int xs" and "int_val xs = int_val ys" and "minimal_int ys"
  shows "length xs \<le> length ys"
proof (rule ccontr)
  assume *: "\<not> length xs \<le> length ys"
  have "ys \<noteq> []" using assms(3) by (intro notI) (simp add: minimal_int_def)
  then obtain b b' bs where xs: "xs = b # b' # bs"
    using * by (cases xs; cases "tl xs"; cases ys) auto
  have "(256 :: int) ^ (length ys - 1) \<le> 256 ^ length bs"
    using * xs \<open>ys \<noteq> []\<close> by (intro power_increasing) auto
  then show False
    using minimal_int_large [OF assms(1) [unfolded xs]] int_val_range [OF \<open>ys \<noteq> []\<close>]
      assms(2) [unfolded xs] by linarith
qed

lemma minimal_int_unique:
  "minimal_int xs \<Longrightarrow> minimal_int ys \<Longrightarrow> int_val xs = int_val ys \<Longrightarrow> xs = ys"
  by (intro int_val_inj_length le_antisym minimal_int_length) simp_all

lemma minimal_int_fits:
  assumes "minimal_int body"
  shows "length body \<le> 8 \<longleftrightarrow> - (2 ^ 63) \<le> int_val body \<and> int_val body < 2 ^ 63"
proof
  assume len: "length body \<le> 8"
  have "body \<noteq> []" using assms by (intro notI) (simp add: minimal_int_def)
  moreover have "(256 :: int) ^ (length body - 1) \<le> 256 ^ 7"
    using len by (intro power_increasing) auto
  ultimately show "- (2 ^ 63) \<le> int_val body \<and> int_val body < 2 ^ 63"
    using int_val_range [of body] by simp
next
  assume range: "- (2 ^ 63) \<le> int_val body \<and> int_val body < 2 ^ 63"
  show "length body \<le> 8"
  proof (rule ccontr)
    assume "\<not> length body \<le> 8"
    then obtain b b' bs where xs: "body = b # b' # bs" and "7 \<le> length bs"
      by (cases body; cases "tl body") auto
    then have "(256 :: int) ^ 7 \<le> 256 ^ length bs" by (intro power_increasing) auto
    then show False
      using minimal_int_large [of b b' bs] assms range xs by auto
  qed
qed

lemma foldl_update:
  "n \<le> length u \<Longrightarrow> foldl (\<lambda>u i. u[i := f i]) u [0..<n] = map f [0..<n] @ drop n u"
proof (induction n)
  case (Suc n)
  then show ?case
    by (simp add: list_update_append Cons_nth_drop_Suc [symmetric])
qed simp

lemma be_val_replicate_0: "be_val (replicate k 0 @ bs) = be_val bs"
  by (induction k) simp_all

lemma be_val_replicate_ff:
  "be_val (replicate k 0xff @ bs) + 256 ^ length bs = 256 ^ (k + length bs) + be_val bs"
  by (induction k) simp_all

lemma int64_bytes:
  assumes "length body \<le> 8" and "body = b # bs"
    and "fill = (if 128 \<le> unat b then 0xff else 0)"
  shows "int64_of_bytes (rev body @ replicate (8 - length body) fill) = of_int (int_val body)"
proof -
  let ?w = "be_val (replicate (8 - length body) fill @ body)"
  have "int ?w mod 2 ^ 64 = int_val body mod 2 ^ 64"
  proof (cases "128 \<le> unat b")
    case True
    have "?w + 256 ^ length body = 2 ^ 64 + be_val body"
      using be_val_replicate_ff [of "8 - length body" body] True assms by simp
    then have "int ?w + 256 ^ length body = 2 ^ 64 + int (be_val body)"
      by (metis of_nat_add of_nat_numeral of_nat_power)
    then have "int ?w = int_val body + 2 ^ 64"
      using True assms(2) by (simp add: int_val_def)
    then show ?thesis by simp
  next
    case False
    then show ?thesis using assms by (simp add: int_val_def be_val_replicate_0)
  qed
  then have "(of_int (int ?w) :: u64) = of_int (int_val body)"
    by (intro word_of_int_eq_iff [THEN iffD2]) (simp add: take_bit_eq_mod)
  then show ?thesis by (simp add: int64_of_bytes_def)
qed

lemma CBS_get_asn1_int64_body:
  assumes "wf_cbs c" and "cbs_view c = der_elem CBS_ASN1_INTEGER body @ rest" and "length body < 2 ^ 32"
  shows "CBS_get_asn1_int64 c =
    (if minimal_int body \<and> - (2 ^ 63) \<le> int_val body \<and> int_val body < 2 ^ 63
     then Some (of_int (int_val body)) else None,
     cbs_after (length (der_elem CBS_ASN1_INTEGER body)) c)"
proof -
  let ?out = "body_window c CBS_ASN1_INTEGER body"
  note out = minimal_int_code [OF body_window_wf [OF assms(1,2)] body_window_view [OF assms(1,2)]]
  note unfold = CBS_get_asn1_int64_def CBS_get_asn1_der [OF assms] act_bind_def out Let_def
    act_simps and_80_eq_0
  show ?thesis
  proof (cases body)
    case Nil
    then show ?thesis using out by (simp add: unfold minimal_int_def)
  next
    case (Cons b bs)
    define fill :: byte where "fill = (if 128 \<le> unat b then 0xff else 0)"
    have nth: "CBS_data ?out ! j = body ! j" if "j < length body" for j
      using out(1,2) that by (metis nth_take)
    have bytes: "map (\<lambda>i. CBS_data ?out ! (length body - i - 1)) [0..<length body] = rev body"
      using nth by (intro nth_equalityI) (simp_all add: rev_nth)
    have result: "int64_of_bytes (foldl (\<lambda>u i. u[i := CBS_data ?out ! (length body - i - 1)])
        (replicate 8 fill) [0..<length body]) = of_int (int_val body)"
      if "length body \<le> 8"
      using that bytes int64_bytes [OF that Cons fill_def] by (simp add: foldl_update)
    have nth0: "CBS_data ?out ! 0 = b" using nth [of 0] Cons by simp
    have nth1: "CBS_data ?out ! 1 = body ! 1" if "1 < length body" using nth that by simp
    have min: "minimal_int body \<longleftrightarrow>
        \<not> (1 < length body \<and> b = 0 \<and> unat (body ! 1) < 128) \<and>
        \<not> (1 < length body \<and> b = 0xff \<and> \<not> unat (body ! 1) < 128)"
      using Cons by (cases bs) (auto simp: minimal_int_def)
    have fill: "fill = (if b AND 0x80 \<noteq> 0 then 0xff else 0)"
      by (simp add: fill_def and_80_eq_0)
    have code: "CBS_get_asn1_int64 c =
       (if length body = 0 \<or> length body > 8 then None
        else if length body > 1 \<and> b = 0 \<and> unat (body ! 1) < 128 then None
        else if length body > 1 \<and> b = 0xff \<and> \<not> unat (body ! 1) < 128 then None
        else Some (int64_of_bytes (foldl (\<lambda>u i. u[i := CBS_data ?out ! (length body - i - 1)])
          (replicate 8 fill) [0..<length body])), cbs_after (length (der_elem CBS_ASN1_INTEGER body)) c)"
      unfolding CBS_get_asn1_int64_def act_bind_def CBS_get_asn1_der [OF assms] nth0 fill Let_def out(1)
      using nth1 by (cases "1 < length body") (simp_all add: and_80_eq_0 nth0 out(1) act_simps)
    have "0 < length body" using Cons by simp
    then show ?thesis
      unfolding code using min result minimal_int_fits [of body] by auto
  qed
qed

section \<open>The typed readers as equivalences\<close>

lemma CBS_get_asn1_bind_Some:
  assumes "act_bind (CBS_get_asn1 tag) f c = (Some r, c')" and "wf_cbs c"
  obtains body rest where "cbs_view c = der_elem tag body @ rest" and "length body < 2 ^ 32"
proof -
  obtain out t where "CBS_get_asn1 tag c = (Some out, t)"
    using assms(1) by (rule act_bind_SomeE)
  then show thesis using assms(2) that by (rule CBS_get_asn1_sound)
qed

theorem CBS_get_asn1_uint64_iff:
  assumes "wf_cbs c"
  shows "CBS_get_asn1_uint64 c = (Some v, c') \<longleftrightarrow>
    (\<exists>body rest. cbs_view c = der_elem CBS_ASN1_INTEGER body @ rest \<and> length body < 2 ^ 32 \<and>
       minimal_int body \<and> int_val body = int (unat v) \<and>
       c' = cbs_after (length (der_elem CBS_ASN1_INTEGER body)) c)"
    (is "?get \<longleftrightarrow> ?der")
proof
  assume get: ?get
  then obtain body rest where view: "cbs_view c = der_elem CBS_ASN1_INTEGER body @ rest"
    and n: "length body < 2 ^ 32"
    using assms unfolding CBS_get_asn1_uint64_def by (rule CBS_get_asn1_bind_Some)
  have "minimal_int body" "0 \<le> int_val body" "int_val body < 2 ^ 64" and v: "v = of_int (int_val body)"
    and c': "c' = cbs_after (length (der_elem CBS_ASN1_INTEGER body)) c"
    using get [unfolded CBS_get_asn1_uint64_body [OF assms view n]] by (auto split: if_splits)
  moreover from this have "uint v = int_val body"
    by (simp add: take_bit_int_eq_self_iff unsigned_of_int)
  ultimately show ?der using view n by auto
next
  assume ?der
  then obtain body rest where view: "cbs_view c = der_elem CBS_ASN1_INTEGER body @ rest"
    and n: "length body < 2 ^ 32" and min: "minimal_int body" and v: "int_val body = int (unat v)"
    and c': "c' = cbs_after (length (der_elem CBS_ASN1_INTEGER body)) c" by blast
  have "int (unat v) < 2 ^ 64" using unat_u64_less [of v] by (metis of_nat_less_iff of_nat_numeral of_nat_power)
  then show ?get
    unfolding CBS_get_asn1_uint64_body [OF assms view n] using min v c' by simp
qed

theorem CBS_get_asn1_int64_iff:
  assumes "wf_cbs c"
  shows "CBS_get_asn1_int64 c = (Some v, c') \<longleftrightarrow>
    (\<exists>body rest. cbs_view c = der_elem CBS_ASN1_INTEGER body @ rest \<and> length body < 2 ^ 32 \<and>
       minimal_int body \<and> int_val body = sint v \<and>
       c' = cbs_after (length (der_elem CBS_ASN1_INTEGER body)) c)"
    (is "?get \<longleftrightarrow> ?der")
proof
  assume get: ?get
  then obtain body rest where view: "cbs_view c = der_elem CBS_ASN1_INTEGER body @ rest"
    and n: "length body < 2 ^ 32"
    using assms unfolding CBS_get_asn1_int64_def by (rule CBS_get_asn1_bind_Some)
  have "minimal_int body" "- (2 ^ 63) \<le> int_val body" "int_val body < 2 ^ 63"
    and v: "v = of_int (int_val body)"
    and c': "c' = cbs_after (length (der_elem CBS_ASN1_INTEGER body)) c"
    using get [unfolded CBS_get_asn1_int64_body [OF assms view n]] by (auto split: if_splits)
  moreover from this have "sint v = int_val body"
    by (simp add: signed_of_int signed_take_bit_int_eq_self)
  ultimately show ?der using view n by auto
next
  assume ?der
  then obtain body rest where view: "cbs_view c = der_elem CBS_ASN1_INTEGER body @ rest"
    and n: "length body < 2 ^ 32" and min: "minimal_int body" and v: "int_val body = sint v"
    and c': "c' = cbs_after (length (der_elem CBS_ASN1_INTEGER body)) c" by blast
  have "- (2 ^ 63) \<le> sint v" "sint v < 2 ^ 63" using sint_ge [of v] sint_less [of v] by simp_all
  then show ?get
    unfolding CBS_get_asn1_int64_body [OF assms view n] using min v c' by simp
qed

theorem CBS_get_asn1_bool_iff:
  assumes "wf_cbs c"
  shows "CBS_get_asn1_bool c = (Some v, c') \<longleftrightarrow>
    (\<exists>rest. cbs_view c = der_elem CBS_ASN1_BOOLEAN [if v then 0xff else 0] @ rest \<and>
       c' = cbs_after (length (der_elem CBS_ASN1_BOOLEAN [if v then 0xff else 0])) c)"
    (is "?get \<longleftrightarrow> ?der")
proof -
  have body: "CBS_get_asn1_bool c =
     (if body = [0] then Some False else if body = [0xff] then Some True else None,
      cbs_after (length (der_elem CBS_ASN1_BOOLEAN body)) c)"
    if "cbs_view c = der_elem CBS_ASN1_BOOLEAN body @ rest" and "length body < 2 ^ 32" for body rest
  proof -
    note out = minimal_int_code [OF body_window_wf [OF assms that(1)] body_window_view [OF assms that(1)]]
    have one: "length body = 1 \<longleftrightarrow> body = [hd body]" by (cases body) auto
    show ?thesis
    proof (cases "length body = 1")
      case True
      then obtain b where "body = [b]" using one by blast
      then show ?thesis using out
        by (simp add: CBS_get_asn1_bool_def act_bind_def CBS_get_asn1_der [OF assms that] Let_def act_simps)
    next
      case False
      then show ?thesis using out
        by (auto simp: CBS_get_asn1_bool_def act_bind_def CBS_get_asn1_der [OF assms that] act_simps)
    qed
  qed
  show ?thesis
  proof
    assume get: ?get
    then obtain body rest where view: "cbs_view c = der_elem CBS_ASN1_BOOLEAN body @ rest"
      and n: "length body < 2 ^ 32"
      using assms unfolding CBS_get_asn1_bool_def by (rule CBS_get_asn1_bind_Some)
    show ?der
      using get view unfolding body [OF view n] by (auto split: if_splits)
  next
    assume ?der
    then show ?get
      using body [of "[if v then 0xff else 0]"] by auto
  qed
qed

section \<open>Peeking and optional elements\<close>

lemma CBS_peek_asn1_tag_iff:
  assumes "wf_cbs c"
  shows "CBS_peek_asn1_tag c tag \<longleftrightarrow> (\<exists>rest. cbs_view c = der_tag tag @ rest)"
proof
  assume peek: "CBS_peek_asn1_tag c tag"
  then obtain c' where "parse_asn1_tag c = (Some tag, c')"
    by (cases "parse_asn1_tag c") (auto simp: CBS_peek_asn1_tag_def split: if_splits option.splits)
  then show "\<exists>rest. cbs_view c = der_tag tag @ rest"
    using parse_asn1_tag_sound assms by blast
next
  assume "\<exists>rest. cbs_view c = der_tag tag @ rest"
  then obtain rest where view: "cbs_view c = der_tag tag @ rest" ..
  then have "0 < length (cbs_view c)" by (simp add: der_tag_def)
  then have "0 < cbs_len c" using length_cbs_view [OF assms] by simp
  then show "CBS_peek_asn1_tag c tag"
    by (simp add: CBS_peek_asn1_tag_def parse_asn1_tag_complete [OF assms view] CBS_len_def)
qed

text \<open>An absent element leaves the window alone; a present one must be a whole element.\<close>

theorem CBS_get_optional_asn1_cases:
  assumes "wf_cbs c" and "CBS_get_optional_asn1 tag c = (Some r, c')"
  shows "case r of
      None \<Rightarrow> c' = c \<and> (\<nexists>rest. cbs_view c = der_tag tag @ rest)
    | Some out \<Rightarrow> \<exists>body. cbs_view c = der_elem tag body @ cbs_view c' \<and> cbs_view out = body"
proof (cases "CBS_peek_asn1_tag c tag")
  case True
  then obtain out where get: "CBS_get_asn1 tag c = (Some out, c')" and r: "r = Some out"
    using assms(2) by (auto simp: CBS_get_optional_asn1_def act_bind_eq_Some)
  obtain body rest where view: "cbs_view c = der_elem tag body @ rest" and "length body < 2 ^ 32"
    and out: "out = body_window c tag body" and c': "c' = cbs_after (length (der_elem tag body)) c"
    using get assms(1) by (rule CBS_get_asn1_sound)
  have "cbs_view c' = rest" unfolding c' by (simp add: view)
  then show ?thesis
    using view body_window_view [OF assms(1) view] by (simp add: r out)
next
  case False
  then show ?thesis
    using assms CBS_peek_asn1_tag_iff [OF assms(1)] by (auto simp: CBS_get_optional_asn1_def)
qed

section \<open>Element readers make progress\<close>

lemma element_tail: "cbs_tail c (snd (cbs_get_any_asn1_element ber_ok c))"
proof -
  have fin: "cbs_tail c (snd (act_bind (CBS_get_bytes m) (\<lambda>out. act_ret (out, x)) c))" for m and x :: "u32 \<times> nat"
    by (auto simp: element_finish)
  show ?thesis
    unfolding cbs_get_any_asn1_element_def Let_def
    by (auto intro: fin split: prod.split option.split)
qed

lemma cbs_reader_element: "cbs_reader (cbs_get_any_asn1_element ber_ok)"
  by (simp add: cbs_reader_def element_tail)

text \<open>A successful read consumes the header at least.\<close>

lemma element_strict:
  assumes "wf_cbs c" and get: "cbs_get_any_asn1_element ber_ok c = (Some e, c')"
  shows "cbs_len c' < cbs_len c"
proof (rule cbs_get_any_asn1_element_sound [OF get assms(1)])
  fix tag n rest
  assume view: "cbs_view c = der_header tag n @ rest" and "n < 2 ^ 32" and "n \<le> length rest"
  then have c': "c' = cbs_after (length (der_header tag n) + n) c"
    using get cbs_get_any_asn1_element_der [OF assms(1), of tag n rest ber_ok] by (simp add: Let_def)
  have "0 < length (der_header tag n)" by simp
  moreover have "length (der_header tag n) \<le> cbs_len c"
    using length_cbs_view [OF assms(1)] view by simp
  ultimately show ?thesis unfolding c' cbs_len_after by linarith
next
  fix tag rest
  assume "ber_ok" and "tag AND CBS_ASN1_CONSTRUCTED \<noteq> 0" and view: "cbs_view c = der_tag tag @ 0x80 # rest"
  then have "c' = cbs_after (Suc (length (der_tag tag))) c"
    using get cbs_get_any_asn1_element_indefinite [OF assms(1), of tag rest] by (simp add: Let_def)
  then show ?thesis
    using length_cbs_view [OF assms(1)] view by simp
qed

lemma strict_reader_element: "strict_reader (cbs_get_any_asn1_element ber_ok)"
  by (simp add: strict_reader_def strict_reader_axioms_def cbs_reader_element element_strict)

interpretation der_element: strict_reader CBS_get_any_asn1_element
  unfolding CBS_get_any_asn1_element_def by (rule strict_reader_element)

interpretation ber_element: strict_reader CBS_get_any_ber_asn1_element
  unfolding CBS_get_any_ber_asn1_element_def by (rule strict_reader_element)

lemma cbs_reader_fail: "cbs_reader act_fail"
  by (auto simp: cbs_reader_def act_simps)

lemma cbs_reader_skip_header: "cbs_reader (skip_header out n)"
  by (auto simp: cbs_reader_def act_bind_skip_header)

lemma strict_reader_asn1: "strict_reader (cbs_get_asn1 tag skip)"
  unfolding cbs_get_asn1_def
  by (intro strict_reader_bind der_element.strict_reader_axioms)
     (auto intro: cbs_reader_fail cbs_reader_skip_header split: prod.split)

interpretation asn1: strict_reader "CBS_get_asn1 tag" for tag
  unfolding CBS_get_asn1_def by (rule strict_reader_asn1)

interpretation asn1_uint64: strict_reader CBS_get_asn1_uint64
  unfolding CBS_get_asn1_uint64_def
  by (intro strict_reader_bind asn1.strict_reader_axioms)
     (auto simp: Let_def cbs_reader_def act_simps)

text \<open>
  Reading elements until the window is empty splits it into the elements that were printed.
\<close>

definition element_view :: "cbs \<times> u32 \<times> nat \<Rightarrow> byte list" where
  "element_view e = cbs_view (fst e)"

definition is_der_elem :: "byte list \<Rightarrow> bool" where
  "is_der_elem bs \<longleftrightarrow> (\<exists>tag body. length body < 2 ^ 32 \<and> bs = der_elem tag body)"

lemma element_view_der:
  assumes "wf_cbs c" and get: "CBS_get_any_asn1_element c = (Some e, c')"
  shows "is_der_elem (element_view e)" and "cbs_view c = element_view e @ cbs_view c'"
    and "wf_cbs (fst e)"
proof -
  obtain tag body rest where view: "cbs_view c = der_elem tag body @ rest" and n: "length body < 2 ^ 32"
    using get assms(1) by (rule CBS_get_any_asn1_element_sound)
  have e: "fst e = CBS_init (cbs_data c) (length (der_elem tag body))"
    and c': "c' = cbs_after (length (der_elem tag body)) c"
    using get CBS_get_any_asn1_element_der [OF assms(1) view n] by auto
  have "length (der_elem tag body) \<le> cbs_len c"
    using length_cbs_view [OF assms(1)] view by simp
  then show "is_der_elem (element_view e)" "cbs_view c = element_view e @ cbs_view c'" "wf_cbs (fst e)"
    using view n assms(1) unfolding element_view_def e c' is_der_elem_def
    by (auto simp: cbs_view_init intro: wf_cbs_init)
qed

lemma elements_split:
  assumes "wf_cbs c" and "cbs_while CBS_get_any_asn1_element c = (Some es, c')"
  shows "cbs_view c = concat (map element_view es) \<and> (\<forall>e \<in> set es. is_der_elem (element_view e) \<and> wf_cbs (fst e))"
  using assms
proof (induction es arbitrary: c)
  case Nil
  then have "cbs_len c = 0"
    by (cases "cbs_len c = 0") (auto simp: der_element.while_step act_bind_eq_Some)
  then show ?case by (simp add: cbs_view_def)
next
  case (Cons e es)
  then have "cbs_len c \<noteq> 0"
    by (cases "cbs_len c = 0") (auto simp: der_element.while_empty)
  then obtain t where e: "CBS_get_any_asn1_element c = (Some e, t)"
    and es: "cbs_while CBS_get_any_asn1_element t = (Some es, c')"
    using Cons.prems by (auto simp: der_element.while_step act_bind_eq_Some)
  have "wf_cbs t" using e Cons.prems(1) by (rule der_element.get_wf)
  then show ?case
    using Cons.IH [OF _ es] element_view_der [OF Cons.prems(1) e] by simp
qed

lemma elements_complete:
  assumes "wf_cbs c" and "cbs_view c = concat xs" and "\<forall>x \<in> set xs. is_der_elem x"
  shows "\<exists>es c'. cbs_while CBS_get_any_asn1_element c = (Some es, c') \<and> map element_view es = xs"
  using assms
proof (induction xs arbitrary: c)
  case Nil
  then show ?case using length_cbs_view [of c] by (simp add: der_element.while_empty)
next
  case (Cons x xs)
  obtain tag body where x: "x = der_elem tag body" and n: "length body < 2 ^ 32"
    using Cons.prems(3) by (auto simp: is_der_elem_def)
  have view: "cbs_view c = der_elem tag body @ concat xs" using Cons.prems(2) x by simp
  define t where "t = cbs_after (length x) c"
  obtain e where e: "CBS_get_any_asn1_element c = (Some e, t)" and ev: "fst e = CBS_init (cbs_data c) (length x)"
    using CBS_get_any_asn1_element_der [OF Cons.prems(1) view n] by (auto simp: t_def x)
  have "length x \<le> cbs_len c" using length_cbs_view [OF Cons.prems(1)] Cons.prems(2) by simp
  then have "element_view e = x"
    using ev Cons.prems(2) by (simp add: element_view_def cbs_view_init)
  moreover have t: "cbs_view t = concat xs" "wf_cbs t" "\<forall>x \<in> set xs. is_der_elem x"
    using Cons.prems by (simp_all add: t_def)
  obtain es c' where "cbs_while CBS_get_any_asn1_element t = (Some es, c')" and "map element_view es = xs"
    using Cons.IH [OF t(2,1,3)] by blast
  moreover have "cbs_len c \<noteq> 0"
    using length_cbs_view [OF Cons.prems(1)] view der_elem_neq_Nil [of tag body]
    by (metis append_is_Nil_conv length_0_conv)
  ultimately show ?case
    using e Cons.prems(1) by (auto simp: der_element.while_step act_bind_def act_simps)
qed

end
