(* ===== verification/Cbb_Asn1.thy ===== *)
theory Cbb_Asn1
  imports Cbb_Ops Asn1_Read
begin

text \<open>
  The ASN.1 half of \<open>crypto/bytestring/cbb.c\<close>: what \<open>CBB_add_asn1\<close> and the typed
  elements write. Each is a \<open>builder_op\<close> for \<open>spec_write\<close> of the element that
  \<open>Der\<close> prints, so the readers of \<open>Asn1_Read\<close> recover the value.
\<close>

section \<open>Identifier octets\<close>

lemma tag_class_bits: "ucast (drop_bit CBS_ASN1_TAG_SHIFT (tag :: u32)) AND 0xe0 = (of_nat (tag_class tag * 32) :: byte)"
proof -
  have u: "unat (ucast (drop_bit 24 tag) :: byte) = unat tag div 2 ^ 24"
  proof -
    have "unat tag div 2 ^ 24 < 256" using unat_u32_less [of tag] by (simp add: div_less_iff_less_mult)
    then show ?thesis
      by (simp add: unat_ucast_narrow unat_drop_bit_eq drop_bit_eq_div [where 'a = nat])
  qed
  have "unat (ucast (drop_bit 24 tag) AND 0xe0 OR (0 :: byte)) = unat tag div 2 ^ 24 div 32 * 32"
    by (subst unat_high_bits) (simp_all add: u)
  moreover have "unat tag div 2 ^ 24 div 32 = tag_class tag"
    by (simp add: tag_class_def div_mult2_eq [symmetric])
  moreover have "tag_class tag * 32 < 256" using tag_class_less [of tag] by simp
  then have "unat (of_nat (tag_class tag * 32) :: byte) = tag_class tag * 32"
    by (simp del: of_nat_mult)
  ultimately show ?thesis
    by (simp add: word_unat_eq_iff CBS_ASN1_TAG_SHIFT_def del: of_nat_mult)
qed

lemma tag_number_bits: "unat (tag AND CBS_ASN1_TAG_NUMBER_MASK) = tag_number tag"
  using unat_and_mask [of tag 29]
  by (simp add: tag_number_def CBS_ASN1_TAG_NUMBER_MASK_def CBS_ASN1_TAG_SHIFT_def mask_numeral)

lemma tag_octet:
  "cls < 8 \<Longrightarrow> unat (w :: byte) < 32 \<Longrightarrow> (of_nat (cls * 32) OR w :: byte) = of_nat (cls * 32 + unat w)"
proof -
  assume *: "cls < 8" "unat w < 32"
  have c: "unat (of_nat cls :: byte) = cls" using *(1) by simp
  have "unat (push_bit 5 (of_nat cls) OR w) = unat (of_nat cls :: byte) * 2 ^ 5 + unat w"
    using * by (intro unat_push_or) (simp_all add: c)
  moreover have "push_bit 5 (of_nat cls) = (of_nat (cls * 32) :: byte)"
    by (simp add: push_bit_eq_mult)
  moreover have "cls * 32 + unat w < 256" using * by simp
  ultimately show ?thesis
    by (simp add: word_unat_eq_iff c del: of_nat_mult of_nat_add)
qed

definition tag_code :: "alloc \<Rightarrow> nat \<Rightarrow> u32 \<Rightarrow> (cbb, unit) action" where
  "tag_code env d tag =
     (let tag_bits = ucast (drop_bit CBS_ASN1_TAG_SHIFT tag) AND 0xe0;
          tag_number = tag AND CBS_ASN1_TAG_NUMBER_MASK
      in if tag_number \<ge> 0x1f
         then act_bind (CBB_add_u8 env d (tag_bits OR 0x1f)) (\<lambda>_.
                add_base128_integer env d (ucast tag_number))
         else CBB_add_u8 env d (tag_bits OR ucast tag_number))"

lemma builder_op_tag: "builder_op env (tag_code env d tag) (spec_write d (der_tag tag))"
proof -
  define n where "n = tag AND CBS_ASN1_TAG_NUMBER_MASK"
  have n: "unat n = tag_number tag" unfolding n_def by (rule tag_number_bits)
  have cls: "tag_class tag < 8" by (rule tag_class_less)
  show ?thesis
  proof (cases "n \<ge> 0x1f")
    case True
    then have "\<not> tag_number tag < 31" using n by (simp add: word_le_nat_alt)
    moreover have "of_nat (tag_class tag * 32) OR 0x1f = (of_nat (tag_class tag * 32 + 31) :: byte)"
      using tag_octet [where w = "0x1f", OF cls] by simp
    moreover have "unat (ucast n :: u64) = tag_number tag" by (simp add: unat_ucast_widen n)
    ultimately have der: "der_tag tag = [of_nat (tag_class tag * 32) OR 0x1f] @ base128 (unat (ucast n :: u64))"
      by (simp add: der_tag_def)
    have seq: "spec_write d (der_tag tag) =
       (\<lambda>st. Option.bind (spec_write d [of_nat (tag_class tag * 32) OR 0x1f] st)
          (spec_write d (base128 (unat (ucast n :: u64)))))"
    proof -
      have "spec_put d (base128 m) = spec_write d (base128 m)" for m
        by (simp add: fun_eq_iff spec_put_def)
      then show ?thesis unfolding der spec_write_put [symmetric] by simp
    qed
    have "builder_op env (act_bind (CBB_add_u8 env d (of_nat (tag_class tag * 32) OR 0x1f)) (\<lambda>_.
                add_base128_integer env d (ucast n))) (spec_write d (der_tag tag))"
      unfolding seq by (intro builder_op_bind add_u8.builder_op_axioms builder_op_base128)
    then show ?thesis
      using True by (simp add: tag_code_def Let_def n_def tag_class_bits del: of_nat_mult)
  next
    case False
    then have small: "tag_number tag < 31" using n by (simp add: word_le_nat_alt)
    then have u: "unat (ucast n :: byte) = tag_number tag" by (simp add: unat_ucast_narrow n)
    have "der_tag tag = [of_nat (tag_class tag * 32) OR ucast n]"
      using small tag_octet [where w = "ucast n", OF cls] u by (simp add: der_tag_def del: of_nat_mult of_nat_add)
    then show ?thesis
      using False add_u8.builder_op_axioms [of env d "of_nat (tag_class tag * 32) OR ucast n"]
      by (simp add: tag_code_def Let_def n_def tag_class_bits del: of_nat_mult)
  qed
qed

section \<open>Elements\<close>

definition spec_asn1 :: "nat \<Rightarrow> u32 \<Rightarrow> builder \<Rightarrow> builder option" where
  "spec_asn1 d tag st =
     Option.bind (spec_write d (der_tag tag) st) (\<lambda>(c, fs). Some (c, fs @ [(DerLength, [])]))"

lemma CBB_flush_at: "wf_cbb s \<Longrightarrow> length (cbb_kids s) = d \<Longrightarrow> CBB_flush env d s = (Some (), s)"
  by (auto simp: wf_cbb_def wf_buffer_def CBB_flush_def split: option.splits)

lemma on_base_bind: "act_bind (on_base f) (\<lambda>r. on_base (h r)) s = on_base (act_bind f h) s"
  by (auto simp: on_base_def act_bind_def split: option.splits prod.splits)

lemma CBB_add_asn1_alt:
  "CBB_add_asn1 env d tag =
     act_bind (CBB_flush env d) (\<lambda>_. act_bind (tag_code env d tag) (\<lambda>_.
       act_bind (on_base (\<lambda>b. (Some (bb_len b), b))) (\<lambda>offset.
       act_bind (CBB_add_u8 env d 0) (\<lambda>_.
         open_child d \<lparr>k_offset = offset, k_pending_len_len = 1, k_pending_is_asn1 = True\<rparr>))))"
  by (simp add: CBB_add_asn1_def tag_code_def Let_def)

lemma asn1_open_refines:
  assumes "malloc_bounded env" and wf: "wf_cbb s" and d: "length (cbb_kids s) = d"
  shows "refines env (act_bind (on_base (\<lambda>b. (Some (bb_len b), b))) (\<lambda>offset.
       act_bind (CBB_add_u8 env d 0) (\<lambda>_.
         open_child d \<lparr>k_offset = offset, k_pending_len_len = 1, k_pending_is_asn1 = True\<rparr>)))
     (\<lambda>(c, fs). Some (c, fs @ [(DerLength, [])])) s"
proof -
  define f where "f = act_bind (\<lambda>b. (Some (bb_len b), b)) (\<lambda>offset.
      act_bind (cbb_buffer_add_u env 0 1) (\<lambda>_. act_ret offset))"
  have app: "appends env (cbb_buffer_add_u env 0 1) [0] b" if "wf_buffer b" for b
    using appends_add_u [OF that assms(1), of 1 0] by simp
  have "refines env (act_bind (on_base f) (\<lambda>r. open_child d \<lparr>k_offset = r, k_pending_len_len = 1, k_pending_is_asn1 = True\<rparr>))
     (\<lambda>(c, fs). Some (c, fs @ [(if True then DerLength else Fixed 1, [])])) s"
  proof (rule opens_refines [OF wf d])
    fix b assume "wf_buffer b"
    from app [OF this] show "appends env f (replicate 1 0) b"
      by (auto simp: appends_def f_def act_bind_def act_simps split: prod.splits option.splits)
  next
    fix b r b' assume "f b = (Some r, b')"
    then show "\<lparr>k_offset = r, k_pending_len_len = 1, k_pending_is_asn1 = True\<rparr> =
       \<lparr>k_offset = bb_len b, k_pending_len_len = 1, k_pending_is_asn1 = True\<rparr>"
      by (auto simp: f_def act_bind_eq_Some)
  qed simp_all
  moreover have "act_bind (on_base (\<lambda>b. (Some (bb_len b), b))) (\<lambda>offset.
       act_bind (CBB_add_u8 env d 0) (\<lambda>_. open_child d (k offset))) s =
     act_bind (on_base f) (\<lambda>r. open_child d (k r)) s" for k
  proof -
    obtain b where b: "cbb_base s = Some b" using wf by (auto simp: wf_cbb_def split: option.splits)
    then have rd: "on_base (\<lambda>b. (Some (bb_len b), b)) s = (Some (bb_len b), s)"
      by (simp add: on_base_def)
    show ?thesis
      unfolding act_bind_Some [of "on_base (\<lambda>b. (Some (bb_len b), b))", OF rd]
      using b CBB_flush_at [OF wf d]
      by (auto simp: on_base_def act_bind_def f_def CBB_add_u8_def cbb_add_u_def act_simps
          split: option.splits prod.splits)
  qed
  ultimately show ?thesis
    unfolding refines_def if_True by simp
qed

lemma size_mono_asn1: "size_mono (spec_asn1 d tag)"
  unfolding spec_asn1_def [abs_def] by (intro size_mono_bind) auto

lemma spec_flush_idem: "Option.bind (spec_flush d st) (spec_write d w) = spec_write d w st"
proof (cases "spec_flush d st")
  case (Some t)
  then have "spec_flush d t = Some t" by (intro spec_flush_at spec_flush_depth)
  then show ?thesis using Some by (simp add: spec_write_def)
qed (simp add: spec_write_def)

interpretation add_asn1: builder_op env "CBB_add_asn1 env d tag" "spec_asn1 d tag" for env d tag
proof
  fix s
  assume env: "malloc_bounded env" and wf: "wf_cbb s"
  have spec: "spec_asn1 d tag = (\<lambda>st. Option.bind (spec_flush d st) (\<lambda>st.
      Option.bind (spec_write d (der_tag tag) st) (\<lambda>(c, fs). Some (c, fs @ [(DerLength, [])]))))"
  proof
    show "spec_asn1 d tag st = Option.bind (spec_flush d st) (\<lambda>st.
      Option.bind (spec_write d (der_tag tag) st) (\<lambda>(c, fs). Some (c, fs @ [(DerLength, [])])))" for st
      using spec_flush_idem [of d st "der_tag tag"] by (cases "spec_flush d st") (simp_all add: spec_asn1_def)
  qed
  show "refines env (CBB_add_asn1 env d tag) (spec_asn1 d tag) s"
    unfolding CBB_add_asn1_alt spec
  proof (rule refines_bind [OF flush_op.refine [OF env wf]])
    fix r s' assume wf': "wf_cbb s'"
    show "refines env (act_bind (tag_code env d tag) (\<lambda>_.
       act_bind (on_base (\<lambda>b. (Some (bb_len b), b))) (\<lambda>offset.
       act_bind (CBB_add_u8 env d 0) (\<lambda>_.
         open_child d \<lparr>k_offset = offset, k_pending_len_len = 1, k_pending_is_asn1 = True\<rparr>))))
      (\<lambda>st. Option.bind (spec_write d (der_tag tag) st) (\<lambda>(c, fs). Some (c, fs @ [(DerLength, [])]))) s'"
    proof (rule refines_bind [OF builder_op.refine [OF builder_op_tag env wf']])
      fix r s'' assume wf'': "wf_cbb s''" and "spec_write d (der_tag tag) (abs_cbb s') = Some (abs_cbb s'')"
      then have "length (cbb_kids s'') = d"
        using spec_write_depth abs_depth by metis
      then show "refines env (act_bind (on_base (\<lambda>b. (Some (bb_len b), b))) (\<lambda>offset.
           act_bind (CBB_add_u8 env d 0) (\<lambda>_.
             open_child d \<lparr>k_offset = offset, k_pending_len_len = 1, k_pending_is_asn1 = True\<rparr>)))
         (\<lambda>(c, fs). Some (c, fs @ [(DerLength, [])])) s''"
        using env wf'' by (intro asn1_open_refines)
    qed auto
  qed (auto intro: size_mono_bind)
next
  show "size_mono (spec_asn1 d tag)" by (rule size_mono_asn1)
qed

text \<open>Open, write the contents, close: a whole element.\<close>

lemma spec_append_last: "spec_append w (c, fs @ [(p, x)]) = (c, fs @ [(p, x @ w)])"
  by (induction fs arbitrary: c) auto

lemma spec_flush_last:
  assumes "enc_prefix p x = Some e"
  shows "spec_flush (length fs) (c, fs @ [(p, x)]) = Some (spec_append e (c, fs))"
proof (induction fs arbitrary: c)
  case Nil
  then show ?case using assms by simp
next
  case (Cons q fs)
  obtain p' x' where "q = (p', x')" by fastforce
  then show ?case using Cons.IH [of x'] by (simp split: prod.split)
qed

lemma spec_element:
  assumes "length body < 2 ^ 32 - 1"
  shows "Option.bind (spec_asn1 d tag st) (\<lambda>st. Option.bind (spec_put (Suc d) body st) (spec_flush d)) =
    spec_write d (der_elem tag body) st"
proof (cases "spec_write d (der_tag tag) st")
  case None
  then have "spec_flush d st = None" by (simp add: spec_write_def)
  then show ?thesis using None by (simp add: spec_asn1_def spec_write_def)
next
  case (Some t)
  obtain c fs where t: "t = (c, fs)" by fastforce
  have d: "length fs = d" using spec_write_depth [OF Some] t by simp
  have put: "spec_put (Suc d) body (c, fs @ [(DerLength, [])]) = Some (c, fs @ [(DerLength, body)])"
    using d by (simp add: spec_put_def spec_write_at spec_append_last)
  have "enc_prefix DerLength body = Some (der_length (length body) @ body)"
    using assms by simp
  from spec_flush_last [OF this, of fs c]
  have "spec_flush d (c, fs @ [(DerLength, body)]) = Some (spec_append (der_length (length body) @ body) t)"
    using d t by simp
  moreover have "spec_write d (der_elem tag body) st = spec_write d (der_tag tag @ der_length (length body) @ body) st"
    by (simp add: der_elem_def der_header_def)
  then have "spec_write d (der_elem tag body) st = Some (spec_append (der_length (length body) @ body) t)"
    using Some d t unfolding spec_write_put [symmetric] by (simp add: spec_put_def spec_write_at der_length_def)
  ultimately show ?thesis
    using Some t put by (simp add: spec_asn1_def)
qed

lemma builder_op_element:
  assumes "builder_op env f (spec_put (Suc d) body)" and "length body < 2 ^ 32 - 1"
  shows "builder_op env (act_bind (CBB_add_asn1 env d tag) (\<lambda>_. act_bind f (\<lambda>_. CBB_flush env d)))
    (spec_write d (der_elem tag body))"
  unfolding spec_element [OF assms(2), abs_def, symmetric]
  by (intro builder_op_bind add_asn1.builder_op_axioms assms(1) flush_op.builder_op_axioms)

section \<open>Contents of INTEGER\<close>

definition uint_body :: "byte list \<Rightarrow> byte list" where
  "uint_body bs =
     (case dropWhile (\<lambda>b. b = 0) bs of
        [] \<Rightarrow> [0]
      | b # r \<Rightarrow> (if b AND 0x80 \<noteq> 0 then [0] else []) @ b # r)"

lemma uint_body_Nil: "dropWhile (\<lambda>b. b = 0) bs = [] \<Longrightarrow> uint_body bs = [0]"
  unfolding uint_body_def by (simp only: list.case)

lemma uint_body_Cons:
  "dropWhile (\<lambda>b. b = 0) bs = b # r \<Longrightarrow> uint_body bs = (if b AND 0x80 \<noteq> 0 then [0] else []) @ b # r"
  unfolding uint_body_def by (simp only: list.case)

lemma be_val_dropWhile: "be_val (dropWhile (\<lambda>b. b = 0) bs) = be_val bs"
  by (induction bs) auto

lemma uint_body_int_val: "int_val (uint_body bs) = int (be_val bs)"
proof (cases "dropWhile (\<lambda>b. b = 0) bs")
  case Nil
  have "be_val bs = be_val []" unfolding be_val_dropWhile [of bs, symmetric] Nil ..
  then show ?thesis unfolding uint_body_Nil [OF Nil] by (simp add: int_val_def)
next
  case (Cons b r)
  have "be_val bs = be_val (b # r)" unfolding be_val_dropWhile [of bs, symmetric] Cons ..
  then show ?thesis
    unfolding uint_body_Cons [OF Cons] by (auto simp: int_val_def and_80_eq_0)
qed

lemma uint_body_minimal: "minimal_int (uint_body bs)"
proof (cases "dropWhile (\<lambda>b. b = 0) bs")
  case Nil
  then show ?thesis unfolding uint_body_Nil [OF Nil] by (simp add: minimal_int_def)
next
  case (Cons b r)
  have b: "b \<noteq> 0" using hd_dropWhile [of "\<lambda>b. b = 0" bs, unfolded Cons] by simp
  show ?thesis
  proof (cases "unat b < 128")
    case True
    then have "b \<noteq> 0xff" by auto
    then have "minimal_int (b # r)"
      using b by (cases r) (simp_all add: minimal_int_Cons2, simp add: minimal_int_def)
    then show ?thesis
      unfolding uint_body_Cons [OF Cons] using True by (simp add: and_80_eq_0)
  next
    case False
    then have "minimal_int (0 # b # r)" by (simp add: minimal_int_Cons2)
    then show ?thesis
      unfolding uint_body_Cons [OF Cons] using False by (simp add: and_80_eq_0)
  qed
qed

lemma uint_body_neq_Nil [simp]: "uint_body bs \<noteq> []"
  by (simp add: uint_body_def split: list.split)

lemma length_uint_body: "length (uint_body bs) \<le> Suc (length bs)"
  using length_dropWhile_le [of "\<lambda>b. b = 0" bs] by (auto simp: uint_body_def split: list.split)

lemma asn1_uint64_bytes_started:
  "asn1_uint64_bytes env d True bs = act_bind (act_each (CBB_add_u8 env d) bs) (\<lambda>_. act_ret True)"
  by (induction bs) (auto simp: fun_eq_iff act_bind_def act_simps split: prod.splits option.splits)

lemma asn1_uint64_bytes_body:
  "act_bind (asn1_uint64_bytes env d False bs) (\<lambda>started.
     act_bind (if \<not> started then CBB_add_u8 env d 0 else act_ret ()) f) =
   act_bind (act_each (CBB_add_u8 env d) (uint_body bs)) f"
proof (induction bs)
  case Nil
  show ?case
    by (auto simp: fun_eq_iff uint_body_def act_bind_def act_simps split: prod.splits option.splits)
next
  case (Cons b bs)
  show ?case
  proof (cases "b = 0")
    case True
    then have "uint_body (b # bs) = uint_body bs" by (simp add: uint_body_def)
    then show ?thesis using True Cons.IH by simp
  next
    case False
    then show ?thesis
      by (auto simp: fun_eq_iff uint_body_def act_bind_def act_simps asn1_uint64_bytes_started
          split: prod.splits option.splits)
  qed
qed

lemma be_bytes_map: "be_bytes n v = map (\<lambda>i. of_nat (v div 256 ^ (n - 1 - i))) [0..<n]"
proof (induction n arbitrary: v)
  case (Suc n)
  have "v div 256 div 256 ^ (n - 1 - i) = v div 256 ^ (n - i)" if "i < n" for i
  proof -
    have "n - i = Suc (n - 1 - i)" using that by simp
    then show ?thesis by (simp add: div_mult2_eq)
  qed
  then show ?case using Suc by simp
qed simp

lemma ucast_drop_byte: "ucast (drop_bit k (v :: u64)) = (of_nat (unat v div 2 ^ k) :: byte)"
  by (simp add: word_unat_eq_iff unat_ucast_narrow unat_of_nat unat_drop_bit_eq drop_bit_eq_div [where 'a = nat])

lemma be_bytes_8_code: "map (\<lambda>i. ucast (drop_bit (8 * (7 - i)) (v :: u64))) [0..<8] = be_bytes 8 (unat v)"
  unfolding be_bytes_map ucast_drop_byte power_mult by simp

lemma builder_op_element':
  assumes "builder_op env (act_bind (CBB_add_asn1 env d tag) (\<lambda>_. act_bind f (\<lambda>_. CBB_flush env d))) g"
    and "op = act_bind (CBB_add_asn1 env d tag) (\<lambda>_. act_bind f (\<lambda>_. CBB_flush env d))"
  shows "builder_op env op g"
  using assms by simp

definition uint64_elem :: "u64 \<Rightarrow> byte list" where
  "uint64_elem v = der_elem CBS_ASN1_INTEGER (uint_body (be_bytes 8 (unat v)))"

interpretation add_uint64: builder_op env "CBB_add_asn1_uint64 env d v" "spec_write d (uint64_elem v)" for env d v
proof -
  have "length (uint_body (be_bytes 8 (unat v))) < 2 ^ 32 - 1"
    using length_uint_body [of "be_bytes 8 (unat v)"] by simp
  then show "builder_op env (CBB_add_asn1_uint64 env d v) (spec_write d (uint64_elem v))"
    unfolding CBB_add_asn1_uint64_def be_bytes_8_code asn1_uint64_bytes_body uint64_elem_def
    by (intro builder_op_element builder_op_each)
qed

section \<open>Negative INTEGERs\<close>

fun int_trim :: "byte list \<Rightarrow> byte list" where
  "int_trim (a # b # bs) = (if a = 0xff \<and> b AND 0x80 \<noteq> 0 then int_trim (b # bs) else a # b # bs)"
| "int_trim bs = bs"

lemma int64_start_trim:
  "n < length u \<Longrightarrow> map ((!) u) (rev [0..<Suc (int64_start u n)]) = int_trim (map ((!) u) (rev [0..<Suc n]))"
proof (induction n)
  case (Suc n)
  have "map ((!) u) (rev [0..<Suc n]) = u ! n # map ((!) u) (rev [0..<n])" by simp
  then show ?case using Suc by (auto simp del: upt_Suc simp: upt_Suc_append)
qed simp

lemma int_trim_val: "int_val (int_trim bs) = int_val bs"
proof (induction bs rule: int_trim.induct)
  case (1 a b bs)
  have "sbyte 0xff * 256 + int (unat b) = sbyte b" if "\<not> unat b < 128"
    using that by (simp add: sbyte_def)
  then have "(sbyte 0xff * 256 + int (unat b)) * 256 ^ length bs = sbyte b * 256 ^ length bs" if "\<not> unat b < 128"
    using that by metis
  then have "int_val (0xff # b # bs) = int_val (b # bs)" if "\<not> unat b < 128"
    using that by (simp add: int_val_Cons algebra_simps)
  then show ?case using 1 by (auto simp: and_80_eq_0)
qed simp_all

lemma int_trim_minimal: "bs \<noteq> [] \<Longrightarrow> 128 \<le> unat (hd bs) \<Longrightarrow> minimal_int (int_trim bs)"
proof (induction bs rule: int_trim.induct)
  case (1 a b bs)
  then show ?case
    by (cases "a = 0xff \<and> b AND 0x80 \<noteq> 0") (auto simp: minimal_int_Cons2 and_80_eq_0)
qed (simp_all add: minimal_int_def)

lemma length_int_trim: "length (int_trim bs) \<le> length bs"
  by (induction bs rule: int_trim.induct) auto

lemma int_trim_neq_Nil: "bs \<noteq> [] \<Longrightarrow> int_trim bs \<noteq> []"
  by (induction bs rule: int_trim.induct) auto

lemma int_val_be_bytes_8: "int_val (be_bytes 8 (unat v)) = sint (v :: u64)"
proof -
  let ?bs = "be_bytes 8 (unat v)"
  have ne: "?bs \<noteq> []" by (metis length_be_bytes list.size(3) zero_neq_numeral)
  have r: "- (2 ^ 63) \<le> int_val ?bs" "int_val ?bs < 2 ^ 63"
    using int_val_range [OF ne] by simp_all
  have "unat v mod 256 ^ 8 = unat v" using unat_u64_less [of v] by simp
  then have "int_val ?bs = uint v - (if 128 \<le> unat (hd ?bs) then 2 ^ 64 else 0)"
    using ne by (simp add: int_val_def)
  then have "take_bit 64 (int_val ?bs) = take_bit 64 (uint v)"
    by (simp add: take_bit_eq_mod)
  then have "of_int (int_val ?bs) = v"
    using word_of_int_eq_iff [where 'a = 64, of "int_val ?bs" "uint v"] by simp
  moreover have "sint (of_int (int_val ?bs) :: u64) = int_val ?bs"
    using r by (simp add: signed_of_int signed_take_bit_int_eq_self)
  ultimately show ?thesis by simp
qed

definition int64_body :: "u64 \<Rightarrow> byte list" where
  "int64_body v =
     (let bs = be_bytes 8 (unat v) in if 0 \<le> sint v then uint_body bs else int_trim bs)"

definition int64_elem :: "u64 \<Rightarrow> byte list" where
  "int64_elem v = der_elem CBS_ASN1_INTEGER (int64_body v)"

lemma be_bytes_8_neq_Nil: "be_bytes 8 v \<noteq> []"
  by (metis length_be_bytes list.size(3) zero_neq_numeral)

lemma sint_sign:
  "0 \<le> sint (v :: u64) \<longleftrightarrow> unat (hd (be_bytes 8 (unat v))) < 128"
  "0 \<le> sint (v :: u64) \<Longrightarrow> sint v = uint v"
proof -
  obtain b bs where bs: "be_bytes 8 (unat v) = b # bs"
    using be_bytes_8_neq_Nil by (cases "be_bytes 8 (unat v)") auto
  have "unat v mod 256 ^ 8 = unat v" using unat_u64_less [of v] by simp
  then show "0 \<le> sint v \<longleftrightarrow> unat (hd (be_bytes 8 (unat v))) < 128"
    and "0 \<le> sint v \<Longrightarrow> sint v = uint v"
    using int_val_nonneg [OF bs] int_val_be_bytes_8 [of v] by (simp_all add: bs [symmetric]) (simp_all add: bs)
qed

lemma int64_body_props:
  "minimal_int (int64_body v)" "int_val (int64_body v) = sint v" "int64_body v \<noteq> []" "length (int64_body v) \<le> 9"
proof -
  let ?bs = "be_bytes 8 (unat v)"
  have "minimal_int (int64_body v) \<and> int_val (int64_body v) = sint v \<and> int64_body v \<noteq> [] \<and> length (int64_body v) \<le> 9"
  proof (cases "0 \<le> sint v")
    case True
    have "unat v mod 256 ^ 8 = unat v" using unat_u64_less [of v] by simp
    then show ?thesis
      using True sint_sign(2) [OF True] length_uint_body [of ?bs]
      by (simp add: int64_body_def uint_body_minimal uint_body_int_val)
  next
    case False
    then show ?thesis
      using sint_sign(1) [of v] int_trim_minimal [OF be_bytes_8_neq_Nil] length_int_trim [of ?bs]
        int_trim_neq_Nil [OF be_bytes_8_neq_Nil] int_val_be_bytes_8 [of v]
      by (simp add: int64_body_def int_trim_val)
  qed
  then show "minimal_int (int64_body v)" "int_val (int64_body v) = sint v" "int64_body v \<noteq> []" "length (int64_body v) \<le> 9"
    by simp_all
qed

lemma int64_code_bytes:
  "map ((!) (map (\<lambda>i. ucast (drop_bit (8 * i) v)) [0..<8])) (rev [0..<Suc (int64_start (map (\<lambda>i. ucast (drop_bit (8 * i) v)) [0..<8]) 7)]) =
   int_trim (be_bytes 8 (unat (v :: u64)))"
proof -
  let ?u = "map (\<lambda>i. ucast (drop_bit (8 * i) v)) [0..<8] :: byte list"
  have "map ((!) ?u) (rev [0..<Suc 7]) = be_bytes 8 (unat v)"
    unfolding be_bytes_8_code [symmetric] by (simp add: upt_rec)
  then show ?thesis
    using int64_start_trim [of 7 ?u] by (simp del: upt_Suc)
qed

interpretation add_int64: builder_op env "CBB_add_asn1_int64 env d v" "spec_write d (int64_elem v)" for env d v
proof (cases "0 \<le> sint v")
  case True
  then have "int64_elem v = uint64_elem v"
    by (simp add: int64_elem_def uint64_elem_def int64_body_def)
  then show "builder_op env (CBB_add_asn1_int64 env d v) (spec_write d (int64_elem v))"
    using True add_uint64.builder_op_axioms [of env d v] by (simp add: CBB_add_asn1_int64_def)
next
  case False
  have "length (int64_body v) < 2 ^ 32 - 1" using int64_body_props(4) [of v] by simp
  moreover have "int64_body v = int_trim (be_bytes 8 (unat v))" using False by (simp add: int64_body_def)
  ultimately show "builder_op env (CBB_add_asn1_int64 env d v) (spec_write d (int64_elem v))"
    using False builder_op_element [OF builder_op_each, of "int64_body v" env d CBS_ASN1_INTEGER]
    by (simp add: CBB_add_asn1_int64_def Let_def int64_code_bytes int64_elem_def del: upt_Suc)
qed

section \<open>OCTET STRING and BOOLEAN\<close>

lemma builder_op_octet_string:
  assumes "length w < 2 ^ 32 - 1" and "w \<noteq> []"
  shows "builder_op env (CBB_add_asn1_octet_string env d w (length w)) (spec_write d (der_elem CBS_ASN1_OCTETSTRING w))"
proof -
  have "spec_put (Suc d) w = spec_write (Suc d) w"
    using assms(2) by (simp add: fun_eq_iff spec_put_def)
  then have "builder_op env (CBB_add_bytes env (Suc d) w (length w)) (spec_put (Suc d) w)"
    using builder_op_add_bytes [of w env "Suc d"] assms(1) by simp
  then show ?thesis
    unfolding CBB_add_asn1_octet_string_def using assms(1) by (rule builder_op_element)
qed

definition bool_elem :: "bool \<Rightarrow> byte list" where
  "bool_elem v = der_elem CBS_ASN1_BOOLEAN [if v then 0xff else 0]"

interpretation add_bool: builder_op env "CBB_add_asn1_bool env d v" "spec_write d (bool_elem v)" for env d v
proof -
  let ?b = "if v then 0xff else 0 :: byte"
  have "spec_put (Suc d) [?b] = spec_write (Suc d) [?b]"
    by (simp add: fun_eq_iff spec_put_def)
  then have "builder_op env (CBB_add_u8 env (Suc d) ?b) (spec_put (Suc d) [?b])"
    using add_u8.builder_op_axioms [of env "Suc d" ?b] by simp
  then show "builder_op env (CBB_add_asn1_bool env d v) (spec_write d (bool_elem v))"
    unfolding CBB_add_asn1_bool_def bool_elem_def by (rule builder_op_element) simp
qed

section \<open>A builder from start to finish\<close>

lemma CBB_init_ok:
  assumes "CBB_init env n = (Some u, s)" and "n + 8 < size_mod" and "malloc_bounded env"
  shows "wf_cbb s \<and> abs_cbb s = ([], [])"
proof (cases "OPENSSL_malloc env n")
  case None
  then have "n = 0" using assms(1) by (auto simp: CBB_init_def split: if_splits)
  then show ?thesis
    using assms(1) None
    by (auto simp: CBB_init_def cbb_init_def wf_cbb_def wf_buffer_def abs_cbb_def bb_data_def split: option.splits)
next
  case (Some p)
  then have "length p = n" "n + 8 < 2 ^ 63"
    using OPENSSL_malloc_length [OF Some assms(2)] OPENSSL_malloc_bound [OF Some assms(3,2)] by simp_all
  then show ?thesis
    using assms(1) Some
    by (auto simp: CBB_init_def cbb_init_def wf_cbb_def wf_buffer_def abs_cbb_def bb_data_def split: option.splits)
qed

lemma CBB_init_total:
  assumes "plenty env" and "n < 2 ^ 39"
  shows "\<exists>s. CBB_init env n = (Some (), s) \<and> roomy s"
proof -
  obtain p where "OPENSSL_malloc env n = Some p"
    using OPENSSL_malloc_grants [of env n] assms by (auto simp: plenty_def size_mod_def)
  moreover obtain q where "OPENSSL_malloc env sizeof_cbb_buffer = Some q"
    using OPENSSL_malloc_grants [of env sizeof_cbb_buffer] assms by (auto simp: plenty_def size_mod_def sizeof_cbb_buffer_def)
  ultimately show ?thesis
    using assms(2) by (simp add: CBB_init_def cbb_init_def roomy_def room_def)
qed

lemma CBB_finish_ok:
  assumes "malloc_bounded env" and "wf_cbb s" and "CBB_finish env 0 want s = (Some (buf, n), s')"
  shows "spec_flush 0 (abs_cbb s) = Some (take n buf, []) \<and> n \<le> length buf \<and> cbb_base s' = None"
proof -
  obtain s1 where fl: "CBB_flush env 0 s = (Some (), s1)"
    using assms(3) by (auto simp: CBB_finish_def act_bind_eq_Some)
  have *: "wf_cbb s1" "spec_flush 0 (abs_cbb s) = Some (abs_cbb s1)"
    using flush_op.op_ok [OF assms(1,2) fl] by simp_all
  then obtain b where b: "cbb_base s1 = Some b" "wf_buffer b"
    by (auto simp: wf_cbb_def split: option.splits)
  have "cbb_kids s1 = []" using CBB_flush_refines(2) [OF assms(2,1) fl] by simp
  then have "abs_cbb s1 = (take n buf, [])" and "n = bb_len b" "buf = bb_buf b" "cbb_base s' = None"
    using assms(3) fl b by (auto simp: CBB_finish_def act_bind_def CBB_cleanup_def abs_cbb_def bb_data_def split: if_splits)
  then show ?thesis using * b(2) by (simp add: wf_buffer_def)
qed

end
