(* ===== verification/Cbb_Build.thy ===== *)
theory Cbb_Build
  imports Cbb_Asn1
begin

text \<open>
  Builders from \<open>CBB_init\<close> to \<open>CBB_finish\<close>, and the elements they write read back by
  \<open>Cbs_Asn1\<close>.
\<close>

section \<open>Round trips\<close>

text \<open>
  Any builder, any depth, any allocator: if the call succeeds, the contents of that \<open>CBB\<close>
  end with an element from which the reader gets the value back, and nothing else changed.
\<close>

lemma uint64_elem_read:
  assumes "wf_cbs c" and "cbs_view c = uint64_elem v @ rest"
  shows "CBS_get_asn1_uint64 c = (Some v, cbs_after (length (uint64_elem v)) c)"
proof -
  let ?body = "uint_body (be_bytes 8 (unat v))"
  have "unat v mod 256 ^ 8 = unat v" using unat_u64_less [of v] by simp
  then have "int_val ?body = int (unat v)" by (simp add: uint_body_int_val)
  moreover have "length ?body < 2 ^ 32" using length_uint_body [of "be_bytes 8 (unat v)"] by simp
  ultimately show ?thesis
    using assms(2) uint_body_minimal unfolding CBS_get_asn1_uint64_iff [OF assms(1)] uint64_elem_def by blast
qed

lemma int64_elem_read:
  assumes "wf_cbs c" and "cbs_view c = int64_elem v @ rest"
  shows "CBS_get_asn1_int64 c = (Some v, cbs_after (length (int64_elem v)) c)"
proof -
  have "length (int64_body v) < 2 ^ 32" using int64_body_props(4) [of v] by simp
  then show ?thesis
    using assms(2) int64_body_props(1,2) [of v]
    unfolding CBS_get_asn1_int64_iff [OF assms(1)] int64_elem_def by blast
qed

lemma bool_elem_read:
  assumes "wf_cbs c" and "cbs_view c = bool_elem v @ rest"
  shows "CBS_get_asn1_bool c = (Some v, cbs_after (length (bool_elem v)) c)"
  using assms(2) unfolding CBS_get_asn1_bool_iff [OF assms(1)] bool_elem_def by blast

text \<open>Appending the bytes of a window to an open builder.\<close>

lemma add_window_ok:
  assumes "CBB_add_bytes env d (CBS_data w) (CBS_len w) s = (Some u, s')"
    and "wf_cbs w" and "malloc_bounded env" and "wf_cbb s" and "length (cbb_kids s) = d"
  shows "wf_cbb s' \<and> abs_cbb s' = spec_append (cbs_view w) (abs_cbb s) \<and> length (cbb_kids s') = d"
proof -
  have w: "take (CBS_len w) (CBS_data w) = cbs_view w" "CBS_len w = length (cbs_view w)" "length (cbs_view w) < 2 ^ 63"
    using assms(2) length_cbs_view [of w] by (simp_all add: CBS_len_def CBS_data_def cbs_view_def wf_cbs_def)
  have "CBB_add_bytes env d (CBS_data w) (CBS_len w) = CBB_add_bytes env d (cbs_view w) (length (cbs_view w))"
    unfolding CBB_add_bytes_def w(1) using w(2) by simp
  then have s': "wf_cbb s'" "spec_write d (cbs_view w) (abs_cbb s) = Some (abs_cbb s')"
    using builder_op.op_ok [OF builder_op_add_bytes [OF w(3)] assms(3,4)] assms(1) by simp_all
  have "length (snd (abs_cbb s)) = d" using abs_depth [OF assms(4)] assms(5) by simp
  then show ?thesis
    using s' spec_write_depth [OF s'(2)] abs_depth [OF s'(1)] by (simp add: spec_write_at)
qed

text \<open>Initialise with a capacity, run the calls on the root, finish.\<close>

definition build1 :: "alloc \<Rightarrow> nat \<Rightarrow> (cbb, unit) action \<Rightarrow> byte list option" where
  "build1 env cap f =
     (case CBB_init env cap of
        (None, _) \<Rightarrow> None
      | (Some _, s) \<Rightarrow>
          (case f s of
             (None, _) \<Rightarrow> None
           | (Some _, s) \<Rightarrow>
               (case CBB_finish env 0 True s of
                  (None, _) \<Rightarrow> None
                | (Some (buf, n), _) \<Rightarrow> Some (take n buf))))"

lemma build1_ok:
  assumes "builder_op env f (spec_write 0 w)" and "malloc_bounded env" and "cap < 2 ^ 63" and "build1 env cap f = Some bs"
  shows "bs = w"
proof -
  obtain s s1 s2 buf n where init: "CBB_init env cap = (Some (), s)" and f: "f s = (Some (), s1)"
    and fin: "CBB_finish env 0 True s1 = (Some (buf, n), s2)" and bs: "bs = take n buf"
    using assms(4) by (auto simp: build1_def split: prod.splits option.splits)
  have s: "wf_cbb s" "abs_cbb s = ([], [])"
    using CBB_init_ok [OF init _ assms(2)] assms(3) by (simp_all add: size_mod_def)
  have s1: "wf_cbb s1" "spec_write 0 w ([], []) = Some (abs_cbb s1)"
    using builder_op.op_ok [OF assms(1,2) s(1) f] s(2) by simp_all
  then have "abs_cbb s1 = (w, [])" by (simp add: spec_write_def)
  then show ?thesis
    using CBB_finish_ok [OF assms(2) s1(1) fin] bs by simp
qed

lemma build1_total:
  assumes "builder_op env f (spec_write 0 w)" and "malloc_bounded env" and "plenty env" and "length w < 2 ^ 38" and "cap < 2 ^ 39"
  shows "build1 env cap f = Some w"
proof -
  obtain s where init: "CBB_init env cap = (Some (), s)" and "roomy s"
    using CBB_init_total [OF assms(3,5)] by auto
  have s: "wf_cbb s" "abs_cbb s = ([], [])"
    using CBB_init_ok [OF init _ assms(2)] assms(5) by (simp_all add: size_mod_def)
  have "spec_write 0 w (abs_cbb s) = Some (w, [])" by (simp add: s(2) spec_write_def)
  then obtain s1 where f: "f s = (Some (), s1)" "wf_cbb s1" "roomy s1" "abs_cbb s1 = (w, [])"
    using builder_op.op_total [OF assms(1,2,3) s(1) \<open>roomy s\<close>, of "(w, [])"] assms(4) by (auto simp: spec_size.simps)
  then have "spec_flush 0 (abs_cbb s1) = Some (w, [])" by simp
  then obtain s2 where fl: "CBB_flush env 0 s1 = (Some (), s2)" "wf_cbb s2" "roomy s2" 
    using flush_op.op_total [OF assms(2,3) f(2,3), of 0 "(w, [])"] assms(4) by (auto simp: spec_size.simps)
  then obtain b where "cbb_base s2 = Some b" by (auto simp: wf_cbb_def split: option.splits)
  then obtain buf n s3 where fin: "CBB_finish env 0 True s1 = (Some (buf, n), s3)"
    using fl by (auto simp: CBB_finish_def act_bind_def)
  have "build1 env cap f = Some (take n buf)"
    using init f(1) fin by (simp add: build1_def)
  then show ?thesis using build1_ok [OF assms(1,2), of cap "take n buf"] assms(5) by simp
qed

end
