(* ===== verification/Oid.thy ===== *)
theory Oid
  imports Cbb_Build
begin

text \<open>
  Object identifiers: \<open>CBB_add_asn1_oid_from_text\<close> of \<open>crypto/bytestring/cbb.c\<close> and
  \<open>CBS_asn1_oid_to_text\<close> of \<open>crypto/bytestring/cbs.c\<close>. The first writes the contents
  octets \<open>oid_body\<close> of the components its text names, the second prints exactly that text
  again.
\<close>

section \<open>The code\<close>

definition dot :: byte where
  "dot = 0x2e"

definition char_0 :: byte where
  "char_0 = 0x30"

definition char_9 :: byte where
  "char_9 = 0x39"

definition UINT64_MAX :: u64 where
  "UINT64_MAX = - 1"

text \<open>The endless loop of \<open>parse_dotted_decimal\<close>; every round consumes a byte.\<close>

function parse_dotted_loop :: "u64 \<Rightarrow> bool \<Rightarrow> (cbs, u64) action" where
  "parse_dotted_loop out seen_digit cbs =
     (case CBS_get_u8 cbs of
        (None, cbs) \<Rightarrow> (if seen_digit then Some out else None, cbs)
      | (Some u, cbs) \<Rightarrow>
          if u = dot \<and> CBS_len cbs > 0 then (if seen_digit then Some out else None, cbs)
          else if u < char_0 \<or> u > char_9 \<or> (seen_digit \<and> out = 0) \<or>
                  out > UINT64_MAX div 10 \<or> out * 10 > UINT64_MAX - ucast (u - char_0)
          then (None, cbs)
          else parse_dotted_loop (out * 10 + ucast (u - char_0)) True cbs)"
  by pat_completeness auto
termination
  by (relation "measure (\<lambda>(out, seen, cbs). cbs_len cbs)") (auto dest: sym [THEN CBS_get_u8_decreases])

declare parse_dotted_loop.simps [simp del]

definition parse_dotted_decimal :: "(cbs, u64) action" where
  "parse_dotted_decimal = parse_dotted_loop 0 False"

lemma parse_dotted_loop_decreases:
  "parse_dotted_loop out seen c = (Some v, c') \<Longrightarrow> cbs_len c' \<le> cbs_len c \<and> (\<not> seen \<longrightarrow> cbs_len c' < cbs_len c)"
proof (induction out seen c rule: parse_dotted_loop.induct)
  case (1 out seen c)
  obtain r t where u8: "CBS_get_u8 c = (r, t)" by fastforce
  show ?case
  proof (cases r)
    case None
    then have "t = c" using u8 by (auto simp: CBS_get_u8_def act_bind_def cbs_get_eq act_simps split: if_splits)
    then show ?thesis using "1.prems" u8 None
      by (subst (asm) parse_dotted_loop.simps) (auto split: if_splits)
  next
    case (Some u)
    then have "cbs_len t < cbs_len c" using u8 CBS_get_u8_decreases by blast
    then show ?thesis
      using 1 u8 Some by (subst (asm) (2) parse_dotted_loop.simps) (force split: if_splits)
  qed
qed

text \<open>The remaining components: \<open>while (CBS_len(&cbs) > 0)\<close>.\<close>

function oid_components :: "alloc \<Rightarrow> nat \<Rightarrow> cbs \<Rightarrow> (cbb, unit) action" where
  "oid_components env d cbs =
     (if CBS_len cbs > 0 then
        (case parse_dotted_decimal cbs of
           (None, _) \<Rightarrow> act_fail
         | (Some a, cbs) \<Rightarrow>
             act_bind (add_base128_integer env d a) (\<lambda>_. oid_components env d cbs))
      else act_ret ())"
  by pat_completeness auto
termination
  by (relation "measure (\<lambda>(env, d, cbs). cbs_len cbs)")
     (auto simp: parse_dotted_decimal_def dest: sym [THEN parse_dotted_loop_decreases])

declare oid_components.simps [simp del]

definition CBB_add_asn1_oid_from_text :: "alloc \<Rightarrow> nat \<Rightarrow> byte list \<Rightarrow> nat \<Rightarrow> (cbb, unit) action" where
  "CBB_add_asn1_oid_from_text env d txt n =
     act_bind (CBB_flush env d) (\<lambda>_.
       let cbs = CBS_init txt n
       in (case parse_dotted_decimal cbs of
             (None, _) \<Rightarrow> act_fail
           | (Some a, cbs) \<Rightarrow>
               (case parse_dotted_decimal cbs of
                  (None, _) \<Rightarrow> act_fail
                | (Some b, cbs) \<Rightarrow>
                    if a > 2 \<or> (a < 2 \<and> b > 39) \<or> b > UINT64_MAX - 80 then act_fail
                    else act_bind (add_base128_integer env d (40 * a + b)) (\<lambda>_.
                           oid_components env d cbs))))"

text \<open>
  \<open>BIO_snprintf(buf, sizeof(buf), "%" PRIu64, v)\<close> writes the decimal digits; a buffer
  of \<open>DECIMAL_SIZE(uint64_t) + 1\<close> bytes holds all of them.
\<close>

fun decimal :: "nat \<Rightarrow> byte list" where
  "decimal v = (if v < 10 then [] else decimal (v div 10)) @ [char_0 + of_nat (v mod 10)]"

declare decimal.simps [simp del]

definition add_decimal :: "alloc \<Rightarrow> nat \<Rightarrow> u64 \<Rightarrow> (cbb, unit) action" where
  "add_decimal env d v = (let buf = decimal (unat v) in CBB_add_bytes env d buf (length buf))"

lemma parse_base128_loop_decreases:
  "parse_base128_loop v c = (Some r, c') \<Longrightarrow> cbs_len c' < cbs_len c"
proof (induction v c rule: parse_base128_loop.induct)
  case (1 v c)
  obtain u t where u8: "CBS_get_u8 c = (Some u, t)"
    using "1.prems" by (subst (asm) parse_base128_loop.simps) (auto split: prod.splits option.splits)
  then have "cbs_len t < cbs_len c" by (rule CBS_get_u8_decreases)
  then show ?case
    using 1 u8 by (subst (asm) (2) parse_base128_loop.simps) (force simp: Let_def split: if_splits)
qed

text \<open>\<open>while (CBS_len(&copy) != 0)\<close>.\<close>

function oid_text_components :: "alloc \<Rightarrow> cbs \<Rightarrow> (cbb, unit) action" where
  "oid_text_components env copy =
     (if CBS_len copy \<noteq> 0 then
        (case parse_base128_integer copy of
           (None, _) \<Rightarrow> act_fail
         | (Some v, copy) \<Rightarrow>
             act_bind (CBB_add_u8 env 0 dot) (\<lambda>_.
             act_bind (add_decimal env 0 v) (\<lambda>_. oid_text_components env copy)))
      else act_ret ())"
  by pat_completeness auto
termination
  by (relation "measure (\<lambda>(env, copy). cbs_len copy)")
     (auto simp: parse_base128_integer_def dest: sym [THEN parse_base128_loop_decreases])

declare oid_text_components.simps [simp del]

definition oid_text :: "alloc \<Rightarrow> cbs \<Rightarrow> (cbb, unit) action" where
  "oid_text env cbs =
     (case parse_base128_integer cbs of
        (None, _) \<Rightarrow> act_fail
      | (Some v, copy) \<Rightarrow>
          act_bind
            (if v \<ge> 80 then
               act_bind (CBB_add_bytes env 0 [0x32, dot] 2) (\<lambda>_. add_decimal env 0 (v - 80))
             else
               act_bind (add_decimal env 0 (v div 40)) (\<lambda>_.
               act_bind (CBB_add_u8 env 0 dot) (\<lambda>_. add_decimal env 0 (v mod 40)))) (\<lambda>_.
          act_bind (oid_text_components env copy) (\<lambda>_. CBB_add_u8 env 0 0)))"

text \<open>\<open>NULL\<close> is \<open>None\<close>; the string is its bytes, the terminator included.\<close>

definition CBS_asn1_oid_to_text :: "alloc \<Rightarrow> cbs \<Rightarrow> byte list option" where
  "CBS_asn1_oid_to_text env cbs =
     (case CBB_init env 32 of
        (None, _) \<Rightarrow> None
      | (Some _, cbb) \<Rightarrow>
          (case oid_text env cbs cbb of
             (None, _) \<Rightarrow> None
           | (Some _, cbb) \<Rightarrow>
               (case CBB_finish env 0 True cbb of
                  (None, _) \<Rightarrow> None
                | (Some (txt, txt_len), _) \<Rightarrow> Some (take txt_len txt))))"

section \<open>Decimal numbers\<close>

lemma decimal_digit: "v < 10 \<Longrightarrow> decimal v = [char_0 + of_nat v]"
  by (subst decimal.simps) simp

lemma decimal_snoc: "0 < v \<Longrightarrow> d < 10 \<Longrightarrow> decimal (v * 10 + d) = decimal v @ [char_0 + of_nat d]"
  by (subst decimal.simps) simp

lemma decimal_neq_Nil [simp]: "decimal v \<noteq> []"
  by (subst decimal.simps) simp

lemma length_decimal: "v < 10 ^ n \<Longrightarrow> 0 < n \<Longrightarrow> length (decimal v) \<le> n"
proof (induction n arbitrary: v)
  case (Suc n)
  show ?case
  proof (cases "v < 10")
    case True
    then show ?thesis by (simp add: decimal_digit)
  next
    case False
    then have "0 < n" using Suc.prems by (cases n) auto
    moreover have "v div 10 < 10 ^ n" using Suc.prems by (simp add: div_less_iff_less_mult mult.commute)
    ultimately have "length (decimal (v div 10)) \<le> n" by (intro Suc.IH)
    then show ?thesis using False by (subst decimal.simps) simp
  qed
qed simp

text \<open>The overflow tests of the parser are exact.\<close>

lemma digit_value: "char_0 \<le> u \<Longrightarrow> u \<le> char_9 \<Longrightarrow> unat (u - char_0) < 10"
  by (simp add: word_le_nat_alt char_0_def char_9_def unat_sub)

lemma dotted_step:
  assumes "\<not> out > UINT64_MAX div 10" and "\<not> out * 10 > UINT64_MAX - d" and "unat d < 10"
  shows "unat (out * 10 + d) = unat out * 10 + unat d"
proof -
  have max: "unat UINT64_MAX = 2 ^ 64 - 1" by (simp add: UINT64_MAX_def unsigned_minus_1_eq_mask mask_eq_exp_minus_1)
  have "unat (UINT64_MAX div 10) = (2 ^ 64 - 1) div 10" by (simp add: unat_div max)
  then have "unat out \<le> (2 ^ 64 - 1) div 10" using assms(1) by (simp add: word_less_nat_alt not_less)
  then have ten: "unat (out * 10) = unat out * 10" by (simp add: unat_word_ariths)
  have "d \<le> UINT64_MAX" by (simp add: UINT64_MAX_def)
  then have "unat (UINT64_MAX - d) = 2 ^ 64 - 1 - unat d" by (simp add: unat_sub max)
  then have "unat out * 10 + unat d < 2 ^ 64"
    using assms(2,3) ten by (simp add: word_less_nat_alt not_less)
  then show ?thesis using ten by (simp add: unat_word_ariths)
qed

lemma parse_dotted_loop_sound:
  assumes "parse_dotted_loop out seen c = (Some r, c')" and "wf_cbs c" and "\<not> seen \<Longrightarrow> out = 0"
  shows "wf_cbs c' \<and> (\<exists>ds. cbs_view c = ds @ (if cbs_view c' = [] then [] else dot # cbs_view c') \<and>
    (if seen then decimal (unat out) else []) @ ds = decimal (unat r))"
  using assms
proof (induction "cbs_view c" arbitrary: out seen c)
  case Nil
  have view: "cbs_view c = []" using Nil.hyps by (rule sym)
  have "CBS_get_u8 c = (None, c)" using Nil.prems(2) view by (simp add: CBS_get_u8_eq)
  then have "seen \<and> r = out \<and> c' = c"
    using Nil.prems(1) by (subst (asm) parse_dotted_loop.simps) (auto split: if_splits)
  then show ?case using Nil.prems view by simp
next
  case (Cons u us)
  have view: "cbs_view c = u # us" using Cons.hyps(2) by (rule sym)
  define t where "t = cbs_after 1 c"
  have u8: "CBS_get_u8 c = (Some u, t)"
    using Cons.prems(2) by (simp add: CBS_get_u8_eq t_def view)
  have t: "wf_cbs t" "cbs_view t = us" "cbs_len t = length us"
    using Cons.prems(2) length_cbs_view [of t] by (simp_all add: t_def view)
  show ?case
  proof (cases "u = dot \<and> CBS_len t > 0")
    case True
    then have "seen \<and> r = out \<and> c' = t"
      using Cons.prems(1) u8 by (subst (asm) parse_dotted_loop.simps) (auto split: if_splits)
    moreover have "us \<noteq> []" using True t by (auto simp: CBS_len_def)
    ultimately show ?thesis
      using t True by (auto simp: view)
  next
    case False
    define d :: u64 where "d = ucast (u - char_0)"
    have ok: "char_0 \<le> u" "u \<le> char_9" "\<not> (seen \<and> out = 0)" "\<not> out > UINT64_MAX div 10"
      "\<not> out * 10 > UINT64_MAX - d" and rec: "parse_dotted_loop (out * 10 + d) True t = (Some r, c')"
      using Cons.prems(1) u8 False
      by (subst (asm) parse_dotted_loop.simps; auto simp: d_def not_less split: if_splits)+
    have d: "unat d < 10" "unat d = unat (u - char_0)"
      using digit_value [OF ok(1,2)] by (simp_all add: d_def unat_ucast_widen)
    have u: "char_0 + of_nat (unat d) = u" by (simp add: d(2))
    have v: "unat (out * 10 + d) = unat out * 10 + unat d" using ok(4,5) d(1) by (rule dotted_step)
    have "decimal (unat (out * 10 + d)) = (if seen then decimal (unat out) else []) @ [u]"
    proof (cases seen)
      case True
      then have "0 < unat out" using ok(3) by (simp add: unat_gt_0)
      then show ?thesis using True d(1) u by (simp add: v decimal_snoc)
    next
      case False
      then show ?thesis using Cons.prems(3) d(1) u by (simp add: v decimal_digit)
    qed
    moreover obtain ds where "wf_cbs c'" and "us = ds @ (if cbs_view c' = [] then [] else dot # cbs_view c')"
      and "decimal (unat (out * 10 + d)) @ ds = decimal (unat r)"
      using Cons.hyps(1) [OF t(2) [symmetric] rec t(1)] t(2) by auto
    ultimately show ?thesis
      by (intro conjI exI [of _ "u # ds"]) (simp_all add: view)
  qed
qed

lemma parse_dotted_decimal_sound:
  assumes "parse_dotted_decimal c = (Some r, c')" and "wf_cbs c"
  shows "wf_cbs c' \<and> cbs_view c = decimal (unat r) @ (if cbs_view c' = [] then [] else dot # cbs_view c')"
  using parse_dotted_loop_sound [of 0 False c r c'] assms by (auto simp: parse_dotted_decimal_def)

section \<open>From text to DER and back\<close>

fun dotted :: "nat list \<Rightarrow> byte list" where
  "dotted [] = []"
| "dotted [a] = decimal a"
| "dotted (a # b # cs) = decimal a @ dot # dotted (b # cs)"

definition oid_body :: "nat list \<Rightarrow> byte list" where
  "oid_body cs = concat (map base128 cs)"

lemma dotted_Cons: "dotted (a # cs) = decimal a @ (if cs = [] then [] else dot # dotted cs)"
  by (cases cs) simp_all

lemma dotted_eq_Nil [simp]: "dotted cs = [] \<longleftrightarrow> cs = []"
  by (cases cs) (simp_all add: dotted_Cons)

lemma builder_op_decimal: "builder_op env (add_decimal env d v) (spec_write d (decimal (unat v)))"
proof -
  have "length (decimal (unat v)) \<le> 20"
    using unat_u64_less [of v] by (intro length_decimal) simp_all
  then show ?thesis
    unfolding add_decimal_def Let_def by (intro builder_op_add_bytes) simp
qed

text \<open>What a successful call has read and written.\<close>

lemma oid_components_sound:
  assumes "oid_components env d c s = (Some u, s')" and "wf_cbs c" and "malloc_bounded env" and "wf_cbb s"
  shows "\<exists>cs. (\<forall>a \<in> set cs. a < 2 ^ 64) \<and> cbs_view c = dotted cs \<and> wf_cbb s' \<and>
    spec_put d (oid_body cs) (abs_cbb s) = Some (abs_cbb s')"
  using assms
proof (induction env d c arbitrary: s rule: oid_components.induct)
  case (1 env d c)
  show ?case
  proof (cases "CBS_len c > 0")
    case False
    then have "cbs_view c = []" by (simp add: CBS_len_def cbs_view_def)
    moreover have "s' = s" using "1.prems"(1) False by (subst (asm) oid_components.simps) (simp add: act_simps)
    ultimately show ?thesis
      using "1.prems"(4) by (intro exI [of _ "[]"]) (simp add: spec_put_def oid_body_def)
  next
    case True
    obtain a t s1 where a: "parse_dotted_decimal c = (Some a, t)" and s1: "add_base128_integer env d a s = (Some (), s1)"
      and rest: "oid_components env d t s1 = (Some u, s')"
      using "1.prems"(1) True
      by (subst (asm) oid_components.simps) (auto simp: act_fail_def act_bind_eq_Some split: prod.splits option.splits)
    have t: "wf_cbs t" "cbs_view c = decimal (unat a) @ (if cbs_view t = [] then [] else dot # cbs_view t)"
      using parse_dotted_decimal_sound [OF a "1.prems"(2)] by blast+
    have w: "wf_cbb s1" "spec_write d (base128 (unat a)) (abs_cbb s) = Some (abs_cbb s1)"
      using builder_op.op_ok [OF builder_op_base128 "1.prems"(3,4) s1] by simp_all
    obtain cs where cs: "\<forall>a \<in> set cs. a < 2 ^ 64" "cbs_view t = dotted cs" "wf_cbb s'"
      "spec_put d (oid_body cs) (abs_cbb s1) = Some (abs_cbb s')"
      using "1.IH" [OF True a [symmetric] refl rest t(1) "1.prems"(3) w(1)] by blast
    have "spec_write d (base128 (unat a) @ oid_body cs) (abs_cbb s) = Some (abs_cbb s')"
      unfolding spec_write_put [symmetric] using w(2) cs(4) by simp
    then show ?thesis
      using t(2) cs unat_u64_less [of a]
      by (intro exI [of _ "unat a # cs"]) (simp add: dotted_Cons oid_body_def spec_put_def)
  qed
qed

lemma oid_from_text_sound:
  assumes "CBB_add_asn1_oid_from_text env d txt n s = (Some u, s')" and "n \<le> length txt" and "length txt < 2 ^ 63"
    and "malloc_bounded env" and "wf_cbb s"
  shows "\<exists>a b cs. take n txt = dotted (a # b # cs) \<and> a \<le> 2 \<and> (a < 2 \<longrightarrow> b \<le> 39) \<and> 40 * a + b < 2 ^ 64 \<and>
    (\<forall>x \<in> set cs. x < 2 ^ 64) \<and> wf_cbb s' \<and>
    spec_write d (oid_body ((40 * a + b) # cs)) (abs_cbb s) = Some (abs_cbb s')"
proof -
  let ?c = "CBS_init txt n"
  have c: "wf_cbs ?c" "cbs_view ?c = take n txt"
    using assms(2,3) by (simp_all add: wf_cbs_def CBS_init_def cbs_view_def)
  obtain s0 a c1 b c2 s1 where fl: "CBB_flush env d s = (Some (), s0)" and a: "parse_dotted_decimal ?c = (Some a, c1)"
    and b: "parse_dotted_decimal c1 = (Some b, c2)" and ok: "\<not> (a > 2 \<or> (a < 2 \<and> b > 39) \<or> b > UINT64_MAX - 80)"
    and s1: "add_base128_integer env d (40 * a + b) s0 = (Some (), s1)"
    and rest: "oid_components env d c2 s1 = (Some u, s')"
    using assms(1)
    by (auto simp: CBB_add_asn1_oid_from_text_def act_bind_eq_Some act_fail_def Let_def split: prod.splits option.splits if_splits)
  have s0: "wf_cbb s0" "spec_flush d (abs_cbb s) = Some (abs_cbb s0)"
    using flush_op.op_ok [OF assms(4,5) fl] by simp_all
  have w: "wf_cbb s1" "spec_write d (base128 (unat (40 * a + b))) (abs_cbb s0) = Some (abs_cbb s1)"
    using builder_op.op_ok [OF builder_op_base128 assms(4) s0(1) s1] by simp_all
  have c1: "wf_cbs c1" "take n txt = decimal (unat a) @ (if cbs_view c1 = [] then [] else dot # cbs_view c1)"
    using parse_dotted_decimal_sound [OF a c(1)] c(2) by simp_all
  have c2: "wf_cbs c2" "cbs_view c1 = decimal (unat b) @ (if cbs_view c2 = [] then [] else dot # cbs_view c2)"
    using parse_dotted_decimal_sound [OF b c1(1)] by simp_all
  obtain cs where cs: "\<forall>a \<in> set cs. a < 2 ^ 64" "cbs_view c2 = dotted cs" "wf_cbb s'"
      "spec_put d (oid_body cs) (abs_cbb s1) = Some (abs_cbb s')"
    using oid_components_sound [OF rest c2(1) assms(4) w(1)] by blast
  have "spec_write d (base128 (unat (40 * a + b)) @ oid_body cs) (abs_cbb s0) = Some (abs_cbb s')"
    unfolding spec_write_put [symmetric] using w(2) cs(4) by simp
  then have spec: "spec_write d (base128 (unat (40 * a + b)) @ oid_body cs) (abs_cbb s) = Some (abs_cbb s')"
    using s0(2) unfolding spec_flush_idem [of d "abs_cbb s", symmetric] by simp
  have a2: "unat a \<le> 2" using ok by (simp add: word_less_nat_alt not_less)
  have b2: "unat a < 2 \<Longrightarrow> unat b \<le> 39" using ok by (auto simp: word_less_nat_alt not_less)
  have max: "unat UINT64_MAX = 2 ^ 64 - 1"
    by (simp add: UINT64_MAX_def unsigned_minus_1_eq_mask mask_eq_exp_minus_1)
  have "unat (UINT64_MAX - 80) = 2 ^ 64 - 1 - 80"
    by (subst unat_sub) (simp_all add: max, simp add: UINT64_MAX_def)
  then have b3: "unat b \<le> 2 ^ 64 - 1 - 80" using ok by (simp add: word_less_nat_alt not_less)
  have m: "unat (40 * a) = 40 * unat a" using a2 by (simp add: unat_word_ariths)
  have sum: "unat (40 * a + b) = 40 * unat a + unat b"
    using a2 b3 by (simp add: unat_word_ariths m)
  show ?thesis
    using c1(2) c2(2) cs a2 b2 spec unat_u64_less [of "40 * a + b"] unfolding sum
    by (intro exI [of _ "unat a"] exI [of _ "unat b"] exI [of _ cs]) (simp add: dotted_Cons oid_body_def)
qed

lemma base128_read:
  assumes "wf_cbs c" and "cbs_view c = base128 v @ rest" and "v < 2 ^ 64"
  shows "parse_base128_integer c = (Some (of_nat v), cbs_after (length (base128 v)) c)"
  unfolding parse_base128_integer_def
  using parse_base128_loop_complete [of c "base128 v" rest 0 "of_nat v"] assms
  by (simp add: unat_of_nat)

lemma builder_op_oid_text_components:
  assumes "wf_cbs c" and "cbs_view c = oid_body cs" and "\<forall>x \<in> set cs. x < 2 ^ 64"
  shows "builder_op env (oid_text_components env c) (spec_put 0 (if cs = [] then [] else dot # dotted cs))"
  using assms
proof (induction cs arbitrary: c)
  case Nil
  then have "CBS_len c = 0" using length_cbs_view [of c] by (simp add: oid_body_def CBS_len_def)
  moreover have "spec_put 0 [] = Some" by (simp add: fun_eq_iff spec_put_def)
  ultimately show ?case
    by (subst oid_text_components.simps) (simp add: builder_op_ret)
next
  case (Cons a cs)
  define t where "t = cbs_after (length (base128 a)) c"
  have "length (cbs_view c) \<noteq> 0" using Cons.prems(2) by (simp add: oid_body_def)
  then have "CBS_len c \<noteq> 0" using length_cbs_view [OF Cons.prems(1)] by (simp add: CBS_len_def)
  moreover have "parse_base128_integer c = (Some (of_nat a), t)"
    unfolding t_def using Cons.prems by (intro base128_read [where rest = "oid_body cs"]) (simp_all add: oid_body_def)
  ultimately have code: "oid_text_components env c =
     act_bind (CBB_add_u8 env 0 dot) (\<lambda>_. act_bind (add_decimal env 0 (of_nat a)) (\<lambda>_. oid_text_components env t))"
    by (subst oid_text_components.simps) (simp add: fun_eq_iff)
  have a: "unat (of_nat a :: u64) = a" using Cons.prems(3) by (simp add: unat_of_nat)
  have IH: "builder_op env (oid_text_components env t) (spec_put 0 (if cs = [] then [] else dot # dotted cs))"
    using Cons.prems by (intro Cons.IH) (simp_all add: t_def oid_body_def)
  have rest: "builder_op env (act_bind (add_decimal env 0 (of_nat a)) (\<lambda>_. oid_text_components env t))
     (spec_write 0 (decimal a @ (if cs = [] then [] else dot # dotted cs)))"
    unfolding spec_write_put [symmetric, abs_def]
    using builder_op_bind [OF builder_op_decimal [of env 0 "of_nat a"] IH] a by simp
  have "builder_op env (oid_text_components env c) (spec_write 0 ([dot] @ decimal a @ (if cs = [] then [] else dot # dotted cs)))"
    unfolding code by (rule builder_op_seq [OF add_u8.builder_op_axioms rest]) simp
  moreover have "spec_put 0 (dot # dotted (a # cs)) = spec_write 0 (dot # dotted (a # cs))"
    by (simp add: fun_eq_iff spec_put_def)
  ultimately show ?case by (simp add: dotted_Cons)
qed

lemma builder_op_oid_text:
  assumes "wf_cbs c" and "cbs_view c = oid_body ((40 * a + b) # cs)" and "\<forall>x \<in> set cs. x < 2 ^ 64"
    and "40 * a + b < 2 ^ 64" and "a \<le> 2" and "a < 2 \<longrightarrow> b \<le> 39"
  shows "builder_op env (oid_text env c) (spec_write 0 (dotted (a # b # cs) @ [0]))"
proof -
  define v :: u64 where "v = of_nat (40 * a + b)"
  define t where "t = cbs_after (length (base128 (40 * a + b))) c"
  have v: "unat v = 40 * a + b" using assms(4) by (simp add: v_def unat_of_nat del: of_nat_add of_nat_mult)
  have parse: "parse_base128_integer c = (Some v, t)"
    unfolding t_def v_def using assms by (intro base128_read [where rest = "oid_body cs"]) (simp_all add: oid_body_def)
  define first where "first = (if v \<ge> 80 then
               act_bind (CBB_add_bytes env 0 [0x32, dot] 2) (\<lambda>_. add_decimal env 0 (v - 80))
             else
               act_bind (add_decimal env 0 (v div 40)) (\<lambda>_.
               act_bind (CBB_add_u8 env 0 dot) (\<lambda>_. add_decimal env 0 (v mod 40))))"
  have "builder_op env first (spec_write 0 (decimal a @ [dot] @ decimal b))"
  proof (cases "v \<ge> 80")
    case True
    then have v80: "80 \<le> 40 * a + b" using v by (simp add: word_le_nat_alt)
    then have a2: "a = 2" using assms(5,6) by (cases "a < 2") auto
    have "unat (v - 80) = b" using True v a2 by (simp add: unat_sub)
    then have "builder_op env (add_decimal env 0 (v - 80)) (spec_write 0 (decimal b))"
      using builder_op_decimal [of env 0 "v - 80"] by simp
    moreover have "builder_op env (CBB_add_bytes env 0 [0x32, dot] 2) (spec_write 0 (decimal a @ [dot]))"
    proof -
      have two: "length [0x32, dot] = 2" by simp
      show ?thesis
        using builder_op_add_bytes [of "[0x32, dot]" env 0, unfolded two] a2
        by (simp add: decimal_digit char_0_def)
    qed
    ultimately have "builder_op env (act_bind (CBB_add_bytes env 0 [0x32, dot] 2) (\<lambda>_. add_decimal env 0 (v - 80)))
       (spec_write 0 ((decimal a @ [dot]) @ decimal b))"
      by (intro builder_op_seq) simp_all
    then show ?thesis using True by (simp add: first_def)
  next
    case False
    then have "40 * a + b < 80" using v by (simp add: word_le_nat_alt)
    then have b: "b \<le> 39" using assms(5,6) by (cases "a < 2") auto
    have "unat (v div 40) = a" "unat (v mod 40) = b" using v b by (simp_all add: unat_div unat_mod)
    then have "builder_op env (add_decimal env 0 (v div 40)) (spec_write 0 (decimal a))"
      and "builder_op env (add_decimal env 0 (v mod 40)) (spec_write 0 (decimal b))"
      using builder_op_decimal [of env 0 "v div 40"] builder_op_decimal [of env 0 "v mod 40"] by simp_all
    then have "builder_op env (act_bind (add_decimal env 0 (v div 40)) (\<lambda>_.
               act_bind (CBB_add_u8 env 0 dot) (\<lambda>_. add_decimal env 0 (v mod 40))))
        (spec_write 0 (decimal a @ [dot] @ decimal b))"
      by (intro builder_op_seq add_u8.builder_op_axioms) simp_all
    then show ?thesis using False by (simp add: first_def)
  qed
  moreover have "builder_op env (oid_text_components env t) (spec_put 0 (if cs = [] then [] else dot # dotted cs))"
    using assms by (intro builder_op_oid_text_components) (simp_all add: t_def oid_body_def)
  ultimately have "builder_op env (act_bind first (\<lambda>_. oid_text_components env t))
     (spec_write 0 ((decimal a @ [dot] @ decimal b) @ (if cs = [] then [] else dot # dotted cs)))"
    unfolding spec_write_put [symmetric, abs_def] by (intro builder_op_bind)
  then have "builder_op env (act_bind (act_bind first (\<lambda>_. oid_text_components env t)) (\<lambda>_. CBB_add_u8 env 0 0))
     (spec_write 0 (((decimal a @ [dot] @ decimal b) @ (if cs = [] then [] else dot # dotted cs)) @ [0]))"
    by (rule builder_op_seq [OF _ add_u8.builder_op_axioms]) simp_all
  moreover have "oid_text env c = act_bind (act_bind first (\<lambda>_. oid_text_components env t)) (\<lambda>_. CBB_add_u8 env 0 0)"
    by (auto simp: oid_text_def parse first_def act_bind_def fun_eq_iff split: prod.split option.split)
  ultimately show ?thesis by (simp add: dotted_Cons)
qed

lemma CBS_asn1_oid_to_text_build: "CBS_asn1_oid_to_text env c = build1 env 32 (oid_text env c)"
  by (simp add: CBS_asn1_oid_to_text_def build1_def)

end
