(* ===== verification/Set_Of.thy ===== *)
theory Set_Of
  imports Cbb_Build "HOL-Library.List_Lexorder"
begin

text \<open>
  \<open>CBB_flush_asn1_set_of\<close> of \<open>crypto/bytestring/cbb.c\<close>: the contents of the builder are
  parsed as DER elements and written again in ascending order, which \<open>set_of_sorts\<close>
  proves; the order is the lexicographic one on bytes.
\<close>

section \<open>The code\<close>

text \<open>The C library's \<open>memcmp\<close>, by the sign of its result.\<close>

fun OPENSSL_memcmp :: "byte list \<Rightarrow> byte list \<Rightarrow> nat \<Rightarrow> int" where
  "OPENSSL_memcmp (x # a) (y # b) (Suc n) =
     (if x = y then OPENSSL_memcmp a b n else if x < y then -1 else 1)"
| "OPENSSL_memcmp a b n = 0"

lemma OPENSSL_memcmp_code [code]:
  "OPENSSL_memcmp a b n =
     (if n = 0 then 0
      else case a of [] \<Rightarrow> 0 | x # a \<Rightarrow>
           (case b of [] \<Rightarrow> 0 | y # b \<Rightarrow>
             if x = y then OPENSSL_memcmp a b (n - 1) else if x < y then -1 else 1))"
  by (cases a; cases b; cases n) simp_all

definition compare_set_of_element :: "cbs \<Rightarrow> cbs \<Rightarrow> int" where
  "compare_set_of_element a b =
     (let a_len = CBS_len a; b_len = CBS_len b;
          min_len = (if a_len < b_len then a_len else b_len);
          ret = OPENSSL_memcmp (CBS_data a) (CBS_data b) min_len
      in if ret \<noteq> 0 then ret
         else if a_len = b_len then 0
         else if a_len < b_len then -1 else 1)"

text \<open>
  The C library's \<open>qsort\<close> sorts by a comparison function. Elements that compare equal
  here have equal contents, so how it orders those cannot be observed.
\<close>

fun insert_cmp :: "('a \<Rightarrow> 'a \<Rightarrow> int) \<Rightarrow> 'a \<Rightarrow> 'a list \<Rightarrow> 'a list" where
  "insert_cmp cmp x [] = [x]"
| "insert_cmp cmp x (y # ys) = (if cmp x y \<le> 0 then x # y # ys else y # insert_cmp cmp x ys)"

definition qsort :: "('a \<Rightarrow> 'a \<Rightarrow> int) \<Rightarrow> 'a list \<Rightarrow> 'a list" where
  "qsort cmp xs = foldr (insert_cmp cmp) xs []"

text \<open>The second loop reads the counted elements again, from the copy.\<close>

fun read_children :: "nat \<Rightarrow> (cbs, cbs list) action" where
  "read_children 0 = act_ret []"
| "read_children (Suc n) =
     act_bind CBS_get_any_asn1_element (\<lambda>(out, _, _).
     act_bind (read_children n) (\<lambda>outs. act_ret (out # outs)))"

definition sizeof_CBS :: nat where
  "sizeof_CBS = 16"

definition cbb_rewind :: "nat \<Rightarrow> cbb \<Rightarrow> cbb" where
  "cbb_rewind d cbb =
     cbb\<lparr>cbb_base := map_option (\<lambda>b. b\<lparr>bb_len := cbb_start d (cbb_kids cbb)\<rparr>) (cbb_base cbb)\<rparr>"

definition CBB_flush_asn1_set_of :: "alloc \<Rightarrow> nat \<Rightarrow> (cbb, unit) action" where
  "CBB_flush_asn1_set_of env d =
     act_bind (CBB_flush env d) (\<lambda>_ cbb.
       case cbs_while CBS_get_any_asn1_element (CBS_init (CBB_data d cbb) (CBB_len d cbb)) of
         (None, _) \<Rightarrow> (None, cbb)
       | (Some elems, _) \<Rightarrow>
           let num_children = length elems
           in if num_children < 2 then (Some (), cbb)
              else if num_children > (size_mod - 1) div sizeof_CBS then (None, cbb)
              else let buf_len = CBB_len d cbb
              in (case (OPENSSL_memdup env (CBB_data d cbb) buf_len,
                        OPENSSL_malloc env (num_children * sizeof_CBS)) of
                    (Some buf, Some _) \<Rightarrow>
                      (case read_children num_children (CBS_init buf buf_len) of
                         (None, _) \<Rightarrow> (None, cbb)
                       | (Some children, _) \<Rightarrow>
                           act_each (\<lambda>c. CBB_add_bytes env d (CBS_data c) (CBS_len c))
                             (qsort compare_set_of_element children) (cbb_rewind d cbb))
                  | _ \<Rightarrow> (None, cbb)))"

section \<open>The order\<close>

lemma memcmp_take:
  "n \<le> length a \<Longrightarrow> n \<le> length b \<Longrightarrow> OPENSSL_memcmp a b n = OPENSSL_memcmp (take n a) (take n b) n"
  by (induction a b n rule: OPENSSL_memcmp.induct) auto

lemma memcmp_order:
  "(let r = OPENSSL_memcmp a b (min (length a) (length b))
    in (if r \<noteq> 0 then r \<le> 0 else length a \<le> length b)) \<longleftrightarrow> a \<le> (b :: byte list)"
proof (induction a arbitrary: b)
  case (Cons x a)
  show ?case
  proof (cases b)
    fix y b' assume b: "b = y # b'"
    show ?thesis
    proof (cases "x = y")
      case True
      then show ?thesis using Cons.IH [of b'] by (auto simp: b Let_def split: if_splits)
    next
      case False
      then show ?thesis by (cases "x < y") (simp_all add: b Let_def)
    qed
  qed simp
qed simp

lemma compare_set_of_element_le:
  assumes "wf_cbs a" and "wf_cbs b"
  shows "compare_set_of_element a b \<le> 0 \<longleftrightarrow> cbs_view a \<le> cbs_view b"
proof -
  let ?n = "min (cbs_len a) (cbs_len b)"
  have "OPENSSL_memcmp (cbs_data a) (cbs_data b) ?n = OPENSSL_memcmp (cbs_view a) (cbs_view b) ?n"
  proof -
    have "take ?n (cbs_data a) = take ?n (cbs_view a)" "take ?n (cbs_data b) = take ?n (cbs_view b)"
      by (simp_all add: cbs_view_def)
    moreover have "OPENSSL_memcmp (cbs_data a) (cbs_data b) ?n =
        OPENSSL_memcmp (take ?n (cbs_data a)) (take ?n (cbs_data b)) ?n"
      using assms by (intro memcmp_take) (auto simp: wf_cbs_def)
    moreover have "OPENSSL_memcmp (cbs_view a) (cbs_view b) ?n =
        OPENSSL_memcmp (take ?n (cbs_view a)) (take ?n (cbs_view b)) ?n"
      using assms by (intro memcmp_take) auto
    ultimately show ?thesis by metis
  qed
  moreover have "(if cbs_len a < cbs_len b then cbs_len a else cbs_len b) = ?n" by simp
  ultimately show ?thesis
    using memcmp_order [of "cbs_view a" "cbs_view b"] assms
    by (auto simp: compare_set_of_element_def CBS_len_def CBS_data_def Let_def)
qed

lemma set_insert_cmp: "set (insert_cmp cmp x xs) = insert x (set xs)"
  by (induction xs) auto

lemma set_qsort: "set (qsort cmp xs) = set xs"
  by (induction xs) (auto simp: qsort_def set_insert_cmp)

lemma map_insert_cmp:
  "(\<And>y. y \<in> set xs \<Longrightarrow> cmp x y \<le> 0 \<longleftrightarrow> f x \<le> f y) \<Longrightarrow> map f (insert_cmp cmp x xs) = insort (f x) (map f xs)"
  by (induction xs) auto

lemma map_qsort:
  assumes "\<And>x y. x \<in> set xs \<Longrightarrow> y \<in> set xs \<Longrightarrow> cmp x y \<le> 0 \<longleftrightarrow> f x \<le> f y"
  shows "map f (qsort cmp xs) = sort (map f xs)"
  using assms
proof (induction xs)
  case (Cons x xs)
  have "map f (insert_cmp cmp x (qsort cmp xs)) = insort (f x) (map f (qsort cmp xs))"
    using Cons.prems by (intro map_insert_cmp) (simp add: set_qsort)
  then show ?case using Cons by (simp add: qsort_def)
qed (simp add: qsort_def)

section \<open>What the call does\<close>

lemma read_children_split:
  assumes "wf_cbs c" and "cbs_view c = concat xs" and "\<forall>x \<in> set xs. is_der_elem x"
  shows "\<exists>outs c'. read_children (length xs) c = (Some outs, c') \<and> map cbs_view outs = xs \<and>
    (\<forall>w \<in> set outs. wf_cbs w)"
  using assms
proof (induction xs arbitrary: c)
  case (Cons x xs)
  obtain tag body where x: "x = der_elem tag body" and n: "length body < 2 ^ 32"
    using Cons.prems(3) by (auto simp: is_der_elem_def)
  have view: "cbs_view c = der_elem tag body @ concat xs" using Cons.prems(2) x by simp
  have get: "CBS_get_any_asn1_element c = (Some (CBS_init (cbs_data c) (length x), tag, length (der_header tag (length body))),
     cbs_after (length x) c)"
    using CBS_get_any_asn1_element_der [OF Cons.prems(1) view n] x by simp
  have le: "length x \<le> cbs_len c" using length_cbs_view [OF Cons.prems(1)] Cons.prems(2) by simp
  obtain outs c' where "read_children (length xs) (cbs_after (length x) c) = (Some outs, c')"
    and "map cbs_view outs = xs" "\<forall>w \<in> set outs. wf_cbs w"
    using Cons.IH [of "cbs_after (length x) c"] Cons.prems by auto
  then show ?case
    using get le Cons.prems(1,2) wf_cbs_init [OF Cons.prems(1) le]
    by (simp add: act_bind_def act_simps cbs_view_init)
qed (simp add: act_simps)

text \<open>The contents of the innermost builder, and the builder without them.\<close>

fun inner_contents :: "builder \<Rightarrow> byte list" where
  "inner_contents (c, []) = c"
| "inner_contents (c, (p, x) # fs) = inner_contents (x, fs)"

lemma inner_append: "inner_contents (spec_append w st) = inner_contents st @ w"
  by (induction w st rule: spec_append.induct) (auto simp: Let_def split: prod.splits)

lemma inner_abs: "wf_kids k ks (length dat) \<Longrightarrow> inner_contents (abs_from k dat ks) = drop (start_at k (length ks) ks) dat"
proof (induction ks arbitrary: k)
  case (Cons kid ks)
  obtain x fs where "abs_from (kid_start kid) dat ks = (x, fs)" by fastforce
  then show ?case using Cons.IH [of "kid_start kid"] Cons.prems by simp
qed simp

lemma abs_split:
  assumes "wf_cbb s" and "cbb_base s = Some b"
  defines "st \<equiv> cbb_start (length (cbb_kids s)) (cbb_kids s)"
  shows "abs_cbb s = spec_append (drop st (bb_data b)) (abs_cbb (cbb_rewind (length (cbb_kids s)) s))"
    and "wf_cbb (cbb_rewind (length (cbb_kids s)) s)" and "st \<le> bb_len b"
    and "inner_contents (abs_cbb (cbb_rewind (length (cbb_kids s)) s)) = []"
proof -
  have wf: "wf_buffer b" "wf_kids 0 (cbb_kids s) (bb_len b)"
    using assms(1,2) by (simp_all add: wf_cbb_def)
  have "start_at k (length ks) ks = (if ks = [] then k else kid_start (last ks))" for k ks
    by (induction k "length ks" ks rule: start_at.induct) auto
  then have st: "st = start_at 0 (length (cbb_kids s)) (cbb_kids s)"
    by (cases "cbb_kids s = []") (simp_all add: st_def cbb_start_def last_conv_nth)
  have k: "wf_kids 0 (cbb_kids s) st" "st \<le> bb_len b"
    using wf_kids_take_start [OF wf(2), of "length (cbb_kids s)"]
      start_at_bounds [OF wf(2), of "length (cbb_kids s)"] by (simp_all add: st)
  then show "st \<le> bb_len b" by simp
  have data: "bb_data (b\<lparr>bb_len := st\<rparr>) = take st (bb_data b)"
    using k(2) by (simp add: bb_data_def min_absorb1)
  have base: "cbb_base (cbb_rewind (length (cbb_kids s)) s) = Some (b\<lparr>bb_len := st\<rparr>)"
    "cbb_kids (cbb_rewind (length (cbb_kids s)) s) = cbb_kids s"
    by (simp_all add: cbb_rewind_def assms(2) st_def)
  show "wf_cbb (cbb_rewind (length (cbb_kids s)) s)"
    using wf(1) k by (simp add: wf_cbb_def base wf_buffer_def)
  have lst: "length (take st (bb_data b)) = st" using k(2) length_bb_data [OF wf(1)] by simp
  then have "inner_contents (abs_from 0 (take st (bb_data b)) (cbb_kids s)) = drop st (take st (bb_data b))"
    using inner_abs [of 0 "cbb_kids s" "take st (bb_data b)"] k(1) st by simp
  then show "inner_contents (abs_cbb (cbb_rewind (length (cbb_kids s)) s)) = []"
    by (simp add: abs_cbb_def base data)
  have "abs_from 0 (take st (bb_data b) @ drop st (bb_data b)) (cbb_kids s) =
      spec_append (drop st (bb_data b)) (abs_from 0 (take st (bb_data b)) (cbb_kids s))"
    using k length_bb_data [OF wf(1)] by (intro abs_from_append) (simp add: min_absorb2)
  then show "abs_cbb s = spec_append (drop st (bb_data b)) (abs_cbb (cbb_rewind (length (cbb_kids s)) s))"
    by (simp add: abs_cbb_def base assms(2) data)
qed

lemma add_windows_ok:
  assumes "act_each (\<lambda>c. CBB_add_bytes env d (CBS_data c) (CBS_len c)) ws s = (Some u, s')"
    and "\<forall>w \<in> set ws. wf_cbs w" and "malloc_bounded env" and "wf_cbb s" and "length (cbb_kids s) = d"
  shows "wf_cbb s' \<and> length (cbb_kids s') = d \<and> abs_cbb s' = spec_append (concat (map cbs_view ws)) (abs_cbb s)"
  using assms(1,2,4,5)
proof (induction ws arbitrary: s)
  case (Cons w ws)
  obtain s1 where s1: "CBB_add_bytes env d (CBS_data w) (CBS_len w) s = (Some (), s1)"
    and rest: "act_each (\<lambda>c. CBB_add_bytes env d (CBS_data c) (CBS_len c)) ws s1 = (Some u, s')"
    using Cons.prems(1) by (auto simp: act_bind_eq_Some)
  have *: "wf_cbb s1" "abs_cbb s1 = spec_append (cbs_view w) (abs_cbb s)" "length (cbb_kids s1) = d"
    using add_window_ok [OF s1 _ assms(3) Cons.prems(3,4)] Cons.prems(2) by simp_all
  then show ?case
    using Cons.IH [OF rest _ *(1,3)] Cons.prems(2) by (simp add: spec_append_append)
qed (simp add: act_simps)

lemma set_of_window:
  assumes "wf_cbb s" and "cbb_base s = Some b" and "length (cbb_kids s) = d"
  shows "wf_cbs (CBS_init (CBB_data d s) (CBB_len d s))"
    and "cbs_view (CBS_init (CBB_data d s) (CBB_len d s)) = drop (cbb_start d (cbb_kids s)) (bb_data b)"
    and "CBB_len d s \<le> length (CBB_data d s)" and "CBB_len d s + 8 < 2 ^ 63"
proof -
  have *: "cbb_start d (cbb_kids s) \<le> bb_len b" "wf_buffer b"
    using abs_split(3) [OF assms(1,2)] assms by (simp_all add: wf_cbb_def)
  then show "wf_cbs (CBS_init (CBB_data d s) (CBB_len d s))"
    and "cbs_view (CBS_init (CBB_data d s) (CBB_len d s)) = drop (cbb_start d (cbb_kids s)) (bb_data b)"
    and "CBB_len d s \<le> length (CBB_data d s)" and "CBB_len d s + 8 < 2 ^ 63"
    by (auto simp: CBB_data_def CBB_len_def assms(2) wf_cbs_def CBS_init_def cbs_view_def wf_buffer_def bb_data_def drop_take)
qed

theorem set_of_sorts:
  assumes "malloc_bounded env" and "wf_cbb s" and "CBB_flush_asn1_set_of env d s = (Some u, s')"
  shows "\<exists>st xs. spec_flush d (abs_cbb s) = Some (spec_append (concat xs) st) \<and> (\<forall>x \<in> set xs. is_der_elem x) \<and>
    inner_contents st = [] \<and> wf_cbb s' \<and> abs_cbb s' = spec_append (concat (sort xs)) st"
proof -
  obtain s1 where fl: "CBB_flush env d s = (Some (), s1)"
    using assms(3) by (auto simp: CBB_flush_asn1_set_of_def act_bind_eq_Some)
  have s1: "wf_cbb s1" "spec_flush d (abs_cbb s) = Some (abs_cbb s1)" "length (cbb_kids s1) = d"
    using flush_op.op_ok [OF assms(1,2) fl] CBB_flush_refines(2) [OF assms(2,1) fl] by simp_all
  obtain b where b: "cbb_base s1 = Some b" using s1(1) by (auto simp: wf_cbb_def split: option.splits)
  note win = set_of_window [OF s1(1) b s1(3)]
  note split = abs_split [OF s1(1) b, unfolded s1(3)]
  define c where "c = CBS_init (CBB_data d s1) (CBB_len d s1)"
  define st where "st = abs_cbb (cbb_rewind d s1)"
  obtain es c' where es: "cbs_while CBS_get_any_asn1_element c = (Some es, c')"
    using assms(3) fl by (auto simp: CBB_flush_asn1_set_of_def act_bind_def c_def split: prod.splits option.splits)
  define xs where "xs = map element_view es"
  have xs: "cbs_view c = concat xs" "\<forall>x \<in> set xs. is_der_elem x"
    using elements_split [OF win(1) [folded c_def] es] by (auto simp: xs_def)
  have abs1: "abs_cbb s1 = spec_append (concat xs) st"
    using split(1) win(2) xs(1) by (simp add: st_def c_def)
  have "wf_cbb s' \<and> abs_cbb s' = spec_append (concat (sort xs)) st"
  proof (cases "length es < 2")
    case True
    then have "s' = s1"
      using assms(3) fl es by (auto simp: CBB_flush_asn1_set_of_def act_bind_def c_def Let_def)
    moreover have "sort xs = xs"
      using True by (intro sorted_sort_id) (cases es; auto simp: xs_def)
    ultimately show ?thesis using s1(1) abs1 by simp
  next
    case False
    then obtain buf m outs c'' where buf: "OPENSSL_memdup env (CBB_data d s1) (CBB_len d s1) = Some buf"
      and "OPENSSL_malloc env (length es * sizeof_CBS) = Some m"
      and outs: "read_children (length es) (CBS_init buf (CBB_len d s1)) = (Some outs, c'')"
      and each: "act_each (\<lambda>c. CBB_add_bytes env d (CBS_data c) (CBS_len c))
          (qsort compare_set_of_element outs) (cbb_rewind d s1) = (Some u, s')"
      using assms(3) fl es [unfolded c_def]
      by (auto simp: CBB_flush_asn1_set_of_def act_bind_def Let_def split: prod.splits option.splits if_splits)
    have copy: "buf = cbs_view c" "length buf = CBB_len d s1"
      using OPENSSL_memdup_eq [OF buf _ win(3)] win(3,4)
      by (simp_all add: c_def cbs_view_def CBS_init_def size_mod_def)
    have "wf_cbs (CBS_init buf (CBB_len d s1))" "cbs_view (CBS_init buf (CBB_len d s1)) = buf"
      using win(4) copy(2) by (simp_all add: wf_cbs_def CBS_init_def cbs_view_def)
    then have "wf_cbs (CBS_init buf (CBB_len d s1))" "cbs_view (CBS_init buf (CBB_len d s1)) = concat xs"
      using copy(1) xs(1) by simp_all
    from read_children_split [OF this xs(2)] outs
    have o: "map cbs_view outs = xs" "\<forall>w \<in> set outs. wf_cbs w"
      by (auto simp: xs_def)
    have sorted: "map cbs_view (qsort compare_set_of_element outs) = sort xs"
      unfolding o(1) [symmetric] by (rule map_qsort) (use o(2) in \<open>simp add: compare_set_of_element_le\<close>)
    have "length (cbb_kids (cbb_rewind d s1)) = d" using s1(3) by (simp add: cbb_rewind_def)
    then show ?thesis
      using add_windows_ok [OF each _ assms(1) split(2)] o(2) sorted
      by (simp add: set_qsort st_def)
  qed
  moreover have "inner_contents st = []" using split(4) by (simp add: st_def)
  ultimately show ?thesis using s1(2) abs1 xs(2) by (intro exI [of _ st] exI [of _ xs]) simp
qed

end
