(* ===== verification/Unicode.thy ===== *)
theory Unicode
  imports Cbb_Build
begin

text \<open>
  \<open>crypto/bytestring/unicode.c\<close>: code points read from a window and written to a builder
  in UTF-8, Latin-1, UCS-2 and UTF-32. \<open>utf8\<close> is the encoding as a function on numbers;
  the decoder accepts exactly what it writes, and the encoder writes exactly that.
\<close>

section \<open>The code\<close>

definition is_valid_code_point :: "u32 \<Rightarrow> bool" where
  "is_valid_code_point v =
     (if v > 0x10ffff \<or> v AND 0xfffe = 0xfffe \<or> (v \<ge> 0xfdd0 \<and> v \<le> 0xfdef) \<or>
         (v \<ge> 0xd800 \<and> v \<le> 0xdfff)
      then False else True)"

definition BOTTOM_BITS :: "nat \<Rightarrow> byte" where
  "BOTTOM_BITS n = ucast (push_bit n 1 - 1 :: u32)"

definition TOP_BITS :: "nat \<Rightarrow> byte" where
  "TOP_BITS n = NOT (BOTTOM_BITS (8 - n))"

text \<open>The loop over the continuation bytes; \<open>n\<close> of them are left.\<close>

fun utf8_tail :: "nat \<Rightarrow> u32 \<Rightarrow> (cbs, u32) action" where
  "utf8_tail 0 v = act_ret v"
| "utf8_tail (Suc n) v =
     act_bind CBS_get_u8 (\<lambda>c.
       if c AND TOP_BITS 2 \<noteq> TOP_BITS 1 then act_fail
       else utf8_tail n (push_bit 6 v OR ucast (c AND BOTTOM_BITS 6)))"

definition cbs_get_utf8 :: "(cbs, u32) action" where
  "cbs_get_utf8 =
     act_bind CBS_get_u8 (\<lambda>c.
       if c \<le> 0x7f then act_ret (ucast c)
       else
         let finish = (\<lambda>n v lower_bound.
           act_bind (utf8_tail n v) (\<lambda>v.
             if \<not> is_valid_code_point v \<or> v < lower_bound then act_fail else act_ret v))
         in if c AND TOP_BITS 3 = TOP_BITS 2 then finish 1 (ucast (c AND BOTTOM_BITS 5)) 0x80
            else if c AND TOP_BITS 4 = TOP_BITS 3 then finish 2 (ucast (c AND BOTTOM_BITS 4)) 0x800
            else if c AND TOP_BITS 5 = TOP_BITS 4 then finish 3 (ucast (c AND BOTTOM_BITS 3)) 0x10000
            else act_fail)"

definition cbs_get_latin1 :: "(cbs, u32) action" where
  "cbs_get_latin1 = act_bind CBS_get_u8 (\<lambda>c. act_ret (ucast c))"

definition cbs_get_ucs2_be :: "(cbs, u32) action" where
  "cbs_get_ucs2_be =
     act_bind CBS_get_u16 (\<lambda>c. if \<not> is_valid_code_point (ucast c) then act_fail else act_ret (ucast c))"

definition cbs_get_utf32_be :: "(cbs, u32) action" where
  "cbs_get_utf32_be =
     act_bind CBS_get_u32 (\<lambda>c. if is_valid_code_point c then act_ret c else act_fail)"

definition cbb_get_utf8_len :: "u32 \<Rightarrow> nat" where
  "cbb_get_utf8_len u =
     (if u \<le> 0x7f then 1 else if u \<le> 0x7ff then 2 else if u \<le> 0xffff then 3 else 4)"

definition cbb_add_utf8 :: "alloc \<Rightarrow> nat \<Rightarrow> u32 \<Rightarrow> (cbb, unit) action" where
  "cbb_add_utf8 env d u =
     (let add = (\<lambda>w. CBB_add_u8 env d w);
          low = (\<lambda>w. TOP_BITS 1 OR (ucast w AND BOTTOM_BITS 6))
      in if \<not> is_valid_code_point u then act_fail
         else if u \<le> 0x7f then add (ucast u)
         else if u \<le> 0x7ff then
           act_bind (add (TOP_BITS 2 OR ucast (drop_bit 6 u))) (\<lambda>_. add (low u))
         else if u \<le> 0xffff then
           act_bind (add (TOP_BITS 3 OR ucast (drop_bit 12 u))) (\<lambda>_.
           act_bind (add (low (drop_bit 6 u))) (\<lambda>_. add (low u)))
         else if u \<le> 0x10ffff then
           act_bind (add (TOP_BITS 4 OR ucast (drop_bit 18 u))) (\<lambda>_.
           act_bind (add (low (drop_bit 12 u))) (\<lambda>_.
           act_bind (add (low (drop_bit 6 u))) (\<lambda>_. add (low u))))
         else act_fail)"

definition cbb_add_latin1 :: "alloc \<Rightarrow> nat \<Rightarrow> u32 \<Rightarrow> (cbb, unit) action" where
  "cbb_add_latin1 env d u = (if u \<le> 0xff then CBB_add_u8 env d (ucast u) else act_fail)"

definition cbb_add_ucs2_be :: "alloc \<Rightarrow> nat \<Rightarrow> u32 \<Rightarrow> (cbb, unit) action" where
  "cbb_add_ucs2_be env d u =
     (if u \<le> 0xffff \<and> is_valid_code_point u then CBB_add_u16 env d (ucast u) else act_fail)"

definition cbb_add_utf32_be :: "alloc \<Rightarrow> nat \<Rightarrow> u32 \<Rightarrow> (cbb, unit) action" where
  "cbb_add_utf32_be env d u =
     (if is_valid_code_point u then CBB_add_u32 env d u else act_fail)"

section \<open>UTF-8 as numbers\<close>

definition utf8 :: "nat \<Rightarrow> byte list" where
  "utf8 v =
     (if v < 0x80 then [of_nat v]
      else if v < 0x800 then [of_nat (0xc0 + v div 64), of_nat (0x80 + v mod 64)]
      else if v < 0x10000 then
        [of_nat (0xe0 + v div 4096), of_nat (0x80 + v div 64 mod 64), of_nat (0x80 + v mod 64)]
      else
        [of_nat (0xf0 + v div 262144), of_nat (0x80 + v div 4096 mod 64),
         of_nat (0x80 + v div 64 mod 64), of_nat (0x80 + v mod 64)])"

lemma bottom_bits: "n \<le> 8 \<Longrightarrow> BOTTOM_BITS n = mask n"
  by (simp add: BOTTOM_BITS_def mask_eq_exp_minus_1 push_bit_eq_mult le_Suc_eq numeral_eq_Suc) auto

lemma unat_and_not_mask: "unat (c AND NOT (mask k) :: 'a::len word) = unat c div 2 ^ k * 2 ^ k"
proof -
  have "c AND NOT (mask k) = push_bit k (drop_bit k c)"
    by (rule bit_word_eqI) (auto simp: bit_simps)
  also have "unat \<dots> = unat c div 2 ^ k * 2 ^ k"
  proof -
    have "unat c div 2 ^ k * 2 ^ k < 2 ^ LENGTH('a)"
      using unsigned_less [of c, where 'a = nat] div_times_less_eq_dividend [of "unat c" "2 ^ k"]
      by (rule le_less_trans [rotated])
    then show ?thesis
      by (simp add: unsigned_push_bit_eq take_bit_nat_eq_self_iff push_bit_eq_mult [where 'a = nat]
          unat_drop_bit_eq drop_bit_eq_div [where 'a = nat])
  qed
  finally show ?thesis .
qed

lemma top_bits: "n \<le> 8 \<Longrightarrow> TOP_BITS n = NOT (mask (8 - n))"
  by (simp add: TOP_BITS_def bottom_bits)

lemma top_bits_tests:
  "c AND TOP_BITS 2 = TOP_BITS 1 \<longleftrightarrow> 128 \<le> unat c \<and> unat c < 192"
  "c AND TOP_BITS 3 = TOP_BITS 2 \<longleftrightarrow> 192 \<le> unat c \<and> unat c < 224"
  "c AND TOP_BITS 4 = TOP_BITS 3 \<longleftrightarrow> 224 \<le> unat c \<and> unat c < 240"
  "c AND TOP_BITS 5 = TOP_BITS 4 \<longleftrightarrow> 240 \<le> unat c \<and> unat c < 248"
proof -
  have t: "unat (TOP_BITS 1) = 128" "unat (TOP_BITS 2) = 192" "unat (TOP_BITS 3) = 224" "unat (TOP_BITS 4) = 240"
    by (simp_all add: top_bits mask_numeral)
  have a: "unat (c AND TOP_BITS 2) = unat c div 64 * 64" "unat (c AND TOP_BITS 3) = unat c div 32 * 32"
    "unat (c AND TOP_BITS 4) = unat c div 16 * 16" "unat (c AND TOP_BITS 5) = unat c div 8 * 8"
    by (simp_all add: top_bits unat_and_not_mask)
  show "c AND TOP_BITS 2 = TOP_BITS 1 \<longleftrightarrow> 128 \<le> unat c \<and> unat c < 192"
    unfolding word_unat_eq_iff a t by auto
  show "c AND TOP_BITS 3 = TOP_BITS 2 \<longleftrightarrow> 192 \<le> unat c \<and> unat c < 224"
    unfolding word_unat_eq_iff a t by auto
  show "c AND TOP_BITS 4 = TOP_BITS 3 \<longleftrightarrow> 224 \<le> unat c \<and> unat c < 240"
    unfolding word_unat_eq_iff a t by auto
  show "c AND TOP_BITS 5 = TOP_BITS 4 \<longleftrightarrow> 240 \<le> unat c \<and> unat c < 248"
    unfolding word_unat_eq_iff a t by auto
qed

lemma low_bits: "n \<le> 8 \<Longrightarrow> unat (c AND BOTTOM_BITS n) = unat c mod 2 ^ n"
  by (simp add: bottom_bits unat_and_mask)

text \<open>The continuation bytes carry six bits each.\<close>

definition is_cont :: "byte \<Rightarrow> bool" where
  "is_cont c \<longleftrightarrow> 128 \<le> unat c \<and> unat c < 192"

definition cont_read :: "nat \<Rightarrow> byte list \<Rightarrow> nat" where
  "cont_read = foldl (\<lambda>v c. v * 64 + unat c mod 64)"

lemma utf8_tail_eq:
  assumes "wf_cbs c" and "unat v * 64 ^ n + 64 ^ n \<le> 2 ^ 32"
  shows "utf8_tail n v c =
    (let bs = take n (cbs_view c)
     in if length bs = n \<and> list_all is_cont bs then (Some (of_nat (cont_read (unat v) bs)), cbs_after n c)
        else (None, snd (utf8_tail n v c)))"
  using assms
proof (induction n arbitrary: v c)
  case 0
  then show ?case by (simp add: act_simps cont_read_def)
next
  case (Suc n)
  show ?case
  proof (cases "cbs_view c")
    case Nil
    then show ?thesis using Suc.prems(1) by (simp add: act_bind_def CBS_get_u8_eq)
  next
    case (Cons b bs)
    define v' where "v' = push_bit 6 v OR ucast (b AND BOTTOM_BITS 6)"
    have u: "unat (ucast (b AND BOTTOM_BITS 6) :: u32) = unat b mod 64"
      using low_bits [of 6 b] by (simp add: unat_ucast_widen)
    have "(1 :: nat) \<le> 64 ^ n" by simp
    then have "unat v * 64 + 64 \<le> unat v * 64 ^ Suc n + 64 ^ Suc n"
      by (intro add_mono) simp_all
    then have v': "unat v' = unat v * 64 + unat b mod 64"
      unfolding v'_def using Suc.prems(2) by (subst unat_push_or) (simp_all add: u)
    have "unat b mod 64 < 64" by simp
    then have "unat v' + 1 \<le> (unat v + 1) * 64" unfolding v' by simp
    then have "(unat v' + 1) * 64 ^ n \<le> (unat v + 1) * 64 * 64 ^ n" by (rule mult_right_mono) simp
    then have bound: "unat v' * 64 ^ n + 64 ^ n \<le> 2 ^ 32"
      using Suc.prems(2) by (simp add: algebra_simps)
    have view: "cbs_view (cbs_after 1 c) = bs" by (simp add: Cons)
    have step: "utf8_tail (Suc n) v c =
       (if is_cont b then utf8_tail n v' (cbs_after 1 c) else (None, cbs_after 1 c))"
      using Suc.prems(1) Cons top_bits_tests(1) [of b]
      by (simp add: act_bind_def CBS_get_u8_eq is_cont_def v'_def act_simps)
    show ?thesis
    proof (cases "is_cont b")
      case True
      have IH: "utf8_tail n v' (cbs_after 1 c) =
        (let bs = take n bs
         in if length bs = n \<and> list_all is_cont bs then (Some (of_nat (cont_read (unat v') bs)), cbs_after n (cbs_after 1 c))
            else (None, snd (utf8_tail n v' (cbs_after 1 c))))"
        using Suc.IH [OF _ bound, of "cbs_after 1 c"] Suc.prems(1) unfolding view by simp
      show ?thesis
        unfolding step using True Cons by (subst IH) (simp add: Let_def v' cont_read_def)
    next
      case False
      then show ?thesis unfolding step using Cons by simp
    qed
  qed
qed

text \<open>The three multi-byte forms, by their number of continuation bytes.\<close>

definition utf8_form :: "nat \<Rightarrow> nat \<Rightarrow> nat \<Rightarrow> bool" where
  "utf8_form n base lower \<longleftrightarrow>
     n = 1 \<and> base = 192 \<and> lower = 0x80 \<or> n = 2 \<and> base = 224 \<and> lower = 0x800 \<or>
     n = 3 \<and> base = 240 \<and> lower = 0x10000"

lemma cont_read_less: "cont_read v bs < (v + 1) * 64 ^ length bs"
proof (induction bs rule: rev_induct)
  case (snoc b bs)
  have "unat b mod 64 < 64" by simp
  then have "cont_read v (bs @ [b]) < (cont_read v bs + 1) * 64"
    unfolding cont_read_def by simp
  also have "\<dots> \<le> (v + 1) * 64 ^ length bs * 64"
    using snoc by (intro mult_right_mono) simp_all
  finally show ?case by (simp add: algebra_simps)
qed (simp add: cont_read_def)

lemma utf8_finish:
  assumes "wf_cbs c" and "unat v < 32" and "n \<le> 3" and "n = 1 \<or> unat v < 16" 
  shows "(let ts = take n (cbs_view c); w = cont_read (unat v) ts
     in if length ts = n \<and> list_all is_cont ts \<and> is_valid_code_point (of_nat w) \<and> unat lower \<le> w
        then act_bind (utf8_tail n v) (\<lambda>v. if \<not> is_valid_code_point v \<or> v < lower then act_fail else act_ret v) c =
          (Some (of_nat w), cbs_after n c)
        else fst (act_bind (utf8_tail n v) (\<lambda>v. if \<not> is_valid_code_point v \<or> v < lower then act_fail else act_ret v) c) = None)"
proof -
  define ts where "ts = take n (cbs_view c)"
  define w where "w = cont_read (unat v) ts"
  have "(64 :: nat) ^ n \<le> 64 ^ 3" using assms(3) by (intro power_increasing) simp_all
  then have "(64 :: nat) ^ n \<le> 262144" by simp
  moreover have "unat v * 64 ^ n \<le> 31 * 64 ^ n" using assms(2) by (intro mult_right_mono) simp_all
  ultimately have "unat v * 64 ^ n + 64 ^ n \<le> 4294967296" by linarith
  then have bound: "unat v * 64 ^ n + 64 ^ n \<le> 2 ^ 32" by simp
  have "unat lower \<le> w \<longleftrightarrow> \<not> (of_nat w :: u32) < lower" if "length ts = n"
  proof -
    have "w < (unat v + 1) * 64 ^ n" using cont_read_less [of "unat v" ts] that by (simp add: w_def)
    then have "w < 2 ^ 32" using bound by simp
    then show ?thesis by (simp add: word_less_nat_alt unat_of_nat not_less)
  qed
  note lower = this
  obtain r t where tail: "utf8_tail n v c = (r, t)" by fastforce
  have "(r, t) = (if length ts = n \<and> list_all is_cont ts then (Some (of_nat w), cbs_after n c) else (None, t))"
    using utf8_tail_eq [OF assms(1) bound] unfolding ts_def [symmetric] Let_def w_def [symmetric] tail
    by (cases "length ts = n \<and> list_all is_cont ts") auto
  then show ?thesis
    using lower unfolding ts_def [symmetric] Let_def w_def [symmetric] act_bind_def tail prod.case
    by (auto simp: act_simps split: if_splits)
qed

lemma cbs_get_utf8_multi:
  assumes "wf_cbs c" and view: "cbs_view c = b # bs" and "utf8_form n base lower"
    and "base \<le> unat b" and "unat b < base + 2 ^ (6 - n)"
  shows "let ts = take n bs; w = cont_read (unat b - base) ts
     in if length ts = n \<and> list_all is_cont ts \<and> is_valid_code_point (of_nat w) \<and> lower \<le> w
        then cbs_get_utf8 c = (Some (of_nat w), cbs_after (Suc n) c)
        else fst (cbs_get_utf8 c) = None"
proof -
  have rest: "cbs_view (cbs_after 1 c) = bs" "wf_cbs (cbs_after 1 c)" using view assms(1) by simp_all
  have low: "unat (ucast (b AND BOTTOM_BITS k) :: u32) = unat b mod 2 ^ k" if "k \<le> 8" for k
    using low_bits [OF that] by (simp add: unat_ucast_widen)
  have notascii: "\<not> b \<le> 0x7f" using assms(3,4) by (auto simp: word_le_nat_alt utf8_form_def)
  note code = cbs_get_utf8_def act_bind_def [of CBS_get_u8] CBS_get_u8_eq [OF assms(1)] view if_not_P [OF notascii] Let_def
    top_bits_tests
  have "\<exists>v lw. cbs_get_utf8 c = act_bind (utf8_tail n v) (\<lambda>v. if \<not> is_valid_code_point v \<or> v < lw then act_fail else act_ret v) (cbs_after 1 c) \<and>
     unat v = unat b - base \<and> unat lw = lower \<and> unat v < 32 \<and> n \<le> 3 \<and> (n = 1 \<or> unat v < 16)"
  proof -
    consider "n = 1" "base = 192" "lower = 0x80" | "n = 2" "base = 224" "lower = 0x800" | "n = 3" "base = 240" "lower = 0x10000"
      using assms(3) by (auto simp: utf8_form_def)
    then show ?thesis
    proof cases
      case 1
      then have "unat b mod 32 = unat b - 192" using assms(4,5) by (simp add: mod_if)
      then show ?thesis
        using low [of 5] assms(4,5) 1
        by - (rule exI [of _ "ucast (b AND BOTTOM_BITS 5) :: u32"], rule exI [of _ "0x80 :: u32"], auto simp: code simp del: utf8_tail.simps)
    next
      case 2
      then have "unat b mod 16 = unat b - 224" using assms(4,5) by (simp add: mod_if)
      then show ?thesis
        using low [of 4] assms(4,5) 2
        by - (rule exI [of _ "ucast (b AND BOTTOM_BITS 4) :: u32"], rule exI [of _ "0x800 :: u32"], auto simp: code simp del: utf8_tail.simps)
    next
      case 3
      then have "unat b mod 8 = unat b - 240" using assms(4,5) by (simp add: mod_if)
      then show ?thesis
        using low [of 3] assms(4,5) 3
        by - (rule exI [of _ "ucast (b AND BOTTOM_BITS 3) :: u32"], rule exI [of _ "0x10000 :: u32"], auto simp: code simp del: utf8_tail.simps)
    qed
  qed
  then obtain v lw where code_eq: "cbs_get_utf8 c =
       act_bind (utf8_tail n v) (\<lambda>v. if \<not> is_valid_code_point v \<or> v < lw then act_fail else act_ret v) (cbs_after 1 c)"
    and v: "unat v = unat b - base" "unat lw = lower" "unat v < 32" "n \<le> 3" "n = 1 \<or> unat v < 16"
    by blast
  show ?thesis
    using utf8_finish [OF rest(2) v(3-5), of lw] unfolding code_eq rest(1) v(1,2) cbs_after_after plus_1_eq_Suc .
qed

lemma is_valid_ascii: "unat v < 0x80 \<Longrightarrow> is_valid_code_point v"
proof -
  assume v: "unat v < 0x80"
  have "unat (v AND 0xfffe) \<le> unat v"
    by (metis and.commute word_and_le1 word_le_nat_alt)
  then have "v AND 0xfffe \<noteq> 0xfffe" using v by auto
  then show ?thesis
    using v by (simp add: is_valid_code_point_def word_less_nat_alt word_le_nat_alt)
qed

lemma is_valid_bound: "is_valid_code_point v \<Longrightarrow> unat v \<le> 0x10ffff"
  by (simp add: is_valid_code_point_def word_less_nat_alt split: if_splits)

lemma cont_byte: "is_cont b \<Longrightarrow> of_nat (0x80 + unat b mod 64) = b"
proof -
  assume "is_cont b"
  then have "0x80 + unat b mod 64 = unat b" by (auto simp: is_cont_def mod_if)
  then show ?thesis by (simp add: word_unat_eq_iff del: of_nat_add)
qed

lemma byte_base: "k \<le> unat b \<Longrightarrow> of_nat (k + (unat b - k)) = (b :: byte)"
  by (simp add: word_unat_eq_iff del: of_nat_add)

text \<open>Reading what a lead byte and its continuation bytes say and printing it gives them back.\<close>

lemma digits64: "d < 64 \<Longrightarrow> (x * 64 + d) div 64 = x" "d < 64 \<Longrightarrow> (x * 64 + d) mod 64 = d" for x d :: nat
  by simp_all

lemma utf8_read:
  assumes "utf8_form n base lower" and "base \<le> unat b" and "unat b < base + 2 ^ (6 - n)"
    and "length ts = n" and "list_all is_cont ts" and "lower \<le> cont_read (unat b - base) ts"
  shows "utf8 (cont_read (unat b - base) ts) = b # ts"
proof -
  have m: "x mod 64 < 64" for x :: nat by simp
  define p where "p = unat b - base"
  have b: "of_nat (base + p) = b" unfolding p_def by (rule byte_base [OF assms(2)])
  consider "n = 1" "base = 192" "lower = 0x80" | "n = 2" "base = 224" "lower = 0x800" | "n = 3" "base = 240" "lower = 0x10000"
    using assms(1) by (auto simp: utf8_form_def)
  then have "utf8 (cont_read p ts) = b # ts"
  proof cases
    case 1
    then obtain x where ts: "ts = [x]" "is_cont x" using assms(4,5) by (auto simp: length_Suc_conv)
    define r where "r = unat x mod 64"
    have "p < 32" "r < 64" "0x80 \<le> p * 64 + r" using assms(3,6) 1 ts m by (auto simp: p_def cont_read_def r_def)
    then show ?thesis
      using b cont_byte [OF ts(2)] 1 by (simp add: ts cont_read_def r_def [symmetric] utf8_def del: of_nat_add)
  next
    case 2
    then obtain x y where ts: "ts = [x, y]" "is_cont x" "is_cont y" using assms(4,5) by (auto simp: length_Suc_conv numeral_2_eq_2)
    define r q where "r = unat x mod 64" and "q = unat y mod 64"
    have "p < 16" "r < 64" "q < 64" "0x800 \<le> (p * 64 + r) * 64 + q"
      using assms(3,6) 2 ts m by (auto simp: p_def cont_read_def r_def q_def)
    moreover from this have "((p * 64 + r) * 64 + q) div 4096 = p" "((p * 64 + r) * 64 + q) div 64 mod 64 = r"
      "((p * 64 + r) * 64 + q) mod 64 = q"
      using div_mult2_eq [of "(p * 64 + r) * 64 + q" 64 64]
        digits64 [of q "p * 64 + r"] digits64 [of r p] by simp_all
    ultimately show ?thesis
      using b cont_byte [OF ts(2)] cont_byte [OF ts(3)] 2
      by (simp add: ts cont_read_def r_def [symmetric] q_def [symmetric] utf8_def del: of_nat_add)
  next
    case 3
    then obtain x y z where ts: "ts = [x, y, z]" "is_cont x" "is_cont y" "is_cont z"
      using assms(4,5) by (auto simp: length_Suc_conv numeral_3_eq_3)
    define r q u where "r = unat x mod 64" and "q = unat y mod 64" and "u = unat z mod 64"
    have "p < 8" "r < 64" "q < 64" "u < 64" "0x10000 \<le> ((p * 64 + r) * 64 + q) * 64 + u"
      using assms(3,6) 3 ts m by (auto simp: p_def cont_read_def r_def q_def u_def)
    moreover from this have "(((p * 64 + r) * 64 + q) * 64 + u) div 262144 = p"
      "(((p * 64 + r) * 64 + q) * 64 + u) div 4096 mod 64 = r" "(((p * 64 + r) * 64 + q) * 64 + u) div 64 mod 64 = q"
      "(((p * 64 + r) * 64 + q) * 64 + u) mod 64 = u"
      using div_mult2_eq [of "((p * 64 + r) * 64 + q) * 64 + u" 64 64]
        div_mult2_eq [of "((p * 64 + r) * 64 + q) * 64 + u" "64 * 64" 64]
        digits64 [of u "(p * 64 + r) * 64 + q"] digits64 [of q "p * 64 + r"] digits64 [of r p] by simp_all
    ultimately show ?thesis
      using b cont_byte [OF ts(2)] cont_byte [OF ts(3)] cont_byte [OF ts(4)] 3
      by (simp add: ts cont_read_def r_def [symmetric] q_def [symmetric] u_def [symmetric] utf8_def del: of_nat_add)
  qed
  then show ?thesis by (simp add: p_def)
qed

theorem cbs_get_utf8_sound:
  assumes "cbs_get_utf8 c = (Some u, c')" and "wf_cbs c"
  shows "is_valid_code_point u \<and> cbs_view c = utf8 (unat u) @ cbs_view c' \<and>
    c' = cbs_after (length (utf8 (unat u))) c"
proof (cases "cbs_view c")
  case Nil
  then show ?thesis using assms by (simp add: cbs_get_utf8_def act_bind_def CBS_get_u8_eq)
next
  case (Cons b bs)
  show ?thesis
  proof (cases "unat b < 128")
    case True
    then have "cbs_get_utf8 c = (Some (ucast b), cbs_after 1 c)"
      using assms(2) Cons by (simp add: cbs_get_utf8_def act_bind_def CBS_get_u8_eq act_simps word_le_nat_alt)
    then have u: "u = ucast b" "c' = cbs_after 1 c" using assms(1) by simp_all
    have "unat u = unat b" by (simp add: u unat_ucast_widen)
    then show ?thesis
      using True Cons u is_valid_ascii [of u] by (simp add: utf8_def)
  next
    case False
    have "cbs_get_utf8 c = (None, cbs_after 1 c)" if "\<not> (192 \<le> unat b \<and> unat b < 248)"
      using that False assms(2) Cons
      by (auto simp: cbs_get_utf8_def act_bind_def CBS_get_u8_eq act_simps word_le_nat_alt Let_def top_bits_tests)
    then have "192 \<le> unat b \<and> unat b < 248" using assms(1) by auto
    then have "\<exists>n base lower. utf8_form n base lower \<and> base \<le> unat b \<and> unat b < base + 2 ^ (6 - n)"
      unfolding utf8_form_def
      by (cases "unat b < 224"; cases "unat b < 240") fastforce+
    then obtain n base lower where form: "utf8_form n base lower" "base \<le> unat b" "unat b < base + 2 ^ (6 - n)"
      by blast
    define ts where "ts = take n bs"
    define w where "w = cont_read (unat b - base) ts"
    have ok: "length ts = n" "list_all is_cont ts" "is_valid_code_point (of_nat w)" "lower \<le> w"
      and res: "(Some u, c') = (Some (of_nat w), cbs_after (Suc n) c)"
      using cbs_get_utf8_multi [OF assms(2) Cons form] assms(1)
      unfolding ts_def [symmetric] Let_def w_def [symmetric] by (auto split: if_splits)
    have "w < 2 ^ 32"
    proof -
      have "n \<le> 3" "unat b - base < 32" using form by (auto simp: utf8_form_def)
      then have "(64 :: nat) ^ n \<le> 64 ^ 3" by (intro power_increasing) simp_all
      then have p: "(64 :: nat) ^ n \<le> 262144" by simp
      have "w < (unat b - base + 1) * 64 ^ n" using cont_read_less [of "unat b - base" ts] ok(1) by (simp add: w_def)
      also have "\<dots> \<le> 32 * 262144" using p \<open>unat b - base < 32\<close> by (intro mult_mono) simp_all
      finally show ?thesis by simp
    qed
    then have u: "unat u = w" using res by (simp add: unat_of_nat)
    have "utf8 w = b # ts"
      unfolding w_def by (rule utf8_read [OF form ok(1,2)]) (use ok(4) in \<open>simp add: w_def\<close>)
    then show ?thesis
      using res ok(1,3) Cons u by (simp add: ts_def)
  qed
qed

text \<open>The other direction: what is printed is read back.\<close>

lemma utf8_parts:
  assumes "v \<le> 0x10ffff" and "0x80 \<le> v"
  obtains n base lower b ts where "utf8_form n base lower" and "base \<le> unat b" and "unat b < base + 2 ^ (6 - n)"
    and "length ts = n" and "list_all is_cont ts" and "lower \<le> v" and "v = cont_read (unat b - base) ts"
    and "utf8 v = b # ts"
proof -
  define c where "c x = (of_nat (0x80 + x mod 64) :: byte)" for x :: nat
  have c: "is_cont (c x)" "unat (c x) mod 64 = x mod 64" for x
  proof -
    have "x mod 64 < 64" by simp
    then have "unat (c x) = 0x80 + x mod 64" by (simp add: c_def unat_of_nat del: of_nat_add)
    moreover have "(0x80 + r) mod 64 = r" if "r < 64" for r :: nat using that by (simp add: mod_if)
    ultimately show "is_cont (c x)" "unat (c x) mod 64 = x mod 64"
      using \<open>x mod 64 < 64\<close> by (simp_all add: is_cont_def)
  qed
  have m2: "v div 64 div 64 = v div 4096" "v div 4096 div 64 = v div 262144"
    by (simp_all add: div_mult2_eq [symmetric])
  consider "v < 0x800" | "0x800 \<le> v" "v < 0x10000" | "0x10000 \<le> v" by linarith
  then show thesis
  proof cases
    case 1
    define b :: byte where "b = of_nat (0xc0 + v div 64)"
    have "v div 64 < 32" using 1 by auto
    then have b: "unat b = 0xc0 + v div 64" by (simp add: b_def unat_of_nat del: of_nat_add)
    show thesis
      by (rule that [of 1 192 "0x80" b "[c v]"])
         (use 1 assms c b \<open>v div 64 < 32\<close> in \<open>simp_all add: utf8_form_def cont_read_def utf8_def b_def c_def del: of_nat_add\<close>)
  next
    case 2
    define b :: byte where "b = of_nat (0xe0 + v div 4096)"
    have lt: "v div 4096 < 16" using 2 by auto
    then have b: "unat b = 0xe0 + v div 4096" by (simp add: b_def unat_of_nat del: of_nat_add)
    have "v = (v div 4096 * 64 + v div 64 mod 64) * 64 + v mod 64"
      unfolding m2(1) [symmetric] by simp
    then show thesis
      by (intro that [of 2 224 "0x800" b "[c (v div 64), c v]"])
         (use 2 assms c b lt in \<open>simp_all add: utf8_form_def cont_read_def utf8_def b_def c_def del: of_nat_add\<close>)
  next
    case 3
    define b :: byte where "b = of_nat (0xf0 + v div 262144)"
    have lt: "v div 262144 < 8" using assms by auto
    then have b: "unat b = 0xf0 + v div 262144" by (simp add: b_def unat_of_nat del: of_nat_add)
    have "v = ((v div 262144 * 64 + v div 4096 mod 64) * 64 + v div 64 mod 64) * 64 + v mod 64"
      unfolding m2(2) [symmetric] m2(1) [symmetric] by simp
    then show thesis
      by (intro that [of 3 240 "0x10000" b "[c (v div 4096), c (v div 64), c v]"])
         (use 3 assms c b lt in \<open>simp_all add: utf8_form_def cont_read_def utf8_def b_def c_def del: of_nat_add\<close>)
  qed
qed

theorem cbs_get_utf8_complete:
  assumes "wf_cbs c" and view: "cbs_view c = utf8 (unat u) @ rest" and "is_valid_code_point u"
  shows "cbs_get_utf8 c = (Some u, cbs_after (length (utf8 (unat u))) c)"
proof (cases "unat u < 0x80")
  case True
  then have "cbs_view c = of_nat (unat u) # rest" and b: "unat (of_nat (unat u) :: byte) = unat u"
    using view by (simp_all add: utf8_def unat_ucast_narrow)
  moreover have "ucast (of_nat (unat u) :: byte) = u"
    using True by (simp add: word_unat_eq_iff unat_ucast_widen unat_ucast_narrow)
  ultimately show ?thesis
    using True assms(1) by (simp add: cbs_get_utf8_def act_bind_def CBS_get_u8_eq act_simps word_le_nat_alt utf8_def)
next
  case False
  obtain n base lower b ts where form: "utf8_form n base lower" "base \<le> unat b" "unat b < base + 2 ^ (6 - n)"
    and ts: "length ts = n" "list_all is_cont ts" "lower \<le> unat u" "unat u = cont_read (unat b - base) ts"
    and p: "utf8 (unat u) = b # ts"
    by (rule utf8_parts [OF is_valid_bound [OF assms(3)]]) (use False in \<open>simp add: not_less\<close>)
  have "cbs_view c = b # ts @ rest" using view p by simp
  from cbs_get_utf8_multi [OF assms(1) this form]
  show ?thesis using ts(1-3) assms(3) p by (simp add: ts(4) [symmetric])
qed

section \<open>Writing\<close>

lemma utf8_low: "TOP_BITS 1 OR (ucast (w :: u32) AND BOTTOM_BITS 6) = (of_nat (0x80 + unat w mod 64) :: byte)"
proof -
  have u: "unat (ucast w AND BOTTOM_BITS 6 :: byte) = unat w mod 64"
    using low_bits [of 6 "ucast w"] by (simp add: unat_ucast_narrow mod_mod_cancel)
  then have "unat (push_bit 6 2 OR (ucast w AND BOTTOM_BITS 6) :: byte) = unat (2 :: byte) * 2 ^ 6 + unat w mod 64"
    by (subst unat_push_or) simp_all
  moreover have top: "TOP_BITS 1 = push_bit 6 2" by (simp add: top_bits mask_numeral)
  moreover have "unat w mod 64 < 64" by simp
  ultimately show ?thesis
    unfolding top by (simp add: word_unat_eq_iff unat_of_nat del: of_nat_add)
qed

lemma utf8_lead:
  "k \<le> 5 \<Longrightarrow> unat (w :: u32) < 2 ^ k \<Longrightarrow>
   TOP_BITS (7 - k) OR ucast w = (of_nat (256 - 2 ^ (k + 1) + unat w) :: byte)"
proof -
  assume k: "k \<le> 5" and w: "unat w < 2 ^ k"
  have "(2 :: nat) ^ k \<le> 2 ^ 5" using k by (intro power_increasing) simp_all
  then have u: "unat (ucast w :: byte) = unat w" using w by (simp add: unat_ucast_narrow)
  have cases: "k = 0 \<or> k = 1 \<or> k = 2 \<or> k = 3 \<or> k = 4 \<or> k = 5" using k by auto
  define t :: byte where "t = of_nat (256 div 2 ^ k - 2)"
  have t: "TOP_BITS (7 - k) = push_bit k t" "unat t = 256 div 2 ^ k - 2"
    using cases by (auto simp: top_bits mask_numeral t_def)
  have sum: "(256 div 2 ^ k - 2) * 2 ^ k = (256 - 2 ^ (k + 1) :: nat)" "256 - 2 ^ (k + 1) + 2 ^ k \<le> (256 :: nat)"
    using cases by auto
  have "unat (push_bit k t OR ucast w) = unat t * 2 ^ k + unat w"
    using w k u t(2) sum by (subst unat_push_or) simp_all
  then show ?thesis
    unfolding t(1) using t(2) sum w by (simp add: word_unat_eq_iff unat_of_nat del: of_nat_add)
qed

theorem builder_op_add_utf8:
  assumes "is_valid_code_point u"
  shows "builder_op env (cbb_add_utf8 env d u) (spec_write d (utf8 (unat u)))"
proof -
  define v where "v = unat u"
  have top: "v \<le> 0x10ffff" using is_valid_bound [OF assms] by (simp add: v_def)
  have le: "u \<le> 0x7f \<longleftrightarrow> v < 0x80" "u \<le> 0x7ff \<longleftrightarrow> v < 0x800" "u \<le> 0xffff \<longleftrightarrow> v < 0x10000" "u \<le> 0x10ffff"
    using top by (auto simp: word_le_nat_alt v_def)
  have dv: "unat (drop_bit k u) = v div 2 ^ k" for k
    by (simp add: v_def unat_drop_bit_eq drop_bit_eq_div [where 'a = nat])
  have lo: "TOP_BITS 1 OR (ucast (drop_bit k u) AND BOTTOM_BITS 6) = of_nat (0x80 + v div 2 ^ k mod 64)" for k
    unfolding utf8_low dv ..
  have lo0: "TOP_BITS 1 OR (ucast u AND BOTTOM_BITS 6) = of_nat (0x80 + v mod 64)"
    unfolding utf8_low v_def ..
  note lows = lo [of 6, simplified] lo [of 12, simplified] lo0
  note seq = builder_op_seq [OF add_u8.builder_op_axioms]
  consider "v < 0x80" | "0x80 \<le> v" "v < 0x800" | "0x800 \<le> v" "v < 0x10000" | "0x10000 \<le> v" by linarith
  then show ?thesis
  proof cases
    case 1
    then have "cbb_add_utf8 env d u = CBB_add_u8 env d (ucast u)" "utf8 v = [ucast u]"
      using assms le by (simp_all add: cbb_add_utf8_def utf8_def, simp add: v_def)
    then show ?thesis using add_u8.builder_op_axioms by (simp add: v_def)
  next
    case 2
    then have "v div 64 < 32" by auto
    then have "TOP_BITS 2 OR ucast (drop_bit 6 u) = (of_nat (0xc0 + v div 64) :: byte)"
      using utf8_lead [of 5 "drop_bit 6 u"] dv [of 6] by simp
    then have "cbb_add_utf8 env d u = act_bind (CBB_add_u8 env d (of_nat (0xc0 + v div 64))) (\<lambda>_. CBB_add_u8 env d (of_nat (0x80 + v mod 64)))"
      and "utf8 v = [of_nat (0xc0 + v div 64)] @ [of_nat (0x80 + v mod 64)]"
      using 2 assms le lows by (simp_all add: cbb_add_utf8_def utf8_def Let_def)
    then show ?thesis unfolding v_def [symmetric] by (simp only:) (intro seq add_u8.builder_op_axioms; simp)
  next
    case 3
    then have "v div 4096 < 16" by auto
    then have "TOP_BITS 3 OR ucast (drop_bit 12 u) = (of_nat (0xe0 + v div 4096) :: byte)"
      using utf8_lead [of 4 "drop_bit 12 u"] dv [of 12] by simp
    then have "cbb_add_utf8 env d u = act_bind (CBB_add_u8 env d (of_nat (0xe0 + v div 4096))) (\<lambda>_.
        act_bind (CBB_add_u8 env d (of_nat (0x80 + v div 64 mod 64))) (\<lambda>_. CBB_add_u8 env d (of_nat (0x80 + v mod 64))))"
      and "utf8 v = [of_nat (0xe0 + v div 4096)] @ [of_nat (0x80 + v div 64 mod 64)] @ [of_nat (0x80 + v mod 64)]"
      using 3 assms le lows by (simp_all add: cbb_add_utf8_def utf8_def Let_def)
    then show ?thesis unfolding v_def [symmetric] by (simp only:) (intro seq add_u8.builder_op_axioms; simp)
  next
    case 4
    then have "v div 262144 < 8" using top by auto
    then have "TOP_BITS 4 OR ucast (drop_bit 18 u) = (of_nat (0xf0 + v div 262144) :: byte)"
      using utf8_lead [of 3 "drop_bit 18 u"] dv [of 18] by simp
    then have "cbb_add_utf8 env d u = act_bind (CBB_add_u8 env d (of_nat (0xf0 + v div 262144))) (\<lambda>_.
        act_bind (CBB_add_u8 env d (of_nat (0x80 + v div 4096 mod 64))) (\<lambda>_.
        act_bind (CBB_add_u8 env d (of_nat (0x80 + v div 64 mod 64))) (\<lambda>_. CBB_add_u8 env d (of_nat (0x80 + v mod 64)))))"
      and "utf8 v = [of_nat (0xf0 + v div 262144)] @ [of_nat (0x80 + v div 4096 mod 64)] @ [of_nat (0x80 + v div 64 mod 64)] @ [of_nat (0x80 + v mod 64)]"
      using 4 assms le lows by (simp_all add: cbb_add_utf8_def utf8_def Let_def)
    then show ?thesis unfolding v_def [symmetric] by (simp only:) (intro seq add_u8.builder_op_axioms; simp)
  qed
qed

lemma cbb_add_utf8_invalid: "\<not> is_valid_code_point u \<Longrightarrow> cbb_add_utf8 env d u s = (None, s)"
  by (simp add: cbb_add_utf8_def act_simps)

lemma length_utf8: "is_valid_code_point u \<Longrightarrow> length (utf8 (unat u)) = cbb_get_utf8_len u"
  by (auto simp: utf8_def cbb_get_utf8_len_def word_le_nat_alt)

end
