(* ===== verification/Cbb_Failed.thy ===== *)
theory Cbb_Failed
  imports Oid Set_Of Unicode
begin

text \<open>
  Failure of the builder of \<open>crypto/bytestring/cbb.c\<close> is permanent: the calls of its public
  operations as a step relation, and the proof that none of them clears the error flag.
\<close>

section \<open>What a failed builder refuses\<close>

lemma failed_flush:
  assumes "failed s"
  shows "\<exists>s'. CBB_flush env d s = (None, s') \<and> failed s'"
proof (cases "cbb_base s")
  case (Some b)
  then have err: "bb_error b" using assms by (simp add: failed_def)
  then have "flush_kids env ks b = (False, b, ks)" for ks by (cases ks) simp_all
  then show ?thesis using Some err by (simp add: CBB_flush_def failed_def)
qed (simp add: CBB_flush_def failed_def)

lemma failed_bind_flush:
  assumes "failed s"
  shows "fst (act_bind (CBB_flush env d) f s) = None \<and> failed (snd (act_bind (CBB_flush env d) f s))"
  using failed_flush [OF assms, of env d] by (auto simp: act_bind_def)

lemma add_bytes_fails:
  assumes "malloc_bounded env" and "wf_cbb s" and "d \<le> length (cbb_kids s)"
    and "CBB_add_bytes env d w n s = (None, s')"
  shows "failed s'"
proof (cases "CBB_flush env d s")
  case (Pair r t)
  show ?thesis
  proof (cases r)
    case None
    then show ?thesis
      using Pair assms(4) CBB_flush_refines(3) [OF assms(2,1) _ assms(3), of t]
      by (simp add: CBB_add_bytes_def act_bind_def)
  next
    case (Some u)
    then have "on_base (act_bind (cbb_buffer_add env n) (\<lambda>dest. put_bytes dest (take n w))) t = (None, s')"
      using Pair assms(4) by (simp add: CBB_add_bytes_def act_bind_def)
    then show ?thesis
      by (auto simp: on_base_def failed_def cbb_buffer_add_def cbb_buffer_reserve_def bb_fail_def put_bytes_def
          act_bind_def Let_def split: option.splits prod.splits if_splits)
  qed
qed

text \<open>An operation that does nothing on a failed builder but fail.\<close>

definition refused :: "(cbb, 'a) action \<Rightarrow> bool" where
  "refused f \<longleftrightarrow> (\<forall>s. failed s \<longrightarrow> fst (f s) = None \<and> failed (snd (f s)))"

named_theorems refused_intros \<open>operations that a failed builder refuses\<close>

lemma refusedD: "refused f \<Longrightarrow> failed s \<Longrightarrow> fst (f s) = None \<and> failed (snd (f s))"
  by (simp add: refused_def)

lemma refused_flush [refused_intros]: "refused (act_bind (CBB_flush env d) f)"
  by (simp add: refused_def failed_bind_flush)

lemma refused_bind [refused_intros]: "refused f \<Longrightarrow> refused (act_bind f g)"
  by (simp add: refused_def act_bind_def split: option.splits prod.splits) (metis fst_conv snd_conv option.distinct(1))

lemma refused_fail [refused_intros]: "refused act_fail"
  by (simp add: refused_def act_simps)

lemma refused_u [refused_intros]:
  "refused (CBB_add_u8 env d v8)" "refused (CBB_add_u16 env d v16)" "refused (CBB_add_u24 env d v32)"
  "refused (CBB_add_u32 env d v32)" "refused (CBB_add_u64 env d v64)" "refused (CBB_add_u16le env d v16)"
  "refused (CBB_add_u32le env d v32)" "refused (CBB_add_u64le env d v64)"
  by (auto simp: CBB_add_u8_def CBB_add_u16_def CBB_add_u24_def CBB_add_u32_def CBB_add_u64_def CBB_add_u16le_def
      CBB_add_u32le_def CBB_add_u64le_def cbb_add_u_def intro: refused_intros)

lemma refused_bytes [refused_intros]:
  "refused (CBB_add_bytes env d w n)" "refused (CBB_add_space env d n)" "refused (CBB_reserve env d n)"
  "refused (CBB_add_u8_length_prefixed env d)" "refused (CBB_add_u16_length_prefixed env d)"
  "refused (CBB_add_u24_length_prefixed env d)"
  by (auto simp: CBB_add_bytes_def CBB_add_space_def CBB_reserve_def CBB_add_u8_length_prefixed_def
      CBB_add_u16_length_prefixed_def CBB_add_u24_length_prefixed_def cbb_add_length_prefixed_def intro: refused_intros)

lemma refused_asn1 [refused_intros]: "refused (CBB_add_asn1 env d tag)"
  unfolding CBB_add_asn1_def by (rule refused_flush)

lemma refused_elements [refused_intros]:
  "refused (CBB_add_asn1_uint64 env d v64)" "refused (CBB_add_asn1_int64 env d v64)"
  "refused (CBB_add_asn1_octet_string env d w n)" "refused (CBB_add_asn1_bool env d b)"
  "refused (CBB_add_asn1_oid_from_text env d w n)" "refused (CBB_flush_asn1_set_of env d)"
  by (auto simp: CBB_add_asn1_uint64_def CBB_add_asn1_int64_def CBB_add_asn1_octet_string_def CBB_add_asn1_bool_def
      CBB_add_asn1_oid_from_text_def CBB_flush_asn1_set_of_def Let_def intro!: refused_intros)

lemma refused_unicode [refused_intros]:
  "refused (cbb_add_utf8 env d u)" "refused (cbb_add_latin1 env d u)" "refused (cbb_add_ucs2_be env d u)"
  "refused (cbb_add_utf32_be env d u)"
  by (auto simp: cbb_add_utf8_def cbb_add_latin1_def cbb_add_ucs2_be_def cbb_add_utf32_be_def Let_def intro!: refused_intros)

lemma failed_finish: "failed s \<Longrightarrow> fst (CBB_finish env d want s) = None \<and> failed (snd (CBB_finish env d want s))"
  by (simp add: CBB_finish_def failed_bind_flush act_simps)

section \<open>Calls on a builder\<close>

text \<open>One call of any public operation, at any depth and whatever it returns.\<close>

inductive cbb_call :: "alloc \<Rightarrow> cbb \<Rightarrow> cbb \<Rightarrow> bool" for env where
  flush_call: "cbb_call env s (snd (CBB_flush env d s))"
| finish_call: "cbb_call env s (snd (CBB_finish env d want s))"
| u8_call: "cbb_call env s (snd (CBB_add_u8 env d v8 s))"
| u16_call: "cbb_call env s (snd (CBB_add_u16 env d v16 s))"
| u24_call: "cbb_call env s (snd (CBB_add_u24 env d v32 s))"
| u32_call: "cbb_call env s (snd (CBB_add_u32 env d v32 s))"
| u64_call: "cbb_call env s (snd (CBB_add_u64 env d v64 s))"
| u16le_call: "cbb_call env s (snd (CBB_add_u16le env d v16 s))"
| u32le_call: "cbb_call env s (snd (CBB_add_u32le env d v32 s))"
| u64le_call: "cbb_call env s (snd (CBB_add_u64le env d v64 s))"
| u8_child_call: "cbb_call env s (snd (CBB_add_u8_length_prefixed env d s))"
| u16_child_call: "cbb_call env s (snd (CBB_add_u16_length_prefixed env d s))"
| u24_child_call: "cbb_call env s (snd (CBB_add_u24_length_prefixed env d s))"
| bytes_call: "cbb_call env s (snd (CBB_add_bytes env d w n s))"
| space_call: "cbb_call env s (snd (CBB_add_space env d n s))"
| reserve_call: "cbb_call env s (snd (CBB_reserve env d n s))"
| did_write_call: "cbb_call env s (snd (CBB_did_write d n s))"
| asn1_call: "cbb_call env s (snd (CBB_add_asn1 env d tag s))"
| uint64_call: "cbb_call env s (snd (CBB_add_asn1_uint64 env d v64 s))"
| int64_call: "cbb_call env s (snd (CBB_add_asn1_int64 env d v64 s))"
| octets_call: "cbb_call env s (snd (CBB_add_asn1_octet_string env d w n s))"
| bool_call: "cbb_call env s (snd (CBB_add_asn1_bool env d b s))"
| oid_call: "cbb_call env s (snd (CBB_add_asn1_oid_from_text env d w n s))"
| set_of_call: "cbb_call env s (snd (CBB_flush_asn1_set_of env d s))"
| utf8_call: "cbb_call env s (snd (cbb_add_utf8 env d u s))"
| latin1_call: "cbb_call env s (snd (cbb_add_latin1 env d u s))"
| ucs2_call: "cbb_call env s (snd (cbb_add_ucs2_be env d u s))"
| utf32_call: "cbb_call env s (snd (cbb_add_utf32_be env d u s))"
| discard_call: "cbb_call env s (CBB_discard_child d s)"
| cleanup_call: "cbb_call env s (CBB_cleanup d s)"

lemma failed_call:
  assumes "cbb_call env s t" and "failed s"
  shows "failed t"
  using assms
proof cases
  case (did_write_call d n)
  then show ?thesis using assms(2)
    by (auto simp: CBB_did_write_def on_base_def failed_def Let_def split: option.splits prod.splits if_splits)
next
  case (discard_call d)
  then show ?thesis using assms(2) by (auto simp: CBB_discard_child_def failed_def split: option.splits)
next
  case (cleanup_call d)
  then show ?thesis using assms(2) by (simp add: CBB_cleanup_def failed_def)
qed (use assms(2) failed_flush failed_finish refused_intros [THEN refusedD] in \<open>(metis snd_conv)+\<close>)

text \<open>A sequence of calls; the allocator may answer differently at each.\<close>

definition cbb_calls :: "cbb \<Rightarrow> cbb \<Rightarrow> bool" where
  "cbb_calls = (\<lambda>s t. \<exists>env. cbb_call env s t)\<^sup>*\<^sup>*"

lemma cbb_calls_step: "cbb_call env s t \<Longrightarrow> cbb_calls t u \<Longrightarrow> cbb_calls s u"
  unfolding cbb_calls_def by (rule converse_rtranclp_into_rtranclp) blast

lemma cbb_calls_refl: "cbb_calls s s"
  by (simp add: cbb_calls_def)

lemma failed_calls:
  assumes "cbb_calls s t" and "failed s"
  shows "failed t"
  using assms(1) unfolding cbb_calls_def
  by (induction rule: rtranclp_induct) (use assms(2) in \<open>auto intro: failed_call\<close>)

end
