(* ===== verification/Ber.thy ===== *)
theory Ber
  imports Oid
begin

text \<open>
  \<open>crypto/bytestring/ber.c\<close> and \<open>asn1_compat.c\<close>: the walk that looks for BER, the
  conversion of indefinite lengths and constructed strings to DER, and implicitly tagged
  strings. BER is stated as a tree with a printer; the conversion returns the DER form of
  the tree its input prints.
\<close>

section \<open>Tags of strings\<close>

definition CBS_ASN1_BITSTRING :: u32 where
  "CBS_ASN1_BITSTRING = 0x3"

definition CBS_ASN1_UTF8STRING :: u32 where
  "CBS_ASN1_UTF8STRING = 0xc"

definition CBS_ASN1_NUMERICSTRING :: u32 where
  "CBS_ASN1_NUMERICSTRING = 0x12"

definition CBS_ASN1_PRINTABLESTRING :: u32 where
  "CBS_ASN1_PRINTABLESTRING = 0x13"

definition CBS_ASN1_T61STRING :: u32 where
  "CBS_ASN1_T61STRING = 0x14"

definition CBS_ASN1_VIDEOTEXSTRING :: u32 where
  "CBS_ASN1_VIDEOTEXSTRING = 0x15"

definition CBS_ASN1_IA5STRING :: u32 where
  "CBS_ASN1_IA5STRING = 0x16"

definition CBS_ASN1_GRAPHICSTRING :: u32 where
  "CBS_ASN1_GRAPHICSTRING = 0x19"

definition CBS_ASN1_VISIBLESTRING :: u32 where
  "CBS_ASN1_VISIBLESTRING = 0x1a"

definition CBS_ASN1_GENERALSTRING :: u32 where
  "CBS_ASN1_GENERALSTRING = 0x1b"

definition CBS_ASN1_UNIVERSALSTRING :: u32 where
  "CBS_ASN1_UNIVERSALSTRING = 0x1c"

definition CBS_ASN1_BMPSTRING :: u32 where
  "CBS_ASN1_BMPSTRING = 0x1e"

definition kMaxDepth :: nat where
  "kMaxDepth = 2048"

definition is_string_type :: "u32 \<Rightarrow> bool" where
  "is_string_type tag =
     (tag AND NOT CBS_ASN1_CONSTRUCTED \<in>
        {CBS_ASN1_BITSTRING, CBS_ASN1_OCTETSTRING, CBS_ASN1_UTF8STRING, CBS_ASN1_NUMERICSTRING,
         CBS_ASN1_PRINTABLESTRING, CBS_ASN1_T61STRING, CBS_ASN1_VIDEOTEXSTRING, CBS_ASN1_IA5STRING,
         CBS_ASN1_GRAPHICSTRING, CBS_ASN1_VISIBLESTRING, CBS_ASN1_GENERALSTRING,
         CBS_ASN1_UNIVERSALSTRING, CBS_ASN1_BMPSTRING})"

section \<open>Looking for BER\<close>

text \<open>The test for an indefinite-length element on what the element reader returned.\<close>

definition is_indefinite :: "cbs \<Rightarrow> nat \<Rightarrow> bool" where
  "is_indefinite contents header_len \<longleftrightarrow>
     CBS_len contents = header_len \<and> header_len > 0 \<and> CBS_data contents ! (header_len - 1) = 0x80"

text \<open>
  The loop of \<open>cbs_find_ber\<close>, with \<open>*ber_found\<close> as its argument \<open>found\<close>. The call for
  the next level is \<open>rec\<close>; the fuel bounds the rounds, each of which consumes an element.
\<close>

fun find_ber_loop :: "nat \<Rightarrow> (cbs \<Rightarrow> bool option) \<Rightarrow> bool \<Rightarrow> cbs \<Rightarrow> bool option" where
  "find_ber_loop fuel rec found inp =
     (if CBS_len inp = 0 then Some found
      else case fuel of
        0 \<Rightarrow> None
      | Suc fuel \<Rightarrow>
          (case CBS_get_any_ber_asn1_element inp of
             (None, _) \<Rightarrow> None
           | (Some (contents, tag, header_len), inp) \<Rightarrow>
               if is_indefinite contents header_len then Some True
               else if tag AND CBS_ASN1_CONSTRUCTED \<noteq> 0 then
                 (if is_string_type tag then Some True
                  else case CBS_skip header_len contents of
                         (None, _) \<Rightarrow> None
                       | (Some _, contents) \<Rightarrow>
                           (case rec contents of
                              None \<Rightarrow> None
                            | Some found \<Rightarrow> find_ber_loop fuel rec found inp))
               else find_ber_loop fuel rec found inp))"

declare find_ber_loop.simps [simp del]

text \<open>\<open>levels\<close> is \<open>kMaxDepth + 1 - depth\<close>: a call at a depth above the limit has none left.\<close>

fun cbs_find_ber :: "nat \<Rightarrow> cbs \<Rightarrow> bool option" where
  "cbs_find_ber 0 orig_in = None"
| "cbs_find_ber (Suc levels) orig_in =
     find_ber_loop (CBS_len orig_in) (cbs_find_ber levels) False orig_in"

section \<open>Converting\<close>

definition is_eoc :: "nat \<Rightarrow> cbs \<Rightarrow> bool" where
  "is_eoc header_len contents \<longleftrightarrow>
     header_len = 2 \<and> CBS_len contents = 2 \<and> take 2 (CBS_data contents) = [0, 0]"

text \<open>\<open>cbs_convert_ber\<close> advances \<open>in\<close> and writes to \<open>out\<close>: its state is the pair of both.\<close>

definition on_in :: "(cbs, 'a) action \<Rightarrow> (cbs \<times> cbb, 'a) action" where
  "on_in f = (\<lambda>(inp, out). case f inp of (r, inp) \<Rightarrow> (r, (inp, out)))"

definition on_out :: "(cbb, 'a) action \<Rightarrow> (cbs \<times> cbb, 'a) action" where
  "on_out f = (\<lambda>(inp, out). case f out of (r, out) \<Rightarrow> (r, (inp, out)))"

text \<open>A call that converts the window \<open>contents\<close> instead of \<open>in\<close>.\<close>

definition on_contents :: "cbs \<Rightarrow> (cbs \<times> cbb, 'a) action \<Rightarrow> (cbs \<times> cbb, 'a) action" where
  "on_contents contents f = (\<lambda>(inp, out). case f (contents, out) of (r, (_, out)) \<Rightarrow> (r, (inp, out)))"

definition skip_of :: "nat \<Rightarrow> cbs \<Rightarrow> cbs option" where
  "skip_of n c = (case CBS_skip n c of (None, _) \<Rightarrow> None | (Some _, c) \<Rightarrow> Some c)"

text \<open>
  Where the contents of an element go: behind each other into \<open>out\<close> inside a constructed
  string, otherwise into a new element. The result is the depth of \<open>out_contents\<close> and the
  string tag for the children.
\<close>

definition open_contents :: "alloc \<Rightarrow> u32 \<Rightarrow> nat \<Rightarrow> u32 \<Rightarrow> (cbb, nat \<times> u32) action" where
  "open_contents env string_tag d tag =
     (if string_tag \<noteq> 0 then
        (if tag AND NOT CBS_ASN1_CONSTRUCTED \<noteq> string_tag then act_fail else act_ret (d, string_tag))
      else let constructed_string = (tag AND CBS_ASN1_CONSTRUCTED \<noteq> 0 \<and> is_string_type tag);
               out_tag = (if constructed_string then tag AND NOT CBS_ASN1_CONSTRUCTED else tag)
           in act_bind (CBB_add_asn1 env d out_tag) (\<lambda>_.
                act_ret (Suc d, if constructed_string then out_tag else string_tag)))"

text \<open>One element, behind the test for an end of contents; \<open>rec\<close> is the call for the next level.\<close>

definition convert_element :: "alloc \<Rightarrow> (u32 \<Rightarrow> bool \<Rightarrow> nat \<Rightarrow> (cbs \<times> cbb, unit) action) \<Rightarrow>
    u32 \<Rightarrow> nat \<Rightarrow> cbs \<times> u32 \<times> nat \<Rightarrow> (cbs \<times> cbb, unit) action" where
  "convert_element env rec string_tag d = (\<lambda>(contents, tag, header_len).
     act_bind (on_out (open_contents env string_tag d tag)) (\<lambda>(d', child_string_tag).
     act_bind
       (if is_indefinite contents header_len then rec child_string_tag True d'
        else act_bind (act_option (skip_of header_len contents)) (\<lambda>contents.
          if tag AND CBS_ASN1_CONSTRUCTED \<noteq> 0
          then on_contents contents (rec child_string_tag False d')
          else on_out (CBB_add_bytes env d' (CBS_data contents) (CBS_len contents))))
       (\<lambda>_. on_out (CBB_flush env d))))"

fun convert_loop :: "nat \<Rightarrow> alloc \<Rightarrow> (u32 \<Rightarrow> bool \<Rightarrow> nat \<Rightarrow> (cbs \<times> cbb, unit) action) \<Rightarrow>
    u32 \<Rightarrow> bool \<Rightarrow> nat \<Rightarrow> (cbs \<times> cbb, unit) action" where
  "convert_loop fuel env rec string_tag looking_for_eoc d s =
     (if CBS_len (fst s) = 0 then act_check (\<not> looking_for_eoc) s
      else case fuel of
        0 \<Rightarrow> act_fail s
      | Suc fuel \<Rightarrow>
          act_bind (on_in CBS_get_any_ber_asn1_element) (\<lambda>(contents, tag, header_len).
            if is_eoc header_len contents then act_check looking_for_eoc
            else act_bind (convert_element env rec string_tag d (contents, tag, header_len)) (\<lambda>_.
                   convert_loop fuel env rec string_tag looking_for_eoc d)) s)"

declare convert_loop.simps [simp del]

fun cbs_convert_ber :: "nat \<Rightarrow> alloc \<Rightarrow> u32 \<Rightarrow> bool \<Rightarrow> nat \<Rightarrow> (cbs \<times> cbb, unit) action" where
  "cbs_convert_ber 0 env string_tag looking_for_eoc d s = act_fail s"
| "cbs_convert_ber (Suc levels) env string_tag looking_for_eoc d s =
     convert_loop (CBS_len (fst s)) env (cbs_convert_ber levels env) string_tag looking_for_eoc d s"

text \<open>
  The result is \<open>*out\<close> and \<open>*out_storage\<close>, which is \<open>None\<close> for \<open>NULL\<close>.
\<close>

definition CBS_asn1_ber_to_der :: "alloc \<Rightarrow> (cbs, cbs \<times> byte list option) action" where
  "CBS_asn1_ber_to_der env inp =
     (case cbs_find_ber (Suc kMaxDepth) inp of
        None \<Rightarrow> (None, inp)
      | Some False \<Rightarrow>
          act_bind CBS_get_any_asn1_element (\<lambda>(out, _, _). act_ret (out, None)) inp
      | Some True \<Rightarrow>
          (case CBB_init env (CBS_len inp) of
             (None, _) \<Rightarrow> (None, inp)
           | (Some _, cbb) \<Rightarrow>
               (case cbs_convert_ber (Suc kMaxDepth) env 0 False 0 (inp, cbb) of
                  (None, (inp, _)) \<Rightarrow> (None, inp)
                | (Some _, (inp, cbb)) \<Rightarrow>
                    (case CBB_finish env 0 True cbb of
                       (None, _) \<Rightarrow> (None, inp)
                     | (Some (storage, len), _) \<Rightarrow> (Some (CBS_init storage len, Some storage), inp)))))"

text \<open>The loop over the chunks of a constructed string, each a primitive of \<open>inner_tag\<close>.\<close>

fun implicit_chunks :: "nat \<Rightarrow> alloc \<Rightarrow> u32 \<Rightarrow> cbs \<Rightarrow> (cbb, unit) action" where
  "implicit_chunks fuel env inner_tag child =
     (if CBS_len child = 0 then act_ret ()
      else case fuel of
        0 \<Rightarrow> act_fail
      | Suc fuel \<Rightarrow>
          (case CBS_get_asn1 inner_tag child of
             (None, _) \<Rightarrow> act_fail
           | (Some chunk, child) \<Rightarrow>
               act_bind (CBB_add_bytes env 0 (CBS_data chunk) (CBS_len chunk)) (\<lambda>_.
                 implicit_chunks fuel env inner_tag child)))"

declare implicit_chunks.simps [simp del]

definition CBS_get_asn1_implicit_string :: "alloc \<Rightarrow> u32 \<Rightarrow> u32 \<Rightarrow> (cbs, cbs \<times> byte list option) action" where
  "CBS_get_asn1_implicit_string env outer_tag inner_tag inp =
     (if CBS_peek_asn1_tag inp outer_tag then
        act_bind (CBS_get_asn1 outer_tag) (\<lambda>out. act_ret (out, None)) inp
      else case CBB_init env (CBS_len inp) of
        (None, _) \<Rightarrow> (None, inp)
      | (Some _, result) \<Rightarrow>
          (case CBS_get_asn1 (outer_tag OR CBS_ASN1_CONSTRUCTED) inp of
             (None, inp) \<Rightarrow> (None, inp)
           | (Some child, inp) \<Rightarrow>
               (case implicit_chunks (CBS_len child) env inner_tag child result of
                  (None, _) \<Rightarrow> (None, inp)
                | (Some _, result) \<Rightarrow>
                    (case CBB_finish env 0 True result of
                       (None, _) \<Rightarrow> (None, inp)
                     | (Some (storage, len), _) \<Rightarrow> (Some (CBS_init storage len, Some storage), inp)))))"

section \<open>A builder that ends an i2d function\<close>

text \<open>
  \<open>outp\<close> is the pointer-to-pointer argument: \<open>None\<close> for \<open>NULL\<close>, \<open>Some None\<close> when
  \<open>*outp\<close> is \<open>NULL\<close>, otherwise the caller's block. The result is the return value, the
  block \<open>*outp\<close> names afterwards, and the bytes written to the caller's block.
\<close>

definition CBB_finish_i2d :: "alloc \<Rightarrow> nat \<Rightarrow> byte list option option \<Rightarrow> cbb \<Rightarrow>
    int \<times> byte list option option \<times> byte list" where
  "CBB_finish_i2d env d outp cbb =
     (case CBB_finish env d True cbb of
        (None, _) \<Rightarrow> (-1, outp, [])
      | (Some (der, der_len), _) \<Rightarrow>
          if der_len > INT_MAX then (-1, outp, [])
          else (case outp of
                  None \<Rightarrow> (int der_len, None, [])
                | Some None \<Rightarrow> (int der_len, Some (Some der), [])
                | Some (Some dst) \<Rightarrow> (int der_len, Some (Some (drop der_len dst)), take der_len der)))"

section \<open>Trees\<close>

text \<open>
  BER as trees: primitive elements, and constructed ones of definite and indefinite length.
  \<open>ber_enc\<close> prints a tree, \<open>ber_der\<close> is its DER form: lengths become definite and a
  constructed string becomes one primitive element with the contents of all its fragments.
\<close>

datatype ber =
    BPrim u32 "byte list"
  | BDef u32 "ber list"
  | BInd u32 "ber list"

fun ber_enc :: "ber \<Rightarrow> byte list" where
  "ber_enc (BPrim tag body) = der_elem tag body"
| "ber_enc (BDef tag ts) = der_elem tag (concat (map ber_enc ts))"
| "ber_enc (BInd tag ts) = der_tag tag @ 0x80 # concat (map ber_enc ts) @ [0, 0]"

abbreviation constructed :: "u32 \<Rightarrow> bool" where
  "constructed tag \<equiv> tag AND CBS_ASN1_CONSTRUCTED \<noteq> 0"

abbreviation primitive_tag :: "u32 \<Rightarrow> u32" where
  "primitive_tag tag \<equiv> tag AND NOT CBS_ASN1_CONSTRUCTED"

definition string_of :: "u32 \<Rightarrow> u32 \<Rightarrow> u32" where
  "string_of st tag = (if st = 0 \<and> constructed tag \<and> is_string_type tag then primitive_tag tag else st)"

definition wrap :: "u32 \<Rightarrow> u32 \<Rightarrow> byte list \<Rightarrow> byte list" where
  "wrap st tag body =
     (if st \<noteq> 0 then body else der_elem (if constructed tag \<and> is_string_type tag then primitive_tag tag else tag) body)"

fun ber_der :: "u32 \<Rightarrow> ber \<Rightarrow> byte list" where
  "ber_der st (BPrim tag body) = wrap st tag body"
| "ber_der st (BDef tag ts) = wrap st tag (concat (map (ber_der (string_of st tag)) ts))"
| "ber_der st (BInd tag ts) = wrap st tag (concat (map (ber_der (string_of st tag)) ts))"

text \<open>A tree is well formed inside a string of tag \<open>st\<close>, or outside any string if \<open>st\<close> is zero.\<close>

fun ber_ok :: "u32 \<Rightarrow> ber \<Rightarrow> bool" where
  "ber_ok st (BPrim tag body) \<longleftrightarrow>
     \<not> constructed tag \<and> (st \<noteq> 0 \<longrightarrow> primitive_tag tag = st) \<and> \<not> (tag = 0 \<and> body = []) \<and> length body < 2 ^ 32"
| "ber_ok st (BDef tag ts) \<longleftrightarrow>
     constructed tag \<and> (st \<noteq> 0 \<longrightarrow> primitive_tag tag = st) \<and> length (concat (map ber_enc ts)) < 2 ^ 32 \<and>
     list_all (ber_ok (string_of st tag)) ts"
| "ber_ok st (BInd tag ts) \<longleftrightarrow>
     constructed tag \<and> (st \<noteq> 0 \<longrightarrow> primitive_tag tag = st) \<and> list_all (ber_ok (string_of st tag)) ts"

section \<open>What the conversion writes\<close>

lemma wrap_string: "st \<noteq> 0 \<Longrightarrow> wrap st tag body = body"
  by (simp add: wrap_def)

lemma spec_flush_child:
  "spec_flush (length fs) (c, fs @ [(p, x)]) = map_option (\<lambda>e. spec_append e (c, fs)) (enc_prefix p x)"
proof (cases "enc_prefix p x")
  case None
  then show ?thesis
  proof (induction fs arbitrary: c)
    case (Cons q fs)
    obtain p' x' where "q = (p', x')" by fastforce
    then show ?case using Cons by simp
  qed (cases p; simp split: if_splits)
qed (simp add: spec_flush_last)

text \<open>The state between two elements: an open builder with nothing open below it.\<close>

definition at_depth :: "nat \<Rightarrow> cbb \<Rightarrow> bool" where
  "at_depth d s \<longleftrightarrow> wf_cbb s \<and> length (cbb_kids s) = d"

lemma open_contents_ok:
  assumes "open_contents env st d tag s = (Some (d', st'), s1)" and "malloc_bounded env" and "at_depth d s"
  shows "at_depth d' s1" and "st' = string_of st tag" and "st \<noteq> 0 \<Longrightarrow> primitive_tag tag = st"
    and "at_depth d' s2 \<Longrightarrow> abs_cbb s2 = spec_append body (abs_cbb s1) \<Longrightarrow> CBB_flush env d s2 = (Some u, s3) \<Longrightarrow>
       at_depth d s3 \<and> abs_cbb s3 = spec_append (wrap st tag body) (abs_cbb s)"
proof -
  have s: "wf_cbb s" "length (cbb_kids s) = d" using assms(3) by (simp_all add: at_depth_def)
  have 1: "at_depth d' s1 \<and> st' = string_of st tag \<and> (st \<noteq> 0 \<longrightarrow> primitive_tag tag = st) \<and>
    (\<forall>u s2 s3. at_depth d' s2 \<and> abs_cbb s2 = spec_append body (abs_cbb s1) \<and> CBB_flush env d s2 = (Some u, s3) \<longrightarrow>
       at_depth d s3 \<and> abs_cbb s3 = spec_append (wrap st tag body) (abs_cbb s))"
  proof (cases "st = 0")
    case False
    then have "d' = d" "s1 = s" "st' = st" "primitive_tag tag = st"
      using assms(1) by (auto simp: open_contents_def act_simps split: if_splits)
    then show ?thesis
      using False assms(3) CBB_flush_at by (auto simp: string_of_def wrap_def at_depth_def)
  next
    case True
    define t where "t = (if constructed tag \<and> is_string_type tag then primitive_tag tag else tag)"
    have add: "CBB_add_asn1 env d t s = (Some (), s1)" and d': "d' = Suc d" "st' = string_of st tag"
      using assms(1) True
      by (auto simp: open_contents_def act_bind_eq_Some t_def Let_def string_of_def split: if_splits)
    obtain c fs where cfs: "spec_append (der_tag t) (abs_cbb s) = (c, fs)" by fastforce
    have depth: "length (snd (abs_cbb s)) = d" using abs_depth [OF s(1)] s(2) by simp
    have "spec_write d (der_tag t) (abs_cbb s) = Some (c, fs)"
      using spec_write_at [OF depth] cfs by simp
    then have fs: "length fs = d" using spec_write_depth by fastforce
    have s1: "wf_cbb s1" "abs_cbb s1 = (c, fs @ [(DerLength, [])])"
      using add_asn1.op_ok [OF assms(2) s(1) add] \<open>spec_write d (der_tag t) (abs_cbb s) = _\<close>
      by (simp_all add: spec_asn1_def)
    have "length (cbb_kids s1) = Suc d" using abs_depth [OF s1(1)] s1(2) fs by simp
    then have open1: "at_depth d' s1" using s1(1) d'(1) by (simp add: at_depth_def)
    have close: "at_depth d s3 \<and> abs_cbb s3 = spec_append (wrap st tag body) (abs_cbb s)"
      if prems: "at_depth d' s2" "abs_cbb s2 = spec_append body (abs_cbb s1)" "CBB_flush env d s2 = (Some u, s3)" for u s2 s3
    proof -
      have s2: "wf_cbb s2" "abs_cbb s2 = (c, fs @ [(DerLength, body)])"
        using prems(1,2) s1(2) by (simp_all add: at_depth_def spec_append_last)
      have s3: "wf_cbb s3" "length (cbb_kids s3) = d" "spec_flush d (abs_cbb s2) = Some (abs_cbb s3)"
        using flush_op.op_ok [OF assms(2) s2(1) prems(3)] CBB_flush_refines(2) [OF s2(1) assms(2)] prems(3) by simp_all
      then have "abs_cbb s3 = spec_append (der_length (length body) @ body) (c, fs)"
        using spec_flush_child [of fs c DerLength body] s2(2) fs by (simp split: if_splits)
      also have "\<dots> = spec_append (der_elem t body) (abs_cbb s)"
        unfolding cfs [symmetric] spec_append_append by (simp add: der_elem_def der_header_def)
      finally show ?thesis
        using s3(1,2) True by (simp add: at_depth_def wrap_def t_def)
    qed
    show ?thesis
      by (intro conjI allI impI; (elim conjE)?) (use open1 d'(2) True close in blast)+
  qed
  then show "at_depth d' s1" by (elim conjE)
  show "st' = string_of st tag" using 1 by (elim conjE)
  show "primitive_tag tag = st" if "st \<noteq> 0"
    using 1 that by (elim conjE) (rule mp)
  show "at_depth d s3 \<and> abs_cbb s3 = spec_append (wrap st tag body) (abs_cbb s)"
    if "at_depth d' s2" "abs_cbb s2 = spec_append body (abs_cbb s1)" "CBB_flush env d s2 = (Some u, s3)"
    by (rule 1 [THEN conjunct2, THEN conjunct2, THEN conjunct2, rule_format, OF conjI [OF that(1) conjI [OF that(2,3)]]])
qed

text \<open>What the reader of BER elements returns, in the two forms of an element.\<close>

lemma ber_element_cases:
  assumes get: "CBS_get_any_ber_asn1_element c = (Some (contents, tag, hl), c')" and wf: "wf_cbs c"
  obtains (definite) body where "cbs_view c = der_elem tag body @ cbs_view c'" and "length body < 2 ^ 32"
      and "\<not> is_indefinite contents hl" and "skip_of hl contents = Some (body_window c tag body)"
      and "is_eoc hl contents \<longleftrightarrow> tag = 0 \<and> body = []" and "wf_cbs (body_window c tag body)"
      and "cbs_view (body_window c tag body) = body" and "cbs_tail c c'"
  | (indefinite) "constructed tag" and "cbs_view c = der_tag tag @ 0x80 # cbs_view c'"
      and "is_indefinite contents hl" and "\<not> is_eoc hl contents" and "cbs_tail c c'"
proof (rule cbs_get_any_asn1_element_sound [OF get [unfolded CBS_get_any_ber_asn1_element_def] wf])
  have tail: "cbs_tail c c'" using ber_element.get_tail [OF get] .
  fix t n rest
  assume view: "cbs_view c = der_header t n @ rest" and n: "n < 2 ^ 32" "n \<le> length rest"
  define body where "body = take n rest"
  have body: "length body = n" "rest = body @ drop n rest" using n(2) by (simp_all add: body_def min_absorb2)
  then have elem: "cbs_view c = der_elem t body @ drop n rest" using view by (simp add: der_elem_def)
  have e: "contents = CBS_init (cbs_data c) (length (der_header t n) + n)" "t = tag" "hl = length (der_header t n)"
      "c' = cbs_after (length (der_header t n) + n) c"
    using get [unfolded CBS_get_any_ber_asn1_element_def cbs_get_any_asn1_element_der [OF wf view n(1)]] n(2)
    by (auto simp: Let_def)
  have len: "cbs_len c = length (der_elem t body) + (length rest - n)"
    using length_cbs_view [OF wf] elem by simp
  have hdr: "length (der_elem t body) = length (der_header t n) + n" by (simp add: length_der_elem body(1))
  have "cbs_view c' = drop (length (der_elem t body)) (cbs_view c)"
    by (simp only: e(4) hdr cbs_view_after)
  then have view': "cbs_view c = der_elem tag body @ cbs_view c'"
    using elem e(2) by simp
  have data: "take k (cbs_data c) = take k (cbs_view c)" if "k \<le> cbs_len c" for k
    using that by (simp add: cbs_view_def min_absorb1)
  have hdle: "hl \<le> cbs_len c" using len hdr e(3) by simp
  then have front: "take hl (cbs_data c) = der_header tag n"
    using data [of hl] view e(2,3) by simp
  have "\<not> is_indefinite contents hl"
  proof
    assume ind: "is_indefinite contents hl"
    then have "n = 0" using e by (simp add: is_indefinite_def CBS_init_def CBS_len_def)
    have "hl > 0" using e(3) by simp
    have "cbs_data c ! (hl - 1) = take hl (cbs_data c) ! (hl - 1)" using \<open>hl > 0\<close> by simp
    also have "\<dots> = last (der_header tag n)"
      unfolding front using e(2,3) by (simp add: last_conv_nth)
    also have "\<dots> = 0" using \<open>n = 0\<close> by (simp add: der_header_def der_length_def)
    finally show False
      using ind e(1) by (simp add: is_indefinite_def CBS_init_def CBS_data_def)
  qed
  moreover have "skip_of hl contents = Some (body_window c tag body)"
    using e body(1) by (simp add: skip_of_def CBS_skip_def cbs_get_eq act_bind_def act_simps body_window_def
        CBS_init_def cbs_after_def)
  moreover have "is_eoc hl contents \<longleftrightarrow> tag = 0 \<and> body = []"
  proof
    assume "is_eoc hl contents"
    then have *: "hl = 2" "n = 0" "take 2 (cbs_data c) = [0, 0]"
      using e by (auto simp: is_eoc_def CBS_init_def CBS_len_def CBS_data_def)
    then have "der_header tag 0 = [0, 0]" using front by simp
    moreover have "der_header 0 0 = [0, 0]"
      by (simp add: der_header_def der_tag_def tag_number_def tag_class_def der_length_def)
    ultimately have "der_elem tag [] @ [] = der_elem 0 [] @ []" by (simp add: der_elem_def)
    then have "tag = 0" using der_elem_inj [of 0 "[]" "[]" tag "[]" "[]"] length_der_header [of 0 0]
      by (simp add: length_der_elem)
    then show "tag = 0 \<and> body = []" using * body(1) by simp
  next
    assume "tag = 0 \<and> body = []"
    then have "n = 0" "der_header tag n = [0, 0]"
      using body(1) by (auto simp: der_header_def der_tag_def tag_number_def tag_class_def der_length_def)
    then show "is_eoc hl contents"
      using e front by (simp add: is_eoc_def CBS_init_def CBS_len_def CBS_data_def numeral_2_eq_2)
  qed
  ultimately show thesis
    using definite [OF view'] body_window_wf [OF wf view'] body_window_view [OF wf view'] body(1) n(1) tail by simp
next
  have tail: "cbs_tail c c'" using ber_element.get_tail [OF get] .
  fix t rest
  assume t: "constructed t" and view: "cbs_view c = der_tag t @ 0x80 # rest"
  have e: "contents = CBS_init (cbs_data c) (Suc (length (der_tag t)))" "t = tag" "hl = Suc (length (der_tag t))"
      "c' = cbs_after (Suc (length (der_tag t))) c"
    using get [unfolded CBS_get_any_ber_asn1_element_def cbs_get_any_asn1_element_indefinite [OF wf view t]]
    by (auto simp: Let_def)
  have "cbs_len c = length (der_tag tag) + Suc (length rest)"
    using length_cbs_view [OF wf] view e(2) by simp
  then have "take hl (cbs_data c) = take hl (cbs_view c)"
    using e by (simp add: cbs_view_def min_absorb1)
  then have front: "take hl (cbs_data c) = der_tag tag @ [0x80]"
    unfolding view using e by simp
  have "cbs_data c ! (hl - 1) = take hl (cbs_data c) ! (hl - 1)" using e(3) by simp
  also have "\<dots> = 0x80" unfolding front using e(2,3) by simp
  finally have "cbs_data c ! (hl - 1) = 0x80" .
  then have "is_indefinite contents hl"
    using e by (simp add: is_indefinite_def CBS_init_def CBS_len_def CBS_data_def)
  moreover have "\<not> is_eoc hl contents"
  proof
    assume "is_eoc hl contents"
    then have "hl = 2" "take 2 (cbs_data c) = [0, 0]" using e(1) by (simp_all add: is_eoc_def CBS_init_def CBS_data_def)
    then have "last (der_tag tag @ [0x80]) = 0" using front by simp
    then show False by simp
  qed
  ultimately show thesis
    using indefinite t view e tail by simp
qed

text \<open>The contract of one level: what it consumed is a sequence of trees, and it wrote their DER.\<close>

definition converts :: "(u32 \<Rightarrow> bool \<Rightarrow> nat \<Rightarrow> (cbs \<times> cbb, unit) action) \<Rightarrow> bool" where
  "converts f \<longleftrightarrow>
     (\<forall>st eoc d inp out u inp' out'.
        f st eoc d (inp, out) = (Some u, (inp', out')) \<and> wf_cbs inp \<and> at_depth d out \<longrightarrow>
        cbs_tail inp inp' \<and> at_depth d out' \<and>
        (\<exists>ts. list_all (ber_ok st) ts \<and> (\<not> eoc \<longrightarrow> cbs_view inp' = []) \<and>
           cbs_view inp = concat (map ber_enc ts) @ (if eoc then [0, 0] else []) @ cbs_view inp' \<and>
           abs_cbb out' = spec_append (concat (map (ber_der st) ts)) (abs_cbb out)))"

lemma convertsD:
  assumes "converts f" and "f st eoc d (inp, out) = (Some u, (inp', out'))" and "wf_cbs inp" and "at_depth d out"
  shows "cbs_tail inp inp' \<and> at_depth d out' \<and>
        (\<exists>ts. list_all (ber_ok st) ts \<and> (\<not> eoc \<longrightarrow> cbs_view inp' = []) \<and>
           cbs_view inp = concat (map ber_enc ts) @ (if eoc then [0, 0] else []) @ cbs_view inp' \<and>
           abs_cbb out' = spec_append (concat (map (ber_der st) ts)) (abs_cbb out))"
  using assms unfolding converts_def by blast

lemma on_in_eq_Some: "on_in f (i, out) = (Some r, s) \<longleftrightarrow> (\<exists>i'. f i = (Some r, i') \<and> s = (i', out))"
  by (auto simp: on_in_def split: prod.splits)

lemma on_out_eq_Some: "on_out f (i, out) = (Some r, s) \<longleftrightarrow> (\<exists>out'. f out = (Some r, out') \<and> s = (i, out'))"
  by (auto simp: on_out_def split: prod.splits)

lemma convert_element_ok:
  assumes rec: "converts rec" and env: "malloc_bounded env"
    and get: "CBS_get_any_ber_asn1_element c = (Some (contents, tag, hl), inp)" and neoc: "\<not> is_eoc hl contents"
    and conv: "convert_element env rec st d (contents, tag, hl) (inp, out) = (Some u, (inp', out'))"
    and wf: "wf_cbs c" and out: "at_depth d out"
  shows "cbs_tail inp inp' \<and> at_depth d out' \<and>
    (\<exists>t. ber_ok st t \<and> cbs_view c = ber_enc t @ cbs_view inp' \<and> abs_cbb out' = spec_append (ber_der st t) (abs_cbb out))"
proof -
  obtain p s1 where 1: "on_out (open_contents env st d tag) (inp, out) = (Some p, s1)"
    and 2: "(case p of (d', st') \<Rightarrow>
        act_bind (if is_indefinite contents hl then rec st' True d'
          else act_bind (act_option (skip_of hl contents)) (\<lambda>contents.
            if constructed tag then on_contents contents (rec st' False d')
            else on_out (CBB_add_bytes env d' (CBS_data contents) (CBS_len contents))))
        (\<lambda>_. on_out (CBB_flush env d))) s1 = (Some u, (inp', out'))"
    using conv unfolding convert_element_def prod.case by (rule act_bind_SomeE)
  obtain d' st' where p: "p = (d', st')" by fastforce
  obtain out1 where open1: "open_contents env st d tag out = (Some (d', st'), out1)" and s1: "s1 = (inp, out1)"
    using 1 p by (auto simp: on_out_eq_Some)
  obtain u1 s2 where "(if is_indefinite contents hl then rec st' True d'
        else act_bind (act_option (skip_of hl contents)) (\<lambda>contents.
          if constructed tag then on_contents contents (rec st' False d')
          else on_out (CBB_add_bytes env d' (CBS_data contents) (CBS_len contents)))) (inp, out1) = (Some u1, s2)"
    and flush: "on_out (CBB_flush env d) s2 = (Some u, (inp', out'))"
    using 2 unfolding p s1 prod.case by (rule act_bind_SomeE)
  then have body: "(if is_indefinite contents hl then rec st' True d'
        else act_bind (act_option (skip_of hl contents)) (\<lambda>contents.
          if constructed tag then on_contents contents (rec st' False d')
          else on_out (CBB_add_bytes env d' (CBS_data contents) (CBS_len contents)))) (inp, out1) = (Some (), s2)"
    by simp
  obtain out2 where s2: "s2 = (inp', out2)" and fl: "CBB_flush env d out2 = (Some u, out')"
    using flush by (cases s2) (auto simp: on_out_eq_Some)
  note o = open_contents_ok [OF open1 env out]
  have wf': "wf_cbs inp" using ber_element.get_wf [OF get wf] .
  show ?thesis
  proof (rule ber_element_cases [OF get wf])
    fix bs
    assume view: "cbs_view c = der_elem tag bs @ cbs_view inp" and n: "length bs < 2 ^ 32"
      and ni: "\<not> is_indefinite contents hl" and skip: "skip_of hl contents = Some (body_window c tag bs)"
      and eoc: "is_eoc hl contents \<longleftrightarrow> tag = 0 \<and> bs = []" and w: "wf_cbs (body_window c tag bs)"
      and bv: "cbs_view (body_window c tag bs) = bs"
    show ?thesis
    proof (cases "constructed tag")
      case False
      then have add: "CBB_add_bytes env d' (CBS_data (body_window c tag bs)) (CBS_len (body_window c tag bs)) out1 = (Some (), out2)"
        and inp': "inp' = inp"
        using body ni skip s2 by (auto simp: act_bind_eq_Some act_simps on_out_eq_Some)
      have "at_depth d' out2" "abs_cbb out2 = spec_append bs (abs_cbb out1)"
        using add_window_ok [OF add w env] o(1) bv by (simp_all add: at_depth_def)
      from o(4) [OF this fl] show ?thesis
        using view n inp' False o(3) eoc neoc
        by (intro conjI exI [of _ "BPrim tag bs"]) auto
    next
      case True
      then obtain rest where r: "rec st' False d' (body_window c tag bs, out1) = (Some (), (rest, out2))" and inp': "inp' = inp"
        using body ni skip s2 by (auto simp: act_bind_eq_Some act_simps on_contents_def split: prod.splits)
      obtain ts where ts: "list_all (ber_ok st') ts" "bs = concat (map ber_enc ts)" "at_depth d' out2"
          "abs_cbb out2 = spec_append (concat (map (ber_der st') ts)) (abs_cbb out1)"
        using convertsD [OF rec r w o(1)] bv by auto
      from o(4) [OF ts(3,4) fl] show ?thesis
        using view n inp' True o(2,3) ts(1,2)
        by (intro conjI exI [of _ "BDef tag ts"]) auto
    qed
  next
    assume t: "constructed tag" and view: "cbs_view c = der_tag tag @ 0x80 # cbs_view inp" and ind: "is_indefinite contents hl"
    have r: "rec st' True d' (inp, out1) = (Some (), (inp', out2))" using body ind s2 by simp
    obtain ts where ts: "list_all (ber_ok st') ts" "cbs_view inp = concat (map ber_enc ts) @ [0, 0] @ cbs_view inp'"
        "at_depth d' out2" "abs_cbb out2 = spec_append (concat (map (ber_der st') ts)) (abs_cbb out1)" "cbs_tail inp inp'"
      using convertsD [OF rec r wf' o(1)] by auto
    from o(4) [OF ts(3,4) fl] show ?thesis
      using view t o(2,3) ts(1,2,5)
      by (intro conjI exI [of _ "BInd tag ts"]) auto
  qed
qed

lemma convert_loop_ok:
  assumes rec: "converts rec" and env: "malloc_bounded env"
    and "convert_loop fuel env rec st eoc d (inp, out) = (Some u, (inp', out'))" and "wf_cbs inp" and "at_depth d out"
  shows "cbs_tail inp inp' \<and> at_depth d out' \<and>
        (\<exists>ts. list_all (ber_ok st) ts \<and> (\<not> eoc \<longrightarrow> cbs_view inp' = []) \<and>
           cbs_view inp = concat (map ber_enc ts) @ (if eoc then [0, 0] else []) @ cbs_view inp' \<and>
           abs_cbb out' = spec_append (concat (map (ber_der st) ts)) (abs_cbb out))"
  using assms(3-5)
proof (induction fuel arbitrary: inp out)
  case 0
  then have "cbs_len inp = 0" "\<not> eoc" "inp' = inp" "out' = out"
    by (auto simp: convert_loop.simps [of 0] CBS_len_def act_simps split: if_splits)
  then show ?case using 0 by (intro conjI exI [of _ "[]"]) (auto simp: cbs_view_def)
next
  case (Suc fuel)
  show ?case
  proof (cases "cbs_len inp = 0")
    case True
    then have "\<not> eoc" "inp' = inp" "out' = out"
      using Suc.prems(1) by (auto simp: convert_loop.simps [of "Suc fuel"] CBS_len_def)
    then show ?thesis using True Suc.prems by (intro conjI exI [of _ "[]"]) (auto simp: cbs_view_def)
  next
    case False
    then obtain contents tag hl c where get: "CBS_get_any_ber_asn1_element inp = (Some (contents, tag, hl), c)"
      and rest: "(if is_eoc hl contents then act_check eoc
            else act_bind (convert_element env rec st d (contents, tag, hl)) (\<lambda>_.
                   convert_loop fuel env rec st eoc d)) (c, out) = (Some u, (inp', out'))"
      using Suc.prems(1) by (auto simp: convert_loop.simps [of "Suc fuel"] CBS_len_def act_bind_eq_Some on_in_eq_Some)
    have wfc: "wf_cbs c" "cbs_tail inp c" using ber_element.get_wf [OF get] ber_element.get_tail [OF get] Suc.prems(2) by auto
    show ?thesis
    proof (cases "is_eoc hl contents")
      case True
      then have eoc: "eoc" "inp' = c" "out' = out" using rest by auto
      have "cbs_view inp = [0, 0] @ cbs_view c"
      proof (rule ber_element_cases [OF get Suc.prems(2)])
        fix bs assume "cbs_view inp = der_elem tag bs @ cbs_view c" and "is_eoc hl contents \<longleftrightarrow> tag = 0 \<and> bs = []"
        then show ?thesis
          using True by (simp add: der_elem_def der_header_def der_tag_def tag_number_def tag_class_def der_length_def)
      qed (use True in simp)
      then show ?thesis
        using eoc Suc.prems(3) wfc(2) by (intro conjI exI [of _ "[]"]) auto
    next
      case False
      then obtain c2 out2 where el: "convert_element env rec st d (contents, tag, hl) (c, out) = (Some (), (c2, out2))"
        and loop: "convert_loop fuel env rec st eoc d (c2, out2) = (Some u, (inp', out'))"
        using rest by (auto simp: act_bind_eq_Some)
      obtain t where t: "cbs_tail c c2" "at_depth d out2" "ber_ok st t" "cbs_view inp = ber_enc t @ cbs_view c2"
          "abs_cbb out2 = spec_append (ber_der st t) (abs_cbb out)"
        using convert_element_ok [OF rec env get False el Suc.prems(2,3)] by blast
      have "wf_cbs c2" using t(1) wfc(1) by (rule cbs_tail_wf)
      from Suc.IH [OF loop this t(2)] obtain ts where
        ts: "cbs_tail c2 inp'" "at_depth d out'" "list_all (ber_ok st) ts" "\<not> eoc \<longrightarrow> cbs_view inp' = []"
          "cbs_view c2 = concat (map ber_enc ts) @ (if eoc then [0, 0] else []) @ cbs_view inp'"
          "abs_cbb out' = spec_append (concat (map (ber_der st) ts)) (abs_cbb out2)" by blast
      show ?thesis
        using t ts wfc(2) cbs_tail_trans [OF cbs_tail_trans [OF wfc(2) t(1)] ts(1)]
        by (intro conjI exI [of _ "t # ts"]) (auto simp: spec_append_append)
    qed
  qed
qed

lemma cbs_convert_ber_ok: "malloc_bounded env \<Longrightarrow> converts (cbs_convert_ber levels env)"
proof (induction levels)
  case 0
  then show ?case by (simp add: converts_def act_simps)
next
  case (Suc levels)
  show ?case
    unfolding converts_def cbs_convert_ber.simps fst_conv
    using convert_loop_ok [OF Suc.IH [OF Suc.prems] Suc.prems] by blast
qed

section \<open>The public function\<close>

theorem CBS_asn1_ber_to_der_sound:
  assumes env: "malloc_bounded env" and wf: "wf_cbs inp" and conv: "CBS_asn1_ber_to_der env inp = (Some (out, storage), inp')"
  shows "case storage of
      None \<Rightarrow> is_der_elem (cbs_view out) \<and> cbs_view inp = cbs_view out @ cbs_view inp'
    | Some _ \<Rightarrow> \<exists>ts. list_all (ber_ok 0) ts \<and> cbs_view inp = concat (map ber_enc ts) \<and> cbs_view inp' = [] \<and>
        cbs_view out = concat (map (ber_der 0) ts)"
proof (cases "cbs_find_ber (Suc kMaxDepth) inp")
  case None
  then show ?thesis using conv by (simp add: CBS_asn1_ber_to_der_def)
next
  case (Some found)
  show ?thesis
  proof (cases found)
    case False
    then obtain e where e: "CBS_get_any_asn1_element inp = (Some e, inp')" "out = fst e" "storage = None"
      using conv Some by (cases "CBS_get_any_asn1_element inp")
        (auto simp: CBS_asn1_ber_to_der_def act_bind_eq_Some split: prod.splits)
    then show ?thesis using element_view_der [OF wf e(1)] by (simp add: element_view_def)
  next
    case True
    then obtain s0 s1 s2 len buf
      where init: "CBB_init env (CBS_len inp) = (Some (), s0)"
        and ber: "cbs_convert_ber (Suc kMaxDepth) env 0 False 0 (inp, s0) = (Some (), (inp', s1))"
        and fin: "CBB_finish env 0 True s1 = (Some (buf, len), s2)" and out: "out = CBS_init buf len" "storage = Some buf"
      using conv Some
      by (auto simp: CBS_asn1_ber_to_der_def simp del: cbs_convert_ber.simps split: prod.splits option.splits)
    have "CBS_len inp + 8 < size_mod" using wf by (simp add: wf_cbs_def CBS_len_def size_mod_def)
    then have s0: "wf_cbb s0" "abs_cbb s0 = ([], [])" using CBB_init_ok [OF init _ env] by simp_all
    then have "at_depth 0 s0" using abs_depth [of s0] by (simp add: at_depth_def)
    from convertsD [OF cbs_convert_ber_ok [OF env] ber wf this] obtain ts where
      ts: "at_depth 0 s1" "list_all (ber_ok 0) ts" "cbs_view inp' = []" "cbs_view inp = concat (map ber_enc ts)"
        "abs_cbb s1 = spec_append (concat (map (ber_der 0) ts)) ([], [])"
      using s0(2) by auto
    have "spec_flush 0 (abs_cbb s1) = Some (take len buf, [])" "len \<le> length buf"
      using CBB_finish_ok [OF env _ fin] ts(1) by (simp_all add: at_depth_def)
    then have "take len buf = concat (map (ber_der 0) ts)" using ts(5) by simp
    then show ?thesis using ts(2-4) out by (auto simp: cbs_view_def CBS_init_def)
  qed
qed

text \<open>
  Trees of DER: definite lengths only, and no constructed strings. Of what such trees print
  the walk finds no BER, so the function returns the first element as it stands.
\<close>

fun der_tree :: "ber \<Rightarrow> bool" where
  "der_tree (BPrim tag body) \<longleftrightarrow> \<not> constructed tag \<and> length body < 2 ^ 32"
| "der_tree (BDef tag ts) \<longleftrightarrow>
     constructed tag \<and> \<not> is_string_type tag \<and> length (concat (map ber_enc ts)) < 2 ^ 32 \<and> list_all der_tree ts"
| "der_tree (BInd tag ts) \<longleftrightarrow> False"

fun ber_depth :: "ber \<Rightarrow> nat" where
  "ber_depth (BPrim tag body) = 0"
| "ber_depth (BDef tag ts) = Suc (Max (insert 0 (set (map ber_depth ts))))"
| "ber_depth (BInd tag ts) = Suc (Max (insert 0 (set (map ber_depth ts))))"

lemma ber_element_definite:
  assumes "wf_cbs c" and "cbs_view c = der_elem tag body @ rest" and "length body < 2 ^ 32"
  obtains contents hl where "CBS_get_any_ber_asn1_element c = (Some (contents, tag, hl), cbs_after (length (der_elem tag body)) c)"
    and "\<not> is_indefinite contents hl" and "skip_of hl contents = Some (body_window c tag body)"
    and "is_eoc hl contents \<longleftrightarrow> tag = 0 \<and> body = []"
proof -
  define c' where "c' = cbs_after (length (der_elem tag body)) c"
  have get: "CBS_get_any_ber_asn1_element c =
      (Some (CBS_init (cbs_data c) (length (der_elem tag body)), tag, length (der_header tag (length body))), c')"
    using cbs_get_any_asn1_element_der [of c tag "length body" "body @ rest" True] assms
    by (simp add: CBS_get_any_ber_asn1_element_def der_elem_def Let_def c'_def)
  have len: "length (der_elem tag body @ cbs_view c') < 2 ^ 63"
    using length_cbs_view [OF assms(1)] assms(1,2) by (simp add: c'_def wf_cbs_def)
  show thesis
  proof (rule ber_element_cases [OF get assms(1)])
    fix bs
    assume bs: "cbs_view c = der_elem tag bs @ cbs_view c'" "length bs < 2 ^ 32"
      and ind: "\<not> is_indefinite (CBS_init (cbs_data c) (length (der_elem tag body))) (length (der_header tag (length body)))"
      and skip: "skip_of (length (der_header tag (length body))) (CBS_init (cbs_data c) (length (der_elem tag body))) =
        Some (body_window c tag bs)"
      and eoc: "is_eoc (length (der_header tag (length body))) (CBS_init (cbs_data c) (length (der_elem tag body))) \<longleftrightarrow> tag = 0 \<and> bs = []"
    have "der_elem tag body @ cbs_view c' = der_elem tag bs @ cbs_view c'"
      using bs(1) assms(2) by (simp add: c'_def)
    then have "bs = body" using der_elem_inj [of tag body "cbs_view c'" tag bs "cbs_view c'"] assms(3) bs(2) len by simp
    then show thesis using that get ind skip eoc unfolding c'_def by blast
  next
    assume ind: "is_indefinite (CBS_init (cbs_data c) (length (der_elem tag body))) (length (der_header tag (length body)))"
      and view: "cbs_view c = der_tag tag @ 0x80 # cbs_view c'"
    then have "body = []" by (simp add: is_indefinite_def CBS_init_def CBS_len_def length_der_elem)
    then have "der_tag tag @ 0 # rest = der_tag tag @ 0x80 # cbs_view c'"
      using view assms(2) by (simp add: der_elem_def der_header_def der_length_def)
    then show thesis by simp
  qed
qed

lemma der_tree_elem:
  "der_tree t \<Longrightarrow> \<exists>tag body. ber_enc t = der_elem tag body \<and> length body < 2 ^ 32 \<and>
     (t = BPrim tag body \<or> (\<exists>us. t = BDef tag us \<and> body = concat (map ber_enc us)))"
  by (cases t) (auto intro: exI)

lemma find_ber_loop_der:
  assumes "\<And>c ts. wf_cbs c \<Longrightarrow> cbs_view c = concat (map ber_enc ts) \<Longrightarrow> list_all der_tree ts \<Longrightarrow>
      \<forall>t \<in> set ts. ber_depth t < levels \<Longrightarrow> 0 < levels \<Longrightarrow> rec c = Some False"
    and "wf_cbs c" and "cbs_view c = concat (map ber_enc ts)" and "list_all der_tree ts"
    and "\<forall>t \<in> set ts. ber_depth t < Suc levels" and "cbs_len c \<le> fuel"
  shows "find_ber_loop fuel rec False c = Some False"
  using assms(2-)
proof (induction ts arbitrary: c fuel)
  case Nil
  then have "cbs_len c = 0" using length_cbs_view [of c] by simp
  then show ?case by (simp add: find_ber_loop.simps [of fuel] CBS_len_def)
next
  case (Cons t ts)
  obtain tag body where t: "ber_enc t = der_elem tag body" "length body < 2 ^ 32"
      and sub: "t = BPrim tag body \<or> (\<exists>us. t = BDef tag us \<and> body = concat (map ber_enc us))"
    using der_tree_elem [of t] Cons.prems(3) by (simp del: ber_enc.simps) blast
  have view: "cbs_view c = der_elem tag body @ concat (map ber_enc ts)" using Cons.prems(2) t(1) by simp
  obtain contents hl where get: "CBS_get_any_ber_asn1_element c = (Some (contents, tag, hl), cbs_after (length (der_elem tag body)) c)"
    and ind: "\<not> is_indefinite contents hl" and skip: "skip_of hl contents = Some (body_window c tag body)"
    using ber_element_definite [OF Cons.prems(1) view t(2)] by metis
  define c' where "c' = cbs_after (length (der_elem tag body)) c"
  have "0 < length (der_elem tag body)" using der_elem_neq_Nil [of tag body] by blast
  moreover have len: "cbs_len c = length (der_elem tag body) + length (concat (map ber_enc ts))"
    using length_cbs_view [OF Cons.prems(1)] view by simp
  ultimately obtain k where k: "fuel = Suc k" "cbs_len c' \<le> k" "cbs_len c \<noteq> 0"
    using Cons.prems(5) by (cases fuel) (auto simp: c'_def)
  have rest: "find_ber_loop k rec False c' = Some False"
    using Cons.prems view k(2) by (intro Cons.IH) (auto simp: c'_def)
  have "rec (body_window c tag body) = Some False" if con: "constructed tag"
  proof -
    obtain us where us: "t = BDef tag us" "body = concat (map ber_enc us)"
      using sub con Cons.prems(3) by auto
    have "\<forall>u \<in> set us. ber_depth u < levels"
    proof
      fix u assume "u \<in> set us"
      then show "ber_depth u < levels" using Cons.prems(4) us(1) by simp
    qed
    moreover have "0 < levels" using Cons.prems(4) us(1) by simp
    ultimately show ?thesis
      using assms(1) body_window_wf [OF Cons.prems(1) view] body_window_view [OF Cons.prems(1) view] us Cons.prems(3)
      by simp
  qed
  moreover have "constructed tag \<Longrightarrow> \<not> is_string_type tag" using sub Cons.prems(3) by auto
  moreover have "CBS_skip hl contents = (Some (), body_window c tag body)"
    using skip by (auto simp: skip_of_def split: prod.splits option.splits)
  ultimately show ?case
    using k(3) get ind rest unfolding k(1) c'_def [symmetric]
    by (simp add: find_ber_loop.simps [of "Suc k"] CBS_len_def)
qed

lemma cbs_find_ber_der:
  assumes "wf_cbs c" and "cbs_view c = concat (map ber_enc ts)" and "list_all der_tree ts"
    and "\<forall>t \<in> set ts. ber_depth t < levels" and "0 < levels"
  shows "cbs_find_ber levels c = Some False"
  using assms
proof (induction levels arbitrary: c ts)
  case (Suc levels)
  have "find_ber_loop (cbs_len c) (cbs_find_ber levels) False c = Some False"
    by (rule find_ber_loop_der [OF Suc.IH Suc.prems(1-4)]) simp_all
  then show ?case by (simp add: CBS_len_def)
qed simp

theorem CBS_asn1_ber_to_der_der:
  assumes "wf_cbs c" and "cbs_view c = concat (map ber_enc (t # ts))" and "list_all der_tree (t # ts)"
    and "\<forall>t \<in> set (t # ts). ber_depth t \<le> kMaxDepth"
  shows "\<exists>out c'. CBS_asn1_ber_to_der env c = (Some (out, None), c') \<and> cbs_view out = ber_enc t \<and>
    cbs_view c' = concat (map ber_enc ts)"
proof -
  have "cbs_find_ber (Suc kMaxDepth) c = Some False"
    using assms by (intro cbs_find_ber_der [where ts = "t # ts"]) (auto simp: less_Suc_eq_le)
  moreover obtain tag body where t: "ber_enc t = der_elem tag body" "length body < 2 ^ 32"
    using der_tree_elem [of t] assms(3) by auto
  ultimately show ?thesis
    using CBS_get_any_asn1_element_der [OF assms(1), of tag body "concat (map ber_enc ts)"] assms(2)
      length_cbs_view [OF assms(1)]
    by (simp add: CBS_asn1_ber_to_der_def act_bind_def act_simps cbs_view_init)
qed

section \<open>Implicitly tagged strings\<close>

lemma implicit_chunks_ok:
  assumes "implicit_chunks fuel env tag c s = (Some u, s')" and "malloc_bounded env" and "wf_cbs c" and "at_depth 0 s"
  shows "\<exists>bs. cbs_view c = concat (map (der_elem tag) bs) \<and> at_depth 0 s' \<and> abs_cbb s' = spec_append (concat bs) (abs_cbb s)"
  using assms(1,3,4)
proof (induction fuel arbitrary: c s)
  case 0
  then show ?case
    by (intro exI [of _ "[]"]) (auto simp: implicit_chunks.simps [of 0] CBS_len_def act_simps cbs_view_def split: if_splits)
next
  case (Suc fuel)
  show ?case
  proof (cases "cbs_len c = 0")
    case True
    then show ?thesis
      using Suc.prems by (intro exI [of _ "[]"])
        (auto simp: implicit_chunks.simps [of "Suc fuel"] CBS_len_def act_simps cbs_view_def)
  next
    case False
    then obtain chunk c1 s1 where get: "CBS_get_asn1 tag c = (Some chunk, c1)"
      and add: "CBB_add_bytes env 0 (CBS_data chunk) (CBS_len chunk) s = (Some (), s1)"
      and rest: "implicit_chunks fuel env tag c1 s1 = (Some u, s')"
      using Suc.prems(1)
      by (auto simp: implicit_chunks.simps [of "Suc fuel"] CBS_len_def act_simps act_bind_eq_Some split: prod.splits option.splits)
    obtain body r where view: "cbs_view c = der_elem tag body @ r" and chunk: "chunk = body_window c tag body"
      and c1: "c1 = cbs_after (length (der_elem tag body)) c"
      using get Suc.prems(2) by (rule CBS_get_asn1_sound)
    have s1: "at_depth 0 s1" "abs_cbb s1 = spec_append body (abs_cbb s)"
      using add_window_ok [OF add _ assms(2)] Suc.prems(3) body_window_wf [OF Suc.prems(2) view]
        body_window_view [OF Suc.prems(2) view] chunk by (simp_all add: at_depth_def)
    have "wf_cbs c1" "cbs_view c1 = r" using Suc.prems(2) view by (simp_all add: c1)
    then obtain bs where "r = concat (map (der_elem tag) bs)" "at_depth 0 s'" "abs_cbb s' = spec_append (concat bs) (abs_cbb s1)"
      using Suc.IH [OF rest _ s1(1)] by auto
    then show ?thesis
      using view s1(2) by (intro exI [of _ "body # bs"]) (simp add: spec_append_append)
  qed
qed

theorem CBS_get_asn1_implicit_string_sound:
  assumes env: "malloc_bounded env" and wf: "wf_cbs inp"
    and get: "CBS_get_asn1_implicit_string env outer inner inp = (Some (out, storage), inp')"
  shows "case storage of
      None \<Rightarrow> cbs_view inp = der_elem outer (cbs_view out) @ cbs_view inp'
    | Some _ \<Rightarrow> \<exists>bs. cbs_view inp = der_elem (outer OR CBS_ASN1_CONSTRUCTED) (concat (map (der_elem inner) bs)) @ cbs_view inp' \<and>
        cbs_view out = concat bs"
proof (cases "CBS_peek_asn1_tag inp outer")
  case True
  then have "CBS_get_asn1 outer inp = (Some out, inp')" and st: "storage = None"
    using get by (auto simp: CBS_get_asn1_implicit_string_def act_bind_eq_Some)
  then obtain body rest where "cbs_view inp = der_elem outer body @ rest" "out = body_window inp outer body"
      "inp' = cbs_after (length (der_elem outer body)) inp"
    using wf CBS_get_asn1_sound by blast
  then show ?thesis using st body_window_view [OF wf] by simp
next
  case False
  define ct where "ct = outer OR CBS_ASN1_CONSTRUCTED"
  obtain s0 child s1 buf len s2 where init: "CBB_init env (CBS_len inp) = (Some (), s0)"
    and child: "CBS_get_asn1 ct inp = (Some child, inp')"
    and chunks: "implicit_chunks (CBS_len child) env inner child s0 = (Some (), s1)"
    and fin: "CBB_finish env 0 True s1 = (Some (buf, len), s2)" and out: "out = CBS_init buf len" "storage = Some buf"
    using get False by (auto simp: CBS_get_asn1_implicit_string_def ct_def split: prod.splits option.splits)
  obtain body rest where view: "cbs_view inp = der_elem ct body @ rest" and b: "child = body_window inp ct body"
      "inp' = cbs_after (length (der_elem ct body)) inp"
    using child wf by (rule CBS_get_asn1_sound)
  have w: "wf_cbs child" "cbs_view child = body"
    using b(1) body_window_wf [OF wf view] body_window_view [OF wf view] by simp_all
  have "CBS_len inp + 8 < size_mod" using wf by (simp add: wf_cbs_def CBS_len_def size_mod_def)
  then have s0: "wf_cbb s0" "abs_cbb s0 = ([], [])" using CBB_init_ok [OF init _ env] by simp_all
  then have "at_depth 0 s0" using abs_depth [of s0] by (simp add: at_depth_def)
  from implicit_chunks_ok [OF chunks env w(1) this] obtain bs where
    bs: "body = concat (map (der_elem inner) bs)" "at_depth 0 s1" "abs_cbb s1 = spec_append (concat bs) ([], [])"
    using w(2) s0(2) by auto
  have "spec_flush 0 (abs_cbb s1) = Some (take len buf, [])" "len \<le> length buf"
    using CBB_finish_ok [OF env _ fin] bs(2) by (simp_all add: at_depth_def)
  then have "cbs_view out = concat bs" using bs(3) out(1) by (simp add: cbs_view_def CBS_init_def)
  moreover have "cbs_view inp' = rest" using view by (simp add: b(2))
  ultimately show ?thesis
    using view bs(1) out(2) by (auto simp: ct_def)
qed

lemma CBB_finish_i2d_ok:
  assumes env: "malloc_bounded env" and wf: "wf_cbb s"
  shows "case CBB_finish_i2d env 0 outp s of
      (n, outp', written) \<Rightarrow>
        if n < 0 then n = -1 \<and> outp' = outp \<and> written = []
        else \<exists>der. spec_flush 0 (abs_cbb s) = Some (der, []) \<and> n = int (length der) \<and> length der \<le> INT_MAX \<and>
          (case outp of
             None \<Rightarrow> outp' = None \<and> written = []
           | Some None \<Rightarrow> (\<exists>buf. outp' = Some (Some buf) \<and> take (length der) buf = der) \<and> written = []
           | Some (Some dst) \<Rightarrow> outp' = Some (Some (drop (length der) dst)) \<and> written = der)"
proof (cases "CBB_finish env 0 True s")
  case (Pair r s')
  show ?thesis
  proof (cases r)
    case None
    then show ?thesis using Pair by (simp add: CBB_finish_i2d_def)
  next
    case (Some p)
    obtain buf n where p: "p = (buf, n)" by fastforce
    have "spec_flush 0 (abs_cbb s) = Some (take n buf, [])" "n \<le> length buf"
      using CBB_finish_ok [OF env wf] Pair Some p by simp_all
    then show ?thesis
      using Pair Some p by (auto simp: CBB_finish_i2d_def min_absorb2 not_less split: option.splits)
  qed
qed

end
