(* ===== verification/Ber_Total.thy ===== *)
theory Ber_Total
  imports Ber
begin

text \<open>
  Completeness of \<open>crypto/bytestring/ber.c\<close> and \<open>asn1_compat.c\<close>: with enough memory every
  sequence of BER trees that is nested at most \<open>kMaxDepth\<close> deep is converted, and the
  fragments of every constructed string are joined. These are also the lemmas that the fuel of
  \<open>convert_loop\<close> and \<open>implicit_chunks\<close>, the length of the window, is enough: each round reads
  at least one byte.
\<close>

section \<open>Builders with enough memory\<close>

text \<open>An open builder that can still grow.\<close>

definition open_at :: "nat \<Rightarrow> cbb \<Rightarrow> bool" where
  "open_at d s \<longleftrightarrow> at_depth d s \<and> roomy s"

lemma open_atD: "open_at d s \<Longrightarrow> at_depth d s" "open_at d s \<Longrightarrow> roomy s" "open_at d s \<Longrightarrow> wf_cbb s"
    "open_at d s \<Longrightarrow> length (cbb_kids s) = d"
  by (simp_all add: open_at_def at_depth_def)

lemma add_window_total:
  assumes "malloc_bounded env" and "plenty env" and "open_at d s" and "wf_cbs w" and "spec_size (abs_cbb s) + length (cbs_view w) < 2 ^ 38"
  shows "\<exists>s'. CBB_add_bytes env d (CBS_data w) (CBS_len w) s = (Some (), s') \<and> open_at d s' \<and>
    abs_cbb s' = spec_append (cbs_view w) (abs_cbb s)"
proof -
  have w: "take (CBS_len w) (CBS_data w) = cbs_view w" "CBS_len w = length (cbs_view w)" "length (cbs_view w) < 2 ^ 63"
    using assms(4) length_cbs_view [of w] by (simp_all add: CBS_len_def CBS_data_def cbs_view_def wf_cbs_def)
  have code: "CBB_add_bytes env d (CBS_data w) (CBS_len w) = CBB_add_bytes env d (cbs_view w) (length (cbs_view w))"
    unfolding CBB_add_bytes_def w(1) using w(2) by simp
  have "length (snd (abs_cbb s)) = d" using abs_depth [of s] open_atD [OF assms(3)] by simp
  then have "spec_write d (cbs_view w) (abs_cbb s) = Some (spec_append (cbs_view w) (abs_cbb s))"
    by (rule spec_write_at)
  then obtain r s' where s': "CBB_add_bytes env d (CBS_data w) (CBS_len w) s = (Some r, s')" "roomy s'"
    using builder_op.op_total [OF builder_op_add_bytes [OF w(3)] assms(1,2) open_atD(3,2) [OF assms(3)], of d] assms(5)
    by (auto simp: code spec_size_append simp del: spec_size.simps)
  then show ?thesis
    using add_window_ok [OF s'(1) assms(4,1) open_atD(3,4) [OF assms(3)]] by (simp add: open_at_def at_depth_def)
qed

lemma CBB_finish_total: "open_at 0 s \<Longrightarrow> \<exists>buf n s'. CBB_finish env 0 True s = (Some (buf, n), s')"
  using CBB_flush_at [of s 0 env] by (auto simp: open_at_def at_depth_def CBB_finish_def act_bind_def wf_cbb_def split: option.splits)

lemma CBB_init_open:
  assumes "malloc_bounded env" and "plenty env" and "n < 2 ^ 39"
  shows "\<exists>s. CBB_init env n = (Some (), s) \<and> open_at 0 s \<and> abs_cbb s = ([], [])"
proof -
  obtain s where s: "CBB_init env n = (Some (), s)" "roomy s" using CBB_init_total [OF assms(2,3)] by blast
  have "wf_cbb s \<and> abs_cbb s = ([], [])" using CBB_init_ok [OF s(1) _ assms(1)] assms(3) by (simp add: size_mod_def)
  then show ?thesis using s abs_depth [of s] by (simp add: open_at_def at_depth_def)
qed

section \<open>Fragments of a string\<close>

lemma implicit_chunks_total:
  assumes "malloc_bounded env" and "plenty env"
  shows "wf_cbs c \<Longrightarrow> cbs_view c = concat (map (der_elem tag) bs) \<Longrightarrow> \<forall>b \<in> set bs. length b < 2 ^ 32 \<Longrightarrow> cbs_len c \<le> fuel \<Longrightarrow>
    open_at 0 s \<Longrightarrow> spec_size (abs_cbb s) + length (concat bs) < 2 ^ 38 \<Longrightarrow>
    \<exists>s'. implicit_chunks fuel env tag c s = (Some (), s') \<and> open_at 0 s' \<and> abs_cbb s' = spec_append (concat bs) (abs_cbb s)"
proof (induction bs arbitrary: c s fuel)
  case Nil
  then have "cbs_len c = 0" using length_cbs_view [of c] by simp
  then show ?case using Nil by (simp add: implicit_chunks.simps [of fuel] CBS_len_def act_simps)
next
  case (Cons b bs)
  have view: "cbs_view c = der_elem tag b @ concat (map (der_elem tag) bs)" and b: "length b < 2 ^ 32" using Cons.prems by simp_all
  have len: "cbs_len c = length (der_elem tag b) + length (concat (map (der_elem tag) bs))"
    using length_cbs_view [OF Cons.prems(1)] view by simp
  have pos: "0 < length (der_elem tag b)" using der_elem_neq_Nil [of tag b] by blast
  with len obtain k where k: "fuel = Suc k" "cbs_len c \<noteq> 0" using Cons.prems(4) by (cases fuel) auto
  define c' where "c' = cbs_after (length (der_elem tag b)) c"
  have get: "CBS_get_asn1 tag c = (Some (body_window c tag b), c')"
    using CBS_get_asn1_der [OF Cons.prems(1) view b, of tag] by (simp add: c'_def)
  note w = body_window_wf [OF Cons.prems(1) view] body_window_view [OF Cons.prems(1) view]
  obtain s1 where s1: "CBB_add_bytes env 0 (CBS_data (body_window c tag b)) (CBS_len (body_window c tag b)) s = (Some (), s1)"
      "open_at 0 s1" "abs_cbb s1 = spec_append b (abs_cbb s)"
    using add_window_total [OF assms Cons.prems(5) w(1)] Cons.prems(6) w(2) by auto
  have rest_len: "length (concat (map (der_elem tag) bs)) \<le> k" using len Cons.prems(4) k(1) pos by linarith
  have c': "wf_cbs c'" "cbs_view c' = concat (map (der_elem tag) bs)" using Cons.prems(1) view by (simp_all add: c'_def)
  then have "cbs_len c' \<le> k" using rest_len length_cbs_view [of c'] by simp
  note c' = c' this
  have "spec_size (abs_cbb s1) + length (concat bs) < 2 ^ 38"
    using Cons.prems(6) by (simp add: s1(3) spec_size_append del: spec_size.simps)
  then obtain s2 where "implicit_chunks k env tag c' s1 = (Some (), s2)" "open_at 0 s2" "abs_cbb s2 = spec_append (concat bs) (abs_cbb s1)"
    using Cons.IH [OF c'(1,2) _ c'(3) s1(2)] Cons.prems(3) by auto
  then show ?case
    using get s1 k(2) unfolding k(1)
    by (simp add: implicit_chunks.simps [of "Suc k"] CBS_len_def act_bind_def spec_append_append)
qed

lemma implicit_string_complete:
  assumes env: "malloc_bounded env" "plenty env" and wf: "wf_cbs inp" and "cbs_len inp < 2 ^ 38" and "\<not> constructed outer"
    and view: "cbs_view inp = der_elem (outer OR CBS_ASN1_CONSTRUCTED) (concat (map (der_elem inner) bs)) @ rest"
    and small: "length (concat (map (der_elem inner) bs)) < 2 ^ 32"
  shows "\<exists>out storage inp'. CBS_get_asn1_implicit_string env outer inner inp = (Some (out, Some storage), inp') \<and>
    cbs_view out = concat bs \<and> cbs_view inp' = rest"
proof -
  let ?ct = "outer OR CBS_ASN1_CONSTRUCTED" and ?body = "concat (map (der_elem inner) bs)"
  have "?ct AND CBS_ASN1_CONSTRUCTED = CBS_ASN1_CONSTRUCTED" by (rule bit_eqI) (auto simp: bit_simps)
  then have "constructed ?ct" by (simp add: CBS_ASN1_CONSTRUCTED_def CBS_ASN1_TAG_SHIFT_def)
  then have "?ct \<noteq> outer" using assms(5) by metis
  moreover have "parse_asn1_tag inp = (Some ?ct, cbs_after (length (der_tag ?ct)) inp)"
    using parse_asn1_tag_complete [OF wf, of ?ct] view by (simp add: der_elem_def der_header_def)
  ultimately have peek: "\<not> CBS_peek_asn1_tag inp outer" by (auto simp: CBS_peek_asn1_tag_def)
  have lens: "length b \<le> length ?body" if "b \<in> set bs" for b
  proof -
    have "length b \<le> length (der_elem inner b)" by (simp add: length_der_elem)
    also have "\<dots> \<le> length ?body" using that by (induction bs) auto
    finally show ?thesis .
  qed
  have "length (concat bs) \<le> length ?body" by (induction bs) (auto simp: length_der_elem)
  have "length ?body \<le> cbs_len inp" using length_cbs_view [OF wf] view by (simp add: length_der_elem)
  obtain s0 where s0: "CBB_init env (CBS_len inp) = (Some (), s0)" "open_at 0 s0" "abs_cbb s0 = ([], [])"
    using CBB_init_open [OF env, of "CBS_len inp"] assms(4) by (auto simp: CBS_len_def)
  have get: "CBS_get_asn1 ?ct inp = (Some (body_window inp ?ct ?body), cbs_after (length (der_elem ?ct ?body)) inp)"
    using CBS_get_asn1_der [OF wf view small, of ?ct] by simp
  note w = body_window_wf [OF wf view] body_window_view [OF wf view]
  obtain s1 where s1: "implicit_chunks (CBS_len (body_window inp ?ct ?body)) env inner (body_window inp ?ct ?body) s0 = (Some (), s1)"
      "open_at 0 s1" "abs_cbb s1 = (concat bs, [])"
    using implicit_chunks_total [OF env w, of "CBS_len (body_window inp ?ct ?body)" s0] lens small s0(2,3)
      \<open>length (concat bs) \<le> length ?body\<close> by (fastforce simp: CBS_len_def)
  obtain buf n s2 where fin: "CBB_finish env 0 True s1 = (Some (buf, n), s2)" using CBB_finish_total [OF s1(2)] by blast
  have "spec_flush 0 (abs_cbb s1) = Some (take n buf, [])" "n \<le> length buf"
    using CBB_finish_ok [OF env(1) open_atD(3) [OF s1(2)] fin] by simp_all
  then have "cbs_view (CBS_init buf n) = concat bs" by (simp add: s1(3) cbs_view_def CBS_init_def)
  moreover have "CBS_get_asn1_implicit_string env outer inner inp =
      (Some (CBS_init buf n, Some buf), cbs_after (length (der_elem ?ct ?body)) inp)"
    using peek s0(1) get s1(1) fin by (simp add: CBS_get_asn1_implicit_string_def)
  moreover have "cbs_view (cbs_after (length (der_elem ?ct ?body)) inp) = rest" using view by simp
  ultimately show ?thesis by blast
qed

section \<open>Converting trees\<close>

lemma open_contents_total:
  assumes env: "malloc_bounded env" "plenty env" and out: "open_at d s" and tag: "st \<noteq> 0 \<longrightarrow> primitive_tag tag = st"
    and small: "spec_size (abs_cbb s) + length (wrap st tag body) < 2 ^ 32 - 1"
  shows "\<exists>d' s1. open_contents env st d tag s = (Some (d', string_of st tag), s1) \<and> open_at d' s1 \<and>
    spec_size (abs_cbb s1) + length body \<le> spec_size (abs_cbb s) + length (wrap st tag body) \<and>
    (\<forall>s2. open_at d' s2 \<and> abs_cbb s2 = spec_append body (abs_cbb s1) \<longrightarrow>
      (\<exists>s3. CBB_flush env d s2 = (Some (), s3) \<and> open_at d s3 \<and> abs_cbb s3 = spec_append (wrap st tag body) (abs_cbb s)))"
proof (cases "st = 0")
  case False
  then have "open_contents env st d tag s = (Some (d, string_of st tag), s)"
    using tag by (simp add: open_contents_def string_of_def act_simps)
  moreover have "CBB_flush env d s2 = (Some (), s2)" if "open_at d s2" for s2
    using CBB_flush_at open_atD(3,4) [OF that] by blast
  ultimately show ?thesis using False out by (intro exI [of _ d] exI [of _ s]) (auto simp: wrap_def)
next
  case True
  define t where "t = (if constructed tag \<and> is_string_type tag then primitive_tag tag else tag)"
  have wrap: "wrap st tag body = der_elem t body" using True by (simp add: wrap_def t_def)
  obtain c fs where cfs: "spec_append (der_tag t) (abs_cbb s) = (c, fs)" by fastforce
  have depth: "length (snd (abs_cbb s)) = d" using abs_depth open_atD(3,4) [OF out] by simp
  have written: "spec_write d (der_tag t) (abs_cbb s) = Some (c, fs)" using spec_write_at [OF depth] cfs by simp
  then have fs: "length fs = d" using spec_write_depth by fastforce
  have asn1: "spec_asn1 d t (abs_cbb s) = Some (c, fs @ [(DerLength, [])])" using written by (simp add: spec_asn1_def)
  have "spec_size (c, fs) = spec_size (abs_cbb s) + length (der_tag t)"
    unfolding cfs [symmetric] by (rule spec_size_append)
  then have size1: "spec_size (c, fs @ [(DerLength, [])]) = spec_size (abs_cbb s) + length (der_tag t) + 1"
    by (simp add: spec_size.simps)
  have "length (der_tag t) + 1 + length body \<le> length (der_elem t body)"
    by (simp add: der_elem_def der_header_def der_length_def)
  then have body: "spec_size (c, fs @ [(DerLength, [])]) + length body \<le> spec_size (abs_cbb s) + length (wrap st tag body)"
    unfolding size1 wrap by simp
  then obtain s1 where s1: "CBB_add_asn1 env d t s = (Some (), s1)" "wf_cbb s1" "roomy s1" "abs_cbb s1 = (c, fs @ [(DerLength, [])])"
    using add_asn1.op_total [OF env open_atD(3,2) [OF out] asn1] small by auto
  have "length (cbb_kids s1) = Suc d" using abs_depth [OF s1(2)] s1(4) fs by simp
  then have open1: "open_at (Suc d) s1" using s1(2,3) by (simp add: open_at_def at_depth_def)
  have code: "open_contents env st d tag s = (Some (Suc d, string_of st tag), s1)"
    using True s1(1) by (simp add: open_contents_def string_of_def act_bind_def act_simps t_def Let_def)
  have close: "\<exists>s3. CBB_flush env d s2 = (Some (), s3) \<and> open_at d s3 \<and> abs_cbb s3 = spec_append (wrap st tag body) (abs_cbb s)"
    if s2: "open_at (Suc d) s2" "abs_cbb s2 = spec_append body (abs_cbb s1)" for s2
  proof -
    have a2: "abs_cbb s2 = (c, fs @ [(DerLength, body)])" using s2(2) s1(4) by (simp add: spec_append_last)
    have "length body < 2 ^ 32 - 1" using body small by simp
    then have "spec_flush d (abs_cbb s2) = Some (spec_append (der_length (length body) @ body) (c, fs))"
      using spec_flush_child [of fs c DerLength body] a2 fs by simp
    moreover have "spec_append (der_length (length body) @ body) (c, fs) = spec_append (wrap st tag body) (abs_cbb s)"
      unfolding cfs [symmetric] spec_append_append wrap by (simp add: der_elem_def der_header_def)
    ultimately have flush: "spec_flush d (abs_cbb s2) = Some (spec_append (wrap st tag body) (abs_cbb s))" by simp
    have "spec_size (spec_append (wrap st tag body) (abs_cbb s)) < 2 ^ 38"
      unfolding spec_size_append using small by simp
    from flush_op.op_total [OF env open_atD(3,2) [OF s2(1)] flush this] obtain s3 where
      s3: "CBB_flush env d s2 = (Some (), s3)" "wf_cbb s3" "roomy s3" "abs_cbb s3 = spec_append (wrap st tag body) (abs_cbb s)"
      by auto
    moreover have "length (cbb_kids s3) = d" using CBB_flush_refines(2) [OF open_atD(3) [OF s2(1)] env(1)] s3(1) by simp
    ultimately show ?thesis by (simp add: open_at_def at_depth_def)
  qed
  have "spec_size (abs_cbb s1) + length body \<le> spec_size (abs_cbb s) + length (wrap st tag body)"
    using body unfolding s1(4) .
  then show ?thesis using code open1 close by blast
qed

text \<open>The contract of one level, seen from the input: it converts every sequence of trees that is not too deep.\<close>

definition convertible :: "nat \<Rightarrow> (u32 \<Rightarrow> bool \<Rightarrow> nat \<Rightarrow> (cbs \<times> cbb, unit) action) \<Rightarrow> bool" where
  "convertible levels f \<longleftrightarrow>
     (\<forall>st eoc d inp out ts rest.
        wf_cbs inp \<and> open_at d out \<and> list_all (ber_ok st) ts \<and> 0 < levels \<and> (\<forall>t \<in> set ts. ber_depth t < levels) \<and>
        cbs_view inp = concat (map ber_enc ts) @ (if eoc then [0, 0] @ rest else []) \<and>
        spec_size (abs_cbb out) + length (concat (map (ber_der st) ts)) < 2 ^ 32 - 1 \<longrightarrow>
        (\<exists>inp' out'. f st eoc d (inp, out) = (Some (), (inp', out')) \<and> wf_cbs inp' \<and>
           cbs_view inp' = (if eoc then rest else []) \<and> open_at d out' \<and>
           abs_cbb out' = spec_append (concat (map (ber_der st) ts)) (abs_cbb out)))"

lemma convertibleD:
  assumes "convertible levels f" and "wf_cbs inp" and "open_at d out" and "list_all (ber_ok st) ts" and "0 < levels"
    and "\<forall>t \<in> set ts. ber_depth t < levels"
    and "cbs_view inp = concat (map ber_enc ts) @ (if eoc then [0, 0] @ rest else [])"
    and "spec_size (abs_cbb out) + length (concat (map (ber_der st) ts)) < 2 ^ 32 - 1"
  shows "\<exists>inp' out'. f st eoc d (inp, out) = (Some (), (inp', out')) \<and> wf_cbs inp' \<and>
    cbs_view inp' = (if eoc then rest else []) \<and> open_at d out' \<and>
    abs_cbb out' = spec_append (concat (map (ber_der st) ts)) (abs_cbb out)"
  using assms unfolding convertible_def by blast

lemma convert_element_run:
  assumes "open_contents env st d tag out = (Some (d', st'), out1)"
    and "(if is_indefinite contents hl then rec st' True d'
        else act_bind (act_option (skip_of hl contents)) (\<lambda>contents.
          if constructed tag then on_contents contents (rec st' False d')
          else on_out (CBB_add_bytes env d' (CBS_data contents) (CBS_len contents)))) (inp, out1) = (Some (), (inp', out2))"
    and "CBB_flush env d out2 = (Some (), out3)"
  shows "convert_element env rec st d (contents, tag, hl) (inp, out) = (Some (), (inp', out3))"
  using assms unfolding convert_element_def prod.case by (simp add: act_bind_def on_out_def)

text \<open>One element: it is read, is no end of contents, and its DER form is written.\<close>

definition converts_tree :: "alloc \<Rightarrow> (u32 \<Rightarrow> bool \<Rightarrow> nat \<Rightarrow> (cbs \<times> cbb, unit) action) \<Rightarrow> u32 \<Rightarrow> nat \<Rightarrow> cbs \<Rightarrow> cbb \<Rightarrow> ber \<Rightarrow> byte list \<Rightarrow> bool" where
  "converts_tree env rec st d c out t rest \<longleftrightarrow>
     (\<exists>contents tag hl c1 c2 out2.
        CBS_get_any_ber_asn1_element c = (Some (contents, tag, hl), c1) \<and> \<not> is_eoc hl contents \<and>
        convert_element env rec st d (contents, tag, hl) (c1, out) = (Some (), (c2, out2)) \<and>
        wf_cbs c2 \<and> cbs_view c2 = rest \<and> open_at d out2 \<and> abs_cbb out2 = spec_append (ber_der st t) (abs_cbb out))"

lemma ber_depth_levels:
  assumes "Suc (Max (insert 0 (set (map ber_depth ts)))) \<le> levels"
  shows "0 < levels" and "\<forall>t \<in> set ts. ber_depth t < levels"
proof -
  show "0 < levels" using assms by simp
  show "\<forall>t \<in> set ts. ber_depth t < levels"
  proof
    fix t assume "t \<in> set ts"
    then have "ber_depth t \<le> Max (insert 0 (set (map ber_depth ts)))" by (intro Max_ge) auto
    then show "ber_depth t < levels" using assms by linarith
  qed
qed

lemma converts_tree_prim:
  assumes env: "malloc_bounded env" "plenty env" and c: "wf_cbs c" "cbs_view c = ber_enc (BPrim tag body) @ rest"
    and ok: "ber_ok st (BPrim tag body)" and out: "open_at d out"
    and small: "spec_size (abs_cbb out) + length (ber_der st (BPrim tag body)) < 2 ^ 32 - 1"
  shows "converts_tree env rec st d c out (BPrim tag body) rest"
proof -
  have view: "cbs_view c = der_elem tag body @ rest" and body: "length body < 2 ^ 32" using c(2) ok by simp_all
  obtain contents hl where get: "CBS_get_any_ber_asn1_element c = (Some (contents, tag, hl), cbs_after (length (der_elem tag body)) c)"
    and el: "\<not> is_indefinite contents hl" "skip_of hl contents = Some (body_window c tag body)" "is_eoc hl contents \<longleftrightarrow> tag = 0 \<and> body = []"
    using c(1) view body by (rule ber_element_definite)
  obtain d' s1 where s1: "open_contents env st d tag out = (Some (d', string_of st tag), s1)" "open_at d' s1"
      "spec_size (abs_cbb s1) + length body \<le> spec_size (abs_cbb out) + length (wrap st tag body)"
    and close: "\<And>s2. open_at d' s2 \<Longrightarrow> abs_cbb s2 = spec_append body (abs_cbb s1) \<Longrightarrow>
      \<exists>s3. CBB_flush env d s2 = (Some (), s3) \<and> open_at d s3 \<and> abs_cbb s3 = spec_append (wrap st tag body) (abs_cbb out)"
    using open_contents_total [OF env out, of st tag body] ok small by auto
  have w: "wf_cbs (body_window c tag body)" "cbs_view (body_window c tag body) = body"
    using body_window_wf [OF c(1) view] body_window_view [OF c(1) view] by simp_all
  obtain s2 where s2: "CBB_add_bytes env d' (CBS_data (body_window c tag body)) (CBS_len (body_window c tag body)) s1 = (Some (), s2)"
      "open_at d' s2" "abs_cbb s2 = spec_append body (abs_cbb s1)"
    using add_window_total [OF env s1(2) w(1)] s1(3) small w(2) by auto
  from close [OF s2(2,3)] obtain s3 where s3: "CBB_flush env d s2 = (Some (), s3)" "open_at d s3"
      "abs_cbb s3 = spec_append (wrap st tag body) (abs_cbb out)" by blast
  have "convert_element env rec st d (contents, tag, hl) (cbs_after (length (der_elem tag body)) c, out) =
      (Some (), (cbs_after (length (der_elem tag body)) c, s3))"
    by (rule convert_element_run [OF s1(1) _ s3(1)]) (use el s2(1) ok in \<open>simp add: act_bind_def act_simps on_out_def\<close>)
  then show ?thesis
    unfolding converts_tree_def using get el(3) ok s3 c(1) view
    by (intro exI conjI) (assumption | simp)+
qed

lemma converts_tree_def_con:
  assumes env: "malloc_bounded env" "plenty env" and rec: "convertible levels rec"
    and c: "wf_cbs c" "cbs_view c = ber_enc (BDef tag ts) @ rest"
    and ok: "ber_ok st (BDef tag ts)" "ber_depth (BDef tag ts) \<le> levels" and out: "open_at d out"
    and small: "spec_size (abs_cbb out) + length (ber_der st (BDef tag ts)) < 2 ^ 32 - 1"
  shows "converts_tree env rec st d c out (BDef tag ts) rest"
proof -
  let ?body = "concat (map ber_enc ts)" and ?der = "concat (map (ber_der (string_of st tag)) ts)"
  have view: "cbs_view c = der_elem tag ?body @ rest" and body: "length ?body < 2 ^ 32" using c(2) ok by simp_all
  obtain contents hl where get: "CBS_get_any_ber_asn1_element c = (Some (contents, tag, hl), cbs_after (length (der_elem tag ?body)) c)"
    and el: "\<not> is_indefinite contents hl" "skip_of hl contents = Some (body_window c tag ?body)" "is_eoc hl contents \<longleftrightarrow> tag = 0 \<and> ?body = []"
    using c(1) view body by (rule ber_element_definite)
  obtain d' s1 where s1: "open_contents env st d tag out = (Some (d', string_of st tag), s1)" "open_at d' s1"
      "spec_size (abs_cbb s1) + length ?der \<le> spec_size (abs_cbb out) + length (wrap st tag ?der)"
    and close: "\<And>s2. open_at d' s2 \<Longrightarrow> abs_cbb s2 = spec_append ?der (abs_cbb s1) \<Longrightarrow>
      \<exists>s3. CBB_flush env d s2 = (Some (), s3) \<and> open_at d s3 \<and> abs_cbb s3 = spec_append (wrap st tag ?der) (abs_cbb out)"
    using open_contents_total [OF env out, of st tag ?der] ok small by auto
  have w: "wf_cbs (body_window c tag ?body)" "cbs_view (body_window c tag ?body) = ?body"
    using body_window_wf [OF c(1) view] body_window_view [OF c(1) view] by simp_all
  note depth = ber_depth_levels [of ts levels, OF ok(2) [unfolded ber_depth.simps]]
  obtain inp' s2 where s2: "rec (string_of st tag) False d' (body_window c tag ?body, s1) = (Some (), (inp', s2))"
      "open_at d' s2" "abs_cbb s2 = spec_append ?der (abs_cbb s1)"
    using convertibleD [OF rec w(1) s1(2) _ depth, of "string_of st tag" False] w(2) ok(1) s1(3) small by auto
  from close [OF s2(2,3)] obtain s3 where s3: "CBB_flush env d s2 = (Some (), s3)" "open_at d s3"
      "abs_cbb s3 = spec_append (wrap st tag ?der) (abs_cbb out)" by blast
  have "convert_element env rec st d (contents, tag, hl) (cbs_after (length (der_elem tag ?body)) c, out) =
      (Some (), (cbs_after (length (der_elem tag ?body)) c, s3))"
    by (rule convert_element_run [OF s1(1) _ s3(1)]) (use el s2(1) ok in \<open>simp add: act_bind_def act_simps on_contents_def\<close>)
  moreover have "\<not> is_eoc hl contents" using el(3) ok(1) by auto
  moreover have "wf_cbs (cbs_after (length (der_elem tag ?body)) c)" "cbs_view (cbs_after (length (der_elem tag ?body)) c) = rest"
    using c(1) view by simp_all
  ultimately show ?thesis
    unfolding converts_tree_def ber_der.simps using get s3(2,3) by blast
qed

lemma converts_tree_ind:
  assumes env: "malloc_bounded env" "plenty env" and rec: "convertible levels rec"
    and c: "wf_cbs c" "cbs_view c = ber_enc (BInd tag ts) @ rest"
    and ok: "ber_ok st (BInd tag ts)" "ber_depth (BInd tag ts) \<le> levels" and out: "open_at d out"
    and small: "spec_size (abs_cbb out) + length (ber_der st (BInd tag ts)) < 2 ^ 32 - 1"
  shows "converts_tree env rec st d c out (BInd tag ts) rest"
proof -
  let ?der = "concat (map (ber_der (string_of st tag)) ts)"
  define c1 where "c1 = cbs_after (Suc (length (der_tag tag))) c"
  have view: "cbs_view c = der_tag tag @ 0x80 # concat (map ber_enc ts) @ [0, 0] @ rest" and con: "constructed tag"
    using c(2) ok by simp_all
  obtain contents hl where get: "CBS_get_any_ber_asn1_element c = (Some (contents, tag, hl), c1)"
    using cbs_get_any_asn1_element_indefinite [OF c(1) view con]
    by (simp add: CBS_get_any_ber_asn1_element_def Let_def c1_def)
  have w: "wf_cbs c1" "cbs_view c1 = concat (map ber_enc ts) @ [0, 0] @ rest"
    using c(1) view by (simp_all add: c1_def)
  have len: "length (cbs_view c) < 2 ^ 63" using length_cbs_view [OF c(1)] c(1) by (simp add: wf_cbs_def)
  have el: "is_indefinite contents hl \<and> \<not> is_eoc hl contents"
  proof (rule ber_element_cases [OF get c(1)])
    fix bs
    assume "cbs_view c = der_elem tag bs @ cbs_view c1" and "length bs < 2 ^ 32"
    then have "length (der_elem tag bs) = Suc (length (der_tag tag))"
      using arg_cong [where f = length, OF view] w(2) by simp
    then have "bs = []" by (auto simp: length_der_elem der_header_def der_length_def split: if_splits)
    then have "der_tag tag @ 0 # cbs_view c1 = der_tag tag @ 0x80 # cbs_view c1"
      using \<open>cbs_view c = der_elem tag bs @ cbs_view c1\<close> view w(2)
      by (simp add: der_elem_def der_header_def der_length_def)
    then show ?thesis by simp
  qed simp
  obtain d' s1 where s1: "open_contents env st d tag out = (Some (d', string_of st tag), s1)" "open_at d' s1"
      "spec_size (abs_cbb s1) + length ?der \<le> spec_size (abs_cbb out) + length (wrap st tag ?der)"
    and close: "\<And>s2. open_at d' s2 \<Longrightarrow> abs_cbb s2 = spec_append ?der (abs_cbb s1) \<Longrightarrow>
      \<exists>s3. CBB_flush env d s2 = (Some (), s3) \<and> open_at d s3 \<and> abs_cbb s3 = spec_append (wrap st tag ?der) (abs_cbb out)"
    using open_contents_total [OF env out, of st tag ?der] ok small by auto
  note depth = ber_depth_levels [of ts levels, OF ok(2) [unfolded ber_depth.simps]]
  obtain inp' s2 where s2: "rec (string_of st tag) True d' (c1, s1) = (Some (), (inp', s2))" "wf_cbs inp'" "cbs_view inp' = rest"
      "open_at d' s2" "abs_cbb s2 = spec_append ?der (abs_cbb s1)"
    using convertibleD [OF rec w(1) s1(2) _ depth, of "string_of st tag" True rest] w(2) ok(1) s1(3) small by auto
  from close [OF s2(4,5)] obtain s3 where s3: "CBB_flush env d s2 = (Some (), s3)" "open_at d s3"
      "abs_cbb s3 = spec_append (wrap st tag ?der) (abs_cbb out)" by blast
  have "convert_element env rec st d (contents, tag, hl) (c1, out) = (Some (), (inp', s3))"
    by (rule convert_element_run [OF s1(1) _ s3(1)]) (use el s2(1) in simp)
  then show ?thesis
    unfolding converts_tree_def using get el s2(2,3) s3
    by (intro exI conjI) (assumption | simp)+
qed

lemma converts_tree_total:
  assumes "malloc_bounded env" and "plenty env" and "convertible levels rec" and "wf_cbs c" and "cbs_view c = ber_enc t @ rest"
    and "ber_ok st t" and "ber_depth t \<le> levels" and "open_at d out"
    and "spec_size (abs_cbb out) + length (ber_der st t) < 2 ^ 32 - 1"
  shows "converts_tree env rec st d c out t rest"
proof (cases t)
  case (BPrim tag body)
  then show ?thesis using converts_tree_prim assms by blast
next
  case (BDef tag ts)
  then show ?thesis using converts_tree_def_con assms by blast
next
  case (BInd tag ts)
  then show ?thesis using converts_tree_ind assms by blast
qed

lemma ber_enc_neq_Nil: "ber_enc t \<noteq> []"
  by (cases t) simp_all

lemma convert_loop_total:
  assumes env: "malloc_bounded env" "plenty env" and rec: "convertible levels rec"
    and "wf_cbs inp" and "open_at d out" and "list_all (ber_ok st) ts" and "\<forall>t \<in> set ts. ber_depth t \<le> levels"
    and "cbs_view inp = concat (map ber_enc ts) @ (if eoc then [0, 0] @ rest else [])"
    and "spec_size (abs_cbb out) + length (concat (map (ber_der st) ts)) < 2 ^ 32 - 1" and "cbs_len inp \<le> fuel"
  shows "\<exists>inp' out'. convert_loop fuel env rec st eoc d (inp, out) = (Some (), (inp', out')) \<and> wf_cbs inp' \<and>
    cbs_view inp' = (if eoc then rest else []) \<and> open_at d out' \<and>
    abs_cbb out' = spec_append (concat (map (ber_der st) ts)) (abs_cbb out)"
  using assms(4-)
proof (induction ts arbitrary: inp out fuel)
  case Nil
  show ?case
  proof (cases eoc)
    case False
    then have "cbs_len inp = 0" using Nil length_cbs_view [of inp] by simp
    then show ?thesis using Nil False by (simp add: convert_loop.simps [of fuel] CBS_len_def act_simps)
  next
    case True
    have "der_elem 0 [] = [0, 0]"
      by (simp add: der_elem_def der_header_def der_tag_def tag_number_def tag_class_def der_length_def)
    then have view: "cbs_view inp = der_elem 0 [] @ rest" using Nil.prems(5) True by simp
    obtain contents hl where get: "CBS_get_any_ber_asn1_element inp = (Some (contents, 0, hl), cbs_after (length (der_elem 0 [])) inp)"
      and eoc: "is_eoc hl contents"
      by (rule ber_element_definite [OF Nil.prems(1) view]) auto
    have "0 < cbs_len inp" using length_cbs_view [OF Nil.prems(1)] view \<open>der_elem 0 [] = [0, 0]\<close> by simp
    then obtain k where "fuel = Suc k" "cbs_len inp \<noteq> 0" using Nil.prems(7) by (cases fuel) auto
    moreover have "wf_cbs (cbs_after (length (der_elem 0 [])) inp)" "cbs_view (cbs_after (length (der_elem 0 [])) inp) = rest"
      using Nil.prems(1) view by simp_all
    ultimately show ?thesis
      using get eoc True Nil.prems(2)
      by (simp add: convert_loop.simps [of "Suc k"] CBS_len_def act_bind_def on_in_def act_simps)
  qed
next
  case (Cons t ts)
  let ?tail = "concat (map ber_enc ts) @ (if eoc then [0, 0] @ rest else [])"
  have view: "cbs_view inp = ber_enc t @ ?tail" using Cons.prems(5) by simp
  have "converts_tree env rec st d inp out t ?tail"
    by (rule converts_tree_total [OF env rec Cons.prems(1) view]) (use Cons.prems in simp_all)
  then obtain contents tag hl c1 c2 out2 where
    get: "CBS_get_any_ber_asn1_element inp = (Some (contents, tag, hl), c1)" and eoc: "\<not> is_eoc hl contents"
    and el: "convert_element env rec st d (contents, tag, hl) (c1, out) = (Some (), (c2, out2))"
    and c2: "wf_cbs c2" "cbs_view c2 = ?tail" and out2: "open_at d out2" "abs_cbb out2 = spec_append (ber_der st t) (abs_cbb out)"
    unfolding converts_tree_def by blast
  have "cbs_len inp = length (ber_enc t) + length ?tail" using length_cbs_view [OF Cons.prems(1)] unfolding view by simp
  moreover have "0 < length (ber_enc t)" using ber_enc_neq_Nil by blast
  moreover have "cbs_len c2 = length ?tail" using length_cbs_view [OF c2(1)] unfolding c2(2) by simp
  ultimately have lens: "cbs_len c2 < cbs_len inp" by linarith
  then obtain k where k: "fuel = Suc k" "cbs_len c2 \<le> k" "cbs_len inp \<noteq> 0" using Cons.prems(7) by (cases fuel) auto
  have "spec_size (abs_cbb out2) + length (concat (map (ber_der st) ts)) < 2 ^ 32 - 1"
    using Cons.prems(6) unfolding out2(2) spec_size_append by simp
  then obtain inp' out' where "convert_loop k env rec st eoc d (c2, out2) = (Some (), (inp', out'))" "wf_cbs inp'"
      "cbs_view inp' = (if eoc then rest else [])" "open_at d out'"
      "abs_cbb out' = spec_append (concat (map (ber_der st) ts)) (abs_cbb out2)"
    using Cons.IH [OF c2(1) out2(1) _ _ c2(2) _ k(2)] Cons.prems(3,4) by auto
  then show ?case
    using get eoc el k(3) out2(2) unfolding k(1)
    by (simp add: convert_loop.simps [of "Suc k"] CBS_len_def act_bind_def on_in_def spec_append_append)
qed

lemma cbs_convert_ber_total:
  assumes "malloc_bounded env" and "plenty env"
  shows "convertible levels (cbs_convert_ber levels env)"
proof (induction levels)
  case 0
  then show ?case by (simp add: convertible_def)
next
  case (Suc levels)
  show ?case
    unfolding convertible_def
  proof (intro allI impI, elim conjE, goal_cases)
    case (1 st eoc d inp out ts rest)
    have "\<forall>t \<in> set ts. ber_depth t \<le> levels" using 1(5) by (simp add: less_Suc_eq_le)
    from convert_loop_total [OF assms Suc 1(1-3) this 1(6,7) order_refl]
    show ?case by (simp add: CBS_len_def)
  qed
qed

theorem ber_to_der_complete:
  assumes env: "malloc_bounded env" "plenty env" and wf: "wf_cbs inp" "cbs_len inp < 2 ^ 39"
    and view: "cbs_view inp = concat (map ber_enc ts)" and ok: "list_all (ber_ok 0) ts" "\<forall>t \<in> set ts. ber_depth t \<le> kMaxDepth"
    and small: "length (concat (map (ber_der 0) ts)) < 2 ^ 32 - 1" and ber: "cbs_find_ber (Suc kMaxDepth) inp = Some True"
  shows "\<exists>out storage inp'. CBS_asn1_ber_to_der env inp = (Some (out, Some storage), inp') \<and>
    cbs_view out = concat (map (ber_der 0) ts)"
proof -
  obtain s0 where s0: "CBB_init env (CBS_len inp) = (Some (), s0)" "open_at 0 s0" "abs_cbb s0 = ([], [])"
    using CBB_init_open [OF env, of "CBS_len inp"] wf(2) by (auto simp: CBS_len_def)
  have "\<forall>t \<in> set ts. ber_depth t < Suc kMaxDepth" using ok(2) by (simp add: less_Suc_eq_le)
  from convertibleD [OF cbs_convert_ber_total [OF env] wf(1) s0(2) ok(1) zero_less_Suc this, of False] obtain inp' s1 where
    s1: "cbs_convert_ber (Suc kMaxDepth) env 0 False 0 (inp, s0) = (Some (), (inp', s1))" "open_at 0 s1"
      "abs_cbb s1 = (concat (map (ber_der 0) ts), [])"
    using view small s0(3) by auto
  obtain buf n s2 where fin: "CBB_finish env 0 True s1 = (Some (buf, n), s2)" using CBB_finish_total [OF s1(2)] by blast
  have "spec_flush 0 (abs_cbb s1) = Some (take n buf, [])" "n \<le> length buf"
    using CBB_finish_ok [OF env(1) open_atD(3) [OF s1(2)] fin] by simp_all
  then have "cbs_view (CBS_init buf n) = concat (map (ber_der 0) ts)" by (simp add: s1(3) cbs_view_def CBS_init_def)
  moreover have "CBS_asn1_ber_to_der env inp = (Some (CBS_init buf n, Some buf), inp')"
    using ber s0(1) s1(1) fin by (simp add: CBS_asn1_ber_to_der_def del: cbs_convert_ber.simps)
  ultimately show ?thesis by blast
qed

lemma implicit_string_primitive:
  assumes "wf_cbs inp" and "cbs_view inp = der_elem outer body @ rest" and "length body < 2 ^ 32"
  shows "\<exists>out inp'. CBS_get_asn1_implicit_string env outer inner inp = (Some (out, None), inp') \<and>
    cbs_view out = body \<and> cbs_view inp' = rest"
proof -
  have "parse_asn1_tag inp = (Some outer, cbs_after (length (der_tag outer)) inp)"
    using parse_asn1_tag_complete [OF assms(1), of outer] assms(2) by (simp add: der_elem_def der_header_def)
  moreover have "0 < length (der_elem outer body)" using der_elem_neq_Nil [of outer body] by blast
  then have "0 < CBS_len inp" using length_cbs_view [OF assms(1)] assms(2) unfolding CBS_len_def by (metis length_append trans_less_add1)
  ultimately have "CBS_peek_asn1_tag inp outer" by (simp add: CBS_peek_asn1_tag_def)
  moreover have "CBS_get_asn1 outer inp = (Some (body_window inp outer body), cbs_after (length (der_elem outer body)) inp)"
    using CBS_get_asn1_der [OF assms, of outer] by simp
  ultimately show ?thesis
    using body_window_view [OF assms(1,2)] assms(2)
    by (simp add: CBS_get_asn1_implicit_string_def act_bind_def act_simps)
qed

section \<open>Fuel\<close>

text \<open>With at least the length of the window as fuel, the amount of fuel has no influence on any result, failures included.\<close>

lemma find_ber_loop_fuel:
  "wf_cbs c \<Longrightarrow> cbs_len c \<le> m \<Longrightarrow> cbs_len c \<le> n \<Longrightarrow> find_ber_loop m rec found c = find_ber_loop n rec found c"
proof (induction m arbitrary: n found c)
  case 0
  then show ?case by (simp add: find_ber_loop.simps [of _ rec found c] CBS_len_def)
next
  case (Suc m)
  show ?case
  proof (cases "cbs_len c = 0")
    case False
    then obtain k where n: "n = Suc k" using Suc.prems(3) by (cases n) auto
    have rest: "find_ber_loop m rec f c' = find_ber_loop k rec f c'"
      if "CBS_get_any_ber_asn1_element c = (Some r, c')" for f r c'
      using ber_element.strict [OF Suc.prems(1) that] ber_element.get_wf [OF that Suc.prems(1)] Suc.prems(2,3) n
      by (intro Suc.IH) simp_all
    show ?thesis
      unfolding n find_ber_loop.simps [of "Suc m"] find_ber_loop.simps [of "Suc k"]
      using rest by (simp split: prod.split option.split)
  qed (simp add: find_ber_loop.simps [of _ rec found c] CBS_len_def)
qed

definition consumes :: "(cbs \<times> cbb, 'a) action \<Rightarrow> bool" where
  "consumes f \<longleftrightarrow> (\<forall>inp out u inp' out'. wf_cbs inp \<and> f (inp, out) = (Some u, (inp', out')) \<longrightarrow> wf_cbs inp' \<and> cbs_len inp' \<le> cbs_len inp)"

lemma consumesD:
  "consumes f \<Longrightarrow> wf_cbs inp \<Longrightarrow> f (inp, out) = (Some u, (inp', out')) \<Longrightarrow> wf_cbs inp' \<and> cbs_len inp' \<le> cbs_len inp"
  unfolding consumes_def by blast

lemma consumes_bind:
  assumes "consumes f" and "\<And>a. consumes (g a)"
  shows "consumes (act_bind f g)"
proof -
  have "wf_cbs inp' \<and> cbs_len inp' \<le> cbs_len inp"
    if wf: "wf_cbs inp" and run: "act_bind f g (inp, out) = (Some u, (inp', out'))" for inp out u inp' out'
  proof -
    obtain a inp1 out1 where f: "f (inp, out) = (Some a, (inp1, out1))" and g: "g a (inp1, out1) = (Some u, (inp', out'))"
      using run by (rule act_bind_SomeE) (metis surj_pair)
    show ?thesis using consumesD [OF assms(1) wf f] consumesD [OF assms(2) _ g] by simp
  qed
  then show ?thesis unfolding consumes_def by blast
qed

lemma consumes_still:
  "consumes (act_ret a)" "consumes act_fail" "consumes (act_check b)" "consumes (act_option x)" "consumes (on_out f)" "consumes (on_contents w g)"
  by (auto simp: consumes_def act_simps on_out_eq_Some on_contents_def split: if_splits prod.splits)

lemma consumes_if: "consumes f \<Longrightarrow> consumes g \<Longrightarrow> consumes (\<lambda>s. if P s then f s else g s)"
  unfolding consumes_def by metis

lemma consumes_get: "consumes (on_in CBS_get_any_ber_asn1_element)"
  using ber_element.get_wf ber_element.get_len by (auto simp: consumes_def on_in_eq_Some)

lemma consumes_element:
  assumes "\<And>st eoc d. consumes (rec st eoc d)"
  shows "consumes (convert_element env rec st d e)"
  unfolding convert_element_def by (cases e) (auto intro!: consumes_bind consumes_still assms split: prod.split)

lemma consumes_loop:
  assumes rec: "\<And>st eoc d. consumes (rec st eoc d)"
  shows "consumes (convert_loop fuel env rec st eoc d)"
proof (induction fuel)
  case 0
  then show ?case by (auto simp: consumes_def convert_loop.simps [of 0] act_simps split: if_splits)
next
  case (Suc fuel)
  let ?body = "act_bind (on_in CBS_get_any_ber_asn1_element) (\<lambda>(contents, tag, header_len).
      if is_eoc header_len contents then act_check eoc
      else act_bind (convert_element env rec st d (contents, tag, header_len)) (\<lambda>_. convert_loop fuel env rec st eoc d))"
  have round: "consumes (if is_eoc header_len contents then act_check eoc
      else act_bind (convert_element env rec st d (contents, tag, header_len)) (\<lambda>_. convert_loop fuel env rec st eoc d))"
    for contents tag header_len
    using consumes_bind [OF consumes_element [OF rec] Suc] consumes_still(3) by simp
  have "consumes ?body"
    by (rule consumes_bind [OF consumes_get]) (simp only: round split: prod.split, simp)
  moreover have "convert_loop (Suc fuel) env rec st eoc d = (\<lambda>s. if CBS_len (fst s) = 0 then act_check (\<not> eoc) s else ?body s)"
    by (rule ext) (simp add: convert_loop.simps [of "Suc fuel"])
  ultimately show ?case using consumes_if [OF consumes_still(3)] by simp
qed

lemma consumes_convert_ber: "consumes (cbs_convert_ber levels env st eoc d)"
proof (induction levels arbitrary: st eoc d)
  case 0
  then show ?case by (simp add: consumes_def act_simps)
next
  case (Suc levels)
  have "wf_cbs inp' \<and> cbs_len inp' \<le> cbs_len inp"
    if "wf_cbs inp" and "cbs_convert_ber (Suc levels) env st eoc d (inp, out) = (Some u, (inp', out'))" for inp out u inp' out'
    using that(2) unfolding cbs_convert_ber.simps(2) by (rule consumesD [OF consumes_loop [OF Suc] that(1)])
  then show ?case unfolding consumes_def by blast
qed

lemma convert_loop_fuel:
  assumes rec: "\<And>st eoc d. consumes (rec st eoc d)"
  shows "wf_cbs c \<Longrightarrow> cbs_len c \<le> m \<Longrightarrow> cbs_len c \<le> n \<Longrightarrow>
    convert_loop m env rec st eoc d (c, out) = convert_loop n env rec st eoc d (c, out)"
proof (induction m arbitrary: n c out)
  case 0
  then show ?case by (simp add: convert_loop.simps [of _ env rec st eoc d "(c, out)"] CBS_len_def)
next
  case (Suc m)
  show ?case
  proof (cases "cbs_len c = 0")
    case False
    then obtain k where n: "n = Suc k" using Suc.prems(3) by (cases n) auto
    have rest: "convert_loop m env rec st eoc d (c2, out2) = convert_loop k env rec st eoc d (c2, out2)"
      if get: "CBS_get_any_ber_asn1_element c = (Some e, c1)" and el: "convert_element env rec st d e (c1, out1) = (Some u, (c2, out2))"
      for e c1 out1 u c2 out2
      using ber_element.strict [OF Suc.prems(1) get] consumesD [OF consumes_element [OF rec] ber_element.get_wf [OF get Suc.prems(1)] el]
        Suc.prems(2,3) n
      by (intro Suc.IH) simp_all
    have "act_bind (convert_element env rec st d e) (\<lambda>_. convert_loop m env rec st eoc d) (c1, out) =
        act_bind (convert_element env rec st d e) (\<lambda>_. convert_loop k env rec st eoc d) (c1, out)"
      if "CBS_get_any_ber_asn1_element c = (Some e, c1)" for e c1
      using rest [OF that] by (auto simp: act_bind_def split: prod.split option.split)
    then show ?thesis
      unfolding n convert_loop.simps [of "Suc m"] convert_loop.simps [of "Suc k"] act_bind_def [of "on_in CBS_get_any_ber_asn1_element"]
      by (auto simp: on_in_def split: prod.split option.split)
  qed (simp add: convert_loop.simps [of _ env rec st eoc d "(c, out)"] CBS_len_def)
qed

text \<open>The three loops of the code, with any larger fuel.\<close>

lemma cbs_find_ber_fuel:
  "wf_cbs c \<Longrightarrow> cbs_len c \<le> m \<Longrightarrow> find_ber_loop m (cbs_find_ber levels) False c = cbs_find_ber (Suc levels) c"
  using find_ber_loop_fuel [of c m "cbs_len c"] by (simp add: CBS_len_def)

lemma cbs_convert_ber_fuel:
  "wf_cbs c \<Longrightarrow> cbs_len c \<le> m \<Longrightarrow>
    convert_loop m env (cbs_convert_ber levels env) st eoc d (c, out) = cbs_convert_ber (Suc levels) env st eoc d (c, out)"
  using convert_loop_fuel [OF consumes_convert_ber, of c m "cbs_len c"] by (simp add: CBS_len_def)

lemma implicit_chunks_fuel:
  "wf_cbs c \<Longrightarrow> cbs_len c \<le> m \<Longrightarrow> cbs_len c \<le> n \<Longrightarrow> implicit_chunks m env tag c s = implicit_chunks n env tag c s"
proof (induction m arbitrary: n c s)
  case 0
  then show ?case by (simp add: implicit_chunks.simps [of _ env tag c] CBS_len_def)
next
  case (Suc m)
  show ?case
  proof (cases "cbs_len c = 0")
    case False
    then obtain k where n: "n = Suc k" using Suc.prems(3) by (cases n) auto
    have rest: "implicit_chunks m env tag c' s' = implicit_chunks k env tag c' s'" if get: "CBS_get_asn1 tag c = (Some r, c')" for r c' s'
    proof -
      obtain body rest where view: "cbs_view c = der_elem tag body @ rest" and c': "c' = cbs_after (length (der_elem tag body)) c"
        using get Suc.prems(1) by (rule CBS_get_asn1_sound)
      have wf: "wf_cbs c'" "cbs_view c' = rest" using Suc.prems(1) view by (simp_all add: c')
      have "0 < length (der_elem tag body)" using der_elem_neq_Nil [of tag body] by blast
      moreover have "cbs_len c = length (der_elem tag body) + cbs_len c'"
        using length_cbs_view [OF Suc.prems(1)] length_cbs_view [OF wf(1)] view wf(2) by simp
      ultimately have "cbs_len c' < cbs_len c" by linarith
      then show ?thesis using wf(1) Suc.prems(2,3) n by (intro Suc.IH) simp_all
    qed
    then have "implicit_chunks m env tag c' = implicit_chunks k env tag c'" if "CBS_get_asn1 tag c = (Some r, c')" for r c'
      using that by blast
    then show ?thesis
      unfolding n implicit_chunks.simps [of "Suc m"] implicit_chunks.simps [of "Suc k"]
      by (simp split: prod.split option.split)
  qed (simp add: implicit_chunks.simps [of _ env tag c] CBS_len_def)
qed

end
