(* ===== verification/Stack.thy ===== *)
theory Stack
  imports Mem "HOL-Library.Multiset"
begin

text \<open>
  \<open>crypto/stack/stack.c\<close>: the growing array of pointers. The locale \<open>stack_op\<close> is the
  contract of the operations that do not allocate: on the contents each is a function on
  lists. Insertion, the binary search and sorting follow.
\<close>

section \<open>The array of pointers\<close>

text \<open>
  A pointer is its 64-bit value, with zero for \<open>NULL\<close>; an allocated block read as an array
  of pointers is its bytes taken eight at a time, least significant first.
\<close>

type_synonym ptr = u64

definition sizeof_ptr :: nat where
  "sizeof_ptr = 8"

definition ptr_bytes :: "ptr \<Rightarrow> byte list" where
  "ptr_bytes p = rev (be_bytes 8 (unat p))"

definition bytes_of :: "ptr list \<Rightarrow> byte list" where
  "bytes_of ps = concat (map ptr_bytes ps)"

fun ptrs_of :: "nat \<Rightarrow> byte list \<Rightarrow> ptr list" where
  "ptrs_of 0 bs = []"
| "ptrs_of (Suc n) bs = of_nat (be_val (rev (take 8 bs))) # ptrs_of n (drop 8 bs)"

definition realloc_ptrs :: "alloc \<Rightarrow> ptr list \<Rightarrow> nat \<Rightarrow> ptr list option" where
  "realloc_ptrs env ps alloc_size =
     map_option (\<lambda>bs. ptrs_of (length bs div sizeof_ptr) bs) (OPENSSL_realloc env (Some (bytes_of ps)) alloc_size)"

section \<open>The code\<close>

record stack =
  st_num :: nat
  st_data :: "ptr list"
  st_sorted :: bool
  st_num_alloc :: nat
  st_comp :: ptr

definition sizeof_STACK :: nat where
  "sizeof_STACK = 40"

definition kMinSize :: nat where
  "kMinSize = 4"

text \<open>A function on \<open>_STACK *\<close>: on \<open>NULL\<close> it does nothing and returns \<open>r\<close>.\<close>

definition or_null :: "'r \<Rightarrow> (stack \<Rightarrow> 'r \<times> stack) \<Rightarrow> stack option \<Rightarrow> 'r \<times> stack option" where
  "or_null r f sk = (case sk of None \<Rightarrow> (r, None) | Some s \<Rightarrow> (case f s of (r, s) \<Rightarrow> (r, Some s)))"

definition sk_new :: "alloc \<Rightarrow> ptr \<Rightarrow> stack option" where
  "sk_new env cmp =
     (case OPENSSL_malloc env sizeof_STACK of
        None \<Rightarrow> None
      | Some _ \<Rightarrow>
          (case OPENSSL_malloc env (sizeof_ptr * kMinSize) of
             None \<Rightarrow> None
           | Some _ \<Rightarrow> Some \<lparr>st_num = 0, st_data = replicate kMinSize 0, st_sorted = False,
                           st_num_alloc = kMinSize, st_comp = cmp\<rparr>))"

definition sk_new_null :: "alloc \<Rightarrow> stack option" where
  "sk_new_null env = sk_new env 0"

definition sk_num :: "stack option \<Rightarrow> nat" where
  "sk_num sk = (case sk of None \<Rightarrow> 0 | Some s \<Rightarrow> st_num s)"

definition sk_zero :: "stack option \<Rightarrow> unit \<times> stack option" where
  "sk_zero = or_null () (\<lambda>s.
      if st_num s = 0 then ((), s)
      else ((), s\<lparr>st_data := replicate (st_num s) 0 @ drop (st_num s) (st_data s), st_num := 0, st_sorted := False\<rparr>))"

definition sk_value :: "stack option \<Rightarrow> nat \<Rightarrow> ptr" where
  "sk_value sk i = (case sk of None \<Rightarrow> 0 | Some s \<Rightarrow> if i \<ge> st_num s then 0 else st_data s ! i)"

definition sk_set :: "nat \<Rightarrow> ptr \<Rightarrow> stack option \<Rightarrow> ptr \<times> stack option" where
  "sk_set i v = or_null 0 (\<lambda>s. if i \<ge> st_num s then (0, s) else (v, s\<lparr>st_data := (st_data s)[i := v]\<rparr>))"

text \<open>Doubling the array, or adding one entry when doubling overflows.\<close>

definition sk_grow :: "alloc \<Rightarrow> stack \<Rightarrow> stack option" where
  "sk_grow env s =
     (let overflows = (\<lambda>new_alloc. new_alloc < st_num_alloc s \<or> size_mul new_alloc sizeof_ptr div sizeof_ptr \<noteq> new_alloc);
          new_alloc = size_mul (st_num_alloc s) 2;
          new_alloc = (if overflows new_alloc then size_add (st_num_alloc s) 1 else new_alloc)
      in if overflows new_alloc then None
         else (case realloc_ptrs env (st_data s) (size_mul new_alloc sizeof_ptr) of
                 None \<Rightarrow> None
               | Some dat \<Rightarrow> Some (s\<lparr>st_data := dat, st_num_alloc := new_alloc\<rparr>)))"

definition sk_insert :: "alloc \<Rightarrow> ptr \<Rightarrow> nat \<Rightarrow> stack option \<Rightarrow> nat \<times> stack option" where
  "sk_insert env p i = or_null 0 (\<lambda>s.
      case (if st_num_alloc s \<le> size_add (st_num s) 1 then sk_grow env s else Some s) of
        None \<Rightarrow> (0, s)
      | Some s \<Rightarrow>
          let dat = (if i \<ge> st_num s then (st_data s)[st_num s := p]
                     else (take (i + 1) (st_data s) @ take (st_num s - i) (drop i (st_data s)) @
                           drop (st_num s + 1) (st_data s))[i := p]);
              num = size_add (st_num s) 1
          in (num, s\<lparr>st_data := dat, st_num := num, st_sorted := False\<rparr>))"

definition sk_delete :: "nat \<Rightarrow> stack option \<Rightarrow> ptr \<times> stack option" where
  "sk_delete i = or_null 0 (\<lambda>s.
      if i \<ge> st_num s then (0, s)
      else let ret = st_data s ! i;
               dat = (if i \<noteq> st_num s - 1
                      then take i (st_data s) @ take (st_num s - i - 1) (drop (i + 1) (st_data s)) @
                           drop (st_num s - 1) (st_data s)
                      else st_data s)
           in (ret, s\<lparr>st_data := dat, st_num := st_num s - 1\<rparr>))"

text \<open>The search loops \<open>for (i = 0; i < sk->num; i++)\<close>: the first index that passes a test.\<close>

fun first_index :: "(ptr \<Rightarrow> bool) \<Rightarrow> ptr list \<Rightarrow> nat option" where
  "first_index P [] = None"
| "first_index P (x # xs) = (if P x then Some 0 else map_option Suc (first_index P xs))"

definition sk_delete_ptr :: "ptr \<Rightarrow> stack option \<Rightarrow> ptr \<times> stack option" where
  "sk_delete_ptr p sk =
     (case sk of
        None \<Rightarrow> (0, None)
      | Some s \<Rightarrow>
          (case first_index (\<lambda>x. x = p) (take (st_num s) (st_data s)) of
             None \<Rightarrow> (0, sk)
           | Some i \<Rightarrow> sk_delete i sk))"

definition sk_is_sorted :: "stack option \<Rightarrow> bool" where
  "sk_is_sorted sk = (case sk of None \<Rightarrow> True | Some s \<Rightarrow> st_sorted s)"

text \<open>The binary search of \<open>sk_find\<close>; \<open>cmp\<close> is \<open>call_cmp_func(sk->comp, &p, \<dots>)\<close>.\<close>

function sk_search :: "(ptr \<Rightarrow> int) \<Rightarrow> ptr list \<Rightarrow> nat \<Rightarrow> nat \<Rightarrow> nat option" where
  "sk_search cmp dat lo hi =
     (if lo < hi then
        (let mid = lo + (hi - lo - 1) div 2;
             r = cmp (dat ! mid)
         in if r > 0 then sk_search cmp dat (mid + 1) hi
            else if r < 0 then sk_search cmp dat lo mid
            else if hi - lo = 1 then Some mid
            else sk_search cmp dat lo (mid + 1))
      else None)"
  by pat_completeness auto
termination
  by (relation "measure (\<lambda>(cmp, dat, lo, hi). hi - lo)") auto

declare sk_search.simps [simp del]

lemma sk_search_step:
  "lo < hi \<Longrightarrow> mid = lo + (hi - lo - 1) div 2 \<Longrightarrow> sk_search cmp dat lo hi =
     (if cmp (dat ! mid) > 0 then sk_search cmp dat (mid + 1) hi
      else if cmp (dat ! mid) < 0 then sk_search cmp dat lo mid
      else if hi - lo = 1 then Some mid
      else sk_search cmp dat lo (mid + 1))"
  by (subst sk_search.simps) (simp add: Let_def)

definition sk_find :: "(ptr \<Rightarrow> ptr \<Rightarrow> ptr \<Rightarrow> int) \<Rightarrow> stack option \<Rightarrow> ptr \<Rightarrow> nat option" where
  "sk_find call_cmp_func sk p =
     (case sk of
        None \<Rightarrow> None
      | Some s \<Rightarrow>
          if st_comp s = 0 then first_index (\<lambda>x. x = p) (take (st_num s) (st_data s))
          else if p = 0 then None
          else if \<not> sk_is_sorted sk
            then first_index (\<lambda>x. call_cmp_func (st_comp s) p x = 0) (take (st_num s) (st_data s))
          else sk_search (call_cmp_func (st_comp s) p) (st_data s) 0 (st_num s))"

definition sk_shift :: "stack option \<Rightarrow> ptr \<times> stack option" where
  "sk_shift sk = (if sk = None then (0, sk) else if sk_num sk = 0 then (0, sk) else sk_delete 0 sk)"

text \<open>\<open>sk_push\<close> reads \<open>sk->num\<close> before any test for \<open>NULL\<close>.\<close>

definition sk_push :: "alloc \<Rightarrow> ptr \<Rightarrow> stack \<Rightarrow> nat \<times> stack option" where
  "sk_push env p s = sk_insert env p (st_num s) (Some s)"

definition sk_pop :: "stack option \<Rightarrow> ptr \<times> stack option" where
  "sk_pop sk = (if sk = None then (0, sk) else if sk_num sk = 0 then (0, sk) else sk_delete (sk_num sk - 1) sk)"

definition sk_dup :: "alloc \<Rightarrow> stack option \<Rightarrow> stack option" where
  "sk_dup env osk =
     (case osk of None \<Rightarrow> None | Some sk \<Rightarrow>
      case sk_new env (st_comp sk) of
        None \<Rightarrow> None
      | Some ret \<Rightarrow>
          (case realloc_ptrs env (st_data ret) (size_mul sizeof_ptr (st_num_alloc sk)) of
             None \<Rightarrow> None
           | Some s \<Rightarrow>
               Some (ret\<lparr>st_num := st_num sk,
                          st_data := take (st_num sk) (st_data sk) @ drop (st_num sk) s,
                          st_sorted := st_sorted sk, st_num_alloc := st_num_alloc sk, st_comp := st_comp sk\<rparr>)))"

text \<open>\<open>qsort\<close> is the C library's; it sorts the array of \<open>sk->num\<close> pointers.\<close>

definition sk_sort :: "((ptr \<Rightarrow> ptr \<Rightarrow> int) \<Rightarrow> ptr list \<Rightarrow> ptr list) \<Rightarrow> (ptr \<Rightarrow> ptr \<Rightarrow> ptr \<Rightarrow> int) \<Rightarrow> stack option \<Rightarrow> unit \<times> stack option" where
  "sk_sort qsort call_cmp_func = or_null () (\<lambda>s.
      if st_comp s = 0 \<or> st_sorted s then ((), s)
      else let dat = (if st_num s \<ge> 2
                      then qsort (call_cmp_func (st_comp s)) (take (st_num s) (st_data s)) @ drop (st_num s) (st_data s)
                      else st_data s)
           in ((), s\<lparr>st_data := dat, st_sorted := True\<rparr>))"

definition sk_set_cmp_func :: "ptr \<Rightarrow> stack \<Rightarrow> ptr \<times> stack" where
  "sk_set_cmp_func cmp s =
     (st_comp s, s\<lparr>st_sorted := (if st_comp s \<noteq> cmp then False else st_sorted s), st_comp := cmp\<rparr>)"

text \<open>
  Callbacks act on a state \<open>'h\<close> of their own: \<open>free\<close> releases an element, \<open>copy\<close>
  returns a new one or \<open>NULL\<close>.
\<close>

fun free_each :: "(ptr \<Rightarrow> 'h \<Rightarrow> 'h) \<Rightarrow> ptr list \<Rightarrow> 'h \<Rightarrow> 'h" where
  "free_each free [] h = h"
| "free_each free (x # xs) h = free_each free xs (if x \<noteq> 0 then free x h else h)"

definition sk_pop_free_ex :: "(ptr \<Rightarrow> 'h \<Rightarrow> 'h) \<Rightarrow> stack option \<Rightarrow> 'h \<Rightarrow> 'h" where
  "sk_pop_free_ex free sk h =
     (case sk of None \<Rightarrow> h | Some s \<Rightarrow> free_each free (take (st_num s) (st_data s)) h)"

text \<open>The copy loop at index \<open>i\<close>, with \<open>k\<close> elements to go; on failure the copies made so far are released.\<close>

fun copy_each :: "(ptr \<Rightarrow> 'h \<Rightarrow> ptr \<times> 'h) \<Rightarrow> (ptr \<Rightarrow> 'h \<Rightarrow> 'h) \<Rightarrow> nat \<Rightarrow> nat \<Rightarrow> ptr list \<Rightarrow> 'h \<Rightarrow> ptr list option \<times> 'h" where
  "copy_each copy free i 0 dat h = (Some dat, h)"
| "copy_each copy free i (Suc k) dat h =
     (if dat ! i = 0 then copy_each copy free (Suc i) k dat h
      else (case copy (dat ! i) h of
              (v, h) \<Rightarrow>
                if v = 0 then (None, free_each free (take i dat) h)
                else copy_each copy free (Suc i) k (dat[i := v]) h))"

definition sk_deep_copy :: "alloc \<Rightarrow> (ptr \<Rightarrow> 'h \<Rightarrow> ptr \<times> 'h) \<Rightarrow> (ptr \<Rightarrow> 'h \<Rightarrow> 'h) \<Rightarrow> stack option \<Rightarrow> 'h \<Rightarrow> stack option \<times> 'h" where
  "sk_deep_copy env copy free sk h =
     (case sk_dup env sk of
        None \<Rightarrow> (None, h)
      | Some ret \<Rightarrow>
          (case copy_each copy free 0 (st_num ret) (st_data ret) h of
             (None, h) \<Rightarrow> (None, h)
           | (Some dat, h) \<Rightarrow> (Some (ret\<lparr>st_data := dat\<rparr>), h)))"

section \<open>Arrays in memory\<close>

lemma length_ptr_bytes [simp]: "length (ptr_bytes p) = 8"
  by (simp add: ptr_bytes_def)

lemma length_bytes_of [simp]: "length (bytes_of ps) = 8 * length ps"
  by (induction ps) (simp_all add: bytes_of_def)

lemma length_ptrs_of [simp]: "length (ptrs_of n bs) = n"
  by (induction n arbitrary: bs) simp_all

lemma ptrs_of_bytes: "n \<le> length ps \<Longrightarrow> ptrs_of n (bytes_of ps @ bs) = take n ps"
proof (induction n arbitrary: ps)
  case (Suc n)
  then obtain p qs where ps: "ps = p # qs" by (cases ps) auto
  have "unat p mod 256 ^ 8 = unat p" using unat_u64_less [of p] by simp
  then have "of_nat (be_val (rev (ptr_bytes p))) = p"
    by (simp add: ptr_bytes_def)
  moreover have "bytes_of ps @ bs = ptr_bytes p @ bytes_of qs @ bs" by (simp add: ps bytes_of_def)
  ultimately show ?case using Suc by (simp add: ps)
qed simp

lemma take_ptrs_of: "m \<le> n \<Longrightarrow> take m (ptrs_of n bs) = ptrs_of m bs"
proof (induction m arbitrary: n bs)
  case (Suc m)
  then show ?case by (cases n) simp_all
qed simp

lemma realloc_ptrs_grow:
  assumes "realloc_ptrs env ps (8 * n) = Some qs" and "length ps \<le> n" and "8 * n + 8 < size_mod" and "malloc_bounded env"
  shows "length qs = n \<and> take (length ps) qs = ps \<and> 8 * n + 8 < 2 ^ 63"
proof -
  obtain bs where r: "OPENSSL_realloc env (Some (bytes_of ps)) (8 * n) = Some bs"
    and qs: "qs = ptrs_of (length bs div 8) bs"
    using assms(1) by (auto simp: realloc_ptrs_def sizeof_ptr_def)
  have len: "length bs = 8 * n" and pre: "take (8 * length ps) bs = bytes_of ps"
    using OPENSSL_realloc_grow [OF r] assms(2,3) by simp_all
  have "bs = bytes_of ps @ drop (8 * length ps) bs"
    using append_take_drop_id [of "8 * length ps" bs] pre by simp
  then have "ptrs_of (length ps) bs = ps"
    using ptrs_of_bytes [of "length ps" ps "drop (8 * length ps) bs"] by simp
  moreover have "8 * n + 8 < 2 ^ 63" using OPENSSL_realloc_bound [OF r assms(4,3)] .
  ultimately show ?thesis
    using len assms(2) by (simp add: qs take_ptrs_of)
qed

section \<open>A stack is a list\<close>

definition contents :: "stack \<Rightarrow> ptr list" where
  "contents s = take (st_num s) (st_data s)"

definition wf_stack :: "stack \<Rightarrow> bool" where
  "wf_stack s \<longleftrightarrow> st_num s < st_num_alloc s \<and> length (st_data s) = st_num_alloc s \<and> 8 * st_num_alloc s + 8 < 2 ^ 63"

lemma length_contents [simp]: "wf_stack s \<Longrightarrow> length (contents s) = st_num s"
  by (simp add: contents_def wf_stack_def)

lemma sk_new_ok: "sk_new env cmp = Some s \<Longrightarrow> wf_stack s \<and> contents s = [] \<and> st_comp s = cmp"
  by (auto simp: sk_new_def wf_stack_def contents_def kMinSize_def split: option.splits)

text \<open>
  The operations that never allocate share one contract: on \<open>NULL\<close> they return a fixed
  value, otherwise they act on the contents like a function on lists and keep the invariant.
\<close>

locale stack_op =
  fixes f :: "stack option \<Rightarrow> 'r \<times> stack option" and null :: 'r and g :: "ptr list \<Rightarrow> 'r \<times> ptr list"
  assumes on_null: "f None = (null, None)"
    and on_stack: "wf_stack s \<Longrightarrow> \<exists>s'. f (Some s) = (fst (g (contents s)), Some s') \<and> wf_stack s' \<and>
      contents s' = snd (g (contents s)) \<and> st_comp s' = st_comp s"
begin

lemma op_result:
  assumes "wf_stack s" and "f (Some s) = (r, Some s')"
  shows "r = fst (g (contents s))" and "contents s' = snd (g (contents s))" and "wf_stack s'"
  using on_stack [OF assms(1)] assms(2) by auto

lemma op_num:
  assumes "wf_stack s" and "f (Some s) = (r, Some s')"
  shows "st_num s' = length (snd (g (contents s)))"
  using op_result [OF assms] length_contents [of s'] by simp

end

text \<open>What the operations mean on lists.\<close>

definition list_set :: "nat \<Rightarrow> ptr \<Rightarrow> ptr list \<Rightarrow> ptr \<times> ptr list" where
  "list_set i v xs = (if i < length xs then (v, xs[i := v]) else (0, xs))"

definition list_delete :: "nat \<Rightarrow> ptr list \<Rightarrow> ptr \<times> ptr list" where
  "list_delete i xs = (if i < length xs then (xs ! i, take i xs @ drop (Suc i) xs) else (0, xs))"

definition list_delete_ptr :: "ptr \<Rightarrow> ptr list \<Rightarrow> ptr \<times> ptr list" where
  "list_delete_ptr p xs = (if p \<in> set xs then p else 0, remove1 p xs)"

lemma delete_contents:
  assumes "wf_stack s" and "i < st_num s" and "i \<noteq> st_num s - 1"
  shows "take (st_num s - 1) (take i (st_data s) @ take (st_num s - i - 1) (drop (i + 1) (st_data s)) @ drop (st_num s - 1) (st_data s))
     = take i (contents s) @ drop (Suc i) (contents s)"
  using assms by (auto simp: wf_stack_def contents_def min_def drop_take)

interpretation delete: stack_op "sk_delete i" 0 "list_delete i" for i
proof
  show "sk_delete i None = (0, None)" by (simp add: sk_delete_def or_null_def)
next
  fix s assume wf: "wf_stack s"
  show "\<exists>s'. sk_delete i (Some s) = (fst (list_delete i (contents s)), Some s') \<and> wf_stack s' \<and>
      contents s' = snd (list_delete i (contents s)) \<and> st_comp s' = st_comp s"
  proof (cases "i < st_num s")
    case False
    then show ?thesis using wf by (auto simp: sk_delete_def or_null_def list_delete_def)
  next
    case True
    define dat where "dat = (if i \<noteq> st_num s - 1
                      then take i (st_data s) @ take (st_num s - i - 1) (drop (i + 1) (st_data s)) @
                           drop (st_num s - 1) (st_data s)
                      else st_data s)"
    have "take (st_num s - 1) dat = take i (contents s) @ drop (Suc i) (contents s)"
    proof (cases "i = st_num s - 1")
      case True
      then show ?thesis using wf \<open>i < st_num s\<close> by (simp add: dat_def contents_def)
    next
      case False
      then show ?thesis using delete_contents [OF wf True False] by (simp add: dat_def)
    qed
    moreover have "length dat = st_num_alloc s"
      using wf True by (auto simp: dat_def wf_stack_def)
    moreover have "sk_delete i (Some s) = (contents s ! i, Some (s\<lparr>st_data := dat, st_num := st_num s - 1\<rparr>))"
      using True by (simp add: sk_delete_def or_null_def Let_def dat_def contents_def)
    moreover have "contents (s\<lparr>st_data := dat, st_num := st_num s - 1\<rparr>) = take (st_num s - 1) dat"
      by (simp add: contents_def)
    ultimately show ?thesis
      using wf True by (simp add: list_delete_def wf_stack_def less_imp_diff_less)
  qed
qed

lemma first_index_eq:
  "first_index P xs = (if \<exists>x \<in> set xs. P x then Some (length (takeWhile (\<lambda>x. \<not> P x) xs)) else None)"
  by (induction xs) auto

lemma first_index_Some:
  "first_index P xs = Some i \<longleftrightarrow> i < length xs \<and> P (xs ! i) \<and> (\<forall>j < i. \<not> P (xs ! j))"
proof (induction xs arbitrary: i)
  case (Cons x xs)
  show ?case by (cases i) (auto simp: Cons.IH nth_Cons less_Suc_eq_0_disj split: nat.splits)
qed simp

lemma first_index_None: "first_index P xs = None \<longleftrightarrow> (\<forall>x \<in> set xs. \<not> P x)"
  by (simp add: first_index_eq)

lemma delete_first: "first_index (\<lambda>x. x = p) xs = Some i \<Longrightarrow> list_delete i xs = (p, remove1 p xs)"
proof (induction xs arbitrary: i)
  case (Cons x xs)
  then show ?case by (cases i) (auto simp: list_delete_def split: if_splits)
qed simp

interpretation delete_ptr: stack_op "sk_delete_ptr p" 0 "list_delete_ptr p" for p
proof
  show "sk_delete_ptr p None = (0, None)" by (simp add: sk_delete_ptr_def)
next
  fix s assume wf: "wf_stack s"
  show "\<exists>s'. sk_delete_ptr p (Some s) = (fst (list_delete_ptr p (contents s)), Some s') \<and> wf_stack s' \<and>
      contents s' = snd (list_delete_ptr p (contents s)) \<and> st_comp s' = st_comp s"
  proof (cases "first_index (\<lambda>x. x = p) (contents s)")
    case None
    then have "p \<notin> set (contents s)" by (auto simp: first_index_None)
    then show ?thesis
      using wf None by (simp add: sk_delete_ptr_def contents_def [symmetric] list_delete_ptr_def remove1_idem)
  next
    case (Some i)
    then have "list_delete i (contents s) = (p, remove1 p (contents s))" by (rule delete_first)
    moreover have "p \<in> set (contents s)" using Some by (auto simp: first_index_Some)
    ultimately show ?thesis
      using delete.on_stack [OF wf, of i] Some by (simp add: sk_delete_ptr_def contents_def [symmetric] list_delete_ptr_def)
  qed
qed

interpretation set: stack_op "sk_set i v" 0 "list_set i v" for i v
  by unfold_locales
     (auto simp: sk_set_def or_null_def list_set_def wf_stack_def contents_def take_update_swap not_le)

interpretation zero: stack_op sk_zero "()" "\<lambda>xs. ((), [])"
  by unfold_locales (auto simp: sk_zero_def or_null_def wf_stack_def contents_def)

interpretation shift: stack_op sk_shift 0 "\<lambda>xs. if xs = [] then (0, []) else (hd xs, tl xs)"
proof
  fix s assume wf: "wf_stack s"
  then have empty: "contents s = [] \<longleftrightarrow> st_num s = 0" using length_contents [OF wf] by (metis length_0_conv)
  show "\<exists>s'. sk_shift (Some s) = (fst (if contents s = [] then (0, []) else (hd (contents s), tl (contents s))), Some s') \<and>
      wf_stack s' \<and> contents s' = snd (if contents s = [] then (0, []) else (hd (contents s), tl (contents s))) \<and>
      st_comp s' = st_comp s"
    using delete.on_stack [OF wf, of 0] empty wf
    by (auto simp: sk_shift_def sk_num_def list_delete_def hd_conv_nth drop_Suc)
qed (simp add: sk_shift_def)

interpretation pop: stack_op sk_pop 0 "\<lambda>xs. if xs = [] then (0, []) else (last xs, butlast xs)"
proof
  fix s assume wf: "wf_stack s"
  then have empty: "contents s = [] \<longleftrightarrow> st_num s = 0" using length_contents [OF wf] by (metis length_0_conv)
  show "\<exists>s'. sk_pop (Some s) = (fst (if contents s = [] then (0, []) else (last (contents s), butlast (contents s))), Some s') \<and>
      wf_stack s' \<and> contents s' = snd (if contents s = [] then (0, []) else (last (contents s), butlast (contents s))) \<and>
      st_comp s' = st_comp s"
    using delete.on_stack [OF wf, of "st_num s - 1"] empty wf
    by (auto simp: sk_pop_def sk_num_def list_delete_def last_conv_nth butlast_conv_take)
qed (simp add: sk_pop_def)

section \<open>Insertion\<close>

lemma sk_grow_ok:
  assumes "sk_grow env s = Some s'" and "wf_stack s" and "malloc_bounded env"
  shows "wf_stack s' \<and> contents s' = contents s \<and> st_num s' = st_num s \<and> st_comp s' = st_comp s \<and>
    st_num s + 1 < st_num_alloc s'"
proof -
  have *: "st_num s < st_num_alloc s" "length (st_data s) = st_num_alloc s" "8 * st_num_alloc s + 8 < 2 ^ 63"
    using assms(2) by (simp_all add: wf_stack_def)
  then have small: "st_num_alloc s * 2 < size_mod" "st_num_alloc s * 2 * sizeof_ptr < size_mod"
    by (simp_all add: size_mod_def sizeof_ptr_def)
  define n where "n = st_num_alloc s * 2"
  have "realloc_ptrs env (st_data s) (8 * n) = Some (st_data s') \<and> st_num_alloc s' = n \<and> st_num s' = st_num s \<and> st_comp s' = st_comp s"
    using assms(1) small unfolding sk_grow_def Let_def n_def
    by (auto simp: sizeof_ptr_def mult.commute split: if_splits option.splits)
  moreover have "8 * n + 8 < size_mod" "length (st_data s) \<le> n" using * by (simp_all add: n_def size_mod_def)
  ultimately have s': "length (st_data s') = n" "take (length (st_data s)) (st_data s') = st_data s" "8 * n + 8 < 2 ^ 63"
      "st_num_alloc s' = n" "st_num s' = st_num s" "st_comp s' = st_comp s"
    using realloc_ptrs_grow [of env "st_data s" n "st_data s'"] assms(3) by simp_all
  have "take (st_num s) (st_data s') = take (st_num s) (take (length (st_data s)) (st_data s'))"
    using * by (simp add: min_absorb1)
  then have "contents s' = contents s" unfolding s'(2) by (simp add: contents_def s'(5))
  then show ?thesis using s' * by (simp add: wf_stack_def n_def)
qed

lemma insert_contents:
  assumes "wf_stack s" and "st_num s + 1 < st_num_alloc s"
    and "s' = s\<lparr>st_data := (if i \<ge> st_num s then (st_data s)[st_num s := p]
                     else (take (i + 1) (st_data s) @ take (st_num s - i) (drop i (st_data s)) @
                           drop (st_num s + 1) (st_data s))[i := p]), st_num := st_num s + 1, st_sorted := False\<rparr>"
  shows "wf_stack s' \<and> contents s' = take i (contents s) @ p # drop i (contents s) \<and> st_comp s' = st_comp s"
proof (cases "i \<ge> st_num s")
  case True
  have "take (st_num s + 1) ((st_data s)[st_num s := p]) = take (st_num s) (st_data s) @ [p]"
    using assms(1) by (simp add: wf_stack_def take_Suc_conv_app_nth)
  then show ?thesis
    using assms True by (simp add: wf_stack_def contents_def)
next
  case False
  let ?xs = "take (i + 1) (st_data s) @ take (st_num s - i) (drop i (st_data s)) @ drop (st_num s + 1) (st_data s)"
  have len: "i < length (st_data s)" "st_num s < length (st_data s)" using assms(1) False by (simp_all add: wf_stack_def)
  have "?xs[i := p] = (take (i + 1) (st_data s))[i := p] @ take (st_num s - i) (drop i (st_data s)) @ drop (st_num s + 1) (st_data s)"
    using len by (simp add: list_update_append)
  also have "(take (i + 1) (st_data s))[i := p] = take i (st_data s) @ [p]"
    using len by (simp add: take_Suc_conv_app_nth list_update_append)
  finally have xs: "?xs[i := p] = take i (st_data s) @ p # take (st_num s - i) (drop i (st_data s)) @ drop (st_num s + 1) (st_data s)"
    by simp
  moreover have "take (st_num s + 1) (take i (st_data s) @ p # take (st_num s - i) (drop i (st_data s)) @ drop (st_num s + 1) (st_data s)) =
      take i (contents s) @ p # drop i (contents s)"
    using False len by (simp add: contents_def drop_take min_def Suc_diff_le)
  ultimately show ?thesis
    using assms False len by (simp add: wf_stack_def contents_def)
qed

theorem sk_insert_cases:
  assumes "malloc_bounded env" and "wf_stack s" and "sk_insert env p i (Some s) = (r, Some s')"
  shows "if r = 0 then s' = s
    else wf_stack s' \<and> contents s' = take i (contents s) @ p # drop i (contents s) \<and> r = length (contents s') \<and>
      st_comp s' = st_comp s"
proof -
  have num: "size_add (st_num s) (Suc 0) = Suc (st_num s)"
    using assms(2) by (simp add: wf_stack_def size_mod_def)
  show ?thesis
  proof (cases "if st_num_alloc s \<le> st_num s + 1 then sk_grow env s else Some s")
    case None
    then show ?thesis using assms(3) by (simp add: sk_insert_def or_null_def num)
  next
    case (Some t)
    have t: "wf_stack t" "contents t = contents s" "st_num t = st_num s" "st_comp t = st_comp s" "st_num t + 1 < st_num_alloc t"
      using Some assms(2) sk_grow_ok [OF _ assms(2,1), of t] by (auto split: if_splits)
    have "r = st_num t + 1" and s': "s' = t\<lparr>st_data := (if i \<ge> st_num t then (st_data t)[st_num t := p]
                     else (take (i + 1) (st_data t) @ take (st_num t - i) (drop i (st_data t)) @
                           drop (st_num t + 1) (st_data t))[i := p]), st_num := st_num t + 1, st_sorted := False\<rparr>"
      using assms(3) Some num t(3) by (auto simp: sk_insert_def or_null_def Let_def)
    then show ?thesis
      using insert_contents [OF t(1,5) s'] t(2,4) length_contents [of s'] by simp
  qed
qed


lemma sk_insert_granted:
  assumes "\<forall>m < 2 ^ 40. malloc_ok env m" and "wf_stack s" and "st_num_alloc s < 2 ^ 35"
  shows "fst (sk_insert env p i (Some s)) \<noteq> 0"
proof -
  have num: "size_add (st_num s) (Suc 0) = Suc (st_num s)"
    using assms(2) by (simp add: wf_stack_def size_mod_def)
  have small: "st_num_alloc s * 2 < size_mod" "st_num_alloc s * 2 * sizeof_ptr < size_mod" "st_num_alloc s * 2 * sizeof_ptr < 2 ^ 39"
    using assms(3) by (simp_all add: size_mod_def sizeof_ptr_def)
  then obtain bs where "OPENSSL_realloc env (Some (bytes_of (st_data s))) (st_num_alloc s * 2 * sizeof_ptr) = Some bs"
    using OPENSSL_realloc_grants [of env "st_num_alloc s * 2 * sizeof_ptr" "Some (bytes_of (st_data s))"] assms(1)
    by (auto simp: size_mod_def)
  then obtain t where t: "sk_grow env s = Some t" "st_num t = st_num s"
    using small by (simp add: sk_grow_def Let_def realloc_ptrs_def sizeof_ptr_def)
  define q where "q = (if st_num_alloc s \<le> size_add (st_num s) 1 then sk_grow env s else Some s)"
  have "\<exists>t. q = Some t \<and> st_num t = st_num s" using t by (simp add: q_def)
  then obtain t' where t': "q = Some t'" "st_num t' = st_num s" by blast
  show ?thesis
    unfolding sk_insert_def or_null_def option.case q_def [symmetric] t'(1) Let_def t'(2) using num by simp
qed

section \<open>Searching\<close>

text \<open>A comparison is consistent when it is a total preorder given by signs.\<close>

definition consistent_cmp :: "(ptr \<Rightarrow> ptr \<Rightarrow> int) \<Rightarrow> bool" where
  "consistent_cmp cmp \<longleftrightarrow>
     (\<forall>a b. sgn (cmp a b) = - sgn (cmp b a)) \<and>
     (\<forall>a b c. cmp a b \<le> 0 \<longrightarrow> cmp b c \<le> 0 \<longrightarrow> cmp a c \<le> 0)"

definition ascending :: "(ptr \<Rightarrow> ptr \<Rightarrow> int) \<Rightarrow> ptr list \<Rightarrow> bool" where
  "ascending cmp xs \<longleftrightarrow> sorted_wrt (\<lambda>a b. cmp a b \<le> 0) xs"

lemma consistent_cmpD:
  assumes "consistent_cmp cmp"
  shows "cmp a b < 0 \<longleftrightarrow> 0 < cmp b a" and "cmp a b = 0 \<longleftrightarrow> cmp b a = 0"
    and "cmp a b \<le> 0 \<Longrightarrow> cmp b c \<le> 0 \<Longrightarrow> cmp a c \<le> 0"
proof -
  have "sgn (cmp a b) = - sgn (cmp b a)" using assms unfolding consistent_cmp_def by blast
  then show "cmp a b < 0 \<longleftrightarrow> 0 < cmp b a" "cmp a b = 0 \<longleftrightarrow> cmp b a = 0"
    by (auto simp: sgn_if split: if_splits)
  show "cmp a b \<le> 0 \<Longrightarrow> cmp b c \<le> 0 \<Longrightarrow> cmp a c \<le> 0"
    using assms unfolding consistent_cmp_def by blast
qed

text \<open>In an ascending array the comparisons with a fixed element go down through zero.\<close>

lemma ascending_probe:
  assumes "consistent_cmp cmp" and "ascending cmp xs" and "i \<le> j" and "j < length xs"
  shows "cmp p (xs ! i) \<le> 0 \<Longrightarrow> cmp p (xs ! j) \<le> 0" and "cmp p (xs ! i) < 0 \<Longrightarrow> cmp p (xs ! j) < 0"
    and "0 < cmp p (xs ! j) \<Longrightarrow> 0 < cmp p (xs ! i)"
proof -
  note c = consistent_cmpD [OF assms(1)]
  have "cmp (xs ! i) (xs ! i) \<le> 0" using c(1) [of "xs ! i" "xs ! i"] by linarith
  then have le: "cmp (xs ! i) (xs ! j) \<le> 0"
    using assms(2-4) by (cases "i = j") (auto simp: ascending_def sorted_wrt_iff_nth_less)
  show *: "cmp p (xs ! i) \<le> 0 \<Longrightarrow> cmp p (xs ! j) \<le> 0" using c(3) le by blast
  show "cmp p (xs ! i) < 0 \<Longrightarrow> cmp p (xs ! j) < 0"
    using c(3) [OF le, of p] c(1) [of p "xs ! i"] c(1) [of p "xs ! j"] c(2) [of p "xs ! j"] by linarith
  show "0 < cmp p (xs ! j) \<Longrightarrow> 0 < cmp p (xs ! i)" using * by linarith
qed

text \<open>
  The search keeps the first match in its interval: everything before \<open>lo\<close> compares
  above zero, and everything from \<open>hi\<close> on is below zero or not the first match.
\<close>

lemma sk_search_first:
  assumes "consistent_cmp cmp" and "ascending cmp xs" and "hi \<le> length xs" and "\<forall>i < lo. 0 < cmp p (xs ! i)"
    and "(\<forall>i. hi \<le> i \<and> i < length xs \<longrightarrow> cmp p (xs ! i) < 0) \<or> (lo < hi \<and> cmp p (xs ! (hi - 1)) = 0)"
  shows "sk_search (cmp p) xs lo hi = first_index (\<lambda>x. cmp p x = 0) xs"
  using assms(3-5)
proof (induction "hi - lo" arbitrary: lo hi rule: less_induct)
  case less
  note probe = ascending_probe [OF assms(1,2)]
  show ?case
  proof (cases "lo < hi")
    case False
    then have "\<forall>i < length xs. cmp p (xs ! i) \<noteq> 0"
      using less.prems(2,3) by (metis less_irrefl not_le order_le_less_trans order_less_le_trans)
    then have "first_index (\<lambda>x. cmp p x = 0) xs = None"
      by (auto simp: first_index_None in_set_conv_nth)
    then show ?thesis using False by (simp add: sk_search.simps [of _ _ lo hi])
  next
    case True
    define mid where "mid = lo + (hi - lo - 1) div 2"
    have mid: "lo \<le> mid" "mid < hi" using True by (simp_all add: mid_def)
    note step = sk_search_step [OF True mid_def, of "cmp p" xs]
    consider "0 < cmp p (xs ! mid)" | "cmp p (xs ! mid) < 0" | "cmp p (xs ! mid) = 0" by linarith
    then show ?thesis
    proof cases
      case 1
      have "\<forall>i < mid + 1. 0 < cmp p (xs ! i)"
        using 1 probe(3) [of _ mid] mid less.prems(1) by simp
      moreover have "mid + 1 < hi" if "cmp p (xs ! (hi - 1)) = 0"
        using 1 mid that by (cases "mid = hi - 1") auto
      ultimately have "sk_search (cmp p) xs (mid + 1) hi = first_index (\<lambda>x. cmp p x = 0) xs"
        using mid True less.prems by (intro less.hyps) auto
      then show ?thesis using step 1 by simp
    next
      case 2
      have "\<forall>i. mid \<le> i \<and> i < length xs \<longrightarrow> cmp p (xs ! i) < 0"
        using 2 probe(2) [of mid] by simp
      then have "sk_search (cmp p) xs lo mid = first_index (\<lambda>x. cmp p x = 0) xs"
        using mid less.prems by (intro less.hyps) auto
      then show ?thesis using step 2 by simp
    next
      case 3
      show ?thesis
      proof (cases "hi - lo = 1")
        case True
        then have "mid = lo" by (simp add: mid_def)
        then have "first_index (\<lambda>x. cmp p x = 0) xs = Some mid"
          using 3 mid less.prems(1,2) by (auto simp: first_index_Some)
        then show ?thesis using step 3 True by simp
      next
        case False
        then have "mid + 1 < hi" using mid by (simp add: mid_def)
        then have "sk_search (cmp p) xs lo (mid + 1) = first_index (\<lambda>x. cmp p x = 0) xs"
          using 3 mid less.prems(1,2) by (intro less.hyps) auto
        then show ?thesis using step 3 False by simp
      qed
    qed
  qed
qed

lemma sk_search_take: "hi \<le> n \<Longrightarrow> sk_search cmp (take n dat) lo hi = sk_search cmp dat lo hi"
proof (induction "hi - lo" arbitrary: lo hi rule: less_induct)
  case less
  show ?case
  proof (cases "lo < hi")
    case True
    define mid where "mid = lo + (hi - lo - 1) div 2"
    have mid: "lo \<le> mid" "mid < hi" using True by (simp_all add: mid_def)
    have "sk_search cmp (take n dat) (mid + 1) hi = sk_search cmp dat (mid + 1) hi"
      and "sk_search cmp (take n dat) lo mid = sk_search cmp dat lo mid"
      using mid less.prems by (auto intro: less.hyps)
    moreover have "hi - lo \<noteq> 1 \<Longrightarrow> sk_search cmp (take n dat) lo (mid + 1) = sk_search cmp dat lo (mid + 1)"
      using mid less.prems by (intro less.hyps) (auto simp: mid_def)
    moreover have "take n dat ! mid = dat ! mid" using mid less.prems by simp
    ultimately show ?thesis
      unfolding sk_search_step [OF True mid_def] by simp
  qed (simp add: sk_search.simps [of _ _ lo hi])
qed

theorem sk_find_first:
  assumes "wf_stack s" and "st_comp s \<noteq> 0" and "p \<noteq> 0" and "consistent_cmp (call (st_comp s))"
    and "st_sorted s \<longrightarrow> ascending (call (st_comp s)) (contents s)"
  shows "sk_find call (Some s) p = first_index (\<lambda>x. call (st_comp s) p x = 0) (contents s)"
proof (cases "st_sorted s")
  case True
  have "sk_find call (Some s) p = sk_search (call (st_comp s) p) (st_data s) 0 (st_num s)"
    using True assms(2,3) by (simp add: sk_find_def sk_is_sorted_def)
  also have "\<dots> = sk_search (call (st_comp s) p) (contents s) 0 (st_num s)"
    by (simp add: contents_def sk_search_take)
  also have "\<dots> = first_index (\<lambda>x. call (st_comp s) p x = 0) (contents s)"
    using assms(1,5) True by (intro sk_search_first [OF assms(4)]) auto
  finally show ?thesis .
qed (use assms(2,3) in \<open>simp add: sk_find_def sk_is_sorted_def contents_def\<close>)

section \<open>Sorting and copying\<close>

text \<open>What the C library promises of \<open>qsort\<close>.\<close>

definition is_qsort :: "((ptr \<Rightarrow> ptr \<Rightarrow> int) \<Rightarrow> ptr list \<Rightarrow> ptr list) \<Rightarrow> bool" where
  "is_qsort f \<longleftrightarrow> (\<forall>cmp xs. consistent_cmp cmp \<longrightarrow> mset (f cmp xs) = mset xs \<and> ascending cmp (f cmp xs))"

lemma sk_sort_ok:
  assumes "is_qsort qsort" and "wf_stack s" and "st_comp s \<noteq> 0" and "\<not> st_sorted s" and "consistent_cmp (call (st_comp s))"
    and "sk_sort qsort call (Some s) = (u, Some s')"
  shows "wf_stack s' \<and> st_sorted s' \<and> st_comp s' = st_comp s \<and> mset (contents s') = mset (contents s) \<and>
    ascending (call (st_comp s)) (contents s')"
proof (cases "2 \<le> st_num s")
  case True
  have q: "mset (qsort (call (st_comp s)) (contents s)) = mset (contents s)"
      "ascending (call (st_comp s)) (qsort (call (st_comp s)) (contents s))"
    using assms(1,5) unfolding is_qsort_def by blast+
  then have "length (qsort (call (st_comp s)) (contents s)) = st_num s"
    using length_contents [OF assms(2)] by (metis size_mset)
  moreover have "s' = s\<lparr>st_data := qsort (call (st_comp s)) (contents s) @ drop (st_num s) (st_data s), st_sorted := True\<rparr>"
    using assms(3,4,6) True by (simp add: sk_sort_def or_null_def Let_def contents_def)
  ultimately show ?thesis
    using q assms(2) by (simp add: wf_stack_def contents_def)
next
  case False
  then have "s' = s\<lparr>st_sorted := True\<rparr>"
    using assms(3,4,6) by (simp add: sk_sort_def or_null_def Let_def)
  moreover have "length (contents s) < 2" using False length_contents [OF assms(2)] by simp
  then have "ascending (call (st_comp s)) (contents s)"
    by (cases "contents s") (auto simp: ascending_def)
  ultimately show ?thesis using assms(2) by (simp add: wf_stack_def contents_def)
qed

lemma sk_dup_ok:
  assumes "malloc_bounded env" and "wf_stack s" and "4 \<le> st_num_alloc s" and "sk_dup env (Some s) = Some t"
  shows "wf_stack t \<and> contents t = contents s \<and> st_sorted t = st_sorted s \<and> st_comp t = st_comp s"
proof -
  obtain r d where r: "sk_new env (st_comp s) = Some r" and d: "realloc_ptrs env (st_data r) (size_mul sizeof_ptr (st_num_alloc s)) = Some d"
    and t: "t = r\<lparr>st_num := st_num s, st_data := take (st_num s) (st_data s) @ drop (st_num s) d,
                 st_sorted := st_sorted s, st_num_alloc := st_num_alloc s, st_comp := st_comp s\<rparr>"
    using assms(4) by (auto simp: sk_dup_def split: option.splits)
  have "length (st_data r) = 4" using sk_new_ok [OF r] r by (auto simp: sk_new_def kMinSize_def split: option.splits)
  moreover have "8 * st_num_alloc s < size_mod" "8 * st_num_alloc s + 8 < size_mod"
    using assms(2) by (simp_all add: wf_stack_def size_mod_def)
  ultimately have "length d = st_num_alloc s"
    using realloc_ptrs_grow [of env "st_data r" "st_num_alloc s" d] d assms(1,3) by (simp add: sizeof_ptr_def)
  then show ?thesis
    using assms(2) by (simp add: t wf_stack_def contents_def)
qed

section \<open>A broken order\<close>

text \<open>A search among elements that all compare below finds nothing.\<close>

lemma sk_search_None: "\<forall>i \<in> {lo..<hi}. 0 < cmp (dat ! i) \<Longrightarrow> sk_search cmp dat lo hi = None"
proof (induction cmp dat lo hi rule: sk_search.induct)
  case (1 cmp dat lo hi)
  show ?case
  proof (cases "lo < hi")
    case True
    define mid where "mid = lo + (hi - lo - 1) div 2"
    have mid: "lo \<le> mid" "mid < hi" using True by (auto simp: mid_def)
    then have pos: "0 < cmp (dat ! mid)" using 1(4) by simp
    have "\<forall>i \<in> {mid + 1..<hi}. 0 < cmp (dat ! i)" using 1(4) mid(1) by simp
    with 1(1) [OF True mid_def refl pos] show ?thesis
      unfolding sk_search_step [OF True mid_def] using pos by simp
  qed (simp add: sk_search.simps [of _ _ lo hi])
qed

text \<open>
  If an entry greater than all others is stored in the middle of a sorted stack, the first probe sends the search
  for anything behind it to the left, where it is not.
\<close>

lemma sk_set_loses:
  assumes "wf_stack s" and "st_comp s \<noteq> 0" and "st_sorted s" and "consistent_cmp (call (st_comp s))"
    and "sorted_wrt (\<lambda>a b. call (st_comp s) a b < 0) (contents s)"
    and "(st_num s - 1) div 2 < j" and "j < st_num s" and "contents s ! j \<noteq> 0"
    and "\<forall>x \<in> set (contents s). 0 < call (st_comp s) y x"
  shows "\<exists>s'. sk_set ((st_num s - 1) div 2) y (Some s) = (y, Some s') \<and> sk_is_sorted (Some s') \<and>
    contents s' = (contents s)[(st_num s - 1) div 2 := y] \<and> contents s' ! j = contents s ! j \<and>
    sk_find call (Some s) (contents s ! j) = Some j \<and> sk_find call (Some s') (contents s ! j) = None"
proof -
  let ?cmp = "call (st_comp s)" and ?m = "(st_num s - 1) div 2" and ?p = "contents s ! j"
  let ?s = "s\<lparr>st_data := (st_data s)[?m := y]\<rparr>"
  have n: "length (contents s) = st_num s" "st_num s \<le> length (st_data s)"
    using assms(1) by (auto simp: wf_stack_def contents_def)
  have data: "contents s ! i = st_data s ! i" if "i < st_num s" for i using that by (simp add: contents_def)
  have less: "?cmp (contents s ! i) ?p < 0" if "i < j" for i
    using sorted_wrt_nth_less [OF assms(5) that] assms(7) n by simp
  have above: "0 < ?cmp ?p (contents s ! i)" if "i < j" for i
    using less [OF that] consistent_cmpD(1) [OF assms(4)] by simp
  have "ascending ?cmp (contents s)"
    unfolding ascending_def by (rule sorted_wrt_mono_rel [OF _ assms(5)]) simp
  then have "sk_find call (Some s) ?p = first_index (\<lambda>x. ?cmp ?p x = 0) (contents s)"
    using sk_find_first [OF assms(1,2,8), of call] assms(4) by simp
  also have "\<dots> = Some j"
  proof -
    have "?cmp ?p ?p = 0" using consistent_cmpD(1) [OF assms(4), of ?p ?p] by linarith
    moreover have "?cmp ?p (contents s ! i) \<noteq> 0" if "i < j" for i using above [OF that] by simp
    ultimately show ?thesis using assms(7) n(1) by (simp add: first_index_Some)
  qed
  finally have before: "sk_find call (Some s) ?p = Some j" .
  have "?cmp ?p y < 0" using assms(7,9) n consistent_cmpD(1) [OF assms(4)] by simp
  moreover have "sk_search (?cmp ?p) ((st_data s)[?m := y]) 0 ?m = None"
    using above data assms(6,7) by (intro sk_search_None) (simp add: nth_list_update)
  moreover have "0 < st_num s" using assms(7) by simp
  note sk_search_step [OF this, of "?m"]
  ultimately have "sk_search (?cmp ?p) ((st_data s)[?m := y]) 0 (st_num s) = None"
    using n assms(6,7) by simp
  then have after: "sk_find call (Some ?s) ?p = None"
    using assms(2,3,8) by (simp add: sk_find_def sk_is_sorted_def)
  have "sk_set ?m y (Some s) = (y, Some ?s)" using assms(6,7) by (simp add: sk_set_def or_null_def)
  moreover have "contents ?s = (contents s)[?m := y]" by (simp add: contents_def take_update_swap)
  ultimately show ?thesis
    using before after assms(3,6) by (intro exI [of _ ?s]) (simp add: sk_is_sorted_def)
qed

end
