(* ===== verification/Bio_Pair.thy ===== *)
theory Bio_Pair
  imports Mem
begin

text \<open>
  \<open>crypto/bio/pair.c\<close> and the calls of \<open>crypto/bio/bio.c\<close> that reach it: two BIOs joined
  by ring buffers. The locale \<open>pipe\<close> is the contract of such a connection: what is read at
  one end is a prefix of what was written at the other.
\<close>

section \<open>State\<close>

text \<open>A \<open>BIO\<close> pointer is a number, and the heap of BIOs a function on such numbers.\<close>

type_synonym bio_id = nat

record bio_bio =
  h_peer :: "bio_id option"
  h_closed :: bool
  h_len :: nat
  h_offset :: nat
  h_size :: nat
  h_buf :: "byte list option"
  h_request :: nat

record bio =
  bi_init :: bool
  bi_shutdown :: int
  bi_flags :: u32
  bi_retry_reason :: int
  bi_ptr :: bio_bio
  bi_num_read :: nat
  bi_num_write :: nat

type_synonym bios = "bio_id \<Rightarrow> bio"

definition BIO_FLAGS_READ :: u32 where
  "BIO_FLAGS_READ = 0x01"

definition BIO_FLAGS_WRITE :: u32 where
  "BIO_FLAGS_WRITE = 0x02"

definition BIO_FLAGS_IO_SPECIAL :: u32 where
  "BIO_FLAGS_IO_SPECIAL = 0x04"

definition BIO_FLAGS_SHOULD_RETRY :: u32 where
  "BIO_FLAGS_SHOULD_RETRY = 0x08"

definition kRetryFlags :: u32 where
  "kRetryFlags = (BIO_FLAGS_READ OR BIO_FLAGS_WRITE OR BIO_FLAGS_IO_SPECIAL) OR BIO_FLAGS_SHOULD_RETRY"

definition BIO_clear_retry_flags :: "bio \<Rightarrow> bio" where
  "BIO_clear_retry_flags bio = bio\<lparr>bi_flags := bi_flags bio AND NOT kRetryFlags, bi_retry_reason := 0\<rparr>"

definition BIO_set_retry_read :: "bio \<Rightarrow> bio" where
  "BIO_set_retry_read bio = bio\<lparr>bi_flags := bi_flags bio OR (BIO_FLAGS_READ OR BIO_FLAGS_SHOULD_RETRY)\<rparr>"

definition BIO_set_retry_write :: "bio \<Rightarrow> bio" where
  "BIO_set_retry_write bio = bio\<lparr>bi_flags := bi_flags bio OR (BIO_FLAGS_WRITE OR BIO_FLAGS_SHOULD_RETRY)\<rparr>"

text \<open>Updating the \<open>bio_bio_st\<close> a BIO owns, and the conversions between \<open>int\<close> and \<open>size_t\<close>.\<close>

definition upd_ptr :: "bio_id \<Rightarrow> (bio_bio \<Rightarrow> bio_bio) \<Rightarrow> bios \<Rightarrow> bios" where
  "upd_ptr x f bs = bs(x := (bs x)\<lparr>bi_ptr := f (bi_ptr (bs x))\<rparr>)"

definition upd_bio :: "bio_id \<Rightarrow> (bio \<Rightarrow> bio) \<Rightarrow> bios \<Rightarrow> bios" where
  "upd_bio x f bs = bs(x := f (bs x))"

definition size_of_int :: "int \<Rightarrow> nat" where
  "size_of_int i = unat (of_int i :: u64)"

definition int_of_size :: "nat \<Rightarrow> int" where
  "int_of_size n = sint (of_nat n :: u32)"

section \<open>The code\<close>

definition sizeof_bio_bio :: nat where
  "sizeof_bio_bio = 56"

definition bio_new :: "alloc \<Rightarrow> bio_bio option" where
  "bio_new env =
     (case OPENSSL_malloc env sizeof_bio_bio of
        None \<Rightarrow> None
      | Some _ \<Rightarrow> Some \<lparr>h_peer = None, h_closed = False, h_len = 0, h_offset = 0, h_size = 17 * 1024,
                       h_buf = None, h_request = 0\<rparr>)"

definition bio_destroy_pair :: "bio_id \<Rightarrow> bios \<Rightarrow> bios" where
  "bio_destroy_pair x bs =
     (case h_peer (bi_ptr (bs x)) of
        None \<Rightarrow> bs
      | Some y \<Rightarrow>
          let reset = (\<lambda>b. b\<lparr>h_peer := None, h_len := 0, h_offset := 0\<rparr>);
              bs = upd_bio y (\<lambda>bio. bio\<lparr>bi_init := False\<rparr>) (upd_ptr y reset bs)
          in upd_bio x (\<lambda>bio. bio\<lparr>bi_init := False\<rparr>) (upd_ptr x reset bs))"

text \<open>
  The do-while loops over the ring. That they end at all depends on the invariant, so they
  are partial; \<open>overwrite\<close> is the \<open>memcpy\<close> into the buffer.
\<close>

definition overwrite :: "nat \<Rightarrow> byte list \<Rightarrow> byte list \<Rightarrow> byte list" where
  "overwrite pos d xs = take pos xs @ d @ drop (pos + length d) xs"

partial_function (option) bio_read_loop :: "nat \<Rightarrow> byte list \<Rightarrow> bio_bio \<Rightarrow> (byte list \<times> bio_bio) option" where
  "bio_read_loop rest out b =
     (let chunk = (if size_add (h_offset b) rest \<le> h_size b then rest else h_size b - h_offset b);
          copied = (case h_buf b of None \<Rightarrow> [] | Some buf \<Rightarrow> take chunk (drop (h_offset b) buf));
          b = b\<lparr>h_len := h_len b - chunk\<rparr>;
          b = (if h_len b \<noteq> 0
               then (let offset = h_offset b + chunk
                     in b\<lparr>h_offset := (if offset = h_size b then 0 else offset)\<rparr>)
               else b\<lparr>h_offset := 0\<rparr>);
          rest = rest - chunk
      in if rest \<noteq> 0 then bio_read_loop rest (out @ copied) b else Some (out @ copied, b))"

partial_function (option) bio_write_loop :: "nat \<Rightarrow> byte list \<Rightarrow> bio_bio \<Rightarrow> bio_bio option" where
  "bio_write_loop rest dat b =
     (let write_offset = size_add (h_offset b) (h_len b);
          write_offset = (if write_offset \<ge> h_size b then write_offset - h_size b else write_offset);
          chunk = (if size_add write_offset rest \<le> h_size b then rest else h_size b - write_offset);
          b = b\<lparr>h_buf := map_option (overwrite write_offset (take chunk dat)) (h_buf b), h_len := h_len b + chunk\<rparr>;
          rest = rest - chunk
      in if rest \<noteq> 0 then bio_write_loop rest (drop chunk dat) b else Some b)"

declare bio_read_loop.simps [code] bio_write_loop.simps [code]

text \<open>
  \<open>bio_read\<close> returns the number of bytes and the bytes it stored; \<open>want\<close> says that the
  buffer is not \<open>NULL\<close>. A failed \<open>assert(b->peer)\<close> is \<open>None\<close>, as is a loop without end.
\<close>

definition bio_read :: "bio_id \<Rightarrow> bool \<Rightarrow> int \<Rightarrow> bios \<Rightarrow> ((int \<times> byte list) \<times> bios) option" where
  "bio_read x want size' bs =
     (let size = size_of_int size';
          bs = upd_bio x BIO_clear_retry_flags bs
      in if \<not> bi_init (bs x) then Some ((0, []), bs)
         else case h_peer (bi_ptr (bs x)) of
           None \<Rightarrow> None
         | Some y \<Rightarrow>
             let bs = upd_ptr y (\<lambda>b. b\<lparr>h_request := 0\<rparr>) bs;
                 peer_b = bi_ptr (bs y)
             in if \<not> want \<or> size = 0 then Some ((0, []), bs)
                else if h_len peer_b = 0 then
                  (if h_closed peer_b then Some ((0, []), bs)
                   else let bs = upd_bio x BIO_set_retry_read bs
                        in Some ((-1, []), upd_ptr y (\<lambda>b. b\<lparr>h_request := (if size \<le> h_size b then size else h_size b)\<rparr>) bs))
                else let size = (if h_len peer_b < size then h_len peer_b else size)
                in (case bio_read_loop size [] peer_b of
                      None \<Rightarrow> None
                    | Some (out, b) \<Rightarrow> Some ((int_of_size size, out), upd_ptr y (\<lambda>_. b) bs)))"

definition bio_write :: "bio_id \<Rightarrow> byte list option \<Rightarrow> int \<Rightarrow> bios \<Rightarrow> (int \<times> bios) option" where
  "bio_write x buf num' bs =
     (let num = size_of_int num';
          bs = upd_bio x BIO_clear_retry_flags bs
      in case (if bi_init (bs x) then buf else None) of
           None \<Rightarrow> Some (0, bs)
         | Some dat \<Rightarrow>
             if num = 0 then Some (0, bs)
             else let bs = upd_ptr x (\<lambda>b. b\<lparr>h_request := 0\<rparr>) bs;
                      b = bi_ptr (bs x)
             in if h_closed b then Some (-1, bs)
                else if h_len b = h_size b then Some (-1, upd_bio x BIO_set_retry_write bs)
                else let num = (if num > h_size b - h_len b then h_size b - h_len b else num)
                in (case bio_write_loop num dat b of
                      None \<Rightarrow> None
                    | Some b \<Rightarrow> Some (int_of_size num, upd_ptr x (\<lambda>_. b) bs)))"

text \<open>Giving one end its buffer, then joining both ends.\<close>

definition bio_buffer :: "alloc \<Rightarrow> nat \<Rightarrow> bio_id \<Rightarrow> bios \<Rightarrow> bool \<times> bios" where
  "bio_buffer env writebuf_len x bs =
     (let b = bi_ptr (bs x)
      in if h_buf b \<noteq> None then (True, bs)
         else let b = (if writebuf_len \<noteq> 0 then b\<lparr>h_size := writebuf_len\<rparr> else b)
         in (case OPENSSL_malloc env (h_size b) of
               None \<Rightarrow> (False, upd_ptr x (\<lambda>_. b) bs)
             | Some p \<Rightarrow> (True, upd_ptr x (\<lambda>_. b\<lparr>h_buf := Some p, h_len := 0, h_offset := 0\<rparr>) bs)))"

definition bio_make_pair :: "alloc \<Rightarrow> bio_id \<Rightarrow> bio_id \<Rightarrow> nat \<Rightarrow> nat \<Rightarrow> bios \<Rightarrow> bool \<times> bios" where
  "bio_make_pair env x y writebuf1_len writebuf2_len bs =
     (if h_peer (bi_ptr (bs x)) \<noteq> None \<or> h_peer (bi_ptr (bs y)) \<noteq> None then (False, bs)
      else case bio_buffer env writebuf1_len x bs of
        (False, bs) \<Rightarrow> (False, bs)
      | (True, bs) \<Rightarrow>
          (case bio_buffer env writebuf2_len y bs of
             (False, bs) \<Rightarrow> (False, bs)
           | (True, bs) \<Rightarrow>
               let bs = upd_ptr x (\<lambda>b. b\<lparr>h_peer := Some y, h_closed := False, h_request := 0\<rparr>) bs;
                   bs = upd_ptr y (\<lambda>b. b\<lparr>h_peer := Some x, h_closed := False, h_request := 0\<rparr>) bs;
                   bs = upd_bio x (\<lambda>bio. bio\<lparr>bi_init := True\<rparr>) bs
               in (True, upd_bio y (\<lambda>bio. bio\<lparr>bi_init := True\<rparr>) bs)))"

datatype bio_cmd =
    GET_WRITE_BUF_SIZE | GET_WRITE_GUARANTEE | GET_READ_REQUEST | RESET_READ_REQUEST | SHUTDOWN_WR
  | GET_CLOSE | SET_CLOSE | PENDING | WPENDING | FLUSH | EOF | OTHER

text \<open>\<open>num\<close> and \<open>other\<close> are the arguments of the command; sizes are below \<open>2 ^ 63\<close>, so the casts to \<open>long\<close> keep them.\<close>

definition bio_ctrl :: "bio_id \<Rightarrow> bio_cmd \<Rightarrow> int \<Rightarrow> bio_id option \<Rightarrow> bios \<Rightarrow> int \<times> bios" where
  "bio_ctrl x cmd num other bs =
     (let b = bi_ptr (bs x)
      in case cmd of
           GET_WRITE_BUF_SIZE \<Rightarrow> (int (h_size b), bs)
         | GET_WRITE_GUARANTEE \<Rightarrow>
             (if h_peer b = None \<or> h_closed b then 0 else int (h_size b) - int (h_len b), bs)
         | GET_READ_REQUEST \<Rightarrow> (int (h_request b), bs)
         | RESET_READ_REQUEST \<Rightarrow> (1, upd_ptr x (\<lambda>b. b\<lparr>h_request := 0\<rparr>) bs)
         | SHUTDOWN_WR \<Rightarrow> (1, upd_ptr x (\<lambda>b. b\<lparr>h_closed := True\<rparr>) bs)
         | GET_CLOSE \<Rightarrow> (bi_shutdown (bs x), bs)
         | SET_CLOSE \<Rightarrow> (1, upd_bio x (\<lambda>bio. bio\<lparr>bi_shutdown := num\<rparr>) bs)
         | PENDING \<Rightarrow> (case h_peer b of None \<Rightarrow> 0 | Some y \<Rightarrow> int (h_len (bi_ptr (bs y))), bs)
         | WPENDING \<Rightarrow> (if h_buf b \<noteq> None then int (h_len b) else 0, bs)
         | FLUSH \<Rightarrow> (1, bs)
         | EOF \<Rightarrow> (case other of None \<Rightarrow> 1
                   | Some y \<Rightarrow> if h_len (bi_ptr (bs y)) = 0 \<and> h_closed (bi_ptr (bs y)) then 1 else 0, bs)
         | OTHER \<Rightarrow> (0, bs))"

definition BIO_ctrl_get_read_request :: "bio_id \<Rightarrow> bios \<Rightarrow> int \<times> bios" where
  "BIO_ctrl_get_read_request x = bio_ctrl x GET_READ_REQUEST 0 None"

definition BIO_ctrl_get_write_guarantee :: "bio_id \<Rightarrow> bios \<Rightarrow> int \<times> bios" where
  "BIO_ctrl_get_write_guarantee x = bio_ctrl x GET_WRITE_GUARANTEE 0 None"

definition BIO_shutdown_wr :: "bio_id \<Rightarrow> bios \<Rightarrow> int \<times> bios" where
  "BIO_shutdown_wr x = bio_ctrl x SHUTDOWN_WR 0 None"

text \<open>The public entry points, on a BIO of this method.\<close>

definition BIO_read :: "bio_id \<Rightarrow> bool \<Rightarrow> int \<Rightarrow> bios \<Rightarrow> ((int \<times> byte list) \<times> bios) option" where
  "BIO_read x want len bs =
     (if \<not> bi_init (bs x) then Some ((-2, []), bs)
      else if len \<le> 0 then Some ((0, []), bs)
      else (case bio_read x want len bs of
              None \<Rightarrow> None
            | Some ((ret, out), bs) \<Rightarrow>
                Some ((ret, out), if ret > 0 then upd_bio x (\<lambda>bio. bio\<lparr>bi_num_read := size_add (bi_num_read bio) (nat ret)\<rparr>) bs
                                  else bs)))"

definition BIO_write :: "bio_id \<Rightarrow> byte list option \<Rightarrow> int \<Rightarrow> bios \<Rightarrow> (int \<times> bios) option" where
  "BIO_write x inp inl bs =
     (if \<not> bi_init (bs x) then Some (-2, bs)
      else if inl \<le> 0 then Some (0, bs)
      else (case bio_write x inp inl bs of
              None \<Rightarrow> None
            | Some (ret, bs) \<Rightarrow>
                Some (ret, if ret > 0 then upd_bio x (\<lambda>bio. bio\<lparr>bi_num_write := size_add (bi_num_write bio) (nat ret)\<rparr>) bs
                           else bs)))"

partial_function (option) BIO_write_all :: "bio_id \<Rightarrow> byte list \<Rightarrow> nat \<Rightarrow> bios \<Rightarrow> (bool \<times> bios) option" where
  "BIO_write_all x dat len bs =
     (if len > 0 then
        (case BIO_write x (Some dat) (if int len > int INT_MAX then int INT_MAX else int len) bs of
           None \<Rightarrow> None
         | Some (ret, bs) \<Rightarrow>
             if ret \<le> 0 then Some (False, bs)
             else BIO_write_all x (drop (nat ret) dat) (len - nat ret) bs)
      else Some (True, bs))"

declare BIO_write_all.simps [code]

section \<open>The ring\<close>

definition wf_half :: "bio_bio \<Rightarrow> bool" where
  "wf_half b \<longleftrightarrow> 0 < h_size b \<and> h_size b < 2 ^ 62 \<and> h_len b \<le> h_size b \<and> h_offset b < h_size b \<and>
     (\<exists>buf. h_buf b = Some buf \<and> length buf = h_size b)"

definition ring :: "bio_bio \<Rightarrow> byte list" where
  "ring b = (case h_buf b of None \<Rightarrow> [] | Some buf \<Rightarrow> take (h_len b) (drop (h_offset b) buf @ take (h_offset b) buf))"

lemma length_ring: "wf_half b \<Longrightarrow> length (ring b) = h_len b"
  by (auto simp: wf_half_def ring_def)

text \<open>One round of the write loop: a chunk that fits without wrapping.\<close>

lemma ring_write_chunk:
  assumes "length buf = n" and "off < n" and "len + length d \<le> n"
    and "wo = (if off + len \<ge> n then off + len - n else off + len)" and "wo + length d \<le> n"
  shows "take (len + length d) (drop off (overwrite wo d buf) @ take off (overwrite wo d buf)) =
    take len (drop off buf @ take off buf) @ d"
proof (cases "off + len \<ge> n")
  case True
  then have wo: "wo = off + len - n" "wo + length d \<le> off" using assms by simp_all
  have "drop off (overwrite wo d buf) = drop off buf"
    using wo assms(1,2) by (simp add: overwrite_def)
  moreover have "take off (overwrite wo d buf) = take wo buf @ d @ take (off - wo - length d) (drop (wo + length d) buf)"
    using wo assms(1,2) by (simp add: overwrite_def min_absorb1)
  moreover have "off + len - n = len + off - n" by simp
  ultimately show ?thesis
    using wo True assms(1,2) by (simp add: min_absorb1)
next
  case False
  then have wo: "wo = off + len" using assms(4) by simp
  then have "drop off (overwrite wo d buf) = take len (drop off buf) @ d @ drop (wo + length d) buf"
    using assms(1,5) by (simp add: overwrite_def drop_take)
  then show ?thesis using wo False assms(1) by simp
qed

lemma bio_write_loop_ok:
  assumes "wf_half b" and "0 < rest" and "h_len b + rest \<le> h_size b" and "rest \<le> length dat"
  shows "\<exists>buf. bio_write_loop rest dat b = Some (b\<lparr>h_buf := Some buf, h_len := h_len b + rest\<rparr>) \<and>
    wf_half (b\<lparr>h_buf := Some buf, h_len := h_len b + rest\<rparr>) \<and>
    ring (b\<lparr>h_buf := Some buf, h_len := h_len b + rest\<rparr>) = ring b @ take rest dat"
  using assms
proof (induction rest arbitrary: b dat rule: less_induct)
  case (less rest)
  obtain buf where buf: "h_buf b = Some buf" "length buf = h_size b" and
    n: "0 < h_size b" "h_size b < 2 ^ 62" "h_len b \<le> h_size b" "h_offset b < h_size b"
    using less.prems(1) by (auto simp: wf_half_def)
  define wo where "wo = (if h_offset b + h_len b \<ge> h_size b then h_offset b + h_len b - h_size b else h_offset b + h_len b)"
  have wo: "wo < h_size b" using n by (simp add: wo_def) linarith
  define chunk where "chunk = (if wo + rest \<le> h_size b then rest else h_size b - wo)"
  have chunk: "0 < chunk" "chunk \<le> rest" "wo + chunk \<le> h_size b"
    using wo less.prems(2) by (auto simp: chunk_def)
  have sz: "size_add (h_offset b) (h_len b) = h_offset b + h_len b" "size_add wo rest = wo + rest"
    using n wo less.prems(3) by (simp_all add: size_mod_def)
  define buf' where "buf' = overwrite wo (take chunk dat) buf"
  define b' where "b' = b\<lparr>h_buf := Some buf', h_len := h_len b + chunk\<rparr>"
  have step: "bio_write_loop rest dat b =
      (if rest - chunk \<noteq> 0 then bio_write_loop (rest - chunk) (drop chunk dat) b' else Some b')"
    by (subst bio_write_loop.simps, unfold Let_def sz(1) wo_def [symmetric] sz(2) chunk_def [symmetric])
       (simp add: buf(1) buf'_def b'_def)
  have lend: "length (take chunk dat) = chunk" using chunk less.prems(4) by simp
  have len': "length buf' = h_size b"
    using chunk(3) buf(2) lend by (simp add: buf'_def overwrite_def)
  have "ring b' = take (h_len b + chunk) (drop (h_offset b) buf' @ take (h_offset b) buf')"
    by (simp add: ring_def b'_def)
  also have "\<dots> = take (h_len b) (drop (h_offset b) buf @ take (h_offset b) buf) @ take chunk dat"
    using ring_write_chunk [OF buf(2) n(4) _ wo_def, of "take chunk dat", unfolded lend, folded buf'_def] chunk(2,3) less.prems(3)
    by linarith
  finally have ring': "ring b' = ring b @ take chunk dat" by (simp add: ring_def buf(1))
  have wf': "wf_half b'"
    using n len' chunk less.prems(3) by (simp add: wf_half_def b'_def)
  show ?case
  proof (cases "rest - chunk = 0")
    case True
    then have "rest = chunk" using chunk by simp
    then show ?thesis
      using step wf' ring' True by (intro exI [of _ buf']) (simp add: b'_def)
  next
    case False
    have hlen: "h_len b' + (rest - chunk) = h_len b + rest" using chunk by (simp add: b'_def)
    have l: "rest - chunk < rest" "0 < rest - chunk" "h_len b' + (rest - chunk) \<le> h_size b'" "rest - chunk \<le> length (drop chunk dat)"
      using False chunk less.prems(3) diff_le_mono [OF less.prems(4), of chunk] unfolding hlen by (simp_all add: b'_def)
    obtain buf2 where b2: "bio_write_loop (rest - chunk) (drop chunk dat) b' =
        Some (b'\<lparr>h_buf := Some buf2, h_len := h_len b + rest\<rparr>)"
        "wf_half (b'\<lparr>h_buf := Some buf2, h_len := h_len b + rest\<rparr>)"
        "ring (b'\<lparr>h_buf := Some buf2, h_len := h_len b + rest\<rparr>) = ring b' @ take (rest - chunk) (drop chunk dat)"
      using less.IH [OF l(1) wf' l(2-4)] unfolding hlen by blast
    have "take rest dat = take chunk dat @ take (rest - chunk) (drop chunk dat)"
      using take_add [of chunk "rest - chunk" dat] chunk(2) by simp
    then show ?thesis
      using step False b2 ring' by (intro exI [of _ buf2]) (simp add: b'_def)
  qed
qed

text \<open>One round of the read loop.\<close>

lemma ring_read_chunk:
  assumes "wf_half b" and "chunk \<le> h_len b" and "h_offset b + chunk \<le> h_size b" and "h_buf b = Some buf"
    and "b' = (if h_len b - chunk \<noteq> 0
               then b\<lparr>h_len := h_len b - chunk, h_offset := (if h_offset b + chunk = h_size b then 0 else h_offset b + chunk)\<rparr>
               else b\<lparr>h_len := h_len b - chunk, h_offset := 0\<rparr>)"
  shows "wf_half b' \<and> ring b = take chunk (drop (h_offset b) buf) @ ring b'"
proof -
  define len off n where "len = h_len b" and "off = h_offset b" and "n = h_size b"
  have *: "length buf = n" "off < n" "len \<le> n" "chunk \<le> len" "off + chunk \<le> n" "n < 2 ^ 62"
    using assms(1-4) by (auto simp: wf_half_def len_def off_def n_def)
  have wf: "wf_half b'"
    using assms(1,4) * unfolding assms(5) by (auto simp: wf_half_def len_def off_def n_def)
  have r: "ring b = take len (drop off buf @ take off buf)" by (simp add: ring_def assms(4) len_def off_def)
  have first: "take chunk (ring b) = take chunk (drop off buf)"
    unfolding r using * by (simp add: min_absorb1)
  have "ring b' = drop chunk (ring b)"
  proof (cases "len - chunk = 0")
    case True
    then show ?thesis using * length_ring [OF assms(1)] assms(5) by (simp add: ring_def assms(4) len_def)
  next
    case False
    have dr: "drop chunk (ring b) = take (len - chunk) (drop (off + chunk) buf @ take off buf)"
      unfolding r using * by (simp add: drop_take add.commute)
    show ?thesis
    proof (cases "off + chunk = n")
      case True
      have le: "len - chunk \<le> off" using True * by simp
      have "ring b' = take (len - chunk) buf"
        using False True * assms(5) by (simp add: ring_def assms(4) len_def off_def n_def)
      then show ?thesis using dr True * le by (simp add: min_absorb1)
    next
      case no: False
      have "ring b' = take (len - chunk) (drop (off + chunk) buf @ take (off + chunk) buf)"
        using False no * assms(5) by (simp add: ring_def assms(4) len_def off_def n_def)
      also have "take (off + chunk) buf = take off buf @ take chunk (drop off buf)" by (rule take_add)
      finally show ?thesis
        using dr * by simp
    qed
  qed
  moreover have "ring b = take chunk (ring b) @ drop chunk (ring b)" by simp
  ultimately show ?thesis using wf first by (simp add: off_def)
qed

lemma bio_read_loop_ok:
  assumes "wf_half b" and "0 < rest" and "rest \<le> h_len b"
  shows "\<exists>off. bio_read_loop rest out b =
      Some (out @ take rest (ring b), b\<lparr>h_len := h_len b - rest, h_offset := off\<rparr>) \<and>
    wf_half (b\<lparr>h_len := h_len b - rest, h_offset := off\<rparr>) \<and>
    ring (b\<lparr>h_len := h_len b - rest, h_offset := off\<rparr>) = drop rest (ring b)"
  using assms
proof (induction rest arbitrary: b out rule: less_induct)
  case (less rest)
  obtain buf where buf: "h_buf b = Some buf" "length buf = h_size b" and
    n: "0 < h_size b" "h_size b < 2 ^ 62" "h_len b \<le> h_size b" "h_offset b < h_size b"
    using less.prems(1) by (auto simp: wf_half_def)
  define chunk where "chunk = (if h_offset b + rest \<le> h_size b then rest else h_size b - h_offset b)"
  have chunk: "0 < chunk" "chunk \<le> rest" "h_offset b + chunk \<le> h_size b" "chunk \<le> h_len b"
    using n less.prems(2,3) by (auto simp: chunk_def)
  have sz: "size_add (h_offset b) rest = h_offset b + rest"
    using n less.prems(3) by (simp add: size_mod_def)
  define b' where "b' = (if h_len b - chunk \<noteq> 0
               then b\<lparr>h_len := h_len b - chunk, h_offset := (if h_offset b + chunk = h_size b then 0 else h_offset b + chunk)\<rparr>
               else b\<lparr>h_len := h_len b - chunk, h_offset := 0\<rparr>)"
  define got where "got = take chunk (drop (h_offset b) buf)"
  have step: "bio_read_loop rest out b =
      (if rest - chunk \<noteq> 0 then bio_read_loop (rest - chunk) (out @ got) b' else Some (out @ got, b'))"
    by (subst bio_read_loop.simps, unfold Let_def sz chunk_def [symmetric]) (simp add: buf(1) b'_def got_def)
  have wf': "wf_half b'" and ring': "ring b = got @ ring b'"
    using ring_read_chunk [OF less.prems(1) chunk(4,3) buf(1) b'_def] by (simp_all add: got_def)
  have lg: "length got = chunk" using chunk buf(2) by (simp add: got_def)
  have shape: "\<exists>off. b' = b\<lparr>h_len := h_len b - chunk, h_offset := off\<rparr>"
    by (auto simp: b'_def)
  then obtain off where b': "b' = b\<lparr>h_len := h_len b - chunk, h_offset := off\<rparr>" by blast
  show ?case
  proof (cases "rest - chunk = 0")
    case True
    then have "rest = chunk" using chunk by simp
    then show ?thesis
      using step wf' ring' lg True by (intro exI [of _ off]) (simp add: b')
  next
    case False
    have l: "rest - chunk \<le> h_len b'" using less.prems(3) by (simp add: b')
    obtain off2 where b2: "bio_read_loop (rest - chunk) (out @ got) b' =
        Some ((out @ got) @ take (rest - chunk) (ring b'), b'\<lparr>h_len := h_len b' - (rest - chunk), h_offset := off2\<rparr>)"
        "wf_half (b'\<lparr>h_len := h_len b' - (rest - chunk), h_offset := off2\<rparr>)"
        "ring (b'\<lparr>h_len := h_len b' - (rest - chunk), h_offset := off2\<rparr>) = drop (rest - chunk) (ring b')"
      using less.IH [OF _ wf' _ l, of "out @ got"] False chunk by auto
    have "h_len b' - (rest - chunk) = h_len b - rest" using chunk by (simp add: b')
    then show ?thesis
      using step False b2 ring' lg chunk(2) by (intro exI [of _ off2]) (simp add: b')
  qed
qed

section \<open>A pair as two queues\<close>

definition wf_pair :: "bio_id \<Rightarrow> bio_id \<Rightarrow> bios \<Rightarrow> bool" where
  "wf_pair x y bs \<longleftrightarrow> x \<noteq> y \<and> bi_init (bs x) \<and> bi_init (bs y) \<and>
     h_peer (bi_ptr (bs x)) = Some y \<and> h_peer (bi_ptr (bs y)) = Some x \<and>
     wf_half (bi_ptr (bs x)) \<and> wf_half (bi_ptr (bs y))"

text \<open>The bytes written at one end that the other has not read.\<close>

definition pending :: "bio_id \<Rightarrow> bios \<Rightarrow> byte list" where
  "pending x bs = ring (bi_ptr (bs x))"

definition free_space :: "bio_id \<Rightarrow> bios \<Rightarrow> nat" where
  "free_space x bs = h_size (bi_ptr (bs x)) - h_len (bi_ptr (bs x))"

lemma size_of_int: "0 \<le> i \<Longrightarrow> i < 2 ^ 31 \<Longrightarrow> size_of_int i = nat i"
proof -
  assume "0 \<le> i" and "i < 2 ^ 31"
  moreover from this obtain n where "i = int n" by (metis nonneg_int_cases)
  ultimately show ?thesis by (simp add: size_of_int_def unat_of_nat)
qed

lemma int_of_size: "n < 2 ^ 31 \<Longrightarrow> int_of_size n = int n"
proof -
  assume "n < 2 ^ 31"
  then have "int n < 2 ^ 31" by (metis of_nat_less_numeral_power_cancel_iff)
  then show ?thesis
    by (simp add: int_of_size_def signed_of_nat signed_take_bit_int_eq_self)
qed

lemma wf_pair_flags [simp]:
  "wf_pair x y (upd_bio z BIO_clear_retry_flags bs) = wf_pair x y bs"
  "wf_pair x y (upd_bio z BIO_set_retry_read bs) = wf_pair x y bs"
  "wf_pair x y (upd_bio z BIO_set_retry_write bs) = wf_pair x y bs"
  by (auto simp: wf_pair_def upd_bio_def BIO_clear_retry_flags_def BIO_set_retry_read_def BIO_set_retry_write_def)

lemma ptr_flags [simp]:
  "bi_ptr (upd_bio z BIO_clear_retry_flags bs w) = bi_ptr (bs w)"
  "bi_ptr (upd_bio z BIO_set_retry_read bs w) = bi_ptr (bs w)"
  "bi_ptr (upd_bio z BIO_set_retry_write bs w) = bi_ptr (bs w)"
  "bi_ptr (upd_ptr z f bs w) = (if w = z then f (bi_ptr (bs w)) else bi_ptr (bs w))"
  "bi_init (upd_ptr z f bs w) = bi_init (bs w)"
  "bi_init (upd_bio z BIO_clear_retry_flags bs w) = bi_init (bs w)"
  by (auto simp: upd_bio_def upd_ptr_def BIO_clear_retry_flags_def BIO_set_retry_read_def BIO_set_retry_write_def)

lemma wf_half_request [simp]: "wf_half (b\<lparr>h_request := r\<rparr>) = wf_half b" "ring (b\<lparr>h_request := r\<rparr>) = ring b"
  by (simp_all add: wf_half_def ring_def split: option.split)

lemma wf_pair_ptr:
  assumes "wf_pair x y bs" and "wf_half (f (bi_ptr (bs z)))" and "h_peer (f (bi_ptr (bs z))) = h_peer (bi_ptr (bs z))"
  shows "wf_pair x y (upd_ptr z f bs)"
  using assms by (auto simp: wf_pair_def)

theorem bio_write_ok:
  assumes "wf_pair x y bs" and "0 < num" and "num < 2 ^ 31" and "num \<le> length dat" and "\<not> h_closed (bi_ptr (bs x))"
  shows "\<exists>r bs'. bio_write x (Some dat) (int num) bs = Some (r, bs') \<and> wf_pair x y bs' \<and> pending y bs' = pending y bs \<and>
    (if free_space x bs = 0 then r = -1 \<and> pending x bs' = pending x bs
     else r = int (min num (free_space x bs)) \<and> pending x bs' = pending x bs @ take (nat r) dat)"
proof -
  let ?b = "bi_ptr (bs x)"
  define b where "b = ?b\<lparr>h_request := 0\<rparr>"
  define bs1 where "bs1 = upd_ptr x (\<lambda>b. b\<lparr>h_request := 0\<rparr>) (upd_bio x BIO_clear_retry_flags bs)"
  have wf: "wf_half b" "x \<noteq> y" "bi_init (bs x)" using assms(1) by (simp_all add: wf_pair_def b_def)
  have bs1: "wf_pair x y bs1" "bi_ptr (bs1 x) = b" "pending y bs1 = pending y bs" "pending x bs1 = ring b" "ring b = pending x bs"
    using assms(1) wf(2) by (auto simp: bs1_def b_def pending_def intro!: wf_pair_ptr) (auto simp: wf_pair_def)
  have num: "size_of_int (int num) = num"
    using assms(3) size_of_int [of "int num"] by (metis nat_int of_nat_0_le_iff of_nat_less_numeral_power_cancel_iff)
  have free: "free_space x bs = h_size b - h_len b" by (simp add: free_space_def b_def)
  have le: "h_len b \<le> h_size b" using wf(1) by (simp add: wf_half_def)
  have code: "bio_write x (Some dat) (int num) bs =
     (if h_len b = h_size b then Some (-1, upd_bio x BIO_set_retry_write bs1)
      else let k = (if num > h_size b - h_len b then h_size b - h_len b else num)
           in (case bio_write_loop k dat b of None \<Rightarrow> None
               | Some b \<Rightarrow> Some (int_of_size k, upd_ptr x (\<lambda>_. b) bs1)))"
    unfolding bio_write_def num Let_def bs1_def [symmetric] bs1(2)
    using wf(3) assms(2,5) by (simp add: b_def)
  show ?thesis
  proof (cases "h_len b = h_size b")
    case True
    then show ?thesis using code bs1 free by (simp add: pending_def)
  next
    case False
    define k where "k = min num (h_size b - h_len b)"
    have k: "0 < k" "h_len b + k \<le> h_size b" "k \<le> length dat" "k < 2 ^ 31" "k = min num (free_space x bs)"
      using False le assms(2-4) free by (auto simp: k_def)
    obtain buf where b': "bio_write_loop k dat b = Some (b\<lparr>h_buf := Some buf, h_len := h_len b + k\<rparr>)"
        "wf_half (b\<lparr>h_buf := Some buf, h_len := h_len b + k\<rparr>)"
        "ring (b\<lparr>h_buf := Some buf, h_len := h_len b + k\<rparr>) = ring b @ take k dat"
      using bio_write_loop_ok [OF wf(1) k(1-3)] by blast
    have "(if num > h_size b - h_len b then h_size b - h_len b else num) = k" by (auto simp: k_def)
    then have "bio_write x (Some dat) (int num) bs =
        Some (int k, upd_ptr x (\<lambda>_. b\<lparr>h_buf := Some buf, h_len := h_len b + k\<rparr>) bs1)"
      using code False b'(1) int_of_size [OF k(4)] by (simp add: Let_def)
    moreover have "wf_pair x y (upd_ptr x (\<lambda>_. b\<lparr>h_buf := Some buf, h_len := h_len b + k\<rparr>) bs1)"
      using bs1(1,2) b'(2) by (intro wf_pair_ptr) simp_all
    moreover have "free_space x bs \<noteq> 0" using False le free by simp
    ultimately show ?thesis
      using b'(3) bs1(3,5) wf(2) k(5) by (simp add: pending_def)
  qed
qed

theorem bio_read_ok:
  assumes "wf_pair x y bs" and "0 < num" and "num < 2 ^ 31"
  shows "\<exists>r out bs'. bio_read x True (int num) bs = Some ((r, out), bs') \<and> wf_pair x y bs' \<and> pending x bs' = pending x bs \<and>
    pending y bs = out @ pending y bs' \<and> length out = min num (length (pending y bs)) \<and>
    (if pending y bs = [] then r = (if h_closed (bi_ptr (bs y)) then 0 else -1) else r = int (length out))"
proof -
  define b where "b = (bi_ptr (bs y))\<lparr>h_request := 0\<rparr>"
  define bs1 where "bs1 = upd_ptr y (\<lambda>b. b\<lparr>h_request := 0\<rparr>) (upd_bio x BIO_clear_retry_flags bs)"
  have wf: "wf_half b" "x \<noteq> y" "bi_init (bs x)" "h_peer (bi_ptr (bs x)) = Some y"
    using assms(1) by (simp_all add: wf_pair_def b_def)
  have bs1: "wf_pair x y bs1" "bi_ptr (bs1 y) = b" "pending x bs1 = pending x bs" "pending y bs1 = ring b" "ring b = pending y bs"
    using assms(1) wf(2) by (auto simp: bs1_def b_def pending_def intro!: wf_pair_ptr) (auto simp: wf_pair_def)
  have num: "size_of_int (int num) = num"
    using assms(3) size_of_int [of "int num"] by (metis nat_int of_nat_0_le_iff of_nat_less_numeral_power_cancel_iff)
  have len: "length (pending y bs) = h_len b" using length_ring [OF wf(1)] bs1(5) by simp
  have closed: "h_closed b = h_closed (bi_ptr (bs y))" by (simp add: b_def)
  define req where "req = (\<lambda>b :: bio_bio. b\<lparr>h_request := (if num \<le> h_size b then num else h_size b)\<rparr>)"
  have code: "bio_read x True (int num) bs =
     (if h_len b = 0 then
        (if h_closed b then Some ((0, []), bs1) else Some ((-1, []), upd_ptr y req (upd_bio x BIO_set_retry_read bs1)))
      else (case bio_read_loop (if h_len b < num then h_len b else num) [] b of
              None \<Rightarrow> None
            | Some (out, b') \<Rightarrow> Some ((int_of_size (if h_len b < num then h_len b else num), out), upd_ptr y (\<lambda>_. b') bs1)))"
  proof -
    have p: "h_peer (bi_ptr (upd_bio x BIO_clear_retry_flags bs x)) = Some y" "bi_init (upd_bio x BIO_clear_retry_flags bs x)"
      using wf(3,4) by simp_all
    show ?thesis
      unfolding bio_read_def num Let_def p(1) option.case bs1_def [symmetric] bs1(2) req_def
      using p(2) assms(2) by simp
  qed
  show ?thesis
  proof (cases "h_len b = 0")
    case True
    then have "pending y bs = []" using len by simp
    moreover have "wf_pair x y (upd_ptr y req (upd_bio x BIO_set_retry_read bs1))"
      using bs1(1,2) wf(1) by (intro wf_pair_ptr) (simp_all add: req_def)
    moreover have "pending z (upd_ptr y req (upd_bio x BIO_set_retry_read bs1)) = pending z bs1" for z
      by (simp add: pending_def req_def)
    ultimately show ?thesis
      using code True bs1 closed by (cases "h_closed b") auto
  next
    case False
    define k where "k = min num (h_len b)"
    have k: "0 < k" "k \<le> h_len b" "k < 2 ^ 31" "(if h_len b < num then h_len b else num) = k"
      using False assms(2,3) by (auto simp: k_def)
    obtain off where b': "bio_read_loop k [] b = Some (take k (ring b), b\<lparr>h_len := h_len b - k, h_offset := off\<rparr>)"
        "wf_half (b\<lparr>h_len := h_len b - k, h_offset := off\<rparr>)" "ring (b\<lparr>h_len := h_len b - k, h_offset := off\<rparr>) = drop k (ring b)"
      using bio_read_loop_ok [OF wf(1) k(1,2), of "[]"] by auto
    have "bio_read x True (int num) bs =
        Some ((int k, take k (ring b)), upd_ptr y (\<lambda>_. b\<lparr>h_len := h_len b - k, h_offset := off\<rparr>) bs1)"
      using code False b'(1) int_of_size [OF k(3)] by (simp add: k(4))
    moreover have "wf_pair x y (upd_ptr y (\<lambda>_. b\<lparr>h_len := h_len b - k, h_offset := off\<rparr>) bs1)"
      using bs1(1,2) b'(2) by (intro wf_pair_ptr) simp_all
    moreover have "pending y bs \<noteq> []" using False len by auto
    ultimately show ?thesis
      using b'(3) bs1(3,5) wf(2) k len by (simp add: pending_def k_def)
  qed
qed

lemma bio_buffer_ok:
  assumes "bio_buffer env n x bs = (True, bs')" and "malloc_bounded env" and "h_buf (bi_ptr (bs x)) = None"
    and "n < 2 ^ 62" and "0 < h_size (bi_ptr (bs x))" and "h_size (bi_ptr (bs x)) < 2 ^ 62"
  shows "\<exists>p. bs' = upd_ptr x (\<lambda>b. b\<lparr>h_size := length p, h_buf := Some p, h_len := 0, h_offset := 0\<rparr>) bs \<and>
    length p = (if n \<noteq> 0 then n else h_size (bi_ptr (bs x)))"
proof -
  define sz where "sz = (if n \<noteq> 0 then n else h_size (bi_ptr (bs x)))"
  define b where "b = (if n \<noteq> 0 then (bi_ptr (bs x))\<lparr>h_size := n\<rparr> else bi_ptr (bs x))"
  have b: "h_size b = sz" "b = (bi_ptr (bs x))\<lparr>h_size := sz\<rparr>" by (simp_all add: b_def sz_def)
  obtain p where p: "OPENSSL_malloc env sz = Some p" and bs': "bs' = upd_ptr x (\<lambda>_. b\<lparr>h_buf := Some p, h_len := 0, h_offset := 0\<rparr>) bs"
    using assms(1,3) unfolding bio_buffer_def Let_def b_def [symmetric] b(1) by (auto split: option.splits)
  have "sz + 8 < size_mod" using assms(4,6) by (simp add: sz_def size_mod_def)
  then have "length p = sz" using OPENSSL_malloc_length [OF p] by simp
  moreover have "bs' = upd_ptr x (\<lambda>b. b\<lparr>h_size := sz, h_buf := Some p, h_len := 0, h_offset := 0\<rparr>) bs"
    unfolding bs' b(2) by (simp add: upd_ptr_def fun_eq_iff)
  ultimately show ?thesis unfolding sz_def [symmetric] by (intro exI [of _ p]) simp
qed

theorem bio_make_pair_ok:
  assumes "bio_make_pair env x y n m bs = (True, bs')" and "malloc_bounded env" and "x \<noteq> y"
    and "bio_new env = Some (bi_ptr (bs x))" and "bio_new env = Some (bi_ptr (bs y))" and "n < 2 ^ 62" and "m < 2 ^ 62"
  shows "wf_pair x y bs' \<and> pending x bs' = [] \<and> pending y bs' = [] \<and>
    h_size (bi_ptr (bs' x)) = (if n \<noteq> 0 then n else 17 * 1024) \<and> h_size (bi_ptr (bs' y)) = (if m \<noteq> 0 then m else 17 * 1024)"
proof -
  have "h_buf b = None \<and> h_size b = 17 * 1024 \<and> h_peer b = None" if "bio_new env = Some b" for b
    using that by (auto simp: bio_new_def split: option.splits)
  then have new: "h_buf (bi_ptr (bs z)) = None" "h_size (bi_ptr (bs z)) = 17 * 1024" "h_peer (bi_ptr (bs z)) = None"
    if "z = x \<or> z = y" for z
    using that assms(4,5) by auto
  obtain bs1 bs2 where b1: "bio_buffer env n x bs = (True, bs1)" and b2: "bio_buffer env m y bs1 = (True, bs2)"
    and bs': "bs' = upd_bio y (\<lambda>bio. bio\<lparr>bi_init := True\<rparr>) (upd_bio x (\<lambda>bio. bio\<lparr>bi_init := True\<rparr>)
        (upd_ptr y (\<lambda>b. b\<lparr>h_peer := Some x, h_closed := False, h_request := 0\<rparr>)
        (upd_ptr x (\<lambda>b. b\<lparr>h_peer := Some y, h_closed := False, h_request := 0\<rparr>) bs2)))"
    using assms(1) new by (auto simp: bio_make_pair_def Let_def split: prod.splits bool.splits)
  note nx = new [of x, simplified] and ny = new [of y, simplified]
  have "\<exists>p. bs1 = upd_ptr x (\<lambda>b. b\<lparr>h_size := length p, h_buf := Some p, h_len := 0, h_offset := 0\<rparr>) bs \<and>
      length p = (if n \<noteq> 0 then n else 17 * 1024)"
    using bio_buffer_ok [OF b1 assms(2) nx(1) assms(6)] unfolding nx(2) by (simp cong: if_cong split del: if_split)
  then obtain p where 1: "bs1 = upd_ptr x (\<lambda>b. b\<lparr>h_size := length p, h_buf := Some p, h_len := 0, h_offset := 0\<rparr>) bs"
      "length p = (if n \<noteq> 0 then n else 17 * 1024)" by blast
  have y: "bi_ptr (bs1 y) = bi_ptr (bs y)" using assms(3) by (simp add: 1(1))
  have "\<exists>q. bs2 = upd_ptr y (\<lambda>b. b\<lparr>h_size := length q, h_buf := Some q, h_len := 0, h_offset := 0\<rparr>) bs1 \<and>
      length q = (if m \<noteq> 0 then m else 17 * 1024)"
    using bio_buffer_ok [OF b2 assms(2) _ assms(7)] unfolding y ny(1,2) by (simp cong: if_cong split del: if_split)
  then obtain q where 2: "bs2 = upd_ptr y (\<lambda>b. b\<lparr>h_size := length q, h_buf := Some q, h_len := 0, h_offset := 0\<rparr>) bs1"
      "length q = (if m \<noteq> 0 then m else 17 * 1024)" by blast
  have "0 < length p" "length p < 2 ^ 62" "0 < length q" "length q < 2 ^ 62"
    using 1(2) 2(2) assms(6,7) by auto
  then show ?thesis
    using assms(3) 1(2) 2(2) unfolding bs' 2(1) 1(1)
    by (simp add: wf_pair_def wf_half_def pending_def ring_def upd_bio_def upd_ptr_def)
qed

section \<open>What goes in at one end comes out at the other\<close>

datatype event = Put "byte list" | Get nat

text \<open>A run of writes and reads: the bytes accepted, the bytes received, and the state after it.\<close>

fun pipe_run :: "(byte list \<Rightarrow> 's \<Rightarrow> (nat \<times> 's) option) \<Rightarrow> (nat \<Rightarrow> 's \<Rightarrow> (byte list \<times> 's) option) \<Rightarrow> event list \<Rightarrow> 's \<Rightarrow>
    (byte list \<times> byte list \<times> 's) option" where
  "pipe_run put get [] s = Some ([], [], s)"
| "pipe_run put get (Put d # es) s =
     (case put d s of
        None \<Rightarrow> None
      | Some (n, s) \<Rightarrow> map_option (\<lambda>(w, r, s). (take n d @ w, r, s)) (pipe_run put get es s))"
| "pipe_run put get (Get n # es) s =
     (case get n s of
        None \<Rightarrow> None
      | Some (d, s) \<Rightarrow> map_option (\<lambda>(w, r, s). (w, d @ r, s)) (pipe_run put get es s))"

locale pipe =
  fixes put :: "byte list \<Rightarrow> 's \<Rightarrow> (nat \<times> 's) option" and get :: "nat \<Rightarrow> 's \<Rightarrow> (byte list \<times> 's) option"
    and inv :: "'s \<Rightarrow> bool" and queue :: "'s \<Rightarrow> byte list" and good :: "event \<Rightarrow> bool"
  assumes put_law: "inv s \<Longrightarrow> good (Put d) \<Longrightarrow> \<exists>n s'. put d s = Some (n, s') \<and> inv s' \<and> queue s' = queue s @ take n d"
    and get_law: "inv s \<Longrightarrow> good (Get n) \<Longrightarrow> \<exists>d s'. get n s = Some (d, s') \<and> inv s' \<and> queue s = d @ queue s'"
begin

lemma run_delivers:
  "inv s \<Longrightarrow> \<forall>e \<in> set es. good e \<Longrightarrow>
   \<exists>w r s'. pipe_run put get es s = Some (w, r, s') \<and> inv s' \<and> queue s @ w = r @ queue s'"
proof (induction es arbitrary: s)
  case (Cons e es)
  show ?case
  proof (cases e)
    case (Put d)
    obtain n s1 where 1: "put d s = Some (n, s1)" "inv s1" "queue s1 = queue s @ take n d"
      using put_law [OF Cons.prems(1), of d] Cons.prems(2) Put by auto
    obtain w r s' where 2: "pipe_run put get es s1 = Some (w, r, s')" "inv s'" "queue s1 @ w = r @ queue s'"
      using Cons.IH [OF 1(2)] Cons.prems(2) by auto
    then show ?thesis using 1 Put by simp
  next
    case (Get n)
    obtain d s1 where 1: "get n s = Some (d, s1)" "inv s1" "queue s = d @ queue s1"
      using get_law [OF Cons.prems(1), of n] Cons.prems(2) Get by auto
    obtain w r s' where 2: "pipe_run put get es s1 = Some (w, r, s')" "inv s'" "queue s1 @ w = r @ queue s'"
      using Cons.IH [OF 1(2)] Cons.prems(2) by auto
    then show ?thesis using 1 Get by simp
  qed
qed simp

lemma run_prefix:
  assumes "inv s" and "queue s = []" and "\<forall>e \<in> set es. good e" and "pipe_run put get es s = Some (w, r, s')"
  shows "w = r @ queue s'"
  using run_delivers [OF assms(1,3)] assms(2,4) by auto

end

definition bio_put :: "bio_id \<Rightarrow> byte list \<Rightarrow> bios \<Rightarrow> (nat \<times> bios) option" where
  "bio_put x d bs = map_option (\<lambda>(r, bs). (nat r, bs)) (BIO_write x (Some d) (int (length d)) bs)"

definition bio_get :: "bio_id \<Rightarrow> nat \<Rightarrow> bios \<Rightarrow> (byte list \<times> bios) option" where
  "bio_get y n bs = map_option (\<lambda>((r, d), bs). (d, bs)) (BIO_read y True (int n) bs)"

definition int_event :: "event \<Rightarrow> bool" where
  "int_event e \<longleftrightarrow> (case e of Put d \<Rightarrow> length d < 2 ^ 31 | Get n \<Rightarrow> n < 2 ^ 31)"

lemma counters [simp]:
  "wf_pair x y (upd_bio z (\<lambda>bio. bio\<lparr>bi_num_write := f bio\<rparr>) bs) = wf_pair x y bs"
  "wf_pair x y (upd_bio z (\<lambda>bio. bio\<lparr>bi_num_read := f bio\<rparr>) bs) = wf_pair x y bs"
  "bi_ptr (upd_bio z (\<lambda>bio. bio\<lparr>bi_num_write := f bio\<rparr>) bs w) = bi_ptr (bs w)"
  "bi_ptr (upd_bio z (\<lambda>bio. bio\<lparr>bi_num_read := f bio\<rparr>) bs w) = bi_ptr (bs w)"
  "pending w (upd_bio z (\<lambda>bio. bio\<lparr>bi_num_write := f bio\<rparr>) bs) = pending w bs"
  "pending w (upd_bio z (\<lambda>bio. bio\<lparr>bi_num_read := f bio\<rparr>) bs) = pending w bs"
  by (auto simp: wf_pair_def upd_bio_def pending_def)

lemma BIO_write_ok:
  assumes "wf_pair x y bs" and "num \<le> length d" and "num < 2 ^ 31"
  shows "\<exists>r bs'. BIO_write x (Some d) (int num) bs = Some (r, bs') \<and> wf_pair x y bs' \<and> pending y bs' = pending y bs \<and>
    pending x bs' = pending x bs @ take (nat r) d \<and> r \<le> int num \<and>
    (0 < num \<longrightarrow> \<not> h_closed (bi_ptr (bs x)) \<longrightarrow> free_space x bs \<noteq> 0 \<longrightarrow> r = int (min num (free_space x bs)))"
proof -
  have init: "bi_init (bs x)" using assms(1) by (simp add: wf_pair_def)
  consider "num = 0" | "0 < num" "h_closed (bi_ptr (bs x))" | "0 < num" "\<not> h_closed (bi_ptr (bs x))" by blast
  then show ?thesis
  proof cases
    case 1
    then show ?thesis using assms(1) init by (simp add: BIO_write_def)
  next
    case 2
    let ?bs = "upd_ptr x (\<lambda>b. b\<lparr>h_request := 0\<rparr>) (upd_bio x BIO_clear_retry_flags bs)"
    have "size_of_int (int num) = num" using assms(3) size_of_int [of "int num"] by simp
    then have "BIO_write x (Some d) (int num) bs = Some (-1, ?bs)"
      using 2 init by (simp add: BIO_write_def bio_write_def Let_def)
    moreover have "wf_pair x y ?bs" using assms(1) by (intro wf_pair_ptr) (auto simp: wf_pair_def)
    ultimately show ?thesis using 2 by (simp add: pending_def)
  next
    case 3
    obtain r bs1 where w: "bio_write x (Some d) (int num) bs = Some (r, bs1)" "wf_pair x y bs1" "pending y bs1 = pending y bs"
      "if free_space x bs = 0 then r = -1 \<and> pending x bs1 = pending x bs
       else r = int (min num (free_space x bs)) \<and> pending x bs1 = pending x bs @ take (nat r) d"
      using bio_write_ok [OF assms(1) 3(1) assms(3,2) 3(2)] by blast
    define bs2 where "bs2 = (if 0 < r then upd_bio x (\<lambda>bio. bio\<lparr>bi_num_write := size_add (bi_num_write bio) (nat r)\<rparr>) bs1 else bs1)"
    have "BIO_write x (Some d) (int num) bs = Some (r, bs2)"
      using w(1) init 3 by (simp add: BIO_write_def bs2_def)
    moreover have "wf_pair x y bs2" "pending x bs2 = pending x bs1" "pending y bs2 = pending y bs1"
      using w(2) by (simp_all add: bs2_def)
    ultimately show ?thesis
      using w(3,4) by (cases "free_space x bs = 0") auto
  qed
qed

lemma BIO_read_ok:
  assumes "wf_pair x y bs" and "int_event (Get n)"
  shows "\<exists>r out bs'. BIO_read x True (int n) bs = Some ((r, out), bs') \<and> wf_pair x y bs' \<and> pending x bs' = pending x bs \<and>
    pending y bs = out @ pending y bs' \<and> length out = min n (length (pending y bs))"
proof -
  have init: "bi_init (bs x)" using assms(1) by (simp add: wf_pair_def)
  show ?thesis
  proof (cases "n = 0")
    case True
    then show ?thesis using assms(1) init by (simp add: BIO_read_def)
  next
    case False
    have n: "0 < n" "n < 2 ^ 31" using False assms(2) by (simp_all add: int_event_def)
    obtain r out bs1 where r: "bio_read x True (int n) bs = Some ((r, out), bs1)" "wf_pair x y bs1" "pending x bs1 = pending x bs"
        "pending y bs = out @ pending y bs1" "length out = min n (length (pending y bs))"
      using bio_read_ok [OF assms(1) n] by blast
    define bs2 where "bs2 = (if 0 < r then upd_bio x (\<lambda>bio. bio\<lparr>bi_num_read := size_add (bi_num_read bio) (nat r)\<rparr>) bs1 else bs1)"
    have "BIO_read x True (int n) bs = Some ((r, out), bs2)"
      using r(1) init False by (simp add: BIO_read_def bs2_def)
    moreover have "wf_pair x y bs2" "pending x bs2 = pending x bs1" "pending y bs2 = pending y bs1"
      using r(2) by (simp_all add: bs2_def)
    ultimately show ?thesis using r(3-5) by metis
  qed
qed

lemma wf_pair_sym: "wf_pair x y bs = wf_pair y x bs"
  by (auto simp: wf_pair_def)

interpretation bio_pipe: pipe "bio_put x" "bio_get y" "wf_pair x y" "pending x" int_event for x y
proof
  fix bs d assume *: "wf_pair x y bs" "int_event (Put d)"
  obtain r bs' where "BIO_write x (Some d) (int (length d)) bs = Some (r, bs')" "wf_pair x y bs'"
      "pending x bs' = pending x bs @ take (nat r) d"
    using BIO_write_ok [OF *(1), of "length d" d] *(2) by (auto simp: int_event_def)
  then show "\<exists>n s'. bio_put x d bs = Some (n, s') \<and> wf_pair x y s' \<and> pending x s' = pending x bs @ take n d"
    by (simp add: bio_put_def)
next
  fix bs n assume *: "wf_pair x y bs" "int_event (Get n)"
  obtain r d bs' where "BIO_read y True (int n) bs = Some ((r, d), bs')" "wf_pair y x bs'" "pending x bs = d @ pending x bs'"
    using BIO_read_ok [OF *(1) [unfolded wf_pair_sym [of x y]] *(2)] by blast
  then show "\<exists>d s'. bio_get y n bs = Some (d, s') \<and> wf_pair x y s' \<and> pending x bs = d @ pending x s'"
    by (simp add: bio_get_def wf_pair_sym [of x y])
qed

text \<open>The loop that writes all of a buffer always returns, with a prefix of the buffer written.\<close>

theorem BIO_write_all_returns:
  assumes "wf_pair x y bs" and "len \<le> length dat"
  shows "\<exists>ok bs' k. BIO_write_all x dat len bs = Some (ok, bs') \<and> wf_pair x y bs' \<and> pending y bs' = pending y bs \<and>
    pending x bs' = pending x bs @ take k dat \<and> k \<le> len \<and> (ok \<longrightarrow> k = len)"
  using assms
proof (induction len arbitrary: dat bs rule: less_induct)
  case (less len)
  show ?case
  proof (cases "len = 0")
    case True
    then show ?thesis using less.prems by (subst BIO_write_all.simps) (auto intro: exI [of _ 0])
  next
    case False
    define num where "num = (if int len > int INT_MAX then 2147483647 else len)"
    have num: "num \<le> length dat" "num < 2 ^ 31" "0 < num" "num \<le> len"
      "(if int len > int INT_MAX then int INT_MAX else int len) = int num"
      using False less.prems(2) by (auto simp: num_def INT_MAX_def)
    obtain r bs1 where w: "BIO_write x (Some dat) (int num) bs = Some (r, bs1)" "wf_pair x y bs1" "pending y bs1 = pending y bs"
        "pending x bs1 = pending x bs @ take (nat r) dat" "r \<le> int num"
      using BIO_write_ok [OF less.prems(1) num(1,2)] by blast
    have step: "BIO_write_all x dat len bs =
        (if r \<le> 0 then Some (False, bs1) else BIO_write_all x (drop (nat r) dat) (len - nat r) bs1)"
      using False by (subst BIO_write_all.simps, unfold num(5) w(1)) simp
    show ?thesis
    proof (cases "r \<le> 0")
      case True
      then show ?thesis using step w(2-4) by (intro exI [of _ False] exI [of _ bs1] exI [of _ 0]) simp
    next
      case pos: False
      have l: "len - nat r < len" "len - nat r \<le> length (drop (nat r) dat)"
        using pos False less.prems(2) by (simp_all add: diff_le_mono)
      obtain ok bs2 k where 2: "BIO_write_all x (drop (nat r) dat) (len - nat r) bs1 = Some (ok, bs2)" "wf_pair x y bs2"
          "pending y bs2 = pending y bs1" "pending x bs2 = pending x bs1 @ take k (drop (nat r) dat)" "k \<le> len - nat r"
          "ok \<longrightarrow> k = len - nat r"
        using less.IH [OF l(1) w(2) l(2)] by blast
      have "nat r \<le> len" using w(5) num(4) by simp
      then have "nat r + k \<le> len \<and> (ok \<longrightarrow> nat r + k = len)" using 2(5,6) by auto
      then show ?thesis
        using step pos 2(1-4) w(3,4)
        by (intro exI [of _ ok] exI [of _ bs2] exI [of _ "nat r + k"]) (simp add: take_add)
    qed
  qed
qed

end
