(* ===== verification/Const_Time.thy ===== *)
theory Const_Time
  imports Prelude
begin

text \<open>
  The branch-free helpers of \<open>crypto/internal.h\<close> on \<open>crypto_word_t\<close>: masks of all ones or all
  zeros instead of booleans. Each is shown to compute the comparison or selection it is named after.
\<close>

section \<open>Constant-time selection\<close>

text \<open>A \<open>crypto_word_t\<close> is a 64-bit word; the value barriers return their argument.\<close>

definition constant_time_msb_w :: "u64 \<Rightarrow> u64" where
  "constant_time_msb_w a = 0 - drop_bit 63 a"

definition constant_time_lt_w :: "u64 \<Rightarrow> u64 \<Rightarrow> u64" where
  "constant_time_lt_w a b = constant_time_msb_w (a XOR ((a XOR b) OR ((a - b) XOR a)))"

definition constant_time_ge_w :: "u64 \<Rightarrow> u64 \<Rightarrow> u64" where
  "constant_time_ge_w a b = NOT (constant_time_lt_w a b)"

definition constant_time_is_zero_w :: "u64 \<Rightarrow> u64" where
  "constant_time_is_zero_w a = constant_time_msb_w (NOT a AND (a - 1))"

definition constant_time_eq_w :: "u64 \<Rightarrow> u64 \<Rightarrow> u64" where
  "constant_time_eq_w a b = constant_time_is_zero_w (a XOR b)"

definition constant_time_eq_8 :: "u64 \<Rightarrow> u64 \<Rightarrow> byte" where
  "constant_time_eq_8 a b = ucast (constant_time_eq_w a b)"

definition constant_time_select_w :: "u64 \<Rightarrow> u64 \<Rightarrow> u64 \<Rightarrow> u64" where
  "constant_time_select_w m a b = (m AND a) OR (NOT m AND b)"

definition constant_time_select_8 :: "byte \<Rightarrow> byte \<Rightarrow> byte \<Rightarrow> byte" where
  "constant_time_select_8 m a b = ucast (constant_time_select_w (ucast m) (ucast a) (ucast b))"

lemma msb_w_eq: "constant_time_msb_w a = (if bit a 63 then -1 else 0)"
proof -
  have "bit a (63 + n) \<longleftrightarrow> n = 0 \<and> bit a 63" for n
    by (cases "n = 0") (auto dest: bit_imp_le_length)
  then have "drop_bit 63 a = (if bit a 63 then 1 else 0)"
    by (auto simp: bit_eq_iff bit_simps)
  then show ?thesis by (simp add: constant_time_msb_w_def)
qed

lemma bit_63_iff: "bit (a :: u64) 63 \<longleftrightarrow> 2 ^ 63 \<le> unat a"
proof -
  have "bit a 63 \<longleftrightarrow> bit (unat a) 63"
    by (simp add: bit_unsigned_iff)
  also have "\<dots> \<longleftrightarrow> odd (unat a div 2 ^ 63)"
    by (simp add: bit_iff_odd)
  also have "\<dots> \<longleftrightarrow> 2 ^ 63 \<le> unat a"
    using unat_u64_less [of a] by (cases "unat a < 2 ^ 63") (simp_all add: le_div_geq)
  finally show ?thesis .
qed

lemma bit_63_minus: "bit (a - b :: u64) 63 \<longleftrightarrow>
   (if a < b then unat b - unat a \<le> 2 ^ 63 else 2 ^ 63 \<le> unat a - unat b)"
  using unat_u64_less [of a] unat_u64_less [of b]
  by (auto simp: bit_63_iff unat_sub_if_size word_size word_less_nat_alt)

text \<open>The branch-free comparison is the comparison of words.\<close>

lemma constant_time_lt_w_eq: "constant_time_lt_w a b = (if a < b then -1 else 0)"
  using unat_u64_less [of a] unat_u64_less [of b]
  by (auto simp: constant_time_lt_w_def msb_w_eq bit_simps bit_63_minus)
     (auto simp: bit_63_iff word_less_nat_alt)

lemma constant_time_is_zero_w_eq: "constant_time_is_zero_w a = (if a = 0 then -1 else 0)"
  using unat_u64_less [of a]
  by (auto simp: constant_time_is_zero_w_def msb_w_eq bit_simps bit_63_minus)
     (auto simp: bit_63_iff word_less_nat_alt unat_eq_0)

lemma constant_time_eq_w_eq: "constant_time_eq_w a b = (if a = b then -1 else 0)"
  by (auto simp: constant_time_eq_w_def constant_time_is_zero_w_eq bit_eq_iff bit_simps)

lemma constant_time_select_w_eq:
  "constant_time_select_w (-1) a b = a" "constant_time_select_w 0 a b = b"
  by (simp_all add: constant_time_select_w_def)

text \<open>What the equality mask and the selection of bytes compute.\<close>

lemma ucast_ones [simp]: "ucast (- 1 :: u64) = (0xff :: byte)"
  by code_simp

lemma constant_time_eq_8_eq: "constant_time_eq_8 a b = (if a = b then 0xff else 0)"
  by (simp add: constant_time_eq_8_def constant_time_eq_w_eq)

lemma constant_time_select_8_eq:
  "constant_time_select_8 m a b = (m AND a) OR (NOT m AND b)"
  by (rule bit_word_eqI) (auto simp: constant_time_select_8_def constant_time_select_w_def bit_simps)

end
