(* ===== verification/Base64.thy ===== *)
theory Base64
  imports Const_Time
begin

text \<open>
  \<open>crypto/base64/base64.c\<close>: the code, and the conversion of single characters and of blocks.
  The branch-free conversions are the alphabet and its inverse; the block functions compute
  the reference, a definition by six-bit digits, and its inverse.
\<close>

section \<open>The code\<close>

definition constant_time_lt_args_8 :: "byte \<Rightarrow> byte \<Rightarrow> byte" where
  "constant_time_lt_args_8 a b =
     (let aw = ucast a; bw = ucast b in ucast (constant_time_msb_w (aw - bw)))"

definition constant_time_in_range_8 :: "byte \<Rightarrow> byte \<Rightarrow> byte \<Rightarrow> byte" where
  "constant_time_in_range_8 a lo hi = (let a = a - lo in constant_time_lt_args_8 a (hi - lo + 1))"

definition conv_bin2ascii :: "byte \<Rightarrow> byte" where
  "conv_bin2ascii a =
     (let a = a AND 0x3f;
          ret = constant_time_select_8 (constant_time_eq_8 (ucast a) 62) 0x2b 0x2f;
          ret = constant_time_select_8 (constant_time_lt_args_8 a 62) (a - 52 + 0x30) ret;
          ret = constant_time_select_8 (constant_time_lt_args_8 a 52) (a - 26 + 0x61) ret;
          ret = constant_time_select_8 (constant_time_lt_args_8 a 26) (a + 0x41) ret
      in ret)"

definition EVP_EncodedLength :: "nat \<Rightarrow> nat option" where
  "EVP_EncodedLength len =
     (if size_add len 2 < len then None
      else let len = size_add len 2 div 3
           in if size_mul len 4 div 4 \<noteq> len then None
              else let len = size_mul len 4
                   in if size_add len 1 < len then None else Some (size_add len 1))"

record encode_ctx =
  ec_data_used :: nat
  ec_data :: "byte list"
  ec_eof_seen :: bool
  ec_error_encountered :: bool

definition sizeof_ec_data :: nat where
  "sizeof_ec_data = 48"

definition EVP_EncodeInit :: encode_ctx where
  "EVP_EncodeInit = \<lparr>ec_data_used = 0, ec_data = replicate sizeof_ec_data 0, ec_eof_seen = False,
     ec_error_encountered = False\<rparr>"

text \<open>
  Memory written through a pointer: \<open>put_at pos bs mem\<close> stores \<open>bs\<close> from position
  \<open>pos\<close>. The output of a function is the memory behind its \<open>out\<close> argument as far as it
  was written.
\<close>

definition put_at :: "nat \<Rightarrow> byte list \<Rightarrow> byte list \<Rightarrow> byte list" where
  "put_at pos bs mem = take pos mem @ bs @ drop (pos + length bs) mem"

text \<open>The loop of \<open>EVP_EncodeBlock\<close>: the characters it writes and \<open>ret\<close>.\<close>

fun encode_block_loop :: "byte list \<Rightarrow> nat \<Rightarrow> byte list \<times> nat" where
  "encode_block_loop (s0 # s1 # s2 # src) ret =
     (let l = push_bit 16 (ucast s0) OR push_bit 8 (ucast s1) OR ucast s2 :: u32;
          (dst, ret) = encode_block_loop src (size_add ret 4)
      in (conv_bin2ascii (ucast (drop_bit 18 l)) # conv_bin2ascii (ucast (drop_bit 12 l)) #
          conv_bin2ascii (ucast (drop_bit 6 l)) # conv_bin2ascii (ucast l) # dst, ret))"
| "encode_block_loop [s0, s1] ret =
     (let l = push_bit 16 (ucast s0) OR push_bit 8 (ucast s1) :: u32
      in ([conv_bin2ascii (ucast (drop_bit 18 l)), conv_bin2ascii (ucast (drop_bit 12 l)),
           conv_bin2ascii (ucast (drop_bit 6 l)), 0x3d], size_add ret 4))"
| "encode_block_loop [s0] ret =
     (let l = push_bit 16 (ucast s0) :: u32
      in ([conv_bin2ascii (ucast (drop_bit 18 l)), conv_bin2ascii (ucast (drop_bit 12 l)), 0x3d, 0x3d],
          size_add ret 4))"
| "encode_block_loop [] ret = ([], ret)"

definition EVP_EncodeBlock :: "byte list \<Rightarrow> byte list \<times> nat" where
  "EVP_EncodeBlock src = (case encode_block_loop src 0 of (dst, ret) \<Rightarrow> (dst @ [0], ret))"

text \<open>
  One line: the encoded block, a newline over its terminator, and a new terminator. The new
  write position and the number of characters are returned.
\<close>

definition encode_line :: "byte list \<Rightarrow> nat \<Rightarrow> byte list \<Rightarrow> byte list \<times> nat \<times> nat" where
  "encode_line src pos out =
     (case EVP_EncodeBlock src of
        (blk, encoded) \<Rightarrow>
          (put_at (pos + encoded + 1) [0] (put_at (pos + encoded) [0x0a] (put_at pos blk out)),
           pos + encoded + 1, encoded))"

function encode_update_loop ::
    "byte list \<Rightarrow> nat \<Rightarrow> byte list \<Rightarrow> nat \<Rightarrow> byte list \<times> byte list \<times> nat option" where
  "encode_update_loop inp pos out tot =
     (if sizeof_ec_data \<le> length inp then
        (case encode_line (take sizeof_ec_data inp) pos out of
           (out, pos, encoded) \<Rightarrow>
             if size_add (size_add tot encoded) 1 < tot then (drop sizeof_ec_data inp, out, None)
             else encode_update_loop (drop sizeof_ec_data inp) pos out (size_add (size_add tot encoded) 1))
      else (inp, out, Some tot))"
  by pat_completeness auto
termination
  by (relation "measure (\<lambda>(inp, pos, out, tot). length inp)") (auto simp: sizeof_ec_data_def)

text \<open>The context, the memory written at \<open>out\<close> and \<open>*out_len\<close>.\<close>

definition EVP_EncodeUpdate :: "encode_ctx \<Rightarrow> byte list \<Rightarrow> encode_ctx \<times> byte list \<times> nat" where
  "EVP_EncodeUpdate ctx inp =
     (if length inp = 0 then (ctx, [], 0)
      else if sizeof_ec_data - ec_data_used ctx > length inp then
        (ctx\<lparr>ec_data := put_at (ec_data_used ctx) inp (ec_data ctx),
             ec_data_used := ec_data_used ctx + length inp\<rparr>, [], 0)
      else
        (let (ctx, inp, out, pos, tot) =
               (if ec_data_used ctx \<noteq> 0 then
                  (let todo = sizeof_ec_data - ec_data_used ctx;
                       dat = put_at (ec_data_used ctx) (take todo inp) (ec_data ctx);
                       (out, pos, encoded) = encode_line dat 0 []
                   in (ctx\<lparr>ec_data := dat, ec_data_used := 0\<rparr>, drop todo inp, out, pos, size_add encoded 1))
                else (ctx, inp, [], 0, 0))
         in case encode_update_loop inp pos out tot of
              (inp, out, None) \<Rightarrow> (ctx, out, 0)
            | (inp, out, Some tot) \<Rightarrow>
                (ctx\<lparr>ec_data := (if length inp \<noteq> 0 then put_at 0 inp (ec_data ctx) else ec_data ctx),
                     ec_data_used := length inp\<rparr>, out,
                 if tot > INT_MAX then 0 else tot)))"

definition EVP_EncodeFinal :: "encode_ctx \<Rightarrow> encode_ctx \<times> byte list \<times> nat" where
  "EVP_EncodeFinal ctx =
     (if ec_data_used ctx = 0 then (ctx, [], 0)
      else (case encode_line (take (ec_data_used ctx) (ec_data ctx)) 0 [] of
              (out, pos, encoded) \<Rightarrow> (ctx\<lparr>ec_data_used := 0\<rparr>, out, encoded + 1)))"

definition EVP_DecodedLength :: "nat \<Rightarrow> nat option" where
  "EVP_DecodedLength len = (if len mod 4 \<noteq> 0 then None else Some (len div 4 * 3))"

definition EVP_DecodeInit :: encode_ctx where
  "EVP_DecodeInit = \<lparr>ec_data_used = 0, ec_data = replicate sizeof_ec_data 0, ec_eof_seen = False,
     ec_error_encountered = False\<rparr>"

definition base64_ascii_to_bin :: "byte \<Rightarrow> byte" where
  "base64_ascii_to_bin a =
     (let is_upper = constant_time_in_range_8 a 0x41 0x5a;
          is_lower = constant_time_in_range_8 a 0x61 0x7a;
          is_digit = constant_time_in_range_8 a 0x30 0x39;
          is_plus = constant_time_eq_8 (ucast a) 0x2b;
          is_slash = constant_time_eq_8 (ucast a) 0x2f;
          is_equals = constant_time_eq_8 (ucast a) 0x3d;
          ret = 0xff;
          ret = constant_time_select_8 is_upper (a - 0x41) ret;
          ret = constant_time_select_8 is_lower (a - 0x61 + 26) ret;
          ret = constant_time_select_8 is_digit (a - 0x30 + 52) ret;
          ret = constant_time_select_8 is_plus 62 ret;
          ret = constant_time_select_8 is_slash 63 ret;
          ret = constant_time_select_8 is_equals 0 ret
      in ret)"

text \<open>The bytes that a group of four characters yields; \<open>*out_num_bytes\<close> is their number.\<close>

definition base64_decode_quad :: "byte list \<Rightarrow> byte list option" where
  "base64_decode_quad inp =
     (let a = base64_ascii_to_bin (inp ! 0);
          b = base64_ascii_to_bin (inp ! 1);
          c = base64_ascii_to_bin (inp ! 2);
          d = base64_ascii_to_bin (inp ! 3)
      in if a = 0xff \<or> b = 0xff \<or> c = 0xff \<or> d = 0xff then None
         else
           (let v = push_bit 18 (ucast a) OR push_bit 12 (ucast b) OR push_bit 6 (ucast c) OR ucast d :: u32;
                padding_pattern = push_bit 3 (of_bool (inp ! 0 = 0x3d)) OR push_bit 2 (of_bool (inp ! 1 = 0x3d)) OR
                  push_bit 1 (of_bool (inp ! 2 = 0x3d)) OR of_bool (inp ! 3 = 0x3d) :: u32
            in if padding_pattern = 0 then Some [ucast (drop_bit 16 v), ucast (drop_bit 8 v), ucast v]
               else if padding_pattern = 1 then Some [ucast (drop_bit 16 v), ucast (drop_bit 8 v)]
               else if padding_pattern = 3 then Some [ucast (drop_bit 16 v)]
               else None))"

text \<open>
  The loop of \<open>EVP_DecodeUpdate\<close>: the context, the bytes written so far and whether the loop
  reached the end of the input.
\<close>

fun decode_update_loop :: "encode_ctx \<Rightarrow> byte list \<Rightarrow> byte list \<Rightarrow> encode_ctx \<times> byte list \<times> bool" where
  "decode_update_loop ctx out [] = (ctx, out, True)"
| "decode_update_loop ctx out (c # inp) =
     (if c = 0x20 \<or> c = 0x09 \<or> c = 0x0d \<or> c = 0x0a then decode_update_loop ctx out inp
      else if ec_eof_seen ctx then (ctx\<lparr>ec_error_encountered := True\<rparr>, out, False)
      else
        (let ctx = ctx\<lparr>ec_data := (ec_data ctx)[ec_data_used ctx := c], ec_data_used := ec_data_used ctx + 1\<rparr>
         in if ec_data_used ctx = 4 then
              (case base64_decode_quad (ec_data ctx) of
                 None \<Rightarrow> (ctx\<lparr>ec_error_encountered := True\<rparr>, out, False)
               | Some bytes \<Rightarrow>
                   decode_update_loop
                     (ctx\<lparr>ec_data_used := 0, ec_eof_seen := (length bytes < 3 \<or> ec_eof_seen ctx)\<rparr>) (out @ bytes) inp)
            else decode_update_loop ctx out inp))"

text \<open>The return value, the context, the bytes at \<open>out\<close> and \<open>*out_len\<close>.\<close>

definition EVP_DecodeUpdate :: "encode_ctx \<Rightarrow> byte list \<Rightarrow> int \<times> encode_ctx \<times> byte list \<times> nat" where
  "EVP_DecodeUpdate ctx inp =
     (if ec_error_encountered ctx then (-1, ctx, [], 0)
      else (case decode_update_loop ctx [] inp of
              (ctx, out, False) \<Rightarrow> (-1, ctx, out, 0)
            | (ctx, out, True) \<Rightarrow>
                if length out > INT_MAX then (-1, ctx\<lparr>ec_error_encountered := True\<rparr>, out, 0)
                else (if ec_eof_seen ctx then 0 else 1, ctx, out, length out)))"

definition EVP_DecodeFinal :: "encode_ctx \<Rightarrow> int" where
  "EVP_DecodeFinal ctx = (if ec_error_encountered ctx \<or> ec_data_used ctx \<noteq> 0 then -1 else 1)"

fun decode_base64_loop :: "byte list \<Rightarrow> byte list \<Rightarrow> byte list option" where
  "decode_base64_loop (c0 # c1 # c2 # c3 # inp) out =
     (case base64_decode_quad (c0 # c1 # c2 # c3 # inp) of
        None \<Rightarrow> None
      | Some bytes \<Rightarrow>
          if length bytes \<noteq> 3 \<and> inp \<noteq> [] then None else decode_base64_loop inp (out @ bytes))"
| "decode_base64_loop inp out = Some out"

definition EVP_DecodeBase64 :: "nat \<Rightarrow> byte list \<Rightarrow> byte list option" where
  "EVP_DecodeBase64 max_out inp =
     (if length inp mod 4 \<noteq> 0 then None
      else (case EVP_DecodedLength (length inp) of
              None \<Rightarrow> None
            | Some max_len \<Rightarrow> if max_out < max_len then None else decode_base64_loop inp []))"

text \<open>Dropping blanks from the front, and blanks and newlines from the end.\<close>

definition trim_input :: "byte list \<Rightarrow> byte list" where
  "trim_input src =
     rev (dropWhile (\<lambda>c. c = 0x20 \<or> c = 0x09 \<or> c = 0x0d \<or> c = 0x0a)
       (rev (dropWhile (\<lambda>c. c = 0x20 \<or> c = 0x09) src)))"

text \<open>The bytes at \<open>dst\<close>; the return value is their number, or minus one for \<open>None\<close>.\<close>

definition EVP_DecodeBlock :: "byte list \<Rightarrow> byte list option" where
  "EVP_DecodeBlock src =
     (let src = trim_input src
      in case EVP_DecodedLength (length src) of
           None \<Rightarrow> None
         | Some dst_len \<Rightarrow>
             if dst_len > INT_MAX then None
             else (case EVP_DecodeBase64 dst_len src of
                     None \<Rightarrow> None
                   | Some dst \<Rightarrow> Some (dst @ replicate ((3 - length dst mod 3) mod 3) 0)))"

section \<open>The alphabet\<close>

lemma constant_time_lt_args_8_eq: "constant_time_lt_args_8 a b = (if a < b then 0xff else 0)"
  by (auto simp: constant_time_lt_args_8_def msb_w_eq bit_63_minus word_less_nat_alt unat_ucast_widen)
     (use unat_byte_less [of a] unat_byte_less [of b] in linarith)+

lemma select_mask [simp]:
  "constant_time_select_8 0xff a b = a" "constant_time_select_8 0 a b = b"
proof -
  have "(0xff :: byte) = - 1" by simp
  then show "constant_time_select_8 0xff a b = a" by (simp only: constant_time_select_8_eq) simp
qed (simp add: constant_time_select_8_eq)

definition b64_char :: "nat \<Rightarrow> byte" where
  "b64_char n = (if n < 26 then of_nat (65 + n) else if n < 52 then of_nat (71 + n)
     else if n < 62 then of_nat (n - 4) else if n = 62 then 0x2b else 0x2f)"

lemma conv_bin2ascii_eq: "conv_bin2ascii a = b64_char (unat a mod 64)"
proof -
  define n where "n = unat a mod 64"
  have m: "a AND 0x3f = of_nat n"
    using unat_and_mask [of a 6] by (simp add: mask_numeral n_def word_unat_eq_iff)
  have "n < 64" by (simp add: n_def)
  then have "constant_time_select_8 (constant_time_lt_args_8 (of_nat n) k) x y = (if n < unat k then x else y)" for k x y
    by (simp add: constant_time_lt_args_8_eq word_less_nat_alt)
  then show ?thesis unfolding conv_bin2ascii_def m Let_def using \<open>n < 64\<close>
    by (simp add: b64_char_def n_def[symmetric] constant_time_eq_8_eq word_unat_eq_iff unat_ucast_widen)
      (simp add: add.commute)

qed

lemma constant_time_in_range_8_eq:
  assumes "lo \<le> hi" and "unat hi < 255"
  shows "constant_time_in_range_8 a lo hi = (if lo \<le> a \<and> a \<le> hi then 0xff else 0)"
proof -
  have "unat (hi - lo + 1) = unat hi - unat lo + 1"
    using assms by (simp add: word_le_nat_alt unat_sub_if_size unat_plus_if_size word_size)
  then show ?thesis
    using assms unat_byte_less [of a] unat_byte_less [of hi]
    by (auto simp: constant_time_in_range_8_def constant_time_lt_args_8_eq word_less_nat_alt word_le_nat_alt
        unat_sub_if_size word_size simp del: unat_byte_less)
qed

definition b64_value :: "byte \<Rightarrow> byte" where
  "b64_value a = (if a = 0x3d then 0 else if a = 0x2f then 63 else if a = 0x2b then 62
     else if 0x30 \<le> a \<and> a \<le> 0x39 then a + 4 else if 0x61 \<le> a \<and> a \<le> 0x7a then a - 71
     else if 0x41 \<le> a \<and> a \<le> 0x5a then a - 0x41 else 0xff)"

lemma base64_ascii_to_bin_eq: "base64_ascii_to_bin a = b64_value a"
proof -
  have "(ucast a = (43 :: u64)) = (a = 43)" "(ucast a = (47 :: u64)) = (a = 47)" "(ucast a = (61 :: u64)) = (a = 61)"
    by (simp_all add: word_unat_eq_iff unat_ucast_widen)
  then show ?thesis unfolding base64_ascii_to_bin_def Let_def
    by (simp add: constant_time_in_range_8_eq constant_time_eq_8_eq b64_value_def)
qed

lemma b64_value_char: "n < 64 \<Longrightarrow> b64_value (b64_char n) = of_nat n"
proof -
  have "list_all (\<lambda>n. b64_value (b64_char n) = of_nat n) [0..<64]" by code_simp
  then show "n < 64 \<Longrightarrow> ?thesis" by (simp add: list_all_iff)
qed

lemma b64_char_not_pad: "b64_char n \<noteq> 0x3d"
proof (cases "n < 64")
  case True
  have "list_all (\<lambda>n. b64_char n \<noteq> 0x3d) [0..<64]" by code_simp
  then show ?thesis using True by (simp add: list_all_iff)
qed (simp add: b64_char_def)

text \<open>Every byte is a character of the alphabet, the padding character or refused.\<close>

lemma b64_value_cases:
  obtains (char) n where "n < 64" and "a = b64_char n" and "b64_value a = of_nat n"
  | (pad) "a = 0x3d" and "b64_value a = 0"
  | (bad) "b64_value a = 0xff" and "a \<noteq> 0x3d" and "a \<notin> b64_char ` {0..<64}"
proof -
  have val: "if unat (b64_value a) < 64 then a = 0x3d \<and> unat (b64_value a) = 0 \<or> b64_char (unat (b64_value a)) = a
      else unat (b64_value a) = 255"
    using unat_byte_less [of a]
    by (auto simp: b64_value_def b64_char_def word_le_nat_alt unat_sub_if_size unat_plus_if_size word_size
        word_unat_eq_iff simp del: unat_byte_less)
  show ?thesis
  proof (cases "unat (b64_value a) < 64")
    case True
    then consider "a = 0x3d" "b64_value a = 0" | "b64_char (unat (b64_value a)) = a"
      using val by (auto simp: unat_eq_0)
    then show ?thesis using True char [of "unat (b64_value a)"] pad by cases simp_all
  next
    case False
    then have bad': "b64_value a = 0xff" using val by (simp add: word_unat_eq_iff)
    moreover have "a \<noteq> b64_char n" if "n < 64" for n
    proof
      assume "a = b64_char n"
      then have "unat (b64_value a) = n" using b64_value_char [OF that] that by simp
      then show False using False that by simp
    qed
    moreover have "a \<noteq> 0x3d" using bad' by (auto simp: b64_value_def)
    ultimately show ?thesis by (intro bad) (metis atLeastLessThan_iff imageE)+
  qed
qed

section \<open>Blocks\<close>

text \<open>
  The reference: three bytes are four digits to the base 64, a rest of one or two bytes is
  filled up with bits \<open>k\<close> and padded. An encoder uses \<open>k = 0\<close>.
\<close>

fun sextets :: "nat \<Rightarrow> nat \<Rightarrow> byte list" where
  "sextets 0 v = []"
| "sextets (Suc n) v = sextets n (v div 64) @ [b64_char (v mod 64)]"

fun b64_with :: "nat \<Rightarrow> byte list \<Rightarrow> byte list" where
  "b64_with k (a # b # c # r) = sextets 4 (be_val [a, b, c]) @ b64_with k r"
| "b64_with k [a, b] = sextets 3 (be_val [a, b] * 4 + k mod 4) @ [0x3d]"
| "b64_with k [a] = sextets 2 (unat a * 16 + k mod 16) @ [0x3d, 0x3d]"
| "b64_with k [] = []"

definition b64 :: "byte list \<Rightarrow> byte list" where
  "b64 = b64_with 0"

lemma b64_simps [simp]:
  "b64 (a # b # c # r) = sextets 4 (be_val [a, b, c]) @ b64 r"
  "b64 [a, b] = sextets 3 (be_val [a, b] * 4) @ [0x3d]"
  "b64 [a] = sextets 2 (unat a * 16) @ [0x3d, 0x3d]"
  "b64 [] = []"
  by (simp_all add: b64_def)

lemma length_sextets [simp]: "length (sextets n v) = n"
  by (induction n v rule: sextets.induct) simp_all

lemma length_b64_with: "length (b64_with k bs) = (length bs + 2) div 3 * 4"
proof (induction k bs rule: b64_with.induct)
  case (1 k a b c r)
  have "length (a # b # c # r) + 2 = length r + 2 + 3" by simp
  then have "(length (a # b # c # r) + 2) div 3 = (length r + 2) div 3 + 1"
    using div_add_self2 [of 3 "length r + 2"] by simp
  then show ?case using 1 by simp
qed simp_all

lemma length_b64: "length (b64 bs) = (length bs + 2) div 3 * 4"
  by (simp add: b64_def length_b64_with)

lemma sextets_unfold:
  "sextets 4 v = [b64_char (v div 262144 mod 64), b64_char (v div 4096 mod 64), b64_char (v div 64 mod 64), b64_char (v mod 64)]"
  "sextets 3 v = [b64_char (v div 4096 mod 64), b64_char (v div 64 mod 64), b64_char (v mod 64)]"
  "sextets 2 v = [b64_char (v div 64 mod 64), b64_char (v mod 64)]"
  proof -
  have n: "(4 :: nat) = Suc (Suc (Suc (Suc 0)))" "(3 :: nat) = Suc (Suc (Suc 0))" "(2 :: nat) = Suc (Suc 0)" by simp_all
  show "sextets 4 v = [b64_char (v div 262144 mod 64), b64_char (v div 4096 mod 64), b64_char (v div 64 mod 64), b64_char (v mod 64)]"
    unfolding n by (simp flip: div_mult2_eq)
  show "sextets 3 v = [b64_char (v div 4096 mod 64), b64_char (v div 64 mod 64), b64_char (v mod 64)]"
    unfolding n by (simp flip: div_mult2_eq)
  show "sextets 2 v = [b64_char (v div 64 mod 64), b64_char (v mod 64)]"
    unfolding n by simp
qed

text \<open>The three bytes of a group as one number, and its digits.\<close>

lemma unat_pack3:
  "unat (push_bit 16 (ucast a) OR push_bit 8 (ucast b) OR ucast c :: u32) = be_val [a, b, c]"
proof -
  have bound: "unat a \<le> 16777215" using unat_byte_less [of a] by linarith
  have eq: "push_bit 16 (ucast a) OR push_bit 8 (ucast b) OR ucast c =
      push_bit 8 (push_bit 8 (ucast a) OR ucast b) OR (ucast c :: u32)"
    by (simp add: push_bit_or or.assoc)
  have ab: "unat (push_bit 8 (ucast a) OR ucast b :: u32) = unat a * 256 + unat b"
    using bound by (subst unat_push_or) (simp_all add: unat_ucast_widen)
  show ?thesis
    unfolding eq using bound unat_byte_less [of a] unat_byte_less [of b] unat_byte_less [of c]
    by (subst unat_push_or) (simp_all add: ab unat_ucast_widen del: unat_byte_less)
qed

lemma conv_bin2ascii_digits:
  assumes "unat (l :: u32) = v"
  shows "conv_bin2ascii (ucast (drop_bit 18 l)) = b64_char (v div 262144 mod 64)"
    and "conv_bin2ascii (ucast (drop_bit 12 l)) = b64_char (v div 4096 mod 64)"
    and "conv_bin2ascii (ucast (drop_bit 6 l)) = b64_char (v div 64 mod 64)"
    and "conv_bin2ascii (ucast l) = b64_char (v mod 64)"
proof -
  have digit: "conv_bin2ascii (ucast (drop_bit k l)) = b64_char (v div 2 ^ k mod 64)" for k
  proof -
    have "unat (ucast (drop_bit k l) :: byte) mod 64 = v div 2 ^ k mod 64"
      by (simp only: unat_ucast_narrow unat_drop_bit_eq assms drop_bit_eq_div [where 'a = nat])
         (simp add: mod_mod_cancel)
    then show ?thesis by (simp add: conv_bin2ascii_eq)
  qed
  show "conv_bin2ascii (ucast (drop_bit 18 l)) = b64_char (v div 262144 mod 64)"
    and "conv_bin2ascii (ucast (drop_bit 12 l)) = b64_char (v div 4096 mod 64)"
    and "conv_bin2ascii (ucast (drop_bit 6 l)) = b64_char (v div 64 mod 64)"
    and "conv_bin2ascii (ucast l) = b64_char (v mod 64)"
    using digit [of 18] digit [of 12] digit [of 6] digit [of 0] by simp_all
qed

text \<open>The encoder of blocks computes the reference.\<close>

lemma encode_block_loop_eq:
  "ret + length (b64 src) < size_mod \<Longrightarrow> encode_block_loop src ret = (b64 src, ret + length (b64 src))"
proof (induction src ret rule: encode_block_loop.induct)
  case (1 s0 s1 s2 src ret)
  then show ?case
    unfolding encode_block_loop.simps Let_def conv_bin2ascii_digits [OF unat_pack3]
    by (simp add: sextets_unfold del: be_val.simps)
next
  case (2 s0 s1 ret)
  have v: "unat (push_bit 16 (ucast s0) OR push_bit 8 (ucast s1) :: u32) = be_val [s0, s1] * 256"
    using unat_pack3 [of s0 s1 0] by simp
  have d: "x * 256 div 262144 = x * 4 div 4096" "x * 256 div 4096 = x * 4 div 64" "x * 256 div 64 = x * 4" for x :: nat
    using div_mult_mult2 [of 64 "x * 4" 4096] div_mult_mult2 [of 64 "x * 4" 64] div_mult_mult2 [of 64 "x * 4" 1] by simp_all
  show ?case using 2
    unfolding encode_block_loop.simps Let_def conv_bin2ascii_digits [OF v] d
    by (simp add: sextets_unfold del: be_val.simps)
next
  case (3 s0 ret)
  have v: "unat (push_bit 16 (ucast s0) :: u32) = unat s0 * 65536"
    using unat_pack3 [of s0 0 0] by simp
  have d: "x * 65536 div 262144 = x * 16 div 64" "x * 65536 div 4096 = x * 16" for x :: nat
    using div_mult_mult2 [of 4096 "x * 16" 64] div_mult_mult2 [of 4096 "x * 16" 1] by simp_all
  show ?case using 3
    unfolding encode_block_loop.simps Let_def conv_bin2ascii_digits [OF v] d
    by (simp add: sextets_unfold)
next
  case (4 ret)
  then show ?case by simp
qed

theorem EVP_EncodeBlock_eq:
  "length (b64 src) < size_mod \<Longrightarrow> EVP_EncodeBlock src = (b64 src @ [0], length (b64 src))"
  by (simp add: EVP_EncodeBlock_def encode_block_loop_eq)

section \<open>Groups of four characters\<close>

lemma unat_pack4:
  fixes a b c d :: byte
  assumes "unat a < 64" and "unat b < 64" and "unat c < 64" and "unat d < 64"
  shows "unat (push_bit 18 (ucast a) OR push_bit 12 (ucast b) OR push_bit 6 (ucast c) OR ucast d :: u32) =
    ((unat a * 64 + unat b) * 64 + unat c) * 64 + unat d"
proof -
  have eq: "push_bit 18 (ucast a) OR push_bit 12 (ucast b) OR push_bit 6 (ucast c) OR ucast d =
      push_bit 6 (push_bit 6 (push_bit 6 (ucast a) OR ucast b) OR ucast c) OR (ucast d :: u32)"
    by (simp add: push_bit_or or.assoc)
  have ab: "unat (push_bit 6 (ucast a) OR ucast b :: u32) = unat a * 64 + unat b"
    using assms by (subst unat_push_or) (simp_all add: unat_ucast_widen)
  define l where "l = (push_bit 6 (push_bit 6 (ucast a) OR ucast b) OR ucast c :: u32)"
  have abc: "unat l = (unat a * 64 + unat b) * 64 + unat c"
    unfolding l_def using assms by (subst unat_push_or) (simp_all add: ab unat_ucast_widen)
  show ?thesis
    unfolding eq l_def [symmetric] using assms by (subst unat_push_or) (simp_all add: abc unat_ucast_widen)
qed

lemma byte_digits:
  assumes "unat (v :: u32) = n"
  shows "ucast (drop_bit 16 v) = (of_nat (n div 65536) :: byte)" and "ucast (drop_bit 8 v) = (of_nat (n div 256) :: byte)"
    and "ucast v = (of_nat n :: byte)"
proof -
  have digit: "ucast (drop_bit k v) = (of_nat (n div 2 ^ k) :: byte)" for k
    by (simp only: word_unat_eq_iff unat_ucast_narrow unat_drop_bit_eq assms drop_bit_eq_div [where 'a = nat] unat_of_nat_byte)
       simp
  show "ucast (drop_bit 16 v) = (of_nat (n div 65536) :: byte)" and "ucast (drop_bit 8 v) = (of_nat (n div 256) :: byte)"
    and "ucast v = (of_nat n :: byte)"
    using digit [of 16] digit [of 8] digit [of 0] by simp_all
qed

text \<open>The three bytes of four digits, of which padding cuts off one or two.\<close>

definition quad_bytes :: "bool \<Rightarrow> bool \<Rightarrow> bool \<Rightarrow> bool \<Rightarrow> nat \<Rightarrow> byte list option" where
  "quad_bytes p0 p1 p2 p3 n =
     (if p0 \<or> p1 \<or> p2 \<and> \<not> p3 then None
      else Some (be_bytes (if p2 then 1 else if p3 then 2 else 3) (n div 256 ^ (if p2 then 2 else if p3 then 1 else 0))))"

lemma padding_pattern:
  fixes p0 p1 p2 p3 :: bool
  defines "p \<equiv> push_bit 3 (of_bool p0) OR push_bit 2 (of_bool p1) OR push_bit 1 (of_bool p2) OR of_bool p3 :: u32"
  shows "p = 0 \<longleftrightarrow> \<not> p0 \<and> \<not> p1 \<and> \<not> p2 \<and> \<not> p3" and "p = 1 \<longleftrightarrow> \<not> p0 \<and> \<not> p1 \<and> \<not> p2 \<and> p3"
    and "p = 3 \<longleftrightarrow> \<not> p0 \<and> \<not> p1 \<and> p2 \<and> p3"
  unfolding p_def by (cases p0; cases p1; cases p2; cases p3; simp)+

lemma decode_quad_eq:
  fixes c0 c1 c2 c3 :: byte
  defines "n0 \<equiv> unat (b64_value c0)" and "n1 \<equiv> unat (b64_value c1)" and "n2 \<equiv> unat (b64_value c2)"
    and "n3 \<equiv> unat (b64_value c3)"
  shows "base64_decode_quad (c0 # c1 # c2 # c3 # r) =
    (if n0 = 255 \<or> n1 = 255 \<or> n2 = 255 \<or> n3 = 255 then None
     else quad_bytes (c0 = 0x3d) (c1 = 0x3d) (c2 = 0x3d) (c3 = 0x3d) (((n0 * 64 + n1) * 64 + n2) * 64 + n3))"
proof -
  have ff: "b64_value c = 0xff \<longleftrightarrow> unat (b64_value c) = 255" for c
    by (simp add: word_unat_eq_iff)
  have small: "unat (b64_value c) \<noteq> 255 \<Longrightarrow> unat (b64_value c) < 64" for c
    by (rule b64_value_cases [of c]) simp_all
  show ?thesis
  proof (cases "n0 = 255 \<or> n1 = 255 \<or> n2 = 255 \<or> n3 = 255")
    case True
    then show ?thesis by (simp add: base64_decode_quad_def Let_def base64_ascii_to_bin_eq ff n0_def n1_def n2_def n3_def)
  next
    case False
    define v :: u32 where "v = push_bit 18 (ucast (b64_value c0)) OR push_bit 12 (ucast (b64_value c1)) OR
      push_bit 6 (ucast (b64_value c2)) OR ucast (b64_value c3)"
    define m where "m = ((n0 * 64 + n1) * 64 + n2) * 64 + n3"
    have v: "unat v = m"
      unfolding v_def m_def n0_def n1_def n2_def n3_def using False
      by (intro unat_pack4 small) (simp_all add: n0_def n1_def n2_def n3_def)
    have nth: "(c0 # c1 # c2 # c3 # r) ! 0 = c0" "(c0 # c1 # c2 # c3 # r) ! 1 = c1"
      "(c0 # c1 # c2 # c3 # r) ! 2 = c2" "(c0 # c1 # c2 # c3 # r) ! 3 = c3" by (simp_all add: eval_nat_numeral)
    have n: "(3 :: nat) = Suc (Suc (Suc 0))" "(2 :: nat) = Suc (Suc 0)" by simp_all
    have three: "be_bytes 3 m = [of_nat (m div 65536), of_nat (m div 256), of_nat m]" for m
      unfolding n by (simp flip: div_mult2_eq)
    have two: "be_bytes 2 (m div 256) = [of_nat (m div 65536), of_nat (m div 256)]" for m
      unfolding n by (simp flip: div_mult2_eq)
    show ?thesis
      unfolding base64_decode_quad_def nth Let_def base64_ascii_to_bin_eq v_def [symmetric] padding_pattern ff
        byte_digits [OF v] m_def [symmetric] n0_def [symmetric] n1_def [symmetric] n2_def [symmetric] n3_def [symmetric]
      using False by (auto simp: quad_bytes_def three two [of m, simplified])
  qed
qed

text \<open>
  A group of four characters is accepted exactly when it is the reference encoding of one to three
  bytes, for some choice of the bits that padding leaves unused.
\<close>

lemma sextets_join: "n < 64 \<Longrightarrow> sextets (Suc k) (v * 64 + n) = sextets k v @ [b64_char n]"
  by simp

lemma sextets_digits:
  assumes "n0 < 64" and "n1 < 64" and "n2 < 64" and "n3 < 64"
  shows "sextets 2 (n0 * 64 + n1) = [b64_char n0, b64_char n1]"
    and "sextets 3 ((n0 * 64 + n1) * 64 + n2) = [b64_char n0, b64_char n1, b64_char n2]"
    and "sextets 4 (((n0 * 64 + n1) * 64 + n2) * 64 + n3) = [b64_char n0, b64_char n1, b64_char n2, b64_char n3]"
proof -
  have n: "(4 :: nat) = Suc (Suc (Suc (Suc 0)))" "(3 :: nat) = Suc (Suc (Suc 0))" "(2 :: nat) = Suc (Suc 0)" by simp_all
  show "sextets 2 (n0 * 64 + n1) = [b64_char n0, b64_char n1]"
    and "sextets 3 ((n0 * 64 + n1) * 64 + n2) = [b64_char n0, b64_char n1, b64_char n2]"
    and "sextets 4 (((n0 * 64 + n1) * 64 + n2) * 64 + n3) = [b64_char n0, b64_char n1, b64_char n2, b64_char n3]"
    using sextets_join [OF assms(2), of "Suc 0" n0] sextets_join [OF assms(3), of "Suc (Suc 0)" "n0 * 64 + n1"]
      sextets_join [OF assms(4), of "Suc (Suc (Suc 0))" "(n0 * 64 + n1) * 64 + n2"] assms(1)
    unfolding n by simp_all
qed

lemma digits_exist:
  assumes "v < 64 ^ 4"
  obtains n0 n1 n2 n3 where "n0 < 64" and "n1 < 64" and "n2 < 64" and "n3 < 64"
    and "v = ((n0 * 64 + n1) * 64 + n2) * 64 + (n3 :: nat)"
proof
  show "v div 64 div 64 div 64 < 64" using assms by (simp flip: div_mult2_eq) 
  show "v = ((v div 64 div 64 div 64 * 64 + v div 64 div 64 mod 64) * 64 + v div 64 mod 64) * 64 + v mod 64"
    by simp
qed simp_all

lemma low_digit_zero: "v * 64 = w * 64 + n \<Longrightarrow> n < 64 \<Longrightarrow> n = 0 \<and> v = (w :: nat)"
  by presburger

lemma be_val_2: "be_val [a, b] < 65536" and be_val_3: "be_val [a, b, c] < 16777216"
  using be_val_less [of "[a, b]"] be_val_less [of "[a, b, c]"] by (simp_all only: list.size) simp_all

lemma be_bytes_3: "be_bytes 3 (be_val [a, b, c]) = [a, b, c]" and be_bytes_2: "be_bytes 2 (be_val [a, b]) = [a, b]"
  and be_bytes_1: "be_bytes 1 (unat a) = [a]"
  by (simp_all add: be_bytes_be_val_eq del: be_val.simps)

lemma quad_complete:
  assumes "bs \<noteq> []" and "length bs \<le> 3"
  shows "base64_decode_quad (b64_with k bs @ r) = Some bs"
proof -
  have val: "n < 64 \<Longrightarrow> unat (b64_value (b64_char n)) = n" for n by (simp add: b64_value_char)
  have pad: "unat (b64_value 0x3d) = 0" by (simp add: b64_value_def)
  from assms consider (three) a b c where "bs = [a, b, c]" | (two) a b where "bs = [a, b]" | (one) a where "bs = [a]"
    by (cases bs; cases "tl bs"; cases "tl (tl bs)") (auto simp: Suc_le_eq)
  then show ?thesis
  proof cases
    case three
    have "be_val [a, b, c] < 64 ^ 4" using be_val_3 [of a b c] by (simp del: be_val.simps)
    then obtain n0 n1 n2 n3 where n: "n0 < 64" "n1 < 64" "n2 < 64" "n3 < 64"
      and v: "be_val [a, b, c] = ((n0 * 64 + n1) * 64 + n2) * 64 + n3"
      by (rule digits_exist)
    show ?thesis
      using n be_bytes_3 [of a b c] unfolding three b64_with.simps v sextets_digits(3) [OF n] 
      by (simp add: decode_quad_eq val b64_char_not_pad quad_bytes_def)
  next
    case two
    have "(be_val [a, b] * 4 + k mod 4) * 64 < 64 ^ 4" using be_val_2 [of a b] by (simp del: be_val.simps)
    then obtain n0 n1 n2 n3 where n: "n0 < 64" "n1 < 64" "n2 < 64" "n3 < 64"
      and v: "(be_val [a, b] * 4 + k mod 4) * 64 = ((n0 * 64 + n1) * 64 + n2) * 64 + n3"
      by (rule digits_exist)
    have n3: "n3 = 0" and v': "be_val [a, b] * 4 + k mod 4 = (n0 * 64 + n1) * 64 + n2"
      using low_digit_zero [OF v n(4)] by blast+
    have "((n0 * 64 + n1) * 64 + n2) * 64 div 256 = be_val [a, b]" unfolding v' [symmetric] by simp
    then show ?thesis
      using n be_bytes_2 [of a b] unfolding two b64_with.simps v' sextets_digits(2) [OF n(1-3) n(3)] 
      by (simp add: decode_quad_eq val b64_char_not_pad quad_bytes_def pad)
  next
    case one
    have "(unat a * 16 + k mod 16) * 4096 < 64 ^ 4" using unat_byte_less [of a] by (simp del: unat_byte_less)
    then obtain n0 n1 n2 n3 where n: "n0 < 64" "n1 < 64" "n2 < 64" "n3 < 64"
      and v: "(unat a * 16 + k mod 16) * 4096 = ((n0 * 64 + n1) * 64 + n2) * 64 + n3"
      by (rule digits_exist)
    have "(unat a * 16 + k mod 16) * 64 * 64 = ((n0 * 64 + n1) * 64 + n2) * 64 + n3" using v by simp
    from low_digit_zero [OF this n(4)] have "(unat a * 16 + k mod 16) * 64 = (n0 * 64 + n1) * 64 + n2" by blast
    from low_digit_zero [OF this n(3)] have v': "unat a * 16 + k mod 16 = n0 * 64 + n1" by blast
    have "(n0 * 64 + n1) * 4096 div 65536 = unat a" unfolding v' [symmetric] by simp
    moreover have "(n0 * 64 + n1) * 4096 = 262144 * n0 + 4096 * n1" by simp
    ultimately have "(262144 * n0 + 4096 * n1) div 65536 = unat a" by (simp only:)
    then show ?thesis
      using n be_bytes_1 [of a] unfolding one b64_with.simps v' sextets_digits(1) [OF n(1,2) n(3,4)]
      by (simp add: decode_quad_eq val b64_char_not_pad quad_bytes_def pad)
  qed
qed

lemma b64_with_digits:
  assumes "n0 < 64" and "n1 < 64" and "n2 < 64" and "n3 < 64"
  shows "b64_with k (be_bytes 3 (((n0 * 64 + n1) * 64 + n2) * 64 + n3)) = [b64_char n0, b64_char n1, b64_char n2, b64_char n3]"
    and "b64_with n2 (be_bytes 2 (((n0 * 64 + n1) * 64 + n2) * 64 div 256)) = [b64_char n0, b64_char n1, b64_char n2, 0x3d]"
    and "b64_with n1 (be_bytes 1 ((n0 * 64 + n1) * 64 * 64 div 65536)) = [b64_char n0, b64_char n1, 0x3d, 0x3d]"
proof -
  have n: "(3 :: nat) = Suc (Suc (Suc 0))" "(2 :: nat) = Suc (Suc 0)" by simp_all
  have three: "be_bytes 3 m = [of_nat (m div 65536), of_nat (m div 256), of_nat m]"
    and two: "be_bytes 2 m = [of_nat (m div 256), of_nat m]" and one: "be_bytes 1 m = [of_nat m]" for m
    unfolding n by (simp_all flip: div_mult2_eq)
  define m3 where "m3 = ((n0 * 64 + n1) * 64 + n2) * 64 + n3"
  have "be_val (be_bytes 3 m3) = m3" using assms by (simp add: m3_def)
  then show "b64_with k (be_bytes 3 (((n0 * 64 + n1) * 64 + n2) * 64 + n3)) = [b64_char n0, b64_char n1, b64_char n2, b64_char n3]"
    unfolding m3_def [symmetric] three using sextets_digits(3) [OF assms] by (simp add: m3_def del: be_val.simps)
  define m2 where "m2 = ((n0 * 64 + n1) * 64 + n2) * 64 div 256"
  have "m2 = ((n0 * 64 + n1) * 64 + n2) div 4" using div_mult_mult2 [of 64 "(n0 * 64 + n1) * 64 + n2" 4] by (simp add: m2_def)
  also have "\<dots> = n0 * 1024 + n1 * 16 + n2 div 4" by simp
  finally have m2: "m2 = n0 * 1024 + n1 * 16 + n2 div 4" .
  then have "be_val (be_bytes 2 m2) = m2" using assms by simp
  moreover have "m2 * 4 + n2 mod 4 = (n0 * 64 + n1) * 64 + n2" unfolding m2 by simp
  ultimately show "b64_with n2 (be_bytes 2 (((n0 * 64 + n1) * 64 + n2) * 64 div 256)) = [b64_char n0, b64_char n1, b64_char n2, 0x3d]"
    unfolding m2_def [symmetric] two using sextets_digits(2) [OF assms] by (simp del: be_val.simps)
  define m1 where "m1 = (n0 * 64 + n1) * 64 * 64 div 65536"
  have "m1 = (n0 * 64 + n1) div 16" using div_mult_mult2 [of 4096 "n0 * 64 + n1" 16] by (simp add: m1_def mult.assoc)
  also have "\<dots> = n0 * 4 + n1 div 16" by simp
  finally have m1: "m1 = n0 * 4 + n1 div 16" .
  then have "m1 < 256" using assms by simp
  then have "unat (of_nat m1 :: byte) = m1" by (simp only: unat_of_nat_byte mod_less)
  moreover have "m1 * 16 + n1 mod 16 = n0 * 64 + n1" unfolding m1 by simp
  ultimately show "b64_with n1 (be_bytes 1 ((n0 * 64 + n1) * 64 * 64 div 65536)) = [b64_char n0, b64_char n1, 0x3d, 0x3d]"
    unfolding m1_def [symmetric] one using sextets_digits(1) [OF assms] by (simp del: unat_of_nat_byte)
qed

lemma quad_sound:
  assumes "base64_decode_quad (c0 # c1 # c2 # c3 # r) = Some bs"
  shows "\<exists>k. [c0, c1, c2, c3] = b64_with k bs"
proof -
  have pad0: "b64_value 0x3d = 0" by (simp add: b64_value_def)
  have digit: "\<exists>n<64. c = b64_char n \<and> unat (b64_value c) = n" if "unat (b64_value c) \<noteq> 255" and "c \<noteq> 0x3d" for c
    using that by (cases c rule: b64_value_cases) auto
  let ?n = "\<lambda>c. unat (b64_value c)"
  have ok: "?n c0 \<noteq> 255" "?n c1 \<noteq> 255" "?n c2 \<noteq> 255" "?n c3 \<noteq> 255"
    and q: "quad_bytes (c0 = 0x3d) (c1 = 0x3d) (c2 = 0x3d) (c3 = 0x3d) (((?n c0 * 64 + ?n c1) * 64 + ?n c2) * 64 + ?n c3) = Some bs"
    using assms by (auto simp: decode_quad_eq split: if_splits)
  from q have "c0 \<noteq> 0x3d" "c1 \<noteq> 0x3d" by (auto simp: quad_bytes_def)
  then obtain n0 n1 where n01: "n0 < 64" "n1 < 64" "c0 = b64_char n0" "c1 = b64_char n1" "?n c0 = n0" "?n c1 = n1"
    using digit ok(1,2) by metis
  consider "c2 \<noteq> 0x3d" "c3 \<noteq> 0x3d" | "c2 \<noteq> 0x3d" "c3 = 0x3d" | "c2 = 0x3d" "c3 = 0x3d"
    using q by (auto simp: quad_bytes_def split: if_splits)
  then show ?thesis
  proof cases
    case 1
    then obtain n2 n3 where "n2 < 64" "n3 < 64" "c2 = b64_char n2" "c3 = b64_char n3" "?n c2 = n2" "?n c3 = n3"
      using digit ok(3,4) by metis
    then show ?thesis
      using b64_with_digits(1) [OF n01(1,2), of n2 n3] q 1 n01 by (auto simp: quad_bytes_def b64_char_not_pad)
  next
    case 2
    then obtain n2 where "n2 < 64" "c2 = b64_char n2" "?n c2 = n2"
      using digit ok(3) by metis
    then show ?thesis
      using b64_with_digits(2) [OF n01(1,2), of n2 0] q 2 n01 pad0 by (intro exI [of _ n2]) (auto simp: quad_bytes_def b64_char_not_pad)
  next
    case 3
    then show ?thesis
      using b64_with_digits(3) [OF n01(1,2), of 0 0] q 3 n01 pad0 by (intro exI [of _ n1]) (auto simp: quad_bytes_def b64_char_not_pad)
  qed
qed

section \<open>Decoding blocks\<close>

lemma b64_with_four:
  obtains w x y z where "b64_with k (a # b # c # r) = w # x # y # z # b64_with k r"
    and "\<And>j. b64_with j [a, b, c] = [w, x, y, z]"
  by (simp add: sextets_unfold del: be_val.simps)

lemma decode_loop_complete: "decode_base64_loop (b64_with k bs) out = Some (out @ bs)"
proof (induction k bs arbitrary: out rule: b64_with.induct)
  case (1 k a b c r)
  obtain w x y z where four: "b64_with k (a # b # c # r) = w # x # y # z # b64_with k r"
    and quad: "\<And>j. b64_with j [a, b, c] = [w, x, y, z]"
    using b64_with_four by blast
  have "base64_decode_quad (w # x # y # z # b64_with k r) = Some [a, b, c]"
    using quad_complete [of "[a, b, c]" k "b64_with k r"] unfolding quad by simp
  then show ?case using 1 [of "out @ [a, b, c]"] by (simp only: four decode_base64_loop.simps option.case) simp
next
  case (2 k a b)
  obtain w x y z where "b64_with k [a, b] = [w, x, y, z]" by (simp add: sextets_unfold)
  then show ?case using quad_complete [of "[a, b]" k "[]"] by (simp del: b64_with.simps)
next
  case (3 k a)
  obtain w x y z where "b64_with k [a] = [w, x, y, z]" by (simp add: sextets_unfold)
  then show ?case using quad_complete [of "[a]" k "[]"] by (simp del: b64_with.simps)
qed simp

lemma decode_loop_sound:
  assumes "decode_base64_loop inp out = Some res" and "length inp mod 4 = 0"
  shows "\<exists>k bs. res = out @ bs \<and> inp = b64_with k bs"
  using assms
proof (induction inp out rule: decode_base64_loop.induct)
  case (1 c0 c1 c2 c3 inp out)
  from "1.prems"(1) obtain bytes where dec: "base64_decode_quad (c0 # c1 # c2 # c3 # inp) = Some bytes"
    and len: "length bytes = 3 \<or> inp = []" and rest: "decode_base64_loop inp (out @ bytes) = Some res"
    by (auto split: option.splits if_splits)
  obtain j where quad: "[c0, c1, c2, c3] = b64_with j bytes" using quad_sound [OF dec] by blast
  show ?case
  proof (cases "inp = []")
    case True
    then show ?thesis using rest quad by auto
  next
    case False
    then obtain a b c where bytes: "bytes = [a, b, c]"
      using len by (auto simp: length_Suc_conv eval_nat_numeral)
    have "length inp mod 4 = 0" using "1.prems"(2) by simp
    then obtain k bs where "res = (out @ bytes) @ bs" "inp = b64_with k bs"
      using "1.IH" dec len rest False by auto
    moreover have "b64_with k (a # b # c # bs) = [c0, c1, c2, c3] @ b64_with k bs"
      unfolding quad bytes by simp
    ultimately show ?thesis unfolding bytes by (metis append.assoc append_Cons append_Nil)
  qed
qed auto

text \<open>The decoder of blocks is the exact inverse of the reference encoder.\<close>

theorem EVP_DecodeBase64_iff:
  "EVP_DecodeBase64 max_out inp = Some bs \<longleftrightarrow>
     (\<exists>k. inp = b64_with k bs) \<and> (length bs + 2) div 3 * 3 \<le> max_out"
proof
  assume dec: "EVP_DecodeBase64 max_out inp = Some bs"
  then have "length inp mod 4 = 0" "decode_base64_loop inp [] = Some bs" and m: "length inp div 4 * 3 \<le> max_out"
    by (auto simp: EVP_DecodeBase64_def EVP_DecodedLength_def split: if_splits)
  with decode_loop_sound [of inp "[]" bs] obtain k where "inp = b64_with k bs" by auto
  then show "(\<exists>k. inp = b64_with k bs) \<and> (length bs + 2) div 3 * 3 \<le> max_out"
    using m by (auto simp: length_b64_with)
next
  assume "(\<exists>k. inp = b64_with k bs) \<and> (length bs + 2) div 3 * 3 \<le> max_out"
  then show "EVP_DecodeBase64 max_out inp = Some bs"
    by (auto simp: EVP_DecodeBase64_def EVP_DecodedLength_def length_b64_with decode_loop_complete)
qed

end
