(* ===== verification/Base64_Stream.thy ===== *)
theory Base64_Stream
  imports Base64
begin

text \<open>
  The streaming functions of \<open>crypto/base64/base64.c\<close>. The locale \<open>chunked\<close> is the contract of a
  function that takes its input in pieces; encoder and decoder meet it, so neither depends on
  where the input is cut, and the decoder inverts the encoder. At the end the block decoder that
  trims its input.
\<close>

section \<open>Streams\<close>

text \<open>
  A function that takes its input in pieces: \<open>step\<close> is one call, \<open>None\<close> an error;
  \<open>spec\<close> says what a call does to an abstraction of the state and what it returns. If
  \<open>spec\<close> does not care where the input is cut, neither does a sequence of calls.
\<close>

fun feed :: "('s \<Rightarrow> 'x list \<Rightarrow> ('s \<times> 'y list) option) \<Rightarrow> 's \<Rightarrow> 'x list list \<Rightarrow> ('s \<times> 'y list) option" where
  "feed step s [] = Some (s, [])"
| "feed step s (x # xs) =
     (case step s x of
        None \<Rightarrow> None
      | Some (t, out) \<Rightarrow> (case feed step t xs of None \<Rightarrow> None | Some (u, out') \<Rightarrow> Some (u, out @ out')))"

locale chunked =
  fixes step :: "'s \<Rightarrow> 'x list \<Rightarrow> ('s \<times> 'y list) option"
    and good :: "'s \<Rightarrow> bool"
    and abs :: "'s \<Rightarrow> 'a"
    and spec :: "'a \<Rightarrow> 'x list \<Rightarrow> ('a \<times> 'y list) option"
    and bound :: nat
  assumes step_spec: "good s \<Longrightarrow> length x \<le> bound \<Longrightarrow>
      map_option (\<lambda>(t, out). (abs t, out)) (step s x) = spec (abs s) x"
    and step_good: "good s \<Longrightarrow> length x \<le> bound \<Longrightarrow> step s x = Some (t, out) \<Longrightarrow> good t"
    and spec_nil: "good s \<Longrightarrow> spec (abs s) [] = Some (abs s, [])"
    and spec_append: "good s \<Longrightarrow> spec (abs s) (x @ y) =
      Option.bind (spec (abs s) x) (\<lambda>(b, out). Option.bind (spec b y) (\<lambda>(c, out'). Some (c, out @ out')))"
begin

lemma feed_concat:
  "good s \<Longrightarrow> length (concat xs) \<le> bound \<Longrightarrow>
   map_option (\<lambda>(t, out). (abs t, out)) (feed step s xs) = spec (abs s) (concat xs)"
proof (induction xs arbitrary: s)
  case (Cons x xs)
  have x: "length x \<le> bound" and xs: "length (concat xs) \<le> bound" using Cons.prems(2) by simp_all
  show ?case
  proof (cases "step s x")
    case None
    then have "spec (abs s) x = None" using step_spec [OF Cons.prems(1) x] by simp
    then show ?thesis using None by (simp add: spec_append [OF Cons.prems(1)])
  next
    case (Some r)
    then obtain t out where r: "step s x = Some (t, out)" by (cases r) simp
    have spec: "spec (abs s) x = Some (abs t, out)" using step_spec [OF Cons.prems(1) x] r by simp
    show ?thesis
      using Cons.IH [OF step_good [OF Cons.prems(1) x r] xs, symmetric] r spec
      by (cases "feed step t xs") (auto simp: spec_append [OF Cons.prems(1)] split: option.splits)
  qed
qed (simp add: spec_nil)

lemma feed_good: "good s \<Longrightarrow> length (concat xs) \<le> bound \<Longrightarrow> feed step s xs = Some (t, out) \<Longrightarrow> good t"
proof (induction xs arbitrary: s t out)
  case (Cons x xs)
  from Cons.prems(3) obtain u o1 o2 where x: "step s x = Some (u, o1)" and xs: "feed step u xs = Some (t, o2)"
    by (auto split: option.splits)
  have "good u" using step_good [OF Cons.prems(1) _ x] Cons.prems(2) by simp
  then show ?case using Cons.IH [OF _ _ xs] Cons.prems(2) by simp
qed simp

end

subsection \<open>Encoding\<close>

text \<open>Full lines of 48 bytes, and what is left for the next call.\<close>

definition b64_line :: "byte list \<Rightarrow> byte list" where
  "b64_line bs = b64 bs @ [0x0a]"

function full_lines :: "byte list \<Rightarrow> byte list \<times> byte list" where
  "full_lines bs =
     (if 48 \<le> length bs then (case full_lines (drop 48 bs) of (rest, out) \<Rightarrow> (rest, b64_line (take 48 bs) @ out))
      else (bs, []))"
  by pat_completeness auto
termination
  by (relation "measure length") auto

declare full_lines.simps [simp del]

lemma full_lines_short [simp]: "length bs < 48 \<Longrightarrow> full_lines bs = (bs, [])"
  by (subst full_lines.simps) simp

lemma full_lines_long: "length xs = 48 \<Longrightarrow>
    full_lines (xs @ bs) = (case full_lines bs of (rest, out) \<Rightarrow> (rest, b64_line xs @ out))"
  by (subst full_lines.simps) simp

lemma full_lines_rest: "length (fst (full_lines bs)) < 48"
  by (induction bs rule: full_lines.induct) (subst full_lines.simps, auto split: prod.splits)

lemma full_lines_length: "length (snd (full_lines bs)) = 65 * (length bs div 48)"
proof (induction bs rule: full_lines.induct)
  case (1 bs)
  show ?case
  proof (cases "48 \<le> length bs")
    case True
    have "length (b64_line (take 48 bs)) = 65" using True by (simp add: b64_line_def length_b64)
    then show ?thesis using 1 [OF True] True by (subst full_lines.simps) (simp add: le_div_geq split_beta)
  qed simp
qed

lemma full_lines_append:
  "full_lines (xs @ ys) =
     (case full_lines xs of (rest, out) \<Rightarrow> case full_lines (rest @ ys) of (rest', out') \<Rightarrow> (rest', out @ out'))"
proof (induction xs rule: full_lines.induct)
  case (1 xs)
  show ?case
  proof (cases "48 \<le> length xs")
    case True
    have "xs @ ys = take 48 xs @ (drop 48 xs @ ys)" by simp
    then have "full_lines (xs @ ys) = (case full_lines (drop 48 xs @ ys) of (rest, out) \<Rightarrow> (rest, b64_line (take 48 xs) @ out))"
      using full_lines_long [of "take 48 xs" "drop 48 xs @ ys"] True by (simp only: length_take min_absorb2)
    moreover have "full_lines xs = (case full_lines (drop 48 xs) of (rest, out) \<Rightarrow> (rest, b64_line (take 48 xs) @ out))"
      using full_lines_long [of "take 48 xs" "drop 48 xs"] True by simp
    ultimately show ?thesis using 1 [OF True] by (simp add: split_beta)
  qed (simp add: split_beta)
qed

text \<open>The lines are the encodings of the 48-byte pieces.\<close>

lemma full_lines_pieces:
  assumes "\<forall>x \<in> set xs. length x = 48" and "length r < 48"
  shows "full_lines (concat xs @ r) = (r, concat (map b64_line xs))"
  using assms(1) by (induction xs) (simp_all add: full_lines_long assms(2))

definition enc_ok :: "encode_ctx \<Rightarrow> bool" where
  "enc_ok ctx \<longleftrightarrow> length (ec_data ctx) = 48 \<and> ec_data_used ctx < 48"

definition ec_pending :: "encode_ctx \<Rightarrow> byte list" where
  "ec_pending ctx = take (ec_data_used ctx) (ec_data ctx)"

lemma encode_line_eq:
  assumes "take pos out = w" and "pos = length w" and "length out \<le> pos + 1" and "length (b64 src) < size_mod"
  shows "encode_line src pos out =
    (w @ b64_line src @ [0], length (w @ b64_line src), length (b64 src))"
proof -
  have blk: "put_at pos (b64 src @ [0]) out = w @ b64 src @ [0]"
    using assms(1,3) by (simp add: put_at_def)
  then show ?thesis
    unfolding encode_line_def EVP_EncodeBlock_eq [OF assms(4)] prod.case blk
    using assms(2) by (simp add: put_at_def b64_line_def)
qed

declare encode_update_loop.simps [simp del]

lemma encode_update_loop_eq:
  assumes "take (length w) out = w" and "length out \<le> length w + 1"
    and "tot + length (snd (full_lines inp)) < size_mod"
  shows "\<exists>out'. encode_update_loop inp (length w) out tot =
      (fst (full_lines inp), out', Some (tot + length (snd (full_lines inp)))) \<and>
    take (length (w @ snd (full_lines inp))) out' = w @ snd (full_lines inp) \<and>
    length out' \<le> length (w @ snd (full_lines inp)) + 1"
  using assms
proof (induction inp arbitrary: w out tot rule: full_lines.induct)
  case (1 inp)
  show ?case
  proof (cases "48 \<le> length inp")
    case False
    then show ?thesis using "1.prems" by (subst encode_update_loop.simps) (simp add: sizeof_ec_data_def)
  next
    case True
    define line where "line = b64_line (take 48 inp)"
    have len: "length (b64 (take 48 inp)) = 64" "length line = 65" using True by (simp_all add: line_def b64_line_def length_b64)
    have fl: "full_lines inp = (fst (full_lines (drop 48 inp)), line @ snd (full_lines (drop 48 inp)))"
      using True by (subst full_lines.simps) (simp add: split_beta line_def)
    have step: "encode_line (take 48 inp) (length w) out = (w @ line @ [0], length (w @ line), 64)"
      using encode_line_eq [OF "1.prems"(1) refl "1.prems"(2), of "take 48 inp"] len
      by (simp add: line_def size_mod_def)
    have tot: "size_add (size_add tot 64) 1 = tot + 65" using "1.prems"(3) fl len by simp
    have rec: "encode_update_loop inp (length w) out tot =
        encode_update_loop (drop 48 inp) (length (w @ line)) (w @ line @ [0]) (tot + 65)"
      using True by (subst encode_update_loop.simps) (simp add: sizeof_ec_data_def step tot [simplified])
    have "tot + 65 + length (snd (full_lines (drop 48 inp))) < size_mod"
      using "1.prems"(3) fl len by simp
    from "1.IH" [OF True _ _ this, of "w @ line" "w @ line @ [0]"]
    show ?thesis unfolding rec fl using len by (simp add: add.assoc)
  qed
qed

text \<open>
  One call of \<open>EVP_EncodeUpdate\<close>: the pending bytes and the input make full lines, which are
  written, and a rest, which stays pending.
\<close>

theorem EVP_EncodeUpdate_ok:
  assumes "enc_ok ctx" and "length inp \<le> 2 ^ 30"
  shows "\<exists>ctx' out. EVP_EncodeUpdate ctx inp = (ctx', out, length (snd (full_lines (ec_pending ctx @ inp)))) \<and>
    take (length (snd (full_lines (ec_pending ctx @ inp)))) out = snd (full_lines (ec_pending ctx @ inp)) \<and>
    length out \<le> length (snd (full_lines (ec_pending ctx @ inp))) + 1 \<and>
    enc_ok ctx' \<and> ec_pending ctx' = fst (full_lines (ec_pending ctx @ inp))"
proof -
  define p where "p = ec_pending ctx"
  have ok: "length (ec_data ctx) = 48" "ec_data_used ctx < 48" and p: "length p = ec_data_used ctx"
    using assms(1) by (simp_all add: enc_ok_def p_def ec_pending_def)
  have short: "length (snd (full_lines (p @ inp))) \<le> INT_MAX"
    using assms(2) ok(2) p by (simp add: full_lines_length INT_MAX_def)
  consider (none) "inp = []" | (keep) "inp \<noteq> []" "length (p @ inp) < 48" | (lines) "inp \<noteq> []" "48 \<le> length (p @ inp)"
    by linarith
  then show ?thesis
  proof cases
    case none
    then show ?thesis using assms(1) ok p by (simp add: EVP_EncodeUpdate_def flip: p_def)
  next
    case keep
    have "length inp < 48 - ec_data_used ctx" using keep p ok(2) by simp
    then have "EVP_EncodeUpdate ctx inp =
        (ctx\<lparr>ec_data := put_at (ec_data_used ctx) inp (ec_data ctx), ec_data_used := ec_data_used ctx + length inp\<rparr>, [], 0)"
      using keep p ok(2) by (simp add: EVP_EncodeUpdate_def sizeof_ec_data_def)
    moreover have "take (length (p @ inp)) (put_at (ec_data_used ctx) inp (ec_data ctx)) = p @ inp"
      using p ok by (simp add: put_at_def p_def ec_pending_def)
    ultimately show ?thesis using keep ok p
      by (simp add: enc_ok_def ec_pending_def put_at_def flip: p_def)
  next
    case lines
    show ?thesis
    proof (cases "ec_data_used ctx = 0")
      case True
      then have "p = []" using p by simp
      obtain out' where run: "encode_update_loop inp 0 [] 0 = (fst (full_lines inp), out', Some (length (snd (full_lines inp))))"
        and out': "take (length (snd (full_lines inp))) out' = snd (full_lines inp)" "length out' \<le> length (snd (full_lines inp)) + 1"
        using encode_update_loop_eq [of "[]" "[]" 0 inp] short \<open>p = []\<close> by (auto simp: INT_MAX_def size_mod_def)
      have "length (fst (full_lines inp)) < 48" by (rule full_lines_rest)
      then show ?thesis
        using True lines run out' short ok \<open>p = []\<close>
        by (auto simp: EVP_EncodeUpdate_def sizeof_ec_data_def enc_ok_def ec_pending_def put_at_def p_def [symmetric])
    next
      case False
      define todo where "todo = 48 - ec_data_used ctx"
      define dat where "dat = put_at (ec_data_used ctx) (take todo inp) (ec_data ctx)"
      have todo: "todo \<le> length inp" using lines p by (simp add: todo_def)
      have dat: "dat = p @ take todo inp" using todo ok p
        by (simp add: dat_def put_at_def todo_def p_def ec_pending_def)
      define rest where "rest = drop todo inp"
      define fl where "fl = full_lines rest"
      have p_inp: "p @ inp = dat @ rest" and dat48: "length dat = 48"
        using ok p todo by (simp_all add: dat rest_def todo_def)
      have fl_all: "full_lines (p @ inp) = (fst fl, b64_line dat @ snd fl)"
        unfolding p_inp fl_def using full_lines_long [OF dat48, of rest] by (simp add: split_beta)
      have len: "length (b64 dat) = 64" "length (b64_line dat) = 65" using dat48 by (simp_all add: b64_line_def length_b64)
      have line: "encode_line dat 0 [] = (b64_line dat @ [0], 65, 64)"
        using encode_line_eq [of 0 "[]" "[]" dat] len by (simp add: size_mod_def)
      obtain out' where run: "encode_update_loop rest 65 (b64_line dat @ [0]) 65 = (fst fl, out', Some (65 + length (snd fl)))"
        and out': "take (65 + length (snd fl)) out' = b64_line dat @ snd fl" "length out' \<le> 65 + length (snd fl) + 1"
        using encode_update_loop_eq [of "b64_line dat" "b64_line dat @ [0]" 65 rest] short len
        unfolding fl_all fl_def [symmetric] by (auto simp: INT_MAX_def size_mod_def)
      have "EVP_EncodeUpdate ctx inp =
        (ctx\<lparr>ec_data := (if length (fst fl) \<noteq> 0 then put_at 0 (fst fl) dat else dat), ec_data_used := length (fst fl)\<rparr>, out',
         if 65 + length (snd fl) > INT_MAX then 0 else 65 + length (snd fl))"
      proof -
        have "\<not> sizeof_ec_data - ec_data_used ctx > length inp" using todo by (simp add: sizeof_ec_data_def todo_def)
        moreover have "size_add 64 1 = 65" by (simp add: size_mod_def)
        ultimately show ?thesis
          unfolding EVP_EncodeUpdate_def Let_def using lines False run line
          by (simp add: sizeof_ec_data_def todo_def [symmetric] dat_def [symmetric] rest_def [symmetric] del: One_nat_def)
      qed
      moreover have "length (fst fl) < 48" unfolding fl_def by (rule full_lines_rest)
      ultimately show ?thesis
        unfolding p_def [symmetric] fl_all using short out' dat48 len unfolding fl_all
        by (auto simp: enc_ok_def ec_pending_def put_at_def)
    qed
  qed
qed

text \<open>The last, short line.\<close>

lemma EVP_EncodeFinal_ok:
  assumes "enc_ok ctx"
  shows "EVP_EncodeFinal ctx =
    (if ec_pending ctx = [] then (ctx, [], 0)
     else (ctx\<lparr>ec_data_used := 0\<rparr>, b64_line (ec_pending ctx) @ [0], length (b64_line (ec_pending ctx))))"
proof (cases "ec_data_used ctx = 0")
  case False
  then have ne: "ec_pending ctx \<noteq> []" using assms by (auto simp: ec_pending_def enc_ok_def)
  have "length (ec_pending ctx) < 48" using assms by (simp add: ec_pending_def enc_ok_def)
  then have "length (b64 (ec_pending ctx)) < size_mod"
    using div_le_dividend [of "length (ec_pending ctx) + 2" 3] order.strict_trans [of _ 200 size_mod]
    unfolding length_b64 by (simp add: size_mod_def)
  then show ?thesis
    using False ne encode_line_eq [of 0 "[]" "[]" "ec_pending ctx"]
    by (simp add: EVP_EncodeFinal_def b64_line_def flip: ec_pending_def)
qed (simp add: EVP_EncodeFinal_def ec_pending_def)

definition encode_step :: "encode_ctx \<Rightarrow> byte list \<Rightarrow> (encode_ctx \<times> byte list) option" where
  "encode_step ctx x = (case EVP_EncodeUpdate ctx x of (ctx, out, n) \<Rightarrow> Some (ctx, take n out))"

lemma encode_step_ok:
  assumes "enc_ok ctx" and "length x \<le> 2 ^ 30"
  shows "\<exists>ctx'. encode_step ctx x = Some (ctx', snd (full_lines (ec_pending ctx @ x))) \<and> enc_ok ctx' \<and>
    ec_pending ctx' = fst (full_lines (ec_pending ctx @ x))"
  using EVP_EncodeUpdate_ok [OF assms] by (auto simp: encode_step_def)

interpretation encoder: chunked encode_step enc_ok ec_pending "\<lambda>p x. Some (full_lines (p @ x))" "2 ^ 30"
proof (unfold_locales, goal_cases)
  case (1 s x)
  then show ?case using encode_step_ok [of s x] by auto
next
  case (2 s x t out)
  then show ?case using encode_step_ok [of s x] by auto
next
  case (3 s)
  then show ?case by (simp add: ec_pending_def enc_ok_def)
next
  case (4 s x y)
  show ?case using full_lines_append [of "ec_pending s @ x" y] by (simp add: split_beta)
qed

text \<open>The encoding of a whole input in lines.\<close>

definition b64_lines :: "byte list \<Rightarrow> byte list" where
  "b64_lines bs = (case full_lines bs of (rest, out) \<Rightarrow> out @ (if rest = [] then [] else b64_line rest))"

theorem encode_stream:
  assumes "length (concat xs) \<le> 2 ^ 30"
  shows "\<exists>ctx out. feed encode_step EVP_EncodeInit xs = Some (ctx, out) \<and>
    (case EVP_EncodeFinal ctx of (ctx', fin, n) \<Rightarrow> out @ take n fin = b64_lines (concat xs) \<and> ec_data_used ctx' = 0)"
proof -
  have init: "enc_ok EVP_EncodeInit" "ec_pending EVP_EncodeInit = []"
    by (simp_all add: enc_ok_def EVP_EncodeInit_def sizeof_ec_data_def ec_pending_def)
  have "map_option (\<lambda>(t, out). (ec_pending t, out)) (feed encode_step EVP_EncodeInit xs) = Some (full_lines (concat xs))"
    using encoder.feed_concat [OF init(1) assms] init(2) by simp
  then obtain ctx out where run: "feed encode_step EVP_EncodeInit xs = Some (ctx, out)"
    and fl: "full_lines (concat xs) = (ec_pending ctx, out)" by auto
  have "enc_ok ctx" by (rule encoder.feed_good [OF init(1) assms run])
  then show ?thesis
    using run fl by (auto simp: EVP_EncodeFinal_ok b64_lines_def ec_pending_def enc_ok_def)
qed

subsection \<open>Decoding\<close>

definition blank :: "byte \<Rightarrow> bool" where
  "blank c \<longleftrightarrow> c = 0x20 \<or> c = 0x09 \<or> c = 0x0d \<or> c = 0x0a"

text \<open>The characters that are not blanks, in groups of four: what is left over, whether a padded
  group was seen, and the bytes.\<close>

fun quads :: "bool \<Rightarrow> byte list \<Rightarrow> ((byte list \<times> bool) \<times> byte list) option" where
  "quads eof (c0 # c1 # c2 # c3 # r) =
     (if eof then None
      else (case base64_decode_quad [c0, c1, c2, c3] of
              None \<Rightarrow> None
            | Some bs \<Rightarrow> map_option (\<lambda>(st, out). (st, bs @ out)) (quads (length bs < 3) r)))"
| "quads eof [] = Some (([], eof), [])"
| "quads eof p = (if eof then None else Some ((p, False), []))"

lemma quads_short: "length p < 4 \<Longrightarrow> quads eof p = (if eof \<and> p \<noteq> [] then None else Some ((p, eof), []))"
  by (cases "(eof, p)" rule: quads.cases) auto

lemma quads_eof [simp]: "quads True (c # r) = None"
  by (cases "(True, c # r)" rule: quads.cases) auto

lemma quads_append:
  "quads eof (xs @ ys) =
    Option.bind (quads eof xs) (\<lambda>((p, e), out). Option.bind (quads e (p @ ys)) (\<lambda>(st, out'). Some (st, out @ out')))"
proof (induction eof xs rule: quads.induct)
  case (1 eof c0 c1 c2 c3 r)
  show ?case
  proof (cases "eof \<or> base64_decode_quad [c0, c1, c2, c3] = None")
    case False
    then obtain bs where bs: "base64_decode_quad [c0, c1, c2, c3] = Some bs" and eof: "\<not> eof" by blast
    note IH = 1 [OF eof bs]
    show ?thesis
    proof (cases "quads (length bs < 3) r")
      case None
      then show ?thesis using IH bs eof by simp
    next
      case (Some q)
      obtain p e out where q: "q = ((p, e), out)" by (cases q) auto
      show ?thesis using IH bs eof Some q by (cases "quads e (p @ ys)") auto
    qed
  qed auto
next
  case (2 eof)
  then show ?case by (cases "quads eof ys") auto
qed (auto split: option.splits prod.splits simp: quads_short elim: quads.elims)

lemma quads_out_length: "quads eof xs = Some (st, out) \<Longrightarrow> length out \<le> length xs"
proof (induction eof xs arbitrary: out rule: quads.induct)
  case (1 eof c0 c1 c2 c3 r)
  then obtain bs out' where bs: "base64_decode_quad [c0, c1, c2, c3] = Some bs" and "\<not> eof"
    and "quads (length bs < 3) r = Some (st, out')" "out = bs @ out'" by (auto split: if_splits option.splits)
  moreover have "length bs \<le> 3"
    using bs by (auto simp: decode_quad_eq quad_bytes_def split: if_splits)
  ultimately show ?case using 1 by fastforce
qed (auto split: if_splits)

definition dec_ok :: "encode_ctx \<Rightarrow> bool" where
  "dec_ok ctx \<longleftrightarrow> length (ec_data ctx) = 48 \<and> ec_data_used ctx < 4 \<and> \<not> ec_error_encountered ctx \<and>
     (ec_eof_seen ctx \<longrightarrow> ec_data_used ctx = 0)"

definition dec_abs :: "encode_ctx \<Rightarrow> byte list \<times> bool" where
  "dec_abs ctx = (ec_pending ctx, ec_eof_seen ctx)"

lemma decode_quad_take: "4 \<le> length xs \<Longrightarrow> base64_decode_quad (take 4 xs) = base64_decode_quad xs"
  by (simp add: base64_decode_quad_def)

text \<open>The loop of \<open>EVP_DecodeUpdate\<close> decodes the characters that are not blanks.\<close>

lemma decode_update_loop_ok:
  assumes "dec_ok ctx"
  shows "case quads (ec_eof_seen ctx) (ec_pending ctx @ filter (\<lambda>c. \<not> blank c) inp) of
      None \<Rightarrow> \<exists>ctx' out'. decode_update_loop ctx out inp = (ctx', out', False) \<and> ec_error_encountered ctx'
    | Some (st, bs) \<Rightarrow> \<exists>ctx'. decode_update_loop ctx out inp = (ctx', out @ bs, True) \<and> dec_ok ctx' \<and> dec_abs ctx' = st"
  using assms
proof (induction ctx out inp rule: decode_update_loop.induct)
  case (1 ctx out)
  then show ?case by (auto simp: dec_ok_def ec_pending_def dec_abs_def quads_short)
next
  case (2 ctx out c inp)
  let ?ctx = "ctx\<lparr>ec_data := (ec_data ctx)[ec_data_used ctx := c], ec_data_used := ec_data_used ctx + 1\<rparr>"
  note IH = "2.IH" [folded blank_def]
  note step = decode_update_loop.simps(2) [of ctx out c inp, folded blank_def]
  have used: "ec_data_used ctx < 4" and len: "length (ec_data ctx) = 48" using "2.prems" by (simp_all add: dec_ok_def)
  consider (blank) "blank c" | (eof) "\<not> blank c" "ec_eof_seen ctx" | (keep) "\<not> blank c" "\<not> ec_eof_seen ctx" "ec_data_used ctx \<noteq> 3"
    | (quad) "\<not> blank c" "\<not> ec_eof_seen ctx" "ec_data_used ctx = 3" by blast
  then show ?case
  proof cases
    case blank
    then have run: "decode_update_loop ctx out (c # inp) = decode_update_loop ctx out inp" by (simp add: step del: decode_update_loop.simps)
    show ?thesis unfolding run using IH(1) "2.prems" blank by simp
  next
    case eof
    then show ?thesis using "2.prems" by (simp add: step dec_ok_def ec_pending_def del: decode_update_loop.simps)
  next
    case keep
    have "ec_pending ?ctx = ec_pending ctx @ [c]"
      using used len by (simp add: ec_pending_def take_Suc_conv_app_nth)
    moreover have "dec_ok ?ctx" using "2.prems" keep by (simp add: dec_ok_def)
    moreover have run: "decode_update_loop ctx out (c # inp) = decode_update_loop ?ctx out inp"
      using keep by (simp add: step Let_def del: decode_update_loop.simps)
    ultimately show ?thesis unfolding run Suc_eq_plus1 [symmetric] using keep IH(3) by simp
  next
    case quad
    have dat: "ec_data ?ctx = take 3 (ec_data ctx) @ c # drop 4 (ec_data ctx)"
      using quad(3) len by (simp add: upd_conv_take_nth_drop)
    have p: "length (ec_pending ctx) = 3" "ec_pending ctx = take 3 (ec_data ctx)"
      using quad(3) len by (simp_all add: ec_pending_def)
    obtain c0 c1 c2 where pend: "ec_pending ctx = [c0, c1, c2]"
      using p(1) by (auto simp: length_Suc_conv eval_nat_numeral)
    have "base64_decode_quad (ec_data ?ctx) = base64_decode_quad [c0, c1, c2, c]"
      unfolding dat p(2) [symmetric] pend by (simp add: base64_decode_quad_def)
    note dec = this
    have used4: "ec_data_used ?ctx = 4" using quad(3) by simp
    show ?thesis
    proof (cases "base64_decode_quad [c0, c1, c2, c]")
      case None
      then show ?thesis using quad used4 dec pend by (simp add: step Let_def del: decode_update_loop.simps)
    next
      case (Some bs)
      let ?next = "?ctx\<lparr>ec_data_used := 0, ec_eof_seen := (length bs < 3 \<or> ec_eof_seen ?ctx)\<rparr>"
      have nx: "dec_ok ?next" "ec_pending ?next = []" "ec_eof_seen ?next = (length bs < 3)"
        using "2.prems" quad by (simp_all add: dec_ok_def ec_pending_def)
      have run: "decode_update_loop ctx out (c # inp) = decode_update_loop ?next (out @ bs) inp"
        using quad used4 dec Some by (simp add: step Let_def del: decode_update_loop.simps)
      have rest: "quads (ec_eof_seen ctx) (ec_pending ctx @ filter (\<lambda>c. \<not> blank c) (c # inp)) =
          map_option (\<lambda>(st, o2). (st, bs @ o2)) (quads (length bs < 3) (filter (\<lambda>c. \<not> blank c) inp))"
        using quad pend Some by simp
      have "base64_decode_quad (ec_data ?ctx) = Some bs" using dec Some by simp
      note ih = IH(2) [OF quad(1,2) refl used4 this nx(1), unfolded nx(2,3) append_Nil]
      show ?thesis
        unfolding rest run using ih
        by (cases "quads (length bs < 3) (filter (\<lambda>c. \<not> blank c) inp)") auto
    qed
  qed
qed

theorem EVP_DecodeUpdate_ok:
  assumes "dec_ok ctx" and "length inp \<le> 2 ^ 30"
  shows "case quads (ec_eof_seen ctx) (ec_pending ctx @ filter (\<lambda>c. \<not> blank c) inp) of
      None \<Rightarrow> \<exists>ctx' out. EVP_DecodeUpdate ctx inp = (-1, ctx', out, 0) \<and> ec_error_encountered ctx'
    | Some (st, bs) \<Rightarrow> \<exists>ctx'. EVP_DecodeUpdate ctx inp = (if snd st then 0 else 1, ctx', bs, length bs) \<and>
        dec_ok ctx' \<and> dec_abs ctx' = st"
proof (cases "quads (ec_eof_seen ctx) (ec_pending ctx @ filter (\<lambda>c. \<not> blank c) inp)")
  case None
  then show ?thesis
    using decode_update_loop_ok [OF assms(1), where inp = inp and out = "[]"] assms(1) by (auto simp: EVP_DecodeUpdate_def dec_ok_def)
next
  case (Some q)
  obtain st bs where q: "q = (st, bs)" by (cases q)
  have "length bs \<le> length (ec_pending ctx @ filter (\<lambda>c. \<not> blank c) inp)"
    using quads_out_length Some q by blast
  also have "\<dots> \<le> 4 + length inp"
    using assms(1) add_mono [OF _ length_filter_le [of "\<lambda>c. \<not> blank c" inp]] by (simp add: ec_pending_def dec_ok_def)
  finally have "\<not> INT_MAX < length bs" using assms(2) by (simp add: INT_MAX_def)
  moreover have "\<not> ec_error_encountered ctx" using assms(1) by (simp add: dec_ok_def)
  ultimately show ?thesis
    using decode_update_loop_ok [OF assms(1), where inp = inp and out = "[]"] Some q by (auto simp: EVP_DecodeUpdate_def dec_abs_def)
qed

text \<open>An error is final: every later call fails too.\<close>

lemma decode_error_sticks:
  "ec_error_encountered ctx \<Longrightarrow> EVP_DecodeUpdate ctx inp = (-1, ctx, [], 0) \<and> EVP_DecodeFinal ctx = -1"
  by (simp add: EVP_DecodeUpdate_def EVP_DecodeFinal_def)

definition decode_step :: "encode_ctx \<Rightarrow> byte list \<Rightarrow> (encode_ctx \<times> byte list) option" where
  "decode_step ctx x = (case EVP_DecodeUpdate ctx x of (ret, ctx, out, n) \<Rightarrow> if ret < 0 then None else Some (ctx, take n out))"

definition decode_spec :: "byte list \<times> bool \<Rightarrow> byte list \<Rightarrow> ((byte list \<times> bool) \<times> byte list) option" where
  "decode_spec = (\<lambda>(p, eof) x. quads eof (p @ filter (\<lambda>c. \<not> blank c) x))"

lemma decode_step_ok:
  assumes "dec_ok ctx" and "length x \<le> 2 ^ 30"
  shows "case decode_spec (dec_abs ctx) x of
      None \<Rightarrow> decode_step ctx x = None
    | Some (st, bs) \<Rightarrow> \<exists>ctx'. decode_step ctx x = Some (ctx', bs) \<and> dec_ok ctx' \<and> dec_abs ctx' = st"
  using EVP_DecodeUpdate_ok [OF assms]
  by (auto simp: decode_spec_def dec_abs_def decode_step_def split: option.splits)

interpretation decoder: chunked decode_step dec_ok dec_abs decode_spec "2 ^ 30"
proof (unfold_locales, goal_cases)
  case (1 s x)
  then show ?case using decode_step_ok [of s x] by (auto split: option.splits)
next
  case (2 s x t out)
  then show ?case using decode_step_ok [of s x] by (auto split: option.splits)
next
  case (3 s)
  then show ?case
    by (auto simp: decode_spec_def dec_abs_def dec_ok_def ec_pending_def quads_short)
next
  case (4 s x y)
  show ?case
    using quads_append [of "ec_eof_seen s" "ec_pending s @ filter (\<lambda>c. \<not> blank c) x" "filter (\<lambda>c. \<not> blank c) y"]
    by (cases "quads (ec_eof_seen s) (ec_pending s @ filter (\<lambda>c. \<not> blank c) x)")
       (auto simp: decode_spec_def dec_abs_def)
qed

text \<open>The streaming decoder without its blanks is the block decoder.\<close>

lemma quads_loop:
  "(\<exists>e. quads False cs = Some (([], e), out)) \<longleftrightarrow> length cs mod 4 = 0 \<and> decode_base64_loop cs acc = Some (acc @ out)"
proof (induction cs acc arbitrary: out rule: decode_base64_loop.induct)
  case (1 c0 c1 c2 c3 inp acc)
  have dec: "base64_decode_quad (c0 # c1 # c2 # c3 # inp) = base64_decode_quad [c0, c1, c2, c3]"
    by (simp add: base64_decode_quad_def)
  have len: "length (c0 # c1 # c2 # c3 # inp) mod 4 = length inp mod 4" by simp
  show ?case
  proof (cases "base64_decode_quad [c0, c1, c2, c3]")
    case None
    then show ?thesis by (simp add: dec)
  next
    case (Some bs)
    have bs: "length bs \<le> 3" using Some by (auto simp: decode_quad_eq quad_bytes_def split: if_splits)
    have loop: "decode_base64_loop (c0 # c1 # c2 # c3 # inp) acc =
        (if length bs \<noteq> 3 \<and> inp \<noteq> [] then None else decode_base64_loop inp (acc @ bs))"
      using Some dec by simp
    have quad: "quads False (c0 # c1 # c2 # c3 # inp) = map_option (\<lambda>(st, o2). (st, bs @ o2)) (quads (length bs < 3) inp)"
      using Some by simp
    show ?thesis
    proof (cases "length bs = 3")
      case True
      have ih: "(\<exists>e. quads False inp = Some (([], e), o2)) \<longleftrightarrow>
          length inp mod 4 = 0 \<and> decode_base64_loop inp (acc @ bs) = Some ((acc @ bs) @ o2)" for o2
        using "1.IH" [of bs o2] True Some dec by simp
      have "(\<exists>e. quads False (c0 # c1 # c2 # c3 # inp) = Some (([], e), out)) \<longleftrightarrow>
          (\<exists>o2. out = bs @ o2 \<and> (\<exists>e. quads False inp = Some (([], e), o2)))"
        unfolding quad using True by auto
      moreover have "length inp mod 4 = 0 \<and> decode_base64_loop inp (acc @ bs) = Some (acc @ out) \<longleftrightarrow>
          (\<exists>o2. out = bs @ o2 \<and> length inp mod 4 = 0 \<and> decode_base64_loop inp (acc @ bs) = Some ((acc @ bs) @ o2))"
        using decode_loop_sound [of inp "acc @ bs" "acc @ out"] by auto
      ultimately show ?thesis unfolding ih loop len using True by simp
    next
      case False
      then show ?thesis
        using bs unfolding loop quad len by (cases inp) auto
    qed
  qed
qed (auto simp: quads_short)

theorem decode_stream:
  assumes "length (concat xs) \<le> 2 ^ 30"
  shows "(\<exists>ctx. feed decode_step EVP_DecodeInit xs = Some (ctx, out) \<and> EVP_DecodeFinal ctx = 1) \<longleftrightarrow>
    (\<exists>k. filter (\<lambda>c. \<not> blank c) (concat xs) = b64_with k out)"
    (is "?run \<longleftrightarrow> ?ref")
proof -
  let ?cs = "filter (\<lambda>c. \<not> blank c) (concat xs)"
  have init: "dec_ok EVP_DecodeInit" "dec_abs EVP_DecodeInit = ([], False)"
    by (simp_all add: dec_ok_def EVP_DecodeInit_def sizeof_ec_data_def dec_abs_def ec_pending_def)
  have spec: "map_option (\<lambda>(t, out). (dec_abs t, out)) (feed decode_step EVP_DecodeInit xs) = quads False ?cs"
    using decoder.feed_concat [OF init(1) assms] init(2) by (simp add: decode_spec_def)
  have final: "EVP_DecodeFinal ctx = 1 \<longleftrightarrow> ec_pending ctx = []" if "feed decode_step EVP_DecodeInit xs = Some (ctx, out)" for ctx
    using decoder.feed_good [OF init(1) assms that] by (auto simp: EVP_DecodeFinal_def dec_ok_def ec_pending_def)
  have "?run \<longleftrightarrow> (\<exists>e. quads False ?cs = Some (([], e), out))"
    unfolding spec [symmetric] using final by (auto simp: dec_abs_def)
  also have "\<dots> \<longleftrightarrow> length ?cs mod 4 = 0 \<and> decode_base64_loop ?cs [] = Some ([] @ out)"
    by (rule quads_loop)
  also have "\<dots> \<longleftrightarrow> ?ref"
  proof
    assume "length ?cs mod 4 = 0 \<and> decode_base64_loop ?cs [] = Some ([] @ out)"
    then show ?ref using decode_loop_sound [of ?cs "[]" out] by auto
  next
    assume ?ref
    then obtain k where k: "?cs = b64_with k out" by blast
    show "length ?cs mod 4 = 0 \<and> decode_base64_loop ?cs [] = Some ([] @ out)"
      unfolding k by (simp add: length_b64_with decode_loop_complete)
  qed
  finally show ?thesis .
qed

subsection \<open>Both directions\<close>

lemma sextets_chars: "c \<in> set (sextets n v) \<Longrightarrow> \<exists>m < 64. c = b64_char m"
  by (induction n v rule: sextets.induct) (auto intro: exI [of _ "v mod 64" for v])

lemma b64_char_not_blank: "n < 64 \<Longrightarrow> \<not> blank (b64_char n)"
proof
  assume n: "n < 64" and "blank (b64_char n)"
  moreover have "blank c \<Longrightarrow> b64_value c = 0xff" for c by (auto simp: blank_def b64_value_def)
  ultimately have "unat (of_nat n :: byte) = unat (0xff :: byte)" using b64_value_char by metis
  then show False using n by simp
qed

lemma b64_not_blank: "c \<in> set (b64_with k bs) \<Longrightarrow> \<not> blank c"
  by (induction k bs rule: b64_with.induct)
     (auto simp: blank_def [of "0x3d"] dest!: sextets_chars dest: b64_char_not_blank)

lemma filter_b64_line: "filter (\<lambda>c. \<not> blank c) (b64_line bs) = b64 bs"
  by (auto simp: b64_line_def b64_def blank_def [of "0x0a"] filter_id_conv b64_not_blank)

lemma b64_append: "length xs mod 3 = 0 \<Longrightarrow> b64 (xs @ ys) = b64 xs @ b64 ys"
proof (induction "0 :: nat" xs rule: b64_with.induct)
qed simp_all

lemma filter_full_lines:
  "filter (\<lambda>c. \<not> blank c) (snd (full_lines bs)) @ b64 (fst (full_lines bs)) = b64 bs"
proof (induction bs rule: full_lines.induct)
  case (1 bs)
  show ?case
  proof (cases "48 \<le> length bs")
    case True
    then have "length (take 48 bs) mod 3 = 0" by simp
    from b64_append [OF this, of "drop 48 bs"] show ?thesis
      using 1 [OF True] True by (subst (1 2) full_lines.simps) (simp add: split_beta filter_b64_line)
  qed simp
qed

lemma filter_b64_lines: "filter (\<lambda>c. \<not> blank c) (b64_lines bs) = b64 bs"
  using filter_full_lines [of bs] by (auto simp: b64_lines_def split_beta filter_b64_line)

text \<open>
  What a streaming encoder wrote, for any division of its input, a streaming decoder reads back,
  for any division of the text.
\<close>

theorem stream_roundtrip:
  assumes "length (concat xs) \<le> 2 ^ 29" and "feed encode_step EVP_EncodeInit xs = Some (ctx, out)"
    and "EVP_EncodeFinal ctx = (ctx', fin, n)" and "concat ys = out @ take n fin"
  shows "\<exists>dctx. feed decode_step EVP_DecodeInit ys = Some (dctx, concat xs) \<and> EVP_DecodeFinal dctx = 1"
proof -
  have xs: "length (concat xs) \<le> 2 ^ 30" using assms(1) by simp
  have text_eq: "concat ys = b64_lines (concat xs)"
    using encode_stream [OF xs] assms(2-4) by auto
  have rest: "length (b64_line (fst (full_lines (concat xs)))) \<le> 65"
    using full_lines_rest [of "concat xs"] by (simp add: b64_line_def length_b64)
  have "length (concat ys) \<le> length (snd (full_lines (concat xs))) + 65"
    unfolding text_eq b64_lines_def using rest by (simp add: split_beta)
  then have "length (concat ys) \<le> 2 ^ 30"
    using assms(1) by (simp add: full_lines_length)
  moreover have "filter (\<lambda>c. \<not> blank c) (concat ys) = b64_with 0 (concat xs)"
    unfolding text_eq filter_b64_lines b64_def ..
  ultimately show ?thesis using decode_stream [of ys "concat xs"] by blast
qed

section \<open>Lengths and whole blocks\<close>

text \<open>\<open>EVP_EncodedLength\<close> fails exactly when the length, with its terminator, is no \<open>size_t\<close>.\<close>

lemma EVP_EncodedLength_eq:
  assumes "n < size_mod"
  shows "EVP_EncodedLength n = (let m = (n + 2) div 3 * 4 + 1 in if m < size_mod then Some m else None)"
proof -
  have two: "2 < size_mod" and "size_mod = 4 * 2 ^ 62" by (simp_all add: size_mod_def)
  have step: "m < size_mod \<Longrightarrow> size_mul m 4 div 4 = m \<longleftrightarrow> m * 4 < size_mod" for m
  proof
    assume "size_mul m 4 div 4 = m"
    moreover have "size_mul m 4 < size_mod" by (simp add: size_mul_def size_mod_def)
    ultimately have "m < 2 ^ 62" using \<open>size_mod = 4 * 2 ^ 62\<close> by (metis less_mult_imp_div_less mult.commute)
    then show "m * 4 < size_mod" using \<open>size_mod = 4 * 2 ^ 62\<close> by simp
  qed simp
  show ?thesis
  proof (cases "n + 2 < size_mod")
    case False
    then have "size_add n 2 < n" using size_add_overflow_iff [OF assms two] by simp
    moreover have "\<not> (n + 2) div 3 * 4 + 1 < size_mod"
      using False by (simp add: size_mod_def)
    ultimately show ?thesis by (simp add: EVP_EncodedLength_def)
  next
    case True
    define q where "q = (n + 2) div 3"
    have q: "q < size_mod" using True by (simp add: q_def div_le_dividend le_less_trans)
    have a: "EVP_EncodedLength n = (if size_mul q 4 div 4 \<noteq> q then None
        else if size_add (size_mul q 4) 1 < size_mul q 4 then None else Some (size_add (size_mul q 4) 1))"
      using True by (simp add: EVP_EncodedLength_def Let_def q_def)
    show ?thesis
    proof (cases "q * 4 < size_mod")
      case True
      then have "q * 4 + 1 < size_mod" using \<open>size_mod = 4 * 2 ^ 62\<close> by presburger
      then show ?thesis unfolding a Let_def q_def [symmetric] using True step [OF q] by simp
    next
      case False
      then show ?thesis unfolding a Let_def q_def [symmetric] using step [OF q] by simp
    qed
  qed
qed

lemma trim_input_b64:
  assumes "\<forall>c \<in> set pre. c = 0x20 \<or> c = 0x09" and "\<forall>c \<in> set post. blank c"
  shows "trim_input (pre @ b64_with k bs @ post) = b64_with k bs"
proof (cases "b64_with k bs = []")
  case True
  have "dropWhile (\<lambda>c. c = 0x20 \<or> c = 0x09) (pre @ post) = dropWhile (\<lambda>c. c = 0x20 \<or> c = 0x09) post"
    using assms(1) by (simp add: dropWhile_append2)
  moreover have "\<forall>c \<in> set (dropWhile (\<lambda>c. c = 0x20 \<or> c = 0x09) post). blank c"
    using assms(2) by (meson set_dropWhileD)
  ultimately show ?thesis using True
    by (simp add: trim_input_def blank_def [symmetric] dropWhile_eq_Nil_conv)
next
  case False
  have "dropWhile (\<lambda>c. c = 0x20 \<or> c = 0x09) (pre @ b64_with k bs @ post) = b64_with k bs @ post"
  proof -
    have "\<not> (hd (b64_with k bs) = 0x20 \<or> hd (b64_with k bs) = 0x09)"
      using b64_not_blank [of "hd (b64_with k bs)" k bs] False by (auto simp: blank_def)
    then have "dropWhile (\<lambda>c. c = 0x20 \<or> c = 0x09) (b64_with k bs @ post) = b64_with k bs @ post"
      using False by (cases "b64_with k bs") auto
    then show ?thesis using assms(1) by (simp add: dropWhile_append2)
  qed
  moreover have "dropWhile blank (rev post @ rev (b64_with k bs)) = rev (b64_with k bs)"
  proof -
    have "\<not> blank (hd (rev (b64_with k bs)))"
      using b64_not_blank [of "hd (rev (b64_with k bs))" k bs] False by (metis hd_in_set rev_is_Nil_conv set_rev)
    then have "dropWhile blank (rev (b64_with k bs)) = rev (b64_with k bs)"
      using False by (cases "rev (b64_with k bs)") auto
    then show ?thesis using assms(2) by (subst dropWhile_append2) auto
  qed
  ultimately show ?thesis
    by (simp add: trim_input_def fun_eq_iff blank_def [symmetric])
qed

text \<open>\<open>EVP_DecodeBlock\<close> pads what it decodes with zeros to a multiple of three.\<close>

lemma EVP_DecodeBlock_ok:
  assumes "\<forall>c \<in> set pre. c = 0x20 \<or> c = 0x09" and "\<forall>c \<in> set post. blank c" and "length bs \<le> INT_MAX - 2"
  shows "EVP_DecodeBlock (pre @ b64_with k bs @ post) = Some (bs @ replicate ((3 - length bs mod 3) mod 3) 0)"
proof -
  have "(length bs + 2) div 3 * 3 \<le> INT_MAX" using assms(3) by (simp add: INT_MAX_def)
  then have "EVP_DecodedLength (length (b64_with k bs)) = Some ((length bs + 2) div 3 * 3)"
    and "EVP_DecodeBase64 ((length bs + 2) div 3 * 3) (b64_with k bs) = Some bs"
    by (auto simp: EVP_DecodedLength_def length_b64_with EVP_DecodeBase64_iff)
  then show ?thesis
    using \<open>(length bs + 2) div 3 * 3 \<le> INT_MAX\<close>
    by (simp add: EVP_DecodeBlock_def Let_def trim_input_b64 [OF assms(1,2)])
qed

end
