(* ===== verification/Pb_Stream.thy ===== *)
theory Pb_Stream
  imports Prelude
begin

text \<open>
  The streams of nanopb (\<open>pb_encode.c\<close>, \<open>pb_decode.c\<close>). An application may supply its own callbacks:
  the locales \<open>source\<close> and \<open>sink\<close> state what they must do, and what the stream functions, and
  everything built from them, then do. Memory buffers are such a source and such a sink.
\<close>

section \<open>Output streams\<close>

text \<open>
  A callback gets the state of the stream and the bytes; \<open>None\<close> for \<open>callback\<close> is the null
  pointer of a sizing stream. The first error message of a stream is kept.
\<close>

record 'st ostream =
  os_callback :: "('st \<Rightarrow> byte list \<Rightarrow> bool \<times> 'st) option"
  os_state :: 'st
  os_max_size :: nat
  os_bytes_written :: nat
  os_errmsg :: "string option"

definition PB_SET_ERROR :: "string \<Rightarrow> 'st ostream \<Rightarrow> 'st ostream" where
  "PB_SET_ERROR msg s = s\<lparr>os_errmsg := (case os_errmsg s of None \<Rightarrow> Some msg | Some m \<Rightarrow> Some m)\<rparr>"

definition PB_RETURN_ERROR :: "string \<Rightarrow> ('st ostream, 'a) action" where
  "PB_RETURN_ERROR msg s = (None, PB_SET_ERROR msg s)"

text \<open>The state of a buffer stream: the bytes in front of the write pointer and those behind it.\<close>

definition buf_write :: "byte list \<times> byte list \<Rightarrow> byte list \<Rightarrow> bool \<times> (byte list \<times> byte list)" where
  "buf_write = (\<lambda>(front, dest) buf. (True, (front @ buf, drop (length buf) dest)))"

definition pb_ostream_from_buffer :: "byte list \<Rightarrow> nat \<Rightarrow> (byte list \<times> byte list) ostream" where
  "pb_ostream_from_buffer buf bufsize =
     \<lparr>os_callback = Some buf_write, os_state = ([], buf), os_max_size = bufsize, os_bytes_written = 0, os_errmsg = None\<rparr>"

text \<open>\<open>PB_OSTREAM_SIZING\<close>; its state is never looked at.\<close>

definition pb_ostream_sizing :: "'st \<Rightarrow> 'st ostream" where
  "pb_ostream_sizing null =
     \<lparr>os_callback = None, os_state = null, os_max_size = 0, os_bytes_written = 0, os_errmsg = None\<rparr>"

definition pb_write :: "byte list \<Rightarrow> nat \<Rightarrow> ('st ostream, unit) action" where
  "pb_write buf count s =
     (let finish = (\<lambda>s. (Some (), s\<lparr>os_bytes_written := size_add (os_bytes_written s) count\<rparr>))
      in case (if count > 0 then os_callback s else None) of
           None \<Rightarrow> finish s
         | Some callback \<Rightarrow>
             if size_add (os_bytes_written s) count < os_bytes_written s \<or>
                size_add (os_bytes_written s) count > os_max_size s
             then PB_RETURN_ERROR ''stream full'' s
             else (case callback (os_state s) (take count buf) of
                     (False, st) \<Rightarrow> PB_RETURN_ERROR ''io error'' (s\<lparr>os_state := st\<rparr>)
                   | (True, st) \<Rightarrow> finish (s\<lparr>os_state := st\<rparr>)))"

section \<open>Input streams\<close>

text \<open>
  The callback gets the state, whether \<open>buf\<close> is not \<open>NULL\<close>, and the count; it returns the bytes it
  stored. \<open>is_buffer\<close> is the test \<open>callback == buf_read\<close>.
\<close>

record 'st istream =
  is_callback :: "'st \<Rightarrow> bool \<Rightarrow> nat \<Rightarrow> byte list option \<times> 'st"
  is_buffer :: bool
  is_state :: 'st
  is_bytes_left :: nat
  is_errmsg :: "string option"

definition is_set_error :: "string \<Rightarrow> 'st istream \<Rightarrow> 'st istream" where
  "is_set_error msg s = s\<lparr>is_errmsg := (case is_errmsg s of None \<Rightarrow> Some msg | Some m \<Rightarrow> Some m)\<rparr>"

definition is_return_error :: "string \<Rightarrow> ('st istream, 'a) action" where
  "is_return_error msg s = (None, is_set_error msg s)"

definition buf_read :: "byte list \<Rightarrow> bool \<Rightarrow> nat \<Rightarrow> byte list option \<times> byte list" where
  "buf_read source want count = (Some (if want then take count source else []), drop count source)"

definition pb_istream_from_buffer :: "byte list \<Rightarrow> nat \<Rightarrow> byte list istream" where
  "pb_istream_from_buffer buf bufsize =
     \<lparr>is_callback = buf_read, is_buffer = True, is_state = buf, is_bytes_left = bufsize, is_errmsg = None\<rparr>"

text \<open>\<open>pb_read\<close> behind its special case for skipping.\<close>

definition pb_read_direct :: "bool \<Rightarrow> nat \<Rightarrow> ('st istream, byte list) action" where
  "pb_read_direct want count s =
     (if count = 0 then (Some [], s)
      else if is_bytes_left s < count then is_return_error ''end-of-stream'' s
      else (case is_callback s (is_state s) want count of
              (None, st) \<Rightarrow> is_return_error ''io error'' (s\<lparr>is_state := st\<rparr>)
            | (Some bytes, st) \<Rightarrow> (Some bytes, s\<lparr>is_state := st, is_bytes_left := is_bytes_left s - count\<rparr>)))"

text \<open>Input that is not a buffer is skipped in pieces of 16 bytes.\<close>

fun pb_read_skip :: "nat \<Rightarrow> ('st istream, byte list) action" where
  "pb_read_skip count =
     (if count > 16 then act_bind (pb_read_direct True 16) (\<lambda>_. pb_read_skip (count - 16))
      else act_bind (pb_read_direct True count) (\<lambda>_. act_ret []))"

declare pb_read_skip.simps [simp del]

definition pb_read :: "bool \<Rightarrow> nat \<Rightarrow> ('st istream, byte list) action" where
  "pb_read want count s =
     (if count = 0 then (Some [], s)
      else if \<not> want \<and> \<not> is_buffer s then pb_read_skip count s
      else pb_read_direct want count s)"

definition pb_readbyte :: "('st istream, byte) action" where
  "pb_readbyte s =
     (if is_bytes_left s = 0 then is_return_error ''end-of-stream'' s
      else (case is_callback s (is_state s) True 1 of
              (None, st) \<Rightarrow> is_return_error ''io error'' (s\<lparr>is_state := st\<rparr>)
            | (Some bytes, st) \<Rightarrow> (Some (bytes ! 0), s\<lparr>is_state := st, is_bytes_left := is_bytes_left s - 1\<rparr>)))"

section \<open>What callers may rely on\<close>

text \<open>
  A parser of byte lists returns a value and the number of bytes it consumed. A function on
  streams \<open>parses\<close> like it if it succeeds on the same input with the same value, and then has
  advanced the stream by that number of bytes.
\<close>

type_synonym 'a parser = "byte list \<Rightarrow> ('a \<times> nat) option"

definition p_read :: "nat \<Rightarrow> byte list parser" where
  "p_read n bs = (if n \<le> length bs then Some (take n bs, n) else None)"

definition p_bind :: "'a parser \<Rightarrow> ('a \<Rightarrow> 'b parser) \<Rightarrow> 'b parser" where
  "p_bind p q bs = (case p bs of
      None \<Rightarrow> None
    | Some (a, k) \<Rightarrow> map_option (\<lambda>(b, m). (b, k + m)) (q a (drop k bs)))"

text \<open>A source of bytes: the callback delivers the next bytes of the content as long as there are enough.\<close>

locale source =
  fixes read :: "'st \<Rightarrow> bool \<Rightarrow> nat \<Rightarrow> byte list option \<times> 'st" and content :: "'st \<Rightarrow> byte list"
  assumes read_law: "n \<le> length (content st) \<Longrightarrow>
    \<exists>st'. read st w n = (Some (if w then take n (content st) else []), st') \<and> content st' = drop n (content st)"
begin

definition ready :: "'st istream \<Rightarrow> bool" where
  "ready s \<longleftrightarrow> is_callback s = read \<and> is_bytes_left s \<le> length (content (is_state s))"

definition ahead :: "'st istream \<Rightarrow> byte list" where
  "ahead s = take (is_bytes_left s) (content (is_state s))"

definition advanced :: "nat \<Rightarrow> 'st istream \<Rightarrow> 'st istream \<Rightarrow> bool" where
  "advanced k s s' \<longleftrightarrow> ready s' \<and> k \<le> is_bytes_left s \<and> is_bytes_left s' = is_bytes_left s - k \<and>
     content (is_state s') = drop k (content (is_state s)) \<and> is_buffer s' = is_buffer s"

definition parses :: "('st istream, 'a) action \<Rightarrow> 'a parser \<Rightarrow> bool" where
  "parses f p \<longleftrightarrow> (\<forall>s. ready s \<longrightarrow> (case p (ahead s) of
      None \<Rightarrow> fst (f s) = None
    | Some (a, k) \<Rightarrow> \<exists>s'. f s = (Some a, s') \<and> advanced k s s'))"

lemma length_ahead [simp]: "ready s \<Longrightarrow> length (ahead s) = is_bytes_left s"
  by (simp add: ready_def ahead_def)

lemma ahead_advanced: "advanced k s s' \<Longrightarrow> ahead s' = drop k (ahead s)"
  by (simp add: advanced_def ahead_def drop_take)

lemma advanced_ready: "advanced k s s' \<Longrightarrow> ready s'"
  by (simp add: advanced_def)

lemma advanced_0: "ready s \<Longrightarrow> advanced 0 s s"
  by (simp add: advanced_def)

lemma advanced_trans: "advanced k s t \<Longrightarrow> advanced m t u \<Longrightarrow> advanced (k + m) s u"
  by (auto simp: advanced_def add.commute)

lemma parsesE:
  assumes "parses f p" and "ready s" and "p (ahead s) = Some (a, k)"
  obtains s' where "f s = (Some a, s')" and "advanced k s s'"
  using assms by (fastforce simp: parses_def)

lemma parses_None: "parses f p \<Longrightarrow> ready s \<Longrightarrow> p (ahead s) = None \<Longrightarrow> fst (f s) = None"
  by (auto simp: parses_def)

lemma parses_ret: "parses (act_ret a) (\<lambda>_. Some (a, 0))"
  by (auto simp: parses_def act_ret_def advanced_0)

lemma parses_fail: "(\<And>s. fst (f s) = None) \<Longrightarrow> parses f (\<lambda>_. None)"
  by (auto simp: parses_def)

lemma parses_bind:
  assumes f: "parses f p" and g: "\<And>a. parses (g a) (q a)"
  shows "parses (act_bind f g) (p_bind p q)"
  unfolding parses_def
proof (intro allI impI)
  fix s assume s: "ready s"
  show "case p_bind p q (ahead s) of None \<Rightarrow> fst (act_bind f g s) = None
      | Some (a, k) \<Rightarrow> \<exists>s'. act_bind f g s = (Some a, s') \<and> advanced k s s'"
  proof (cases "p (ahead s)")
    case None
    then have "fst (f s) = None" using f s by (auto simp: parses_def)
    then show ?thesis using None by (cases "f s") (simp add: p_bind_def act_bind_def)
  next
    case (Some r)
    then obtain a k where p: "p (ahead s) = Some (a, k)" by (cases r) auto
    obtain t where t: "f s = (Some a, t)" "advanced k s t" by (rule parsesE [OF f s p])
    show ?thesis
    proof (cases "q a (drop k (ahead s))")
      case None
      then have "fst (g a t) = None"
        using parses_None [OF g advanced_ready [OF t(2)]] by (simp add: ahead_advanced [OF t(2)])
      then show ?thesis using None p t by (simp add: p_bind_def)
    next
      case (Some r)
      then obtain b m where q: "q a (ahead t) = Some (b, m)" by (cases r) (auto simp: ahead_advanced [OF t(2)])
      obtain u where "g a t = (Some b, u)" "advanced m t u" by (rule parsesE [OF g advanced_ready [OF t(2)] q])
      then show ?thesis using p q t advanced_trans [OF t(2)] by (auto simp: p_bind_def ahead_advanced [OF t(2)])
    qed
  qed
qed

lemma parses_cong:
  assumes "parses f p" and "\<And>s. ready s \<Longrightarrow> f s = g s" and "\<And>bs. p bs = q bs"
  shows "parses g q"
  unfolding parses_def
proof (intro allI impI)
  fix s assume "ready s"
  then have eq: "f s = g s" "p (ahead s) = q (ahead s)" using assms(2,3) by blast+
  have "case p (ahead s) of None \<Rightarrow> fst (f s) = None | Some (a, k) \<Rightarrow> \<exists>s'. f s = (Some a, s') \<and> advanced k s s'"
    using assms(1) \<open>ready s\<close> unfolding parses_def by blast
  then show "case q (ahead s) of None \<Rightarrow> fst (g s) = None | Some (a, k) \<Rightarrow> \<exists>s'. g s = (Some a, s') \<and> advanced k s s'"
    unfolding eq .
qed

lemma parses_direct: "parses (pb_read_direct w n) (\<lambda>bs. map_option (\<lambda>(b, k). (if w then b else [], k)) (p_read n bs))"
  unfolding parses_def
proof (intro allI impI)
  fix s assume s: "ready s"
  have len: "is_bytes_left s \<le> length (content (is_state s))" and cb: "is_callback s = read" using s by (simp_all add: ready_def)
  show "case map_option (\<lambda>(b, k). (if w then b else [], k)) (p_read n (ahead s)) of None \<Rightarrow> fst (pb_read_direct w n s) = None
      | Some (a, k) \<Rightarrow> \<exists>s'. pb_read_direct w n s = (Some a, s') \<and> advanced k s s'"
  proof (cases "n \<le> is_bytes_left s")
    case False
    then show ?thesis using s by (simp add: p_read_def pb_read_direct_def is_return_error_def)
  next
    case True
    obtain st where st: "read (is_state s) w n = (Some (if w then take n (content (is_state s)) else []), st)"
        "content st = drop n (content (is_state s))"
      using read_law [of n "is_state s" w] True len by auto
    show ?thesis
      using True s st cb advanced_0 [OF s] len
      by (auto simp: p_read_def pb_read_direct_def advanced_def ready_def ahead_def min_def)
  qed
qed

lemma parses_skip: "parses (pb_read_skip n) (\<lambda>bs. map_option (\<lambda>(b, k). ([], k)) (p_read n bs))"
proof (induction n rule: less_induct)
  case (less n)
  show ?case
  proof (cases "n > 16")
    case True
    have step: "parses (act_bind (pb_read_direct True 16) (\<lambda>_. pb_read_skip (n - 16)))
        (p_bind (\<lambda>bs. map_option (\<lambda>(b, k). (if True then b else [], k)) (p_read 16 bs)) (\<lambda>_ bs. map_option (\<lambda>(b, k). ([], k)) (p_read (n - 16) bs)))"
      using True by (intro parses_bind parses_direct less.IH) simp
    show ?thesis
      by (rule parses_cong [OF step]) (use True in \<open>auto simp: pb_read_skip.simps [of n] p_bind_def p_read_def\<close>)
  next
    case False
    have step: "parses (act_bind (pb_read_direct True n) (\<lambda>_. act_ret []))
        (p_bind (\<lambda>bs. map_option (\<lambda>(b, k). (if True then b else [], k)) (p_read n bs)) (\<lambda>_ _. Some ([], 0)))"
      by (intro parses_bind parses_direct parses_ret)
    show ?thesis
      by (rule parses_cong [OF step]) (use False in \<open>auto simp: pb_read_skip.simps [of n] p_bind_def p_read_def\<close>)
  qed
qed

lemma parses_read: "parses (pb_read w n) (\<lambda>bs. map_option (\<lambda>(b, k). (if w then b else [], k)) (p_read n bs))"
  using parses_direct [of w n] parses_skip [of n] advanced_0
  by (auto simp: parses_def pb_read_def p_read_def)

lemma parses_readbyte: "parses pb_readbyte (\<lambda>bs. map_option (\<lambda>(b, k). (b ! 0, k)) (p_read 1 bs))"
proof -
  have "parses (act_bind (pb_read_direct True 1) (\<lambda>b. act_ret (b ! 0)))
      (p_bind (\<lambda>bs. map_option (\<lambda>(b, k). (if True then b else [], k)) (p_read 1 bs)) (\<lambda>b _. Some (b ! 0, 0)))"
    by (intro parses_bind parses_direct parses_ret)
  then show ?thesis
    by (rule parses_cong)
       (auto simp: pb_readbyte_def pb_read_direct_def act_bind_def act_simps p_bind_def p_read_def is_return_error_def
         split: prod.splits option.splits)
qed

end

interpretation buffer_source: source buf_read "\<lambda>bs. bs"
  by unfold_locales (simp add: buf_read_def)

text \<open>
  A sink: the callback appends to what was written as long as there is room. A stream is ready if
  its limit leaves no more than that room. An encoder \<open>emits\<close> bytes \<open>w\<close> if it writes exactly
  those, or fails for lack of space, and on a sizing stream only counts them.
\<close>

locale sink =
  fixes put :: "'st \<Rightarrow> byte list \<Rightarrow> bool \<times> 'st" and written :: "'st \<Rightarrow> byte list" and room :: "'st \<Rightarrow> nat"
  assumes put_law: "length bs \<le> room st \<Longrightarrow>
    \<exists>st'. put st bs = (True, st') \<and> written st' = written st @ bs \<and> room st' = room st - length bs"
begin

definition open_sink :: "'st ostream \<Rightarrow> bool" where
  "open_sink s \<longleftrightarrow> os_callback s = Some put \<and> os_bytes_written s \<le> os_max_size s \<and> os_max_size s < 2 ^ 63 \<and>
     os_max_size s - os_bytes_written s \<le> room (os_state s)"

definition extended :: "byte list \<Rightarrow> 'st ostream \<Rightarrow> 'st ostream \<Rightarrow> bool" where
  "extended w s s' \<longleftrightarrow> open_sink s' \<and> os_max_size s' = os_max_size s \<and>
     os_bytes_written s' = os_bytes_written s + length w \<and> written (os_state s') = written (os_state s) @ w \<and>
     room (os_state s') = room (os_state s) - length w"

definition emits :: "('st ostream, unit) action \<Rightarrow> byte list \<Rightarrow> bool" where
  "emits f w \<longleftrightarrow>
     (\<forall>s. os_callback s = None \<and> os_bytes_written s < size_mod \<longrightarrow>
        f s = (Some (), s\<lparr>os_bytes_written := size_add (os_bytes_written s) (length w)\<rparr>)) \<and>
     (\<forall>s. open_sink s \<longrightarrow>
        (if os_bytes_written s + length w \<le> os_max_size s
         then \<exists>s'. f s = (Some (), s') \<and> extended w s s' else fst (f s) = None))"

lemma emits_sizing: "emits f w \<Longrightarrow> os_callback s = None \<Longrightarrow> os_bytes_written s < size_mod \<Longrightarrow>
    f s = (Some (), s\<lparr>os_bytes_written := size_add (os_bytes_written s) (length w)\<rparr>)"
  by (simp add: emits_def)

lemma emitsE:
  assumes "emits f w" and "open_sink s" and "os_bytes_written s + length w \<le> os_max_size s"
  obtains s' where "f s = (Some (), s')" and "extended w s s'"
proof -
  have "if os_bytes_written s + length w \<le> os_max_size s
      then \<exists>s'. f s = (Some (), s') \<and> extended w s s' else fst (f s) = None"
    using assms(1,2) unfolding emits_def by blast
  then show ?thesis using assms(3) that by auto
qed

lemma emits_full: "emits f w \<Longrightarrow> open_sink s \<Longrightarrow> os_max_size s < os_bytes_written s + length w \<Longrightarrow> fst (f s) = None"
  by (auto simp: emits_def)

lemma extended_open: "extended w s s' \<Longrightarrow> open_sink s'"
  by (simp add: extended_def)

lemma extended_trans: "extended v s t \<Longrightarrow> extended w t u \<Longrightarrow> extended (v @ w) s u"
  by (auto simp: extended_def)

lemma emits_write:
  assumes "length w < size_mod"
  shows "emits (pb_write w (length w)) w"
  unfolding emits_def
proof (intro conjI allI impI)
  fix s :: "'st ostream"
  assume "os_callback s = None \<and> os_bytes_written s < size_mod"
  then show "pb_write w (length w) s = (Some (), s\<lparr>os_bytes_written := size_add (os_bytes_written s) (length w)\<rparr>)"
    by (simp add: pb_write_def Let_def)
next
  fix s :: "'st ostream"
  assume s: "open_sink s"
  show "if os_bytes_written s + length w \<le> os_max_size s
      then \<exists>s'. pb_write w (length w) s = (Some (), s') \<and> extended w s s' else fst (pb_write w (length w) s) = None"
  proof (cases "w = []")
    case True
    have "size_add (os_bytes_written s) 0 = os_bytes_written s"
      using s by (simp add: open_sink_def size_mod_def)
    then show ?thesis using True s by (auto simp: pb_write_def Let_def extended_def open_sink_def)
  next
    case False
    show ?thesis
    proof (cases "os_bytes_written s + length w \<le> os_max_size s")
      case True
      have add: "size_add (os_bytes_written s) (length w) = os_bytes_written s + length w"
        using True s by (simp add: open_sink_def size_mod_def)
      have "length w \<le> room (os_state s)" using s True unfolding open_sink_def by linarith
      from put_law [OF this] obtain st where "put (os_state s) w = (True, st)"
        "written st = written (os_state s) @ w" "room st = room (os_state s) - length w" by blast
      then show ?thesis
        using True False s add by (auto simp: pb_write_def Let_def extended_def open_sink_def)
    next
      case full: False
      have "size_add (os_bytes_written s) (length w) < os_bytes_written s \<or> size_add (os_bytes_written s) (length w) > os_max_size s"
      proof (cases "os_bytes_written s + length w < size_mod")
        case True
        then show ?thesis using full by simp
      next
        case wrap: False
        have "os_bytes_written s < size_mod" using s by (simp add: open_sink_def size_mod_def)
        then show ?thesis using size_add_overflow_iff [OF _ assms] wrap by simp
      qed
      then show ?thesis using full False s by (auto simp: pb_write_def Let_def open_sink_def PB_RETURN_ERROR_def)
    qed
  qed
qed

lemma emits_bind:
  assumes f: "emits f v" and g: "emits g w"
  shows "emits (act_bind f (\<lambda>_. g)) (v @ w)"
  unfolding emits_def
proof (intro conjI allI impI)
  fix s :: "'st ostream"
  assume s: "os_callback s = None \<and> os_bytes_written s < size_mod"
  have "size_add (size_add a b) c = size_add a (b + c)" for a b c
    by (simp add: size_add_def mod_add_left_eq add.assoc)
  then show "act_bind f (\<lambda>_. g) s = (Some (), s\<lparr>os_bytes_written := size_add (os_bytes_written s) (length (v @ w))\<rparr>)"
    using emits_sizing [OF f, of s] s by (simp add: emits_sizing [OF g] size_add_less)
next
  fix s :: "'st ostream"
  assume s: "open_sink s"
  show "if os_bytes_written s + length (v @ w) \<le> os_max_size s
      then \<exists>s'. act_bind f (\<lambda>_. g) s = (Some (), s') \<and> extended (v @ w) s s' else fst (act_bind f (\<lambda>_. g) s) = None"
  proof (cases "os_bytes_written s + length v \<le> os_max_size s")
    case False
    then have "fst (f s) = None" using emits_full [OF f s] by simp
    then have "fst (act_bind f (\<lambda>_. g) s) = None" by (cases "f s") (simp add: act_bind_def)
    then show ?thesis using False by simp
  next
    case True
    obtain t where t: "f s = (Some (), t)" "extended v s t" by (rule emitsE [OF f s True])
    have b: "os_bytes_written t + length w \<le> os_max_size t \<longleftrightarrow> os_bytes_written s + length (v @ w) \<le> os_max_size s"
      using t(2) by (simp add: extended_def add.assoc)
    show ?thesis
    proof (cases "os_bytes_written t + length w \<le> os_max_size t")
      case True
      obtain u where "g t = (Some (), u)" "extended w t u" by (rule emitsE [OF g extended_open [OF t(2)] True])
      then show ?thesis using b True t extended_trans [OF t(2)] by auto
    next
      case False
      then show ?thesis using b t emits_full [OF g extended_open [OF t(2)]] by simp
    qed
  qed
qed

lemma emits_ret: "emits (act_ret ()) []"
  unfolding emits_def by (auto simp: act_ret_def extended_def open_sink_def size_add_def)

end

text \<open>A memory buffer is a sink.\<close>

interpretation buffer_sink: sink buf_write fst "\<lambda>(front, dest). length dest"
  by unfold_locales (auto simp: buf_write_def)

lemma buffer_open:
  assumes "length buf < 2 ^ 63"
  shows "buffer_sink.open_sink (pb_ostream_from_buffer buf (length buf))"
  using assms by (simp add: buffer_sink.open_sink_def pb_ostream_from_buffer_def)

end
