(* ===== verification/Pb_Encode.thy ===== *)
theory Pb_Encode
  imports Pb_Stream
begin

text \<open>
  The encoder of nanopb (\<open>pb_encode.c\<close>, \<open>pb.h\<close>): field descriptors, the values on the wire, and the
encoders of single fields, as the code has them.
\<close>

section \<open>Field descriptors and memory\<close>

text \<open>
  An entry of a table of descriptors; the sizes are those of a build with \<open>PB_FIELD_32BIT\<close>.
  Memory maps addresses to bytes, numbers in it are little-endian; a null pointer is 0.
\<close>

record pb_field =
  pf_tag :: u32
  pf_type :: byte
  pf_data_offset :: nat
  pf_size_offset :: int
  pf_data_size :: nat
  pf_array_size :: nat
  pf_ptr :: nat

definition PB_LTYPE :: "byte \<Rightarrow> byte" where
  "PB_LTYPE x = x AND 0x0f"

definition PB_HTYPE :: "byte \<Rightarrow> byte" where
  "PB_HTYPE x = x AND 0x30"

definition PB_ATYPE :: "byte \<Rightarrow> byte" where
  "PB_ATYPE x = x AND 0xc0"

definition PB_ATYPE_STATIC :: byte where "PB_ATYPE_STATIC = 0x00"
definition PB_ATYPE_POINTER :: byte where "PB_ATYPE_POINTER = 0x80"
definition PB_ATYPE_CALLBACK :: byte where "PB_ATYPE_CALLBACK = 0x40"

definition PB_LTYPE_BOOL :: byte where "PB_LTYPE_BOOL = 0x00"
definition PB_LTYPE_VARINT :: byte where "PB_LTYPE_VARINT = 0x01"
definition PB_LTYPE_UVARINT :: byte where "PB_LTYPE_UVARINT = 0x02"
definition PB_LTYPE_SVARINT :: byte where "PB_LTYPE_SVARINT = 0x03"
definition PB_LTYPE_FIXED32 :: byte where "PB_LTYPE_FIXED32 = 0x04"
definition PB_LTYPE_FIXED64 :: byte where "PB_LTYPE_FIXED64 = 0x05"
definition PB_LTYPE_LAST_PACKABLE :: byte where "PB_LTYPE_LAST_PACKABLE = 0x05"
definition PB_LTYPE_BYTES :: byte where "PB_LTYPE_BYTES = 0x06"
definition PB_LTYPE_STRING :: byte where "PB_LTYPE_STRING = 0x07"
definition PB_LTYPE_SUBMESSAGE :: byte where "PB_LTYPE_SUBMESSAGE = 0x08"
definition PB_LTYPE_EXTENSION :: byte where "PB_LTYPE_EXTENSION = 0x09"
definition PB_LTYPE_FIXED_LENGTH_BYTES :: byte where "PB_LTYPE_FIXED_LENGTH_BYTES = 0x0a"

definition PB_WT_VARINT :: u32 where "PB_WT_VARINT = 0"
definition PB_WT_64BIT :: u32 where "PB_WT_64BIT = 1"
definition PB_WT_STRING :: u32 where "PB_WT_STRING = 2"
definition PB_WT_32BIT :: u32 where "PB_WT_32BIT = 5"

definition PB_SIZE_MAX :: nat where
  "PB_SIZE_MAX = 2 ^ 32 - 1"

definition le_val :: "byte list \<Rightarrow> nat" where
  "le_val bs = be_val (rev bs)"

definition le_bytes :: "nat \<Rightarrow> nat \<Rightarrow> byte list" where
  "le_bytes n v = rev (be_bytes n v)"

type_synonym memory = "nat \<Rightarrow> byte"

definition bytes_at :: "memory \<Rightarrow> nat \<Rightarrow> nat \<Rightarrow> byte list" where
  "bytes_at mem p n = map mem [p..<p + n]"

definition load :: "nat \<Rightarrow> memory \<Rightarrow> nat \<Rightarrow> nat" where
  "load n mem p = le_val (bytes_at mem p n)"

section \<open>Values on the wire\<close>

function encode_varint_loop :: "u64 \<Rightarrow> byte list" where
  "encode_varint_loop v =
     (if v \<noteq> 0 then (ucast (v AND 0x7f) OR 0x80) # encode_varint_loop (drop_bit 7 v) else [])"
  by pat_completeness auto
termination
  by (relation "measure unat") (auto simp: unat_drop_bit_eq drop_bit_eq_div [where 'a = nat] unat_eq_0 unat_gt_0)

declare encode_varint_loop.simps [simp del]

definition pb_encode_varint :: "u64 \<Rightarrow> ('st ostream, unit) action" where
  "pb_encode_varint v =
     (if v \<le> 0x7f then pb_write [ucast v] 1
      else let buffer = encode_varint_loop v; i = length buffer
           in pb_write (buffer[i - 1 := buffer ! (i - 1) AND 0x7f]) i)"

text \<open>An \<open>int64_t\<close> is its two's complement word.\<close>

definition pb_encode_svarint :: "u64 \<Rightarrow> ('st ostream, unit) action" where
  "pb_encode_svarint v =
     (let zigzagged = (if sint v < 0 then NOT (push_bit 1 v) else push_bit 1 v)
      in pb_encode_varint zigzagged)"

definition pb_encode_fixed32 :: "u32 \<Rightarrow> ('st ostream, unit) action" where
  "pb_encode_fixed32 val =
     pb_write [ucast (val AND 0xff), ucast (drop_bit 8 val AND 0xff), ucast (drop_bit 16 val AND 0xff),
       ucast (drop_bit 24 val AND 0xff)] 4"

definition pb_encode_fixed64 :: "u64 \<Rightarrow> ('st ostream, unit) action" where
  "pb_encode_fixed64 val =
     pb_write [ucast (val AND 0xff), ucast (drop_bit 8 val AND 0xff), ucast (drop_bit 16 val AND 0xff),
       ucast (drop_bit 24 val AND 0xff), ucast (drop_bit 32 val AND 0xff), ucast (drop_bit 40 val AND 0xff),
       ucast (drop_bit 48 val AND 0xff), ucast (drop_bit 56 val AND 0xff)] 8"

definition pb_encode_tag :: "u32 \<Rightarrow> u32 \<Rightarrow> ('st ostream, unit) action" where
  "pb_encode_tag wiretype field_number =
     pb_encode_varint (push_bit 3 (ucast field_number) OR ucast wiretype)"

definition pb_encode_tag_for_field :: "pb_field \<Rightarrow> ('st ostream, unit) action" where
  "pb_encode_tag_for_field field =
     (let lt = PB_LTYPE (pf_type field)
      in if lt = PB_LTYPE_BOOL \<or> lt = PB_LTYPE_VARINT \<or> lt = PB_LTYPE_UVARINT \<or> lt = PB_LTYPE_SVARINT
         then pb_encode_tag PB_WT_VARINT (pf_tag field)
         else if lt = PB_LTYPE_FIXED32 then pb_encode_tag PB_WT_32BIT (pf_tag field)
         else if lt = PB_LTYPE_FIXED64 then pb_encode_tag PB_WT_64BIT (pf_tag field)
         else if lt = PB_LTYPE_BYTES \<or> lt = PB_LTYPE_STRING \<or> lt = PB_LTYPE_SUBMESSAGE \<or> lt = PB_LTYPE_FIXED_LENGTH_BYTES
         then pb_encode_tag PB_WT_STRING (pf_tag field)
         else PB_RETURN_ERROR ''invalid field type'')"

definition pb_encode_string :: "byte list \<Rightarrow> nat \<Rightarrow> ('st ostream, unit) action" where
  "pb_encode_string buffer sz =
     act_bind (pb_encode_varint (of_nat sz)) (\<lambda>_. pb_write buffer sz)"

text \<open>
  The message is encoded twice, first to learn its size. \<open>enc\<close> is the call of \<open>pb_encode\<close>
  on its fields, \<open>null\<close> the state of the sizing stream.
\<close>

definition pb_encode_submessage :: "'st \<Rightarrow> ('st ostream, unit) action \<Rightarrow> ('st ostream, unit) action" where
  "pb_encode_submessage null enc stream =
     (case enc (pb_ostream_sizing null) of
        (None, substream) \<Rightarrow> (None, stream\<lparr>os_errmsg := os_errmsg substream\<rparr>)
      | (Some _, substream) \<Rightarrow>
          (let sz = os_bytes_written substream
           in case pb_encode_varint (of_nat sz) stream of
                (None, stream) \<Rightarrow> (None, stream)
              | (Some _, stream) \<Rightarrow>
                  if os_callback stream = None then pb_write [] sz stream
                  else if size_add (os_bytes_written stream) sz > os_max_size stream
                  then PB_RETURN_ERROR ''stream full'' stream
                  else
                    (case enc \<lparr>os_callback = os_callback stream, os_state = os_state stream, os_max_size = sz,
                               os_bytes_written = 0, os_errmsg = None\<rparr> of
                       (status, substream) \<Rightarrow>
                         (let stream = stream\<lparr>os_bytes_written := size_add (os_bytes_written stream) (os_bytes_written substream),
                                os_state := os_state substream, os_errmsg := os_errmsg substream\<rparr>
                          in if os_bytes_written substream \<noteq> sz
                             then PB_RETURN_ERROR ''submsg size changed'' stream
                             else (status, stream)))))"

section \<open>Encoders of single fields\<close>

text \<open>They get the memory and a pointer to the value.\<close>

definition safe_read_bool :: "memory \<Rightarrow> nat \<Rightarrow> bool" where
  "safe_read_bool mem p = (mem p \<noteq> 0)"

definition pb_enc_bool :: "memory \<Rightarrow> nat \<Rightarrow> ('st ostream, unit) action" where
  "pb_enc_bool mem src = pb_encode_varint (if safe_read_bool mem src then 1 else 0)"

definition load_signed :: "nat \<Rightarrow> memory \<Rightarrow> nat \<Rightarrow> u64" where
  "load_signed n mem src =
     (if n = 1 then scast (of_nat (load 1 mem src) :: byte)
      else if n = 2 then scast (of_nat (load 2 mem src) :: u16)
      else if n = 4 then scast (of_nat (load 4 mem src) :: u32)
      else of_nat (load 8 mem src))"

definition int_size :: "nat \<Rightarrow> bool" where
  "int_size n \<longleftrightarrow> n = 1 \<or> n = 2 \<or> n = 4 \<or> n = 8"

definition pb_enc_varint :: "pb_field \<Rightarrow> memory \<Rightarrow> nat \<Rightarrow> ('st ostream, unit) action" where
  "pb_enc_varint field mem src =
     (if int_size (pf_data_size field) then pb_encode_varint (load_signed (pf_data_size field) mem src)
      else PB_RETURN_ERROR ''invalid data_size'')"

definition pb_enc_uvarint :: "pb_field \<Rightarrow> memory \<Rightarrow> nat \<Rightarrow> ('st ostream, unit) action" where
  "pb_enc_uvarint field mem src =
     (if int_size (pf_data_size field) then pb_encode_varint (of_nat (load (pf_data_size field) mem src))
      else PB_RETURN_ERROR ''invalid data_size'')"

definition pb_enc_svarint :: "pb_field \<Rightarrow> memory \<Rightarrow> nat \<Rightarrow> ('st ostream, unit) action" where
  "pb_enc_svarint field mem src =
     (if int_size (pf_data_size field) then pb_encode_svarint (load_signed (pf_data_size field) mem src)
      else PB_RETURN_ERROR ''invalid data_size'')"

definition pb_enc_fixed32 :: "memory \<Rightarrow> nat \<Rightarrow> ('st ostream, unit) action" where
  "pb_enc_fixed32 mem src = pb_encode_fixed32 (of_nat (load 4 mem src))"

definition pb_enc_fixed64 :: "memory \<Rightarrow> nat \<Rightarrow> ('st ostream, unit) action" where
  "pb_enc_fixed64 mem src = pb_encode_fixed64 (of_nat (load 8 mem src))"

text \<open>A \<open>pb_bytes_array_t\<close> is a 32-bit size and the bytes.\<close>

definition PB_BYTES_ARRAY_T_ALLOCSIZE :: "nat \<Rightarrow> nat" where
  "PB_BYTES_ARRAY_T_ALLOCSIZE n = n + 4"

definition pb_enc_bytes :: "pb_field \<Rightarrow> memory \<Rightarrow> nat \<Rightarrow> ('st ostream, unit) action" where
  "pb_enc_bytes field mem src =
     (if src = 0 then pb_encode_string [] 0
      else let sz = load 4 mem src; allocsize = PB_BYTES_ARRAY_T_ALLOCSIZE sz
           in if allocsize < sz \<or> PB_ATYPE (pf_type field) = PB_ATYPE_STATIC \<and> allocsize > pf_data_size field
              then PB_RETURN_ERROR ''bytes size exceeded''
              else pb_encode_string (bytes_at mem (src + 4) sz) sz)"

text \<open>The loop that measures a string: at most \<open>max_size\<close> bytes.\<close>

fun string_size :: "memory \<Rightarrow> nat \<Rightarrow> nat \<Rightarrow> nat" where
  "string_size mem p max_size = (if max_size = 0 \<or> mem p = 0 then 0 else 1 + string_size mem (p + 1) (max_size - 1))"

declare string_size.simps [simp del]

definition pb_enc_string :: "pb_field \<Rightarrow> memory \<Rightarrow> nat \<Rightarrow> ('st ostream, unit) action" where
  "pb_enc_string field mem src =
     (let max_size = (if PB_ATYPE (pf_type field) = PB_ATYPE_POINTER then size_mod - 1 else pf_data_size field);
          sz = (if src = 0 then 0 else string_size mem src max_size)
      in pb_encode_string (bytes_at mem src sz) sz)"

definition pb_enc_fixed_length_bytes :: "pb_field \<Rightarrow> memory \<Rightarrow> nat \<Rightarrow> ('st ostream, unit) action" where
  "pb_enc_fixed_length_bytes field mem src = pb_encode_string (bytes_at mem src (pf_data_size field)) (pf_data_size field)"

end
