(* ===== verification/Pb_Decode.thy ===== *)
theory Pb_Decode
  imports Pb_Encode
begin

text \<open>
  The decoder of nanopb (\<open>pb_decode.c\<close>): varints, tags, lengths and fixed-size values, as the code has them.
\<close>

section \<open>Variable-length integers\<close>

lemma pb_readbyte_left: "pb_readbyte s = (Some b, s') \<Longrightarrow> is_bytes_left s' < is_bytes_left s"
  by (auto simp: pb_readbyte_def is_return_error_def split: if_splits prod.splits option.splits)

lemma pb_read_left:
  assumes "pb_read True (Suc 0) s = (Some b, s')"
  shows "is_bytes_left s' < is_bytes_left s"
  using assms by (auto simp: pb_read_def pb_read_direct_def is_return_error_def split: if_splits prod.splits option.splits)

text \<open>\<open>bitpos\<close> is a \<open>uint_fast8_t\<close>, which is a byte on the platforms of the application.\<close>

function varint32_loop :: "byte \<Rightarrow> u32 \<Rightarrow> ('st istream, u32 \<times> byte \<times> byte) action" where
  "varint32_loop bitpos result s =
     (case pb_readbyte s of
        (None, s) \<Rightarrow> (None, s)
      | (Some byte, s) \<Rightarrow>
          (let sign_extension = (if bitpos < 63 then 0xff else 0x01)
           in if bitpos \<ge> 32 \<and> byte AND 0x7f \<noteq> 0 \<and> (drop_bit 31 result = 0 \<or> byte \<noteq> sign_extension)
              then is_return_error ''varint overflow'' s
              else let result = (if bitpos \<ge> 32 then result
                                 else result OR push_bit (unat bitpos) (ucast (byte AND 0x7f)));
                       bitpos = bitpos + 7
                   in if byte AND 0x80 \<noteq> 0 then varint32_loop bitpos result s
                      else (Some (result, bitpos, byte), s)))"
  by pat_completeness auto
termination
  by (relation "measure (\<lambda>(_, _, s). is_bytes_left s)") (auto dest!: pb_readbyte_left [OF sym])

declare varint32_loop.simps [simp del]

text \<open>The result, whether \<open>*eof\<close> is set, and the stream.\<close>

definition pb_decode_varint32_eof :: "'st istream \<Rightarrow> (u32 option \<times> bool) \<times> 'st istream" where
  "pb_decode_varint32_eof s =
     (case pb_readbyte s of
        (None, s) \<Rightarrow> ((None, is_bytes_left s = 0), s)
      | (Some byte, s) \<Rightarrow>
          if byte AND 0x80 = 0 then ((Some (ucast byte), False), s)
          else (case varint32_loop 7 (ucast (byte AND 0x7f)) s of
                  (None, s) \<Rightarrow> ((None, False), s)
                | (Some (result, bitpos, byte), s) \<Rightarrow>
                    if bitpos = 35 \<and> byte AND 0x70 \<noteq> 0
                    then ((None, False), is_set_error ''varint overflow'' s)
                    else ((Some result, False), s)))"

definition pb_decode_varint32 :: "('st istream, u32) action" where
  "pb_decode_varint32 s = (case pb_decode_varint32_eof s of ((r, eof), s) \<Rightarrow> (r, s))"

function varint_loop :: "byte \<Rightarrow> u64 \<Rightarrow> ('st istream, u64) action" where
  "varint_loop bitpos result s =
     (if bitpos \<ge> 64 then is_return_error ''varint overflow'' s
      else (case pb_readbyte s of
              (None, s) \<Rightarrow> (None, s)
            | (Some byte, s) \<Rightarrow>
                (let result = result OR push_bit (unat bitpos) (ucast (byte AND 0x7f)); bitpos = bitpos + 7
                 in if byte AND 0x80 \<noteq> 0 then varint_loop bitpos result s else (Some result, s))))"
  by pat_completeness auto
termination
  by (relation "measure (\<lambda>(_, _, s). is_bytes_left s)") (auto dest!: pb_readbyte_left [OF sym])

declare varint_loop.simps [simp del]

definition pb_decode_varint :: "('st istream, u64) action" where
  "pb_decode_varint = varint_loop 0 0"

function pb_skip_varint :: "('st istream, unit) action" where
  "pb_skip_varint s =
     (case pb_read True 1 s of
        (None, s) \<Rightarrow> (None, s)
      | (Some bytes, s) \<Rightarrow> if bytes ! 0 AND 0x80 \<noteq> 0 then pb_skip_varint s else (Some (), s))"
  by pat_completeness auto
termination
  by (relation "measure is_bytes_left") (auto dest!: pb_read_left [OF sym])

declare pb_skip_varint.simps [simp del]

section \<open>Tags, lengths and fixed-size values\<close>

definition pb_skip_string :: "('st istream, unit) action" where
  "pb_skip_string = act_bind pb_decode_varint32 (\<lambda>n. act_bind (pb_read False (unat n)) (\<lambda>_. act_ret ()))"

text \<open>The wire type and the tag, and whether \<open>*eof\<close> is set.\<close>

definition pb_decode_tag :: "'st istream \<Rightarrow> ((u32 \<times> u32) option \<times> bool) \<times> 'st istream" where
  "pb_decode_tag s =
     (case pb_decode_varint32_eof s of
        ((None, eof), s) \<Rightarrow> ((None, eof), s)
      | ((Some temp, eof), s) \<Rightarrow>
          if temp = 0 then ((None, True), s) else ((Some (temp AND 7, drop_bit 3 temp), eof), s))"

definition pb_skip_field :: "u32 \<Rightarrow> ('st istream, unit) action" where
  "pb_skip_field wire_type =
     (if wire_type = PB_WT_VARINT then pb_skip_varint
      else if wire_type = PB_WT_64BIT then act_bind (pb_read False 8) (\<lambda>_. act_ret ())
      else if wire_type = PB_WT_STRING then pb_skip_string
      else if wire_type = PB_WT_32BIT then act_bind (pb_read False 4) (\<lambda>_. act_ret ())
      else is_return_error ''invalid wire_type'')"

text \<open>\<open>read_raw_value\<close>; the loop of its first case has \<open>buf\<close> behind it and \<open>room\<close> in front of it.\<close>

fun raw_varint :: "nat \<Rightarrow> byte list \<Rightarrow> ('st istream, byte list) action" where
  "raw_varint 0 buf s = (None, s)"
| "raw_varint (Suc room) buf s =
     (case pb_read True 1 s of
        (None, s) \<Rightarrow> (None, s)
      | (Some bytes, s) \<Rightarrow>
          if bytes ! 0 AND 0x80 \<noteq> 0 then raw_varint room (buf @ [bytes ! 0]) s else (Some (buf @ [bytes ! 0]), s))"

definition read_raw_value :: "u32 \<Rightarrow> nat \<Rightarrow> ('st istream, byte list) action" where
  "read_raw_value wire_type max_size =
     (if wire_type = PB_WT_VARINT then raw_varint max_size []
      else if wire_type = PB_WT_64BIT then pb_read True 8
      else if wire_type = PB_WT_32BIT then pb_read True 4
      else is_return_error ''invalid wire_type'')"

definition pb_make_string_substream :: "('st istream, 'st istream) action" where
  "pb_make_string_substream =
     act_bind pb_decode_varint32 (\<lambda>sz stream.
       if is_bytes_left stream < unat sz then is_return_error ''parent stream too short'' stream
       else (Some (stream\<lparr>is_bytes_left := unat sz\<rparr>), stream\<lparr>is_bytes_left := is_bytes_left stream - unat sz\<rparr>))"

definition pb_close_string_substream :: "'st istream \<Rightarrow> ('st istream, unit) action" where
  "pb_close_string_substream substream stream =
     (case (if is_bytes_left substream \<noteq> 0 then pb_read False (is_bytes_left substream) substream else (Some [], substream)) of
        (None, substream) \<Rightarrow> (None, stream)
      | (Some _, substream) \<Rightarrow> (Some (), stream\<lparr>is_state := is_state substream, is_errmsg := is_errmsg substream\<rparr>))"

definition pb_decode_bool :: "('st istream, bool) action" where
  "pb_decode_bool = act_bind pb_decode_varint32 (\<lambda>value. act_ret (value \<noteq> 0))"

definition pb_decode_svarint :: "('st istream, u64) action" where
  "pb_decode_svarint =
     act_bind pb_decode_varint (\<lambda>value. act_ret (if value AND 1 \<noteq> 0 then NOT (drop_bit 1 value) else drop_bit 1 value))"

definition pb_decode_fixed32 :: "('st istream, u32) action" where
  "pb_decode_fixed32 =
     act_bind (pb_read True 4) (\<lambda>bytes. act_ret
       (ucast (bytes ! 0) OR push_bit 8 (ucast (bytes ! 1)) OR push_bit 16 (ucast (bytes ! 2)) OR
        push_bit 24 (ucast (bytes ! 3))))"

definition pb_decode_fixed64 :: "('st istream, u64) action" where
  "pb_decode_fixed64 =
     act_bind (pb_read True 8) (\<lambda>bytes. act_ret
       (ucast (bytes ! 0) OR push_bit 8 (ucast (bytes ! 1)) OR push_bit 16 (ucast (bytes ! 2)) OR
        push_bit 24 (ucast (bytes ! 3)) OR push_bit 32 (ucast (bytes ! 4)) OR push_bit 40 (ucast (bytes ! 5)) OR
        push_bit 48 (ucast (bytes ! 6)) OR push_bit 56 (ucast (bytes ! 7))))"

end
