(* ===== verification/Pb_Wire.thy ===== *)
theory Pb_Wire
  imports Pb_Decode
begin

text \<open>
  What nanopb writes and reads on the wire: varints in base 128, zigzag numbers, little-endian words, tags and
length-delimited data, each with the encoder that emits it and the decoder that parses it, for every
sink and source of bytes.
\<close>

section \<open>The format\<close>

text \<open>A varint: seven bits per byte, the low ones first, the top bit set on all bytes but the last.\<close>

fun leb :: "nat \<Rightarrow> byte list" where
  "leb n = (if n < 128 then [of_nat n] else of_nat (n mod 128 + 128) # leb (n div 128))"

declare leb.simps [simp del]

fun leb_val :: "byte list \<Rightarrow> nat" where
  "leb_val [] = 0"
| "leb_val (b # bs) = unat b mod 128 + 128 * leb_val bs"

text \<open>The bytes up to and including the first one without the top bit.\<close>

fun varint_bytes :: "byte list \<Rightarrow> byte list option" where
  "varint_bytes [] = None"
| "varint_bytes (b # bs) = (if unat b < 128 then Some [b] else map_option ((#) b) (varint_bytes bs))"

definition p_varint :: "nat \<Rightarrow> u64 parser" where
  "p_varint m bs = map_option (\<lambda>w. (of_nat (leb_val w), length w)) (varint_bytes (take m bs))"

definition p_skip_varint :: "unit parser" where
  "p_skip_varint bs = map_option (\<lambda>w. ((), length w)) (varint_bytes bs)"

lemma leb_small: "n < 128 \<Longrightarrow> leb n = [of_nat n]"
  by (simp add: leb.simps)

lemma leb_step: "128 \<le> n \<Longrightarrow> leb n = of_nat (n mod 128 + 128) # leb (n div 128)"
  by (subst leb.simps) simp

lemma leb_val_leb [simp]: "leb_val (leb n) = n"
proof (induction n rule: leb.induct)
  case (1 n)
  show ?case
  proof (cases "n < 128")
    case False
    have digit: "unat (of_nat (n mod 128 + 128) :: byte) mod 128 = n mod 128"
      by (simp add: mod_less_divisor [THEN less_trans] del: of_nat_add)
    show ?thesis
      using False 1 by (simp only: leb_step not_less leb_val.simps digit) simp
  qed (simp add: leb_small)
qed

lemma varint_bytes_leb: "varint_bytes (leb n @ rest) = Some (leb n)"
proof (induction n rule: leb.induct)
  case (1 n)
  show ?case
  proof (cases "n < 128")
    case False
    have digit: "\<not> unat (of_nat (n mod 128 + 128) :: byte) < 128"
      by (simp del: of_nat_add)
    show ?thesis using False 1 digit by (simp add: leb_step del: of_nat_add)
  qed (simp add: leb_small)
qed

lemma leb_not_empty [simp]: "leb n \<noteq> []"
  by (subst leb.simps) simp

lemma leb_not_empty_length [simp]: "0 < length (leb n)"
  by simp

lemma length_leb: "n < 128 ^ Suc k \<Longrightarrow> length (leb n) \<le> Suc k"
proof (induction k arbitrary: n)
  case (Suc k)
  show ?case
  proof (cases "n < 128")
    case False
    have "n div 128 < 128 ^ Suc k"
      using Suc.prems by (simp add: less_mult_imp_div_less mult.commute)
    then show ?thesis using Suc.IH [of "n div 128"] False by (simp add: leb_step)
  qed (simp add: leb_small)
qed (simp add: leb_small)

lemma length_leb_u64: "length (leb (unat (v :: u64))) \<le> 10"
  using length_leb [of "unat v" 9] unat_u64_less [of v] by simp

lemma length_leb_mono: "m \<le> n \<Longrightarrow> length (leb m) \<le> length (leb n)"
proof (induction n arbitrary: m rule: leb.induct)
  case (1 n)
  show ?case
  proof (cases "m < 128")
    case True
    then show ?thesis by (simp add: leb_small Suc_leI)
  next
    case False
    then show ?thesis using 1(1) [of "m div 128"] 1(2) by (simp add: leb_step div_le_mono)
  qed
qed

lemma varint_bytes_append: "varint_bytes bs = Some w \<Longrightarrow> varint_bytes (bs @ rest) = Some w"
  by (induction bs arbitrary: w) (auto split: if_splits)

lemma varint_bytes_prefix: "varint_bytes bs = Some w \<Longrightarrow> w \<noteq> [] \<and> length w \<le> length bs \<and> w = take (length w) bs"
  by (induction bs arbitrary: w) (auto split: if_splits)

lemma p_varint_leb: "v < 2 ^ 64 \<Longrightarrow> p_varint 10 (leb v @ rest) = Some (of_nat v, length (leb v))"
proof -
  assume "v < 2 ^ 64"
  then have "length (leb v) \<le> 10" using length_leb [of v 9] by simp
  then have "take 10 (leb v @ rest) = leb v @ take (10 - length (leb v)) rest" by simp
  then show ?thesis by (simp add: p_varint_def varint_bytes_leb)
qed

section \<open>Encoded varints\<close>

lemma unat_or_80: "unat (b :: byte) < 128 \<Longrightarrow> unat (b OR 0x80) = unat b + 128"
  using unat_push_or [of "1 :: byte" 7 b] by (simp add: or.commute)

lemma varint_digit: "ucast ((v :: u64) AND 0x7f) OR (0x80 :: byte) = of_nat (unat v mod 128 + 128)"
proof -
  have "unat (v AND 0x7f) = unat v mod 128"
    using unat_and_mask [of v 7] by (simp add: mask_numeral)
  then have digit: "unat (ucast (v AND 0x7f) :: byte) = unat v mod 128"
    by (simp add: unat_ucast_narrow mod_less_divisor [THEN less_trans])
  then have "unat (ucast (v AND 0x7f) OR (0x80 :: byte)) = unat v mod 128 + 128"
    using unat_or_80 [of "ucast (v AND 0x7f)"] by simp
  then show ?thesis
    by (simp only: word_unat_eq_iff) (simp add: mod_less_divisor [THEN less_trans] del: of_nat_add)
qed

lemma encode_varint_loop_leb:
  assumes "v \<noteq> 0"
  defines "buffer \<equiv> encode_varint_loop v"
  shows "buffer \<noteq> []" and "buffer[length buffer - 1 := buffer ! (length buffer - 1) AND 0x7f] = leb (unat v)"
proof -
  have "encode_varint_loop v \<noteq> [] \<and>
     (encode_varint_loop v)[length (encode_varint_loop v) - 1 := encode_varint_loop v ! (length (encode_varint_loop v) - 1) AND 0x7f]
     = leb (unat v)" if "v \<noteq> 0" for v
    using that
  proof (induction v rule: encode_varint_loop.induct)
    case (1 v)
    have unat_shift: "unat (drop_bit 7 v) = unat v div 128"
      by (simp add: unat_drop_bit_eq drop_bit_eq_div [where 'a = nat])
    show ?case
    proof (cases "unat v < 128")
      case True
      then have "drop_bit 7 v = 0" by (simp add: drop_bit_eq_0_iff_unat)
      moreover have "of_nat (unat v mod 128 + 128) AND 0x7f = (of_nat (unat v) :: byte)"
        using True by (simp only: word_unat_eq_iff unat_and_7f unat_of_nat_byte) simp
      ultimately show ?thesis
        using 1(2) True by (simp add: encode_varint_loop.simps [of v] encode_varint_loop.simps [of 0] varint_digit leb_small del: of_nat_add)
    next
      case False
      then have "drop_bit 7 v \<noteq> 0" by (simp add: drop_bit_eq_0_iff_unat)
      from 1(1) [OF 1(2) this] obtain x xs where rest: "encode_varint_loop (drop_bit 7 v) = x # xs"
        "(x # xs)[length xs := (x # xs) ! length xs AND 0x7f] = leb (unat v div 128)"
        by (cases "encode_varint_loop (drop_bit 7 v)") (auto simp: unat_shift)
      then show ?thesis
        using 1(2) False by (simp add: encode_varint_loop.simps [of v] varint_digit leb_step del: of_nat_add)
    qed
  qed
  then show "buffer \<noteq> []" and "buffer[length buffer - 1 := buffer ! (length buffer - 1) AND 0x7f] = leb (unat v)"
    unfolding buffer_def using assms(1) by blast+
qed

lemma pb_encode_varint_eq: "pb_encode_varint v = pb_write (leb (unat v)) (length (leb (unat v)))"
proof (cases "v \<le> 0x7f")
  case True
  then have "unat v < 128" by (simp add: word_le_nat_alt)
  moreover from this have "ucast v = (of_nat (unat v) :: byte)"
    by (simp only: word_unat_eq_iff unat_ucast_narrow unat_of_nat_byte) simp
  ultimately show ?thesis using True by (simp add: fun_eq_iff pb_encode_varint_def leb_small)
next
  case False
  then have nz: "v \<noteq> 0" by auto
  have len: "length (encode_varint_loop v) = length (leb (unat v))"
    using arg_cong [OF encode_varint_loop_leb(2) [OF nz], of length] by simp
  have "pb_encode_varint v = pb_write (leb (unat v)) (length (encode_varint_loop v))"
    unfolding pb_encode_varint_def Let_def encode_varint_loop_leb(2) [OF nz] using False by simp
  then show ?thesis unfolding len .
qed

section \<open>Decoded varints\<close>

definition low_bits :: "nat \<Rightarrow> 'a::len word \<Rightarrow> bool" where
  "low_bits m r \<longleftrightarrow> (\<forall>n \<ge> m. \<not> bit r n)"

lemma low_bits_0 [simp]: "low_bits m 0"
  by (simp add: low_bits_def)

lemma low_bits_large: "LENGTH('a) \<le> m \<Longrightarrow> low_bits m (r :: 'a::len word)"
  by (auto simp: low_bits_def dest: bit_imp_le_length)

lemma bit_7f: "bit (b AND 0x7f :: byte) n \<Longrightarrow> n < 7"
  using bit_less_of_unat_less [of "b AND 0x7f" 7] by (simp add: unat_and_7f)

lemma low_bits_push:
  "low_bits m r \<Longrightarrow> low_bits (m + 7) (r OR push_bit m (ucast (b AND 0x7f :: byte)) :: 'a::len word)"
  by (auto simp: low_bits_def bit_or_iff bit_push_bit_iff bit_ucast_iff simp del: bit_and_iff dest!: bit_7f)

lemma or_push_eq:
  assumes "low_bits m (r :: 'a::len word)" and "8 \<le> LENGTH('a)"
  shows "r OR push_bit m (ucast (b AND 0x7f :: byte)) = r + of_nat (unat b mod 128 * 2 ^ m)"
proof -
  have disjoint: "r AND push_bit m (ucast (b AND 0x7f)) = 0"
    using assms(1) by (intro bit_word_eqI) (auto simp: low_bits_def bit_and_iff bit_push_bit_iff)
  have "ucast (b AND 0x7f) = (of_nat (unat b mod 128) :: 'a word)"
    unfolding unat_and_7f [symmetric] by simp
  then have digit: "push_bit m (ucast (b AND 0x7f)) = (of_nat (unat b mod 128 * 2 ^ m) :: 'a word)"
    by (simp add: push_bit_eq_mult)
  show ?thesis
    by (rule trans [OF disjunctive_add_eq_or [OF disjoint, symmetric] arg_cong [OF digit, of "\<lambda>x. r + x"]])
qed

lemma varint_loop_eq:
  "varint_loop bitpos result s =
     (if bitpos \<ge> 64 then is_return_error ''varint overflow'' s
      else act_bind pb_readbyte (\<lambda>byte.
        if byte AND 0x80 \<noteq> 0
        then varint_loop (bitpos + 7) (result OR push_bit (unat bitpos) (ucast (byte AND 0x7f)))
        else act_ret (result OR push_bit (unat bitpos) (ucast (byte AND 0x7f)))) s)"
  by (subst varint_loop.simps) (auto simp: act_bind_def act_ret_def Let_def split: prod.splits option.splits)

text \<open>A loop that reads a byte and then goes on, fails, or returns.\<close>

fun byte_run :: "('x \<Rightarrow> byte \<Rightarrow> ('x + 'r) option) \<Rightarrow> 'x \<Rightarrow> 'r parser" where
  "byte_run step x [] = None"
| "byte_run step x (b # bs) =
     (case step x b of
        None \<Rightarrow> None
      | Some (Inl y) \<Rightarrow> map_option (\<lambda>(r, k). (r, Suc k)) (byte_run step y bs)
      | Some (Inr r) \<Rightarrow> Some (r, 1))"

context source
begin

lemma parses_varint_loop:
  assumes "low_bits (7 * k) result" and "k + m = 10"
  shows "parses (varint_loop (of_nat (7 * k)) result)
     (\<lambda>bs. map_option (\<lambda>w. (result + of_nat (leb_val w * 2 ^ (7 * k)), length w)) (varint_bytes (take m bs)))"
  using assms
proof (induction m arbitrary: k result)
  case 0
  then have "varint_loop (of_nat (7 * k)) result s = is_return_error ''varint overflow'' s" for s :: "'st istream"
    by (subst varint_loop.simps) (simp add: word_le_nat_alt)
  then show ?case by (simp add: parses_def is_return_error_def)
next
  case (Suc m)
  let ?b = "of_nat (7 * k) :: byte"
  have k: "7 * k \<le> 63" "unat ?b = 7 * k" using Suc.prems(2) by (simp_all del: of_nat_mult)
  have small: "\<not> ?b \<ge> 64" using k by (simp add: word_le_nat_alt del: of_nat_mult)
  have next_bitpos: "?b + 7 = of_nat (7 * Suc k)" by simp
  let ?r = "\<lambda>byte :: byte. result OR push_bit (7 * k) (ucast (byte AND 0x7f))"
  have rest: "parses (if byte AND 0x80 \<noteq> 0 then varint_loop (of_nat (7 * Suc k)) (?r byte) else act_ret (?r byte))
      (if byte AND 0x80 \<noteq> 0
       then (\<lambda>bs. map_option (\<lambda>w. (?r byte + of_nat (leb_val w * 2 ^ (7 * Suc k)), length w)) (varint_bytes (take m bs)))
       else (\<lambda>_. Some (?r byte, 0)))" for byte
    using Suc.IH [of "Suc k" "?r byte"] Suc.prems low_bits_push [OF Suc.prems(1), of byte]
    by (cases "byte AND 0x80 = 0") (simp_all add: algebra_simps parses_ret)
  show ?case
  proof (rule parses_cong [OF parses_bind [OF parses_readbyte rest]])
    fix s :: "'st istream"
    show "act_bind pb_readbyte (\<lambda>byte. if byte AND 0x80 \<noteq> 0 then varint_loop (of_nat (7 * Suc k)) (?r byte) else act_ret (?r byte)) s
        = varint_loop ?b result s"
      using small by (simp only: varint_loop_eq [of ?b result] k(2) next_bitpos) simp
  next
    fix bs :: "byte list"
    show "p_bind (\<lambda>bs. map_option (\<lambda>(b, k). (b ! 0, k)) (p_read 1 bs))
       (\<lambda>byte. if byte AND 0x80 \<noteq> 0
          then (\<lambda>bs. map_option (\<lambda>w. (?r byte + of_nat (leb_val w * 2 ^ (7 * Suc k)), length w)) (varint_bytes (take m bs)))
          else (\<lambda>_. Some (?r byte, 0))) bs
      = map_option (\<lambda>w. (result + of_nat (leb_val w * 2 ^ (7 * k)), length w)) (varint_bytes (take (Suc m) bs))"
      by (cases bs)
        (auto simp: p_bind_def p_read_def and_80_iff or_push_eq [OF Suc.prems(1) [unfolded mult.commute [of 7]]] option.map_comp o_def algebra_simps power_add
          not_le intro!: option.map_cong)
  qed
qed

lemma parses_varint: "parses pb_decode_varint (p_varint 10)"
  using parses_varint_loop [of 0 0 10] unfolding pb_decode_varint_def p_varint_def by simp

lemma parses_byte_loop:
  assumes rd: "parses rd (\<lambda>bs. map_option (\<lambda>(b, k). (b ! 0, k)) (p_read 1 bs))"
    and loop: "\<And>x s. (\<exists>fail. (\<forall>b s. fst (fail b s) = None) \<and>
        f x s = act_bind rd (\<lambda>b. case step x b of None \<Rightarrow> fail b | Some (Inl y) \<Rightarrow> f y | Some (Inr r) \<Rightarrow> act_ret r) s) \<or>
      (\<forall>b. step x b = None) \<and> fst (f x s) = None"
  shows "parses (f x) (byte_run step x)"
  unfolding parses_def
proof (intro allI impI)
  fix s :: "'st istream"
  assume "ready s"
  then show "case byte_run step x (ahead s) of None \<Rightarrow> fst (f x s) = None
      | Some (a, k) \<Rightarrow> \<exists>s'. f x s = (Some a, s') \<and> advanced k s s'"
  proof (induction "is_bytes_left s" arbitrary: s x rule: less_induct)
    case less
    show ?case
    proof (cases "(\<forall>b. step x b = None) \<and> fst (f x s) = None")
      case True
      then show ?thesis by (cases "ahead s") simp_all
    next
      case False
      then obtain fail where fail: "\<And>b s. fst (fail b s) = None" and
        eq: "f x s = act_bind rd (\<lambda>b. case step x b of None \<Rightarrow> fail b | Some (Inl y) \<Rightarrow> f y | Some (Inr r) \<Rightarrow> act_ret r) s"
        using loop [of x s] by blast
      show ?thesis
      proof (cases "ahead s")
        case Nil
        then have "fst (rd s) = None" using parses_None [OF rd less.prems] by (simp add: p_read_def)
        then show ?thesis unfolding eq using Nil by (cases "rd s") simp
      next
        case (Cons b bs)
        then obtain t where t: "rd s = (Some b, t)" "advanced 1 s t"
          using parsesE [OF rd less.prems] by (auto simp: p_read_def)
        have left: "is_bytes_left t < is_bytes_left s" and t': "ready t" "ahead t = bs"
          using t(2) Cons less.prems by (auto simp: advanced_def ahead_advanced [OF t(2)] simp flip: length_ahead)
        have run: "f x s = (case step x b of None \<Rightarrow> fail b t | Some (Inl y) \<Rightarrow> f y t | Some (Inr r) \<Rightarrow> (Some r, t))"
          unfolding eq using t(1) by (simp add: act_ret_def split: option.splits sum.splits)
        show ?thesis
        proof (cases "step x b")
          case None
          then show ?thesis unfolding run Cons using fail by simp
        next
          case (Some q)
          show ?thesis
          proof (cases q)
            case (Inl y)
            then have run: "f x s = f y t" unfolding run using Some by simp
            show ?thesis unfolding run Cons using less.hyps [OF left t'(1), of y] Some Inl t' advanced_trans [OF t(2)]
              by (auto split: option.splits)
          next
            case (Inr r)
            then show ?thesis unfolding run Cons using Some t(2) by simp
          qed
        qed
      qed
    qed
  qed
qed

lemma parses_read_one: "parses (act_bind (pb_read True 1) (\<lambda>bytes. act_ret (bytes ! 0)))
    (\<lambda>bs. map_option (\<lambda>(b, k). (b ! 0, k)) (p_read 1 bs))"
  by (rule parses_cong [OF parses_bind [OF parses_read parses_ret]]) (auto simp: p_bind_def p_read_def)

lemma parses_skip_varint: "parses pb_skip_varint p_skip_varint"
proof -
  define step :: "unit \<Rightarrow> byte \<Rightarrow> (unit + unit) option" where
    "step = (\<lambda>_ b. Some (if b AND 0x80 \<noteq> 0 then Inl () else Inr ()))"
  have "parses ((\<lambda>_. pb_skip_varint) ()) (byte_run step ())"
  proof (rule parses_byte_loop [OF parses_read_one], rule disjI1)
    show "\<exists>fail. (\<forall>b s. fst (fail b s) = None) \<and> pb_skip_varint s
      = act_bind (act_bind (pb_read True 1) (\<lambda>bytes. act_ret (bytes ! 0)))
          (\<lambda>b. case step x b of None \<Rightarrow> fail b | Some (Inl y) \<Rightarrow> pb_skip_varint | Some (Inr r) \<Rightarrow> act_ret r) s" for x and s :: "'st istream"
      by (rule exI [of _ "\<lambda>_ s. (None, s)"], subst pb_skip_varint.simps)
         (auto simp: step_def act_bind_def act_ret_def split: prod.splits option.splits)
  qed
  moreover have "byte_run step () bs = p_skip_varint bs" for bs
    by (induction bs) (auto simp: step_def p_skip_varint_def and_80_iff option.map_comp o_def split: option.splits)
  ultimately show ?thesis by (simp add: parses_def)
qed

end

section \<open>Varints of 32 bits\<close>

text \<open>What the code accepts, as a function of the bytes; \<open>varint32_step\<close> is one round of its loop.\<close>

definition varint32_bad :: "byte \<Rightarrow> u32 \<Rightarrow> byte \<Rightarrow> bool" where
  "varint32_bad bitpos result byte \<longleftrightarrow>
     bitpos \<ge> 32 \<and> byte AND 0x7f \<noteq> 0 \<and> (drop_bit 31 result = 0 \<or> byte \<noteq> (if bitpos < 63 then 0xff else 0x01))"

definition varint32_step :: "byte \<times> u32 \<Rightarrow> byte \<Rightarrow> (byte \<times> u32 + u32 \<times> byte \<times> byte) option" where
  "varint32_step = (\<lambda>(bitpos, result) byte.
     if varint32_bad bitpos result byte then None
     else let result = (if bitpos \<ge> 32 then result else result OR push_bit (unat bitpos) (ucast (byte AND 0x7f)))
          in Some (if byte AND 0x80 \<noteq> 0 then Inl (bitpos + 7, result) else Inr (result, bitpos + 7, byte)))"

fun p_varint32 :: "u32 parser" where
  "p_varint32 [] = None"
| "p_varint32 (b # bs) =
     (if b AND 0x80 = 0 then Some (ucast b, 1)
      else (case byte_run varint32_step (7, ucast (b AND 0x7f)) bs of
              None \<Rightarrow> None
            | Some ((r, bitpos, c), k) \<Rightarrow> if bitpos = 35 \<and> c AND 0x70 \<noteq> 0 then None else Some (r, Suc k)))"

context source
begin

lemma parses_varint32_loop: "parses (varint32_loop bitpos result) (byte_run varint32_step (bitpos, result))"
proof -
  have "parses ((\<lambda>(bitpos, result). varint32_loop bitpos result) x) (byte_run varint32_step x)" for x
  proof (rule parses_byte_loop [OF parses_readbyte], rule disjI1)
    fix x :: "byte \<times> u32" and s :: "'st istream"
    obtain bitpos result where x: "x = (bitpos, result)" by (cases x)
    show "\<exists>fail. (\<forall>b s. fst (fail b s) = None) \<and> (case x of (bitpos, result) \<Rightarrow> varint32_loop bitpos result) s
      = act_bind pb_readbyte (\<lambda>b. case varint32_step x b of None \<Rightarrow> fail b
          | Some (Inl y) \<Rightarrow> (case y of (bitpos, result) \<Rightarrow> varint32_loop bitpos result) | Some (Inr r) \<Rightarrow> act_ret r) s"
      by (rule exI [of _ "\<lambda>_ s. is_return_error ''varint overflow'' s"], unfold x prod.case, subst varint32_loop.simps,
          unfold Let_def, fold varint32_bad_def)
         (auto simp: varint32_step_def act_bind_def act_ret_def is_return_error_def Let_def split: prod.splits option.splits)
  qed
  from this [of "(bitpos, result)"] show ?thesis by simp
qed

lemma decode_varint32_eq:
  "pb_decode_varint32 s = act_bind pb_readbyte (\<lambda>b. if b AND 0x80 = 0 then act_ret (ucast b)
     else act_bind (varint32_loop 7 (ucast (b AND 0x7f))) (\<lambda>(r, bitpos, c).
       if bitpos = 35 \<and> c AND 0x70 \<noteq> 0 then is_return_error ''varint overflow'' else act_ret r)) s"
  by (simp add: pb_decode_varint32_def pb_decode_varint32_eof_def act_bind_def act_ret_def is_return_error_def
      split: prod.splits option.splits)

lemma parses_varint32: "parses pb_decode_varint32 p_varint32"
proof -
  define last :: "u32 \<times> byte \<times> byte \<Rightarrow> u32 parser" where
    "last = (\<lambda>(r, bitpos, c) _. if bitpos = 35 \<and> c AND 0x70 \<noteq> 0 then None else Some (r, 0))"
  have stop: "parses (case x of (r, bitpos, c) \<Rightarrow> if bitpos = 35 \<and> c AND 0x70 \<noteq> 0 then is_return_error ''varint overflow'' else act_ret r)
     (last x)" for x :: "u32 \<times> byte \<times> byte"
    by (auto simp: last_def parses_ret is_return_error_def split: prod.splits intro!: parses_fail)
  have rest: "parses (if b AND 0x80 = 0 then act_ret (ucast b)
     else act_bind (varint32_loop 7 (ucast (b AND 0x7f))) (\<lambda>(r, bitpos, c).
       if bitpos = 35 \<and> c AND 0x70 \<noteq> 0 then is_return_error ''varint overflow'' else act_ret r))
     (if b AND 0x80 = 0 then (\<lambda>_. Some (ucast b, 0)) else p_bind (byte_run varint32_step (7, ucast (b AND 0x7f))) last)" for b :: byte
    using parses_bind [OF parses_varint32_loop stop] by (simp add: parses_ret)
  show ?thesis
  proof (rule parses_cong [OF parses_bind [OF parses_readbyte rest]])
    show "p_bind (\<lambda>bs. map_option (\<lambda>(b, k). (b ! 0, k)) (p_read 1 bs))
        (\<lambda>b. if b AND 0x80 = 0 then (\<lambda>_. Some (ucast b, 0)) else p_bind (byte_run varint32_step (7, ucast (b AND 0x7f))) last) bs
      = p_varint32 bs" for bs
      by (cases bs) (auto simp: p_bind_def p_read_def last_def split: option.splits)
  qed (simp add: decode_varint32_eq)
qed

end

text \<open>The loop on the bytes of \<open>n\<close>, behind the first \<open>k\<close> of them.\<close>

lemma unat_of_nat_le: "unat (of_nat n :: 'a::len word) \<le> n"
  by (simp add: unat_of_nat)

lemma pow128: "(128 :: nat) ^ k = 2 ^ (7 * k)"
  by (simp add: power_mult)

lemma low_bits_mod: "low_bits (7 * k) (of_nat (n mod 128 ^ k) :: 'a::len word)"
proof -
  have "unat (of_nat (n mod 128 ^ k) :: 'a word) < 2 ^ (7 * k)"
    using unat_of_nat_le [of "n mod 128 ^ k", where 'a = 'a] mod_less_divisor [of "128 ^ k" n]
    by (simp add: pow128 del: mod_less_divisor)
  then show ?thesis using bit_less_of_unat_less by (auto simp: low_bits_def not_le [symmetric])
qed

lemma or_digit_eq:
  assumes "unat b mod 128 = n div 128 ^ k mod 128" and "8 \<le> LENGTH('a)"
  shows "of_nat (n mod 128 ^ k) OR push_bit (7 * k) (ucast (b AND 0x7f :: byte)) = (of_nat (n mod 128 ^ Suc k) :: 'a::len word)"
proof -
  have "n mod 128 ^ Suc k = n mod 128 ^ k + n div 128 ^ k mod 128 * 128 ^ k"
    using mod_mult2_eq [of n "128 ^ k" 128] by (simp add: mult.commute add.commute)
  then show ?thesis
    unfolding or_push_eq [OF low_bits_mod assms(2)] assms(1) by (simp add: pow128 del: power_Suc)
qed

lemma run_leb:
  assumes "k \<le> 4"
  shows "byte_run varint32_step (of_nat (7 * k), of_nat (n mod 128 ^ k)) (leb (n div 128 ^ k) @ rest) =
    (if n < 128 ^ Suc k then Some ((of_nat n, of_nat (7 * Suc k), of_nat (n div 128 ^ k)), 1)
     else map_option (\<lambda>(r, m). (r, Suc m))
       (byte_run varint32_step (of_nat (7 * Suc k), of_nat (n mod 128 ^ Suc k)) (leb (n div 128 ^ Suc k) @ rest)))"
proof -
  let ?b = "of_nat (7 * k) :: byte" and ?q = "n div 128 ^ k"
  have bitpos: "unat ?b = 7 * k" "\<not> ?b \<ge> 32" "?b + 7 = of_nat (7 * Suc k)"
    using assms by (simp_all add: word_le_nat_alt del: of_nat_mult)
  then have good: "\<not> varint32_bad ?b r c" for r c by (simp add: varint32_bad_def)
  have small: "n < 128 ^ Suc k \<longleftrightarrow> ?q < 128"
    by (simp add: div_less_iff_less_mult mult.commute)
  show ?thesis
  proof (cases "?q < 128")
    case True
    have digit: "unat (of_nat ?q :: byte) mod 128 = ?q mod 128" using True by simp
    have n: "n mod 128 ^ Suc k = n" using True small by simp
    have top: "of_nat ?q AND (0x80 :: byte) = 0"
      using and_80_iff [of "of_nat ?q"] True by simp
    show ?thesis
      using True small top bitpos good or_digit_eq [OF digit, where 'a = 32]
      by (simp add: leb_small varint32_step_def Let_def n del: power_Suc of_nat_mult)
  next
    case False
    let ?c = "of_nat (?q mod 128 + 128) :: byte"
    have digit: "unat ?c mod 128 = ?q mod 128"
      by (simp add: mod_less_divisor [THEN less_trans] del: of_nat_add)
    have top: "?c AND 0x80 \<noteq> 0"
      unfolding and_80_iff by (simp del: of_nat_add)
    have next_n: "?q div 128 = n div 128 ^ Suc k" by (simp only: power_Suc2 div_mult2_eq)
    show ?thesis
      using False small top bitpos good or_digit_eq [OF digit, where 'a = 32]
      by (simp add: leb_step varint32_step_def Let_def next_n del: power_Suc of_nat_mult of_nat_add)
  qed
qed

lemma p_varint32_first:
  assumes "128 \<le> n"
  shows "p_varint32 (leb n @ rest) =
    (case byte_run varint32_step (of_nat (7 * 1), of_nat (n mod 128 ^ 1)) (leb (n div 128 ^ 1) @ rest) of
       None \<Rightarrow> None
     | Some ((r, bitpos, c), k) \<Rightarrow> if bitpos = 35 \<and> c AND 0x70 \<noteq> 0 then None else Some (r, Suc k))"
proof -
  let ?c = "of_nat (n mod 128 + 128) :: byte"
  have digit: "unat ?c mod 128 = n mod 128"
    by (simp add: mod_less_divisor [THEN less_trans] del: of_nat_add)
  have "?c AND 0x80 \<noteq> 0"
    unfolding and_80_iff by (simp del: of_nat_add)
  moreover have "ucast (?c AND 0x7f) = (of_nat (n mod 128) :: u32)"
    using or_digit_eq [of ?c n 0, where 'a = 32] digit by (simp del: of_nat_add)
  ultimately show ?thesis using assms by (simp add: leb_step del: of_nat_add)
qed

lemma run_small:
  assumes "n < 2 ^ 32" and "k \<le> 4"
  obtains c where "byte_run varint32_step (of_nat (7 * k), of_nat (n mod 128 ^ k)) (leb (n div 128 ^ k) @ rest) =
      Some ((of_nat n, of_nat (7 * (k + length (leb (n div 128 ^ k)))), c), length (leb (n div 128 ^ k)))"
    and "k + length (leb (n div 128 ^ k)) \<le> 5"
    and "k + length (leb (n div 128 ^ k)) = 5 \<Longrightarrow> c AND 0x70 = 0"
proof -
  have "\<exists>c. byte_run varint32_step (of_nat (7 * k), of_nat (n mod 128 ^ k)) (leb (n div 128 ^ k) @ rest) =
      Some ((of_nat n, of_nat (7 * (k + length (leb (n div 128 ^ k)))), c), length (leb (n div 128 ^ k))) \<and>
    k + length (leb (n div 128 ^ k)) \<le> 5 \<and> (k + length (leb (n div 128 ^ k)) = 5 \<longrightarrow> c AND 0x70 = 0)"
    using assms(2)
  proof (induction "4 - k" arbitrary: k)
    case 0
    then have k: "k = 4" by simp
    have q: "n div 128 ^ 4 < 16" using assms(1) by (simp add: div_less_iff_less_mult)
    have "(of_nat (n div 128 ^ 4) :: byte) AND 0x70 = 0"
    proof (rule bit_word_eqI)
      fix i
      have "unat (of_nat (n div 128 ^ 4) :: byte) < 2 ^ 4" using q by simp
      then have "bit (of_nat (n div 128 ^ 4) :: byte) i \<Longrightarrow> i < 4" by (rule bit_less_of_unat_less)
      moreover have "bit (0x70 :: byte) i \<Longrightarrow> 4 \<le> i"
        by (rule ccontr) (auto simp: not_le less_Suc_eq numeral_eq_Suc)
      ultimately show "bit (of_nat (n div 128 ^ 4) AND (0x70 :: byte)) i = bit (0 :: byte) i"
        by (auto simp: bit_and_iff)
    qed
    moreover have "n < 128 ^ Suc 4" using assms(1) by simp
    ultimately show ?case
      using run_leb [of 4 n rest] q unfolding k by (simp add: leb_small del: power_Suc)
  next
    case (Suc j)
    then have IH: "4 - Suc k = j" "Suc k \<le> 4" by simp_all
    show ?case
    proof (cases "n < 128 ^ Suc k")
      case True
      then have q: "n div 128 ^ k < 128" by (simp add: div_less_iff_less_mult mult.commute)
      show ?thesis using run_leb [of k n rest] True q Suc.prems IH(2) by (simp add: leb_small del: power_Suc)
    next
      case False
      then have q: "\<not> n div 128 ^ k < 128" by (simp add: div_less_iff_less_mult mult.commute)
      have next_n: "n div 128 ^ k div 128 = n div 128 ^ Suc k" by (simp only: power_Suc2 div_mult2_eq)
      have len: "length (leb (n div 128 ^ k)) = Suc (length (leb (n div 128 ^ Suc k)))"
        using q by (simp add: leb_step next_n del: power_Suc)
      obtain c where c: "byte_run varint32_step (of_nat (7 * Suc k), of_nat (n mod 128 ^ Suc k)) (leb (n div 128 ^ Suc k) @ rest) =
          Some ((of_nat n, of_nat (7 * (Suc k + length (leb (n div 128 ^ Suc k)))), c), length (leb (n div 128 ^ Suc k)))"
        "Suc k + length (leb (n div 128 ^ Suc k)) \<le> 5" "Suc k + length (leb (n div 128 ^ Suc k)) = 5 \<longrightarrow> c AND 0x70 = 0"
        using Suc.hyps(1) [OF IH(1) [symmetric] IH(2)] by blast
      show ?thesis
        unfolding run_leb [OF Suc.prems, of n rest] if_not_P [OF False] c(1) len using c(2,3) by simp
    qed
  qed
  then show ?thesis using that by blast
qed

lemma p_varint32_leb:
  assumes "n < 2 ^ 32"
  shows "p_varint32 (leb n @ rest) = Some (of_nat n, length (leb n))"
proof (cases "n < 128")
  case True
  then have "(of_nat n :: byte) AND 0x80 = 0" using and_80_iff [of "of_nat n"] by simp
  moreover have "ucast (of_nat n :: byte) = (of_nat n :: u32)"
    using True by (simp only: word_unat_eq_iff) (simp add: unat_ucast_widen unat_of_nat)
  ultimately show ?thesis using True by (simp add: leb_small)
next
  case False
  obtain c where c: "byte_run varint32_step (of_nat (7 * 1), of_nat (n mod 128 ^ 1)) (leb (n div 128 ^ 1) @ rest) =
      Some ((of_nat n, of_nat (7 * (1 + length (leb (n div 128 ^ 1)))), c), length (leb (n div 128 ^ 1)))"
    "1 + length (leb (n div 128 ^ 1)) \<le> 5" "1 + length (leb (n div 128 ^ 1)) = 5 \<Longrightarrow> c AND 0x70 = 0"
    using run_small [OF assms, of 1] by auto
  have len: "length (leb n) = 1 + length (leb (n div 128 ^ 1))"
    using False by (simp add: leb_step)
  have "(of_nat (7 * (1 + length (leb (n div 128 ^ 1)))) :: byte) = 35 \<Longrightarrow> 1 + length (leb (n div 128 ^ 1)) = 5"
    using c(2) by (simp only: word_unat_eq_iff unat_of_nat_byte) simp
  then show ?thesis
    using False c(3) unfolding p_varint32_first [OF leI [OF False]] c(1) len by auto
qed

text \<open>The ten bytes of a negative number: the low 35 bits, four times \<open>0xff\<close>, and \<open>0x01\<close>.\<close>

lemma p_varint32_negative:
  assumes "2 ^ 31 \<le> unat (w :: u32)"
  shows "p_varint32 (leb (2 ^ 64 - 2 ^ 32 + unat w) @ rest) = Some (w, 10)"
proof -
  define n where "n = 2 ^ 64 - 2 ^ 32 + unat w"
  have w: "unat w < 2 ^ 32" by (rule unat_u32_less)
  have of_n: "(of_nat n :: u32) = w"
  proof -
    have "n = unat w + 4294967295 * 2 ^ 32" by (simp add: n_def)
    then have "n mod 2 ^ 32 = unat w mod 2 ^ 32" by (simp only: mod_mult_self1)
    then have "n mod 2 ^ 32 = unat w" using w by simp
    then show ?thesis by (simp only: word_unat_eq_iff unat_of_nat) simp
  qed
  have top: "drop_bit 31 w \<noteq> 0" using assms by (simp add: drop_bit_eq_0_iff_unat)
  have "n mod 128 ^ 5 mod 2 ^ 32 = n mod 2 ^ 32" by (rule mod_mod_cancel) simp
  then have low: "(of_nat (n mod 128 ^ 5) :: u32) = w"
    unfolding of_n [symmetric] by (simp only: word_unat_eq_iff unat_of_nat) simp
  have high: "n div 128 ^ 5 = 2 ^ 29 - 1"
    using assms w unfolding n_def by (intro div_nat_eqI) simp_all
  have large: "\<not> n < 128 ^ Suc k" if "k \<le> 4" for k
  proof -
    have "(128 :: nat) ^ Suc k \<le> 128 ^ Suc 4" using that by (intro power_increasing) simp_all
    also have "\<dots> \<le> n" by (simp add: n_def)
    finally show ?thesis by simp
  qed
  have tail: "leb (2 ^ 29 - 1) = [0xff, 0xff, 0xff, 0xff, 0x01]"
    by (simp add: leb.simps)
  have "byte_run varint32_step (of_nat (7 * 5), w) (leb (2 ^ 29 - 1) @ rest) = Some ((w, 70, 1), 5)"
    unfolding tail using top by (simp add: varint32_step_def varint32_bad_def Let_def)
  moreover have "Suc 4 = 5" by simp
  ultimately have five: "byte_run varint32_step (of_nat (7 * Suc 4), of_nat (n mod 128 ^ Suc 4)) (leb (n div 128 ^ Suc 4) @ rest) = Some ((w, 70, 1), 5)"
    by (simp only: low high)
  have "byte_run varint32_step (of_nat (7 * 1), of_nat (n mod 128 ^ 1)) (leb (n div 128 ^ 1) @ rest) = Some ((w, 70, 1), 9)"
  proof -
    have up: "byte_run varint32_step (of_nat (7 * k), of_nat (n mod 128 ^ k)) (leb (n div 128 ^ k) @ rest) = Some (x, Suc m)"
      if "k \<le> 4" and "byte_run varint32_step (of_nat (7 * Suc k), of_nat (n mod 128 ^ Suc k)) (leb (n div 128 ^ Suc k) @ rest) = Some (x, m)"
      for k x m
      unfolding run_leb [OF that(1)] if_not_P [OF large [OF that(1)]] that(2) by simp
    have four: "byte_run varint32_step (of_nat (7 * Suc 3), of_nat (n mod 128 ^ Suc 3)) (leb (n div 128 ^ Suc 3) @ rest) = Some ((w, 70, 1), 6)"
      using up [OF _ five] by (simp only: Suc_numeral semiring_norm)
    have three: "byte_run varint32_step (of_nat (7 * Suc 2), of_nat (n mod 128 ^ Suc 2)) (leb (n div 128 ^ Suc 2) @ rest) = Some ((w, 70, 1), 7)"
      using up [OF _ four] by (simp only: Suc_numeral semiring_norm)
    have two: "byte_run varint32_step (of_nat (7 * Suc 1), of_nat (n mod 128 ^ Suc 1)) (leb (n div 128 ^ Suc 1) @ rest) = Some ((w, 70, 1), 8)"
      using up [OF _ three] by (simp only: Suc_numeral Suc_1 semiring_norm)
    show ?thesis using up [OF _ two] by (simp only: Suc_numeral semiring_norm)
  qed
  then show ?thesis
    using p_varint32_first [of n rest] by (simp add: n_def)
qed

section \<open>Zigzag numbers and little-endian words\<close>

definition zigzag :: "int \<Rightarrow> nat" where
  "zigzag i = (if i < 0 then nat (- 2 * i - 1) else nat (2 * i))"

lemma zigzag_word:
  "unat (if sint v < 0 then NOT (push_bit 1 v) else push_bit 1 (v :: u64)) = zigzag (sint v)"
proof -
  have of_range: "unat (of_int i :: u64) = nat i" if "0 \<le> i" "i < 2 ^ 64" for i
    using that by (simp add: unsigned_of_int take_bit_int_eq_self flip: nat_uint_eq)
  show ?thesis
  proof (cases "sint v < 0")
    case True
    have range: "0 \<le> - 2 * sint v - 1" "- 2 * sint v - 1 < 2 ^ 64"
      using sint_greater_eq [of v] True by simp_all
    have "NOT (push_bit 1 v) = of_int (- 2 * sint v - 1)"
      by (simp add: not_eq_complement push_bit_eq_mult mult.commute)
    then show ?thesis using True of_range [OF range] by (simp only: zigzag_def if_True)
  next
    case False
    have range: "0 \<le> 2 * sint v" "2 * sint v < 2 ^ 64"
      using sint_less [of v] False by simp_all
    have "push_bit 1 v = of_int (2 * sint v)" by (simp add: push_bit_eq_mult mult.commute)
    then show ?thesis using False of_range [OF range] by (simp only: zigzag_def if_False)
  qed
qed

lemma zigzag_less: "zigzag (sint (v :: u64)) < 2 ^ 64"
  unfolding zigzag_word [symmetric] by (rule unat_u64_less)

text \<open>What \<open>pb_decode_svarint\<close> computes from the number.\<close>

lemma drop_push_not:
  assumes "bit (v :: u64) 63" and "m = 1"
  shows "NOT (drop_bit m (NOT (push_bit m v))) = v"
proof (rule bit_word_eqI)
  fix n assume "n < LENGTH(64)"
  moreover have m: "m + n < 64 \<longleftrightarrow> n < 63" "n + m < 64 \<longleftrightarrow> n < 63" using assms(2) by auto
  ultimately show "bit (NOT (drop_bit m (NOT (push_bit m v)))) n = bit v n"
    using assms(1) m by (cases "n = 63") (auto simp: bit_not_iff bit_drop_bit_eq bit_push_bit_iff)
qed

lemma drop_push:
  assumes "\<not> bit (v :: u64) 63" and "m = 1"
  shows "drop_bit m (push_bit m v) = v"
proof (rule bit_word_eqI)
  fix n assume "n < LENGTH(64)"
  moreover have m: "m + n < 64 \<longleftrightarrow> n < 63" "n + m < 64 \<longleftrightarrow> n < 63" using assms(2) by auto
  ultimately show "bit (drop_bit m (push_bit m v)) n = bit v n"
    using assms(1) m by (cases "n = 63") (auto simp: bit_drop_bit_eq bit_push_bit_iff)
qed

lemma unzigzag:
  fixes v :: u64
  defines "z \<equiv> of_nat (zigzag (sint v)) :: u64"
  shows "(if z AND 1 \<noteq> 0 then NOT (drop_bit 1 z) else drop_bit 1 z) = v"
proof -
  have z: "z = (if sint v < 0 then NOT (push_bit 1 v) else push_bit 1 v)"
    unfolding z_def zigzag_word [symmetric] by simp
  have and_1: "x AND 1 = 0 \<longleftrightarrow> even x" for x :: u64 by (simp add: and_one_eq even_iff_mod_2_eq_zero)
  have sign: "bit v 63 \<longleftrightarrow> sint v < 0" by (simp add: bit_last_iff [where 'a = 64, simplified])
  show ?thesis
  proof (cases "sint v < 0")
    case True
    have "NOT (push_bit 1 v) AND 1 \<noteq> 0" unfolding and_1 by simp
    then show ?thesis unfolding z using True sign drop_push_not [of v 1] by simp
  next
    case False
    have "push_bit 1 v AND 1 = 0" unfolding and_1 by simp
    then show ?thesis unfolding z using False sign drop_push [of v 1] by simp
  qed
qed

lemma le_val_le_bytes [simp]: "le_val (le_bytes n v) = v mod 256 ^ n"
  by (simp add: le_val_def le_bytes_def)

lemma length_le_bytes [simp]: "length (le_bytes n v) = n"
  by (simp add: le_bytes_def)

lemma digit_8:
  assumes "8 \<le> LENGTH('a)"
  shows "(ucast (drop_bit k w AND 0xff :: 'a::len word) :: byte) = of_nat (unat w div 2 ^ k)"
proof -
  have "unat (drop_bit k w AND 0xff) = unat w div 2 ^ k mod 256"
    using unat_and_mask [of "drop_bit k w" 8] by (simp add: mask_numeral unat_drop_bit_eq drop_bit_eq_div [where 'a = nat])
  then show ?thesis
    by (simp only: word_unat_eq_iff unat_ucast_narrow unat_of_nat_byte) simp
qed

lemma le_bytes_Suc: "le_bytes (Suc n) v = of_nat v # le_bytes n (v div 256)"
  by (simp add: le_bytes_def)

lemma le_bytes_0: "le_bytes 0 v = []"
  by (simp add: le_bytes_def)

lemma le_bytes_4: "le_bytes 4 v = map (\<lambda>k. of_nat (v div 2 ^ k)) [0, 8, 16, 24]"
proof -
  have "(4 :: nat) = Suc (Suc (Suc (Suc 0)))" by simp
  then show ?thesis by (simp only: le_bytes_Suc le_bytes_0) (simp flip: div_mult2_eq)
qed

lemma le_bytes_8: "le_bytes 8 v = map (\<lambda>k. of_nat (v div 2 ^ k)) [0, 8, 16, 24, 32, 40, 48, 56]"
proof -
  have "(8 :: nat) = Suc (Suc (Suc (Suc (Suc (Suc (Suc (Suc 0)))))))" by simp
  then show ?thesis by (simp only: le_bytes_Suc le_bytes_0) (simp flip: div_mult2_eq)
qed

lemma pb_encode_fixed32_eq: "pb_encode_fixed32 v = pb_write (le_bytes 4 (unat v)) 4"
  unfolding pb_encode_fixed32_def digit_8 [of 0 v, simplified] le_bytes_4 by (simp add: digit_8)

lemma pb_encode_fixed64_eq: "pb_encode_fixed64 v = pb_write (le_bytes 8 (unat v)) 8"
  unfolding pb_encode_fixed64_def digit_8 [of 0 v, simplified] le_bytes_8 by (simp add: digit_8)

section \<open>What the encoders emit\<close>

context sink
begin

lemma emits_leb:
  assumes "unat v = n"
  shows "emits (pb_encode_varint v) (leb n)"
proof -
  have "length (leb n) < size_mod"
    using length_leb_u64 [of v] assms by (simp add: size_mod_def)
  then show ?thesis
    using emits_write unfolding pb_encode_varint_eq assms by blast
qed

lemma emits_varint: "emits (pb_encode_varint v) (leb (unat v))"
  by (rule emits_leb) simp

lemma emits_svarint: "emits (pb_encode_svarint v) (leb (zigzag (sint v)))"
  unfolding pb_encode_svarint_def Let_def by (rule emits_leb) (rule zigzag_word)

lemma emits_fixed32: "emits (pb_encode_fixed32 v) (le_bytes 4 (unat v))"
  using emits_write [of "le_bytes 4 (unat v)"] by (simp add: pb_encode_fixed32_eq size_mod_def)

lemma emits_fixed64: "emits (pb_encode_fixed64 v) (le_bytes 8 (unat v))"
  using emits_write [of "le_bytes 8 (unat v)"] by (simp add: pb_encode_fixed64_eq size_mod_def)

lemma emits_string:
  assumes "length w < size_mod"
  shows "emits (pb_encode_string w (length w)) (leb (length w) @ w)"
proof -
  have "unat (of_nat (length w) :: u64) = length w"
    using assms by (simp add: size_mod_def unat_of_nat)
  from emits_bind [OF emits_leb [OF this] emits_write [OF assms]]
  show ?thesis by (simp add: pb_encode_string_def)
qed

end

lemma unat_tag:
  assumes "unat wt < 8"
  shows "unat (push_bit 3 (ucast (fn :: u32)) OR ucast (wt :: u32) :: u64) = unat fn * 8 + unat wt"
  using unat_push_or [of "ucast fn :: u64" 3 "ucast wt"] assms unat_u32_less [of fn]
  by (simp add: unat_ucast_widen)

context sink
begin

lemma emits_tag: "unat wt < 8 \<Longrightarrow> emits (pb_encode_tag wt fn) (leb (unat fn * 8 + unat wt))"
  unfolding pb_encode_tag_def by (rule emits_leb) (rule unat_tag)

end

section \<open>What the decoders read back\<close>

context source
begin

definition reads :: "('st istream, 'a) action \<Rightarrow> byte list \<Rightarrow> 'a \<Rightarrow> bool" where
  "reads f w a \<longleftrightarrow> (\<forall>s rest. ready s \<and> ahead s = w @ rest \<longrightarrow> (\<exists>s'. f s = (Some a, s') \<and> advanced (length w) s s'))"

lemma readsE:
  assumes "reads f w a" and "ready s" and "ahead s = w @ rest"
  obtains s' where "f s = (Some a, s')" and "advanced (length w) s s'" and "ready s'" and "ahead s' = rest"
proof -
  obtain s' where s': "f s = (Some a, s')" "advanced (length w) s s'"
    using assms unfolding reads_def by blast
  then show ?thesis using that advanced_ready [OF s'(2)] ahead_advanced [OF s'(2)] assms(3) by simp
qed

lemma reads_parses: "parses f p \<Longrightarrow> (\<And>rest. p (w @ rest) = Some (a, length w)) \<Longrightarrow> reads f w a"
  unfolding reads_def using parsesE by metis

lemma reads_bind:
  assumes f: "reads f v a" and g: "reads (g a) w b"
  shows "reads (act_bind f g) (v @ w) b"
  unfolding reads_def
proof (intro allI impI)
  fix s rest
  assume s: "ready s \<and> ahead s = (v @ w) @ rest"
  then obtain t where t: "f s = (Some a, t)" "advanced (length v) s t" "ready t" "ahead t = w @ rest"
    using readsE [OF f, of s "w @ rest"] by auto
  obtain u where u: "g a t = (Some b, u)" "advanced (length w) t u"
    using readsE [OF g t(3,4)] by blast
  show "\<exists>s'. act_bind f g s = (Some b, s') \<and> advanced (length (v @ w)) s s'"
    using t(1) u(1) advanced_trans [OF t(2) u(2)] by simp
qed

lemma reads_ret: "reads (act_ret a) [] a"
  by (auto simp: reads_def act_ret_def advanced_0)

lemma reads_bind_ret: "reads f w a \<Longrightarrow> g a = b \<Longrightarrow> reads (act_bind f (\<lambda>x. act_ret (g x))) w b"
  using reads_bind [of f w a "\<lambda>x. act_ret (g x)" "[]" b] reads_ret [of b] by simp

lemma reads_read: "reads (pb_read True (length w)) w w"
  by (rule reads_parses [OF parses_read]) (simp add: p_read_def)

lemma reads_skip: "length w = n \<Longrightarrow> reads (pb_read False n) w []"
  by (rule reads_parses [OF parses_read]) (auto simp: p_read_def)

lemma reads_varint: "reads pb_decode_varint (leb (unat v)) v"
  by (rule reads_parses [OF parses_varint]) (simp add: p_varint_leb [OF unat_u64_less])

lemma reads_varint32: "reads pb_decode_varint32 (leb (unat v)) v"
  by (rule reads_parses [OF parses_varint32]) (simp add: p_varint32_leb [OF unat_u32_less])

lemma reads_svarint: "reads pb_decode_svarint (leb (zigzag (sint v))) v"
proof -
  have "reads pb_decode_varint (leb (unat (of_nat (zigzag (sint v)) :: u64))) (of_nat (zigzag (sint v)))"
    by (rule reads_varint)
  moreover have "unat (of_nat (zigzag (sint v)) :: u64) = zigzag (sint v)"
    using zigzag_less [of v] by (simp add: unat_of_nat)
  ultimately show ?thesis
    unfolding pb_decode_svarint_def by (intro reads_bind_ret [where a = "of_nat (zigzag (sint v))"] unzigzag) simp
qed

end

lemma or_byte_shift:
  assumes "8 * k + 8 \<le> LENGTH('a)" and "unat (r :: 'a::len word) < 256 ^ k"
  shows "unat (r OR push_bit (8 * k) (ucast (b :: byte))) = unat r + 256 ^ k * unat b"
proof -
  have w: "unat (ucast b :: 'a word) = unat b" by (rule unat_ucast_widen) (use assms(1) in simp)
  have pow: "(2 :: nat) ^ (8 * k) = 256 ^ k" by (simp add: power_mult)
  have "unat b + 1 \<le> 256" using unat_byte_less [of b] by linarith
  then have "(unat b + 1) * 2 ^ (8 * k) \<le> 2 ^ 8 * 2 ^ (8 * k)"
    by (intro mult_right_mono) simp_all
  also have "\<dots> \<le> 2 ^ LENGTH('a)"
    unfolding power_add [symmetric] by (rule power_increasing) (use assms(1) in simp_all)
  finally have "unat b * 2 ^ (8 * k) + 2 ^ (8 * k) \<le> 2 ^ LENGTH('a)" by (simp add: algebra_simps)
  then have "unat (push_bit (8 * k) (ucast b) OR r) = unat b * 2 ^ (8 * k) + unat r"
    using assms by (intro trans [OF unat_push_or]) (simp_all add: w pow)
  then show ?thesis by (simp add: or.commute pow)
qed

lemma le_val_snoc: "le_val (xs @ [b]) = le_val xs + 256 ^ length xs * unat b"
  by (simp add: le_val_def mult.commute)

lemma le_val_less: "le_val bs < 256 ^ length bs"
  using be_val_less [of "rev bs"] by (simp add: le_val_def)

lemma or_byte_le:
  assumes "r = of_nat (le_val xs)" and "length xs = k" and "8 * k + 8 \<le> LENGTH('a)"
  shows "(r :: 'a::len word) OR push_bit (8 * k) (ucast b) = of_nat (le_val (xs @ [b]))"
proof -
  have "le_val (xs @ [b]) < 2 ^ LENGTH('a)"
  proof (rule less_le_trans [OF le_val_less])
    have "(256 :: nat) ^ length (xs @ [b]) = 2 ^ (8 * k + 8)" by (simp add: assms(2) power_mult power_add)
    also have "\<dots> \<le> 2 ^ LENGTH('a)" using assms(3) by (rule power_increasing) simp
    finally show "(256 :: nat) ^ length (xs @ [b]) \<le> 2 ^ LENGTH('a)" .
  qed
  moreover from this have r: "unat r = le_val xs" unfolding assms(1) by (simp add: unat_of_nat le_val_snoc)
  moreover have "unat r < 256 ^ k" unfolding r using le_val_less [of xs] assms(2) by simp
  ultimately show ?thesis
    using assms(2,3) by (simp only: word_unat_eq_iff or_byte_shift unat_of_nat le_val_snoc) simp
qed

lemma ucast_le: "ucast b = of_nat (le_val [b])"
  by (simp add: le_val_def)

lemma decode_le_4:
  "ucast (b0 :: byte) OR push_bit 8 (ucast (b1 :: byte)) OR push_bit 16 (ucast (b2 :: byte)) OR push_bit 24 (ucast (b3 :: byte))
   = (of_nat (le_val [b0, b1, b2, b3]) :: u32)"
  using or_byte_le [of "ucast b0 :: u32" "[b0]" 1 b1] or_byte_le [of _ "[b0, b1]" 2 b2, where 'a = 32]
    or_byte_le [of _ "[b0, b1, b2]" 3 b3, where 'a = 32]
  by (simp add: ucast_le flip: or.assoc)

lemma decode_le_8:
  "ucast (b0 :: byte) OR push_bit 8 (ucast (b1 :: byte)) OR push_bit 16 (ucast (b2 :: byte)) OR push_bit 24 (ucast (b3 :: byte)) OR
   push_bit 32 (ucast (b4 :: byte)) OR push_bit 40 (ucast (b5 :: byte)) OR push_bit 48 (ucast (b6 :: byte)) OR push_bit 56 (ucast (b7 :: byte))
   = (of_nat (le_val [b0, b1, b2, b3, b4, b5, b6, b7]) :: u64)"
  using or_byte_le [of "ucast b0 :: u64" "[b0]" 1 b1] or_byte_le [of _ "[b0, b1]" 2 b2, where 'a = 64]
    or_byte_le [of _ "[b0, b1, b2]" 3 b3, where 'a = 64] or_byte_le [of _ "[b0, b1, b2, b3]" 4 b4, where 'a = 64]
    or_byte_le [of _ "[b0, b1, b2, b3, b4]" 5 b5, where 'a = 64] or_byte_le [of _ "[b0, b1, b2, b3, b4, b5]" 6 b6, where 'a = 64]
    or_byte_le [of _ "[b0, b1, b2, b3, b4, b5, b6]" 7 b7, where 'a = 64]
  by (simp add: ucast_le flip: or.assoc)

context source
begin

lemma reads_fixed32: "reads pb_decode_fixed32 (le_bytes 4 (unat v)) v"
proof -
  define w where "w = le_bytes 4 (unat v)"
  have len: "length w = 4" by (simp add: w_def)
  then obtain b0 b1 b2 b3 where w: "w = [b0, b1, b2, b3]" by (auto simp: length_Suc_conv numeral_eq_Suc)
  have "of_nat (le_val w) = v"
    using unat_u32_less [of v] by (simp add: w_def)
  then have val: "ucast (w ! 0) OR push_bit 8 (ucast (w ! 1)) OR push_bit 16 (ucast (w ! 2)) OR push_bit 24 (ucast (w ! 3)) = v"
    unfolding w by (simp add: decode_le_4)
  show ?thesis
    unfolding pb_decode_fixed32_def w_def [symmetric] by (rule reads_bind_ret [OF reads_read [of w, unfolded len]]) (rule val)
qed

lemma reads_fixed64: "reads pb_decode_fixed64 (le_bytes 8 (unat v)) v"
proof -
  define w where "w = le_bytes 8 (unat v)"
  have len: "length w = 8" by (simp add: w_def)
  then obtain b0 b1 b2 b3 b4 b5 b6 b7 where w: "w = [b0, b1, b2, b3, b4, b5, b6, b7]"
    by (auto simp: length_Suc_conv numeral_eq_Suc)
  have "of_nat (le_val w) = v"
    using unat_u64_less [of v] by (simp add: w_def)
  then have val: "ucast (w ! 0) OR push_bit 8 (ucast (w ! 1)) OR push_bit 16 (ucast (w ! 2)) OR push_bit 24 (ucast (w ! 3)) OR
      push_bit 32 (ucast (w ! 4)) OR push_bit 40 (ucast (w ! 5)) OR push_bit 48 (ucast (w ! 6)) OR push_bit 56 (ucast (w ! 7)) = v"
    unfolding w by (simp add: decode_le_8)
  show ?thesis
    unfolding pb_decode_fixed64_def w_def [symmetric] by (rule reads_bind_ret [OF reads_read [of w, unfolded len]]) (rule val)
qed

text \<open>The decoder of tags, without its end-of-file flag.\<close>

lemma decode_tag_eq:
  "(case pb_decode_tag s of ((r, eof), s) \<Rightarrow> (r, s)) = act_bind pb_decode_varint32
     (\<lambda>v. if v = 0 then act_fail else act_ret (v AND 7, drop_bit 3 v)) s"
  by (simp add: pb_decode_tag_def pb_decode_varint32_def act_bind_def act_ret_def act_fail_def split: prod.splits option.splits)

lemma reads_tag:
  assumes "unat wt < 8" and "unat fn < 2 ^ 29" and "fn \<noteq> 0"
  shows "reads (\<lambda>s. case pb_decode_tag s of ((r, eof), s) \<Rightarrow> (r, s)) (leb (unat fn * 8 + unat wt)) (wt, fn)"
proof -
  define v :: u32 where "v = push_bit 3 fn OR wt"
  have v: "unat v = unat fn * 8 + unat wt"
    using unat_push_or [of fn 3 wt] assms by (simp add: v_def)
  have "unat (v AND 7) = unat v mod 8" using unat_and_mask [of v 3] by (simp add: mask_numeral)
  then have wt: "v AND 7 = wt" unfolding v using assms(1) by (simp only: word_unat_eq_iff) simp
  have "unat (drop_bit 3 v) = unat fn"
    using assms(1) v by (simp add: unat_drop_bit_eq drop_bit_eq_div [where 'a = nat])
  then have fn: "drop_bit 3 v = fn" by (simp only: word_unat_eq_iff)
  have "unat v \<noteq> 0" using assms(3) unfolding v by (simp add: unat_eq_0)
  then have "v \<noteq> 0" by auto
  then have "reads (if v = 0 then act_fail else act_ret (v AND 7, drop_bit 3 v)) [] (wt, fn)"
    using reads_ret by (simp add: wt fn)
  from reads_bind [OF reads_varint32 [of v], of "\<lambda>v. if v = 0 then act_fail else act_ret (v AND 7, drop_bit 3 v)", OF this]
  show ?thesis unfolding decode_tag_eq v by simp
qed

lemma reads_skip_string:
  assumes "length w < 2 ^ 32"
  shows "reads pb_skip_string (leb (length w) @ w) ()"
proof -
  have n: "unat (of_nat (length w) :: u32) = length w" using assms by (simp add: unat_of_nat)
  have "reads (act_bind (pb_read False (unat (of_nat (length w) :: u32))) (\<lambda>_. act_ret ())) w ()"
    by (rule reads_bind_ret [OF reads_skip]) (simp_all add: n)
  from reads_bind [OF reads_varint32 [of "of_nat (length w)"], where g = "\<lambda>n. act_bind (pb_read False (unat n)) (\<lambda>_. act_ret ())", OF this]
  show ?thesis unfolding pb_skip_string_def n .
qed

end

text \<open>One value of a wire type.\<close>

definition wire_value :: "u32 \<Rightarrow> byte list \<Rightarrow> bool" where
  "wire_value wt w \<longleftrightarrow>
     (wt = PB_WT_VARINT \<and> varint_bytes w = Some w) \<or>
     (wt = PB_WT_64BIT \<and> length w = 8) \<or>
     (wt = PB_WT_STRING \<and> (\<exists>v. length v < 2 ^ 32 \<and> w = leb (length v) @ v)) \<or>
     (wt = PB_WT_32BIT \<and> length w = 4)"

context source
begin

lemma reads_skip_field:
  assumes "wire_value wt w"
  shows "reads (pb_skip_field wt) w ()"
proof -
  consider "wt = PB_WT_VARINT" "varint_bytes w = Some w" | "wt = PB_WT_64BIT" "length w = 8"
    | v where "wt = PB_WT_STRING" "length v < 2 ^ 32" "w = leb (length v) @ v" | "wt = PB_WT_32BIT" "length w = 4"
    using assms unfolding wire_value_def by blast
  then show ?thesis
  proof cases
    case 1
    then have "reads pb_skip_varint w ()"
      by (intro reads_parses [OF parses_skip_varint]) (simp add: p_skip_varint_def varint_bytes_append)
    then show ?thesis using 1(1) by (simp add: pb_skip_field_def)
  next
    case 2
    then show ?thesis using reads_bind_ret [OF reads_skip [OF 2(2)], of "\<lambda>_. ()"]
      by (simp add: pb_skip_field_def PB_WT_VARINT_def PB_WT_64BIT_def)
  next
    case 3
    then show ?thesis using reads_skip_string [OF 3(2)]
      by (simp add: pb_skip_field_def PB_WT_VARINT_def PB_WT_64BIT_def PB_WT_STRING_def)
  next
    case 4
    then show ?thesis using reads_bind_ret [OF reads_skip [OF 4(2)], of "\<lambda>_. ()"]
      by (simp add: pb_skip_field_def PB_WT_VARINT_def PB_WT_64BIT_def PB_WT_STRING_def PB_WT_32BIT_def)
  qed
qed

end

section \<open>Messages inside messages\<close>

context sink
begin

lemma emits_submessage:
  assumes enc: "emits enc w" and len: "length w < 2 ^ 63"
  shows "emits (pb_encode_submessage null enc) (leb (length w) @ w)"
  unfolding emits_def
proof (intro conjI allI impI)
  have n: "unat (of_nat (length w) :: u64) = length w"
    using len by (simp add: unat_of_nat)
  have first: "enc (pb_ostream_sizing null) = (Some (), pb_ostream_sizing null\<lparr>os_bytes_written := length w\<rparr>)"
    using emits_sizing [OF enc, of "pb_ostream_sizing null"] len by (simp add: pb_ostream_sizing_def size_mod_def)
  fix s :: "'st ostream"
  {
    assume s: "os_callback s = None \<and> os_bytes_written s < size_mod"
    define t where "t = s\<lparr>os_bytes_written := size_add (os_bytes_written s) (length (leb (length w)))\<rparr>"
    have t: "pb_encode_varint (of_nat (length w)) s = (Some (), t)" "os_callback t = None"
      using s emits_sizing [OF emits_leb [OF n], of s] by (simp_all add: t_def)
    have "pb_encode_submessage null enc s = pb_write [] (length w) t"
      by (simp add: pb_encode_submessage_def first t)
    also have "\<dots> = (Some (), t\<lparr>os_bytes_written := size_add (os_bytes_written t) (length w)\<rparr>)"
      by (simp add: pb_write_def t(2))
    finally show "pb_encode_submessage null enc s
        = (Some (), s\<lparr>os_bytes_written := size_add (os_bytes_written s) (length (leb (length w) @ w))\<rparr>)"
      by (simp add: t_def size_add_def mod_add_left_eq add.assoc)
  next
    assume s: "open_sink s"
    show "if os_bytes_written s + length (leb (length w) @ w) \<le> os_max_size s
        then \<exists>s'. pb_encode_submessage null enc s = (Some (), s') \<and> extended (leb (length w) @ w) s s'
        else fst (pb_encode_submessage null enc s) = None"
    proof (cases "os_bytes_written s + length (leb (length w)) \<le> os_max_size s")
      case False
      then have "fst (pb_encode_varint (of_nat (length w)) s) = None" using emits_full [OF emits_leb [OF n] s] by simp
      then show ?thesis using False first by (cases "pb_encode_varint (of_nat (length w)) s") (simp add: pb_encode_submessage_def)
    next
      case True
      obtain t where t: "pb_encode_varint (of_nat (length w)) s = (Some (), t)" "extended (leb (length w)) s t"
        by (rule emitsE [OF emits_leb [OF n] s True])
      have cb: "os_callback t = Some put" and bound: "os_bytes_written t \<le> os_max_size t" "os_max_size t < 2 ^ 63"
        and max: "os_max_size t = os_max_size s"
        using t(2) by (simp_all add: extended_def open_sink_def)
      have add: "size_add (os_bytes_written t) (length w) = os_bytes_written t + length w"
        using bound len by (simp add: size_mod_def)
      have fits: "os_bytes_written s + length (leb (length w) @ w) \<le> os_max_size s \<longleftrightarrow> os_bytes_written t + length w \<le> os_max_size t"
        using t(2) by (simp add: extended_def add.assoc)
      show ?thesis
      proof (cases "os_bytes_written t + length w \<le> os_max_size t")
        case False
        then show ?thesis
          using first t(1) cb add fits by (simp add: pb_encode_submessage_def PB_RETURN_ERROR_def)
      next
        case True
        define sub where "sub = \<lparr>os_callback = os_callback t, os_state = os_state t, os_max_size = length w,
          os_bytes_written = 0, os_errmsg = None\<rparr>"
        have room: "length w \<le> room (os_state t)"
          using t(2) True unfolding extended_def open_sink_def by linarith
        have "open_sink sub"
          using cb len room by (simp add: sub_def open_sink_def)
        then obtain sub' where sub': "enc sub = (Some (), sub')" "extended w sub sub'"
          using emitsE [OF enc, of sub] by (auto simp: sub_def)
        define u where "u = t\<lparr>os_bytes_written := os_bytes_written t + length w, os_state := os_state sub', os_errmsg := os_errmsg sub'\<rparr>"
        have "pb_encode_submessage null enc s = (Some (), u)"
          using first t(1) cb add True sub' by (simp add: pb_encode_submessage_def u_def sub_def extended_def)
        moreover have "extended (leb (length w) @ w) s u"
          using t(2) sub'(2) True by (auto simp: extended_def open_sink_def u_def sub_def)
        ultimately show ?thesis using fits True by auto
      qed
    qed
  }
qed

end

context source
begin

text \<open>A substream: whatever part of it is read, closing it leaves the parent behind all of it.\<close>

lemma substream:
  assumes s: "ready s" and p: "p_varint32 (ahead s) = Some (n, k)" and fits: "k + unat n \<le> is_bytes_left s"
  obtains sub t where "pb_make_string_substream s = (Some sub, t)" and "ready sub"
    and "ahead sub = take (unat n) (drop k (ahead s))"
    and "is_bytes_left t = is_bytes_left s - k - unat n"
    and "\<And>j sub'. advanced j sub sub' \<Longrightarrow> \<exists>u. pb_close_string_substream sub' t = (Some (), u) \<and> advanced (k + unat n) s u"
proof -
  obtain r where r: "pb_decode_varint32 s = (Some n, r)" "advanced k s r"
    by (rule parsesE [OF parses_varint32 s p])
  have left: "unat n \<le> is_bytes_left r" and "ready r" using r(2) fits by (auto simp: advanced_def)
  then have bound: "is_bytes_left r \<le> length (content (is_state r))" and cb: "is_callback r = read" by (simp_all add: ready_def)
  define sub where "sub = r\<lparr>is_bytes_left := unat n\<rparr>"
  define t where "t = r\<lparr>is_bytes_left := is_bytes_left r - unat n\<rparr>"
  have make: "pb_make_string_substream s = (Some sub, t)"
    using r(1) left by (simp add: pb_make_string_substream_def sub_def t_def)
  have ready: "ready sub" using \<open>ready r\<close> left by (simp add: ready_def sub_def)
  have "ahead sub = take (unat n) (ahead r)"
    using left by (simp add: ahead_def sub_def min_def)
  then have ahead: "ahead sub = take (unat n) (drop k (ahead s))" by (simp add: ahead_advanced [OF r(2)])
  have lt: "is_bytes_left t = is_bytes_left s - k - unat n" using r(2) by (simp add: t_def advanced_def)
  have close: "\<exists>u. pb_close_string_substream sub' t = (Some (), u) \<and> advanced (k + unat n) s u" if adv: "advanced j sub sub'" for j sub'
  proof -
    have j: "j \<le> unat n" "is_bytes_left sub' = unat n - j" "content (is_state sub') = drop j (content (is_state r))" "ready sub'"
      using adv by (auto simp: advanced_def sub_def)
    have finish: "advanced (k + unat n) s (t\<lparr>is_state := st, is_errmsg := m\<rparr>)"
      if "content st = drop (unat n) (content (is_state r))" for st m
      using r(2) left bound cb fits that by (auto simp: advanced_def t_def ready_def add.commute)
    show ?thesis
    proof (cases "is_bytes_left sub' = 0")
      case True
      then show ?thesis using j finish [of "is_state sub'"] by (simp add: pb_close_string_substream_def)
    next
      case False
      have "reads (pb_read False (unat n - j)) (ahead sub') []"
        using j(4) by (intro reads_skip) (simp add: j(2))
      then obtain v where v: "pb_read False (unat n - j) sub' = (Some [], v)" "advanced (unat n - j) sub' v"
        using readsE [of _ "ahead sub'" _ sub' "[]"] j(2,4) by (metis append_Nil2 length_ahead)
      have "content (is_state v) = drop (unat n) (content (is_state r))"
        using v(2) j(1,3) by (simp add: advanced_def)
      then show ?thesis using False v(1) finish [of "is_state v"] j(2) by (simp add: pb_close_string_substream_def)
    qed
  qed
  show ?thesis by (rule that [OF make ready ahead lt close])
qed

end

section \<open>Sign extension, and running decoders on a buffer\<close>

lemma fst_parses:
  assumes "source.parses buf_read (\<lambda>bs. bs) f p"
  shows "fst (f (pb_istream_from_buffer bs (length bs))) = map_option fst (p bs)"
proof -
  have "buffer_source.ready (pb_istream_from_buffer bs (length bs))"
    by (simp add: buffer_source.ready_def pb_istream_from_buffer_def)
  moreover have "buffer_source.ahead (pb_istream_from_buffer bs (length bs)) = bs"
    by (simp add: buffer_source.ahead_def pb_istream_from_buffer_def)
  ultimately show ?thesis
    using assms unfolding buffer_source.parses_def by (fastforce split: option.splits)
qed

lemma length_leb_ge: "128 ^ k \<le> n \<Longrightarrow> k < length (leb n)"
proof (induction k arbitrary: n)
  case (Suc k)
  have "(128 :: nat) \<le> 128 ^ Suc k" by simp
  then have "128 \<le> n" using Suc.prems by linarith
  moreover have "128 ^ k \<le> n div 128" using div_le_mono [OF Suc.prems, of 128] by simp
  ultimately show ?case using Suc.IH [of "n div 128"] by (simp add: leb_step)
qed simp

lemma nat_wrap:
  assumes "n < 2 ^ 32"
  shows "nat ((int n - 2 ^ 32) mod 2 ^ 64) = 2 ^ 64 - 2 ^ 32 + n"
proof -
  have "(int n - 2 ^ 32) mod 2 ^ 64 = (int n - 2 ^ 32 + 2 ^ 64) mod 2 ^ 64" by (rule mod_add_self2 [symmetric])
  also have "int n - 2 ^ 32 + 2 ^ 64 = int (2 ^ 64 - 2 ^ 32 + n)" by simp
  also have "int (2 ^ 64 - 2 ^ 32 + n) mod 2 ^ 64 = int (2 ^ 64 - 2 ^ 32 + n)"
    using assms by (intro mod_pos_pos_trivial) simp_all
  finally show ?thesis by simp
qed

lemma bit_31: "bit (v :: u32) 31 \<longleftrightarrow> 2 ^ 31 \<le> unat v"
proof -
  have "n < 2 ^ 32 \<Longrightarrow> odd (n div 2 ^ 31) \<longleftrightarrow> 2 ^ 31 \<le> n" for n :: nat
    by (cases "n < 2 ^ 31") (simp_all add: le_div_geq)
  moreover have "bit v 31 \<longleftrightarrow> bit (unat v) 31" by (simp add: bit_unsigned_iff)
  ultimately show ?thesis using unat_u32_less [of v] by (simp only: bit_iff_odd [of "unat v"])
qed

lemma unat_scast_32:
  "unat (scast (v :: u32) :: u64) = (if 2 ^ 31 \<le> unat v then 2 ^ 64 - 2 ^ 32 + unat v else unat v)"
proof -
  define n where "n = unat v"
  have n: "n < 2 ^ 32" "uint v = int n" by (simp_all add: n_def unat_u32_less [simplified])
  have "sint v = take_bit (Suc 31) (uint v) - 2 ^ Suc 31 * of_bool (bit (uint v) 31)"
    using signed_take_bit_eq_take_bit_minus [of 31 "uint v"] sint_uint [of v] by simp
  moreover have "take_bit 32 (uint v) = uint v" using n by (simp add: take_bit_int_eq_self)
  moreover have "bit (uint v) 31 \<longleftrightarrow> 2 ^ 31 \<le> n" using bit_31 [of v] by (simp add: bit_unsigned_iff n_def)
  ultimately have sint: "sint v = (if 2 ^ 31 \<le> n then int n - 2 ^ 32 else int n)" using n(2) by simp
  have "uint (scast v :: u64) = sint v mod 2 ^ LENGTH(64)" unfolding scast_eq by (rule uint_word_of_int)
  then have "unat (scast v :: u64) = nat (sint v mod 2 ^ 64)" unfolding unat_eq_nat_uint by simp
  then show ?thesis
    using nat_wrap [OF n(1)] n(1) unfolding sint n_def [symmetric] by (simp add: mod_pos_pos_trivial)
qed

end
