(* ===== verification/Pb_Message.thy ===== *)
theory Pb_Message
  imports Pb_Wire
begin

text \<open>
  The message encoder of nanopb (\<open>pb_encode.c\<close>) on the iterators of \<open>pb_common.c\<close>: what is encoded of a
  structure in memory, as its descriptors say.
\<close>

section \<open>Walking through a message\<close>

text \<open>
  A pointer into a table of descriptors is the list of the entries from there on. A table ends with
  an entry of tag 0; the end of the list counts as one.
\<close>

definition PB_HTYPE_REQUIRED :: byte where "PB_HTYPE_REQUIRED = 0x00"
definition PB_HTYPE_OPTIONAL :: byte where "PB_HTYPE_OPTIONAL = 0x10"
definition PB_HTYPE_REPEATED :: byte where "PB_HTYPE_REPEATED = 0x20"
definition PB_HTYPE_ONEOF :: byte where "PB_HTYPE_ONEOF = 0x30"

record pb_field_iter =
  it_start :: "pb_field list"
  it_pos :: "pb_field list"
  it_required_field_index :: nat
  it_dest_struct :: nat
  it_pData :: nat
  it_pSize :: nat

definition last_field :: "pb_field list \<Rightarrow> bool" where
  "last_field pos \<longleftrightarrow> pos = [] \<or> pf_tag (hd pos) = 0"

definition ptr_add :: "nat \<Rightarrow> int \<Rightarrow> nat" where
  "ptr_add p d = nat (int p + d)"

definition pb_field_iter_begin :: "pb_field list \<Rightarrow> nat \<Rightarrow> bool \<times> pb_field_iter" where
  "pb_field_iter_begin fs dest_struct =
     (let pData = dest_struct + pf_data_offset (hd fs)
      in (\<not> last_field fs,
          \<lparr>it_start = fs, it_pos = fs, it_required_field_index = 0, it_dest_struct = dest_struct,
           it_pData = pData, it_pSize = ptr_add pData (pf_size_offset (hd fs))\<rparr>))"

definition pb_field_iter_next :: "pb_field_iter \<Rightarrow> bool \<times> pb_field_iter" where
  "pb_field_iter_next iter =
     (if last_field (it_pos iter) then (False, iter)
      else
        (let prev_field = hd (it_pos iter); pos = tl (it_pos iter)
         in if last_field pos then (False, snd (pb_field_iter_begin (it_start iter) (it_dest_struct iter)))
            else if PB_HTYPE (pf_type prev_field) = PB_HTYPE_ONEOF \<and> PB_HTYPE (pf_type (hd pos)) = PB_HTYPE_ONEOF \<and>
                    pf_data_offset (hd pos) = PB_SIZE_MAX
            then (True, iter\<lparr>it_pos := pos\<rparr>)
            else
              (let prev_size =
                     (if PB_ATYPE (pf_type prev_field) = PB_ATYPE_STATIC \<and> PB_HTYPE (pf_type prev_field) = PB_HTYPE_REPEATED
                      then pf_data_size prev_field * pf_array_size prev_field
                      else if PB_ATYPE (pf_type prev_field) = PB_ATYPE_POINTER then 8
                      else pf_data_size prev_field);
                   pData = it_pData iter + prev_size + pf_data_offset (hd pos)
               in (True, iter\<lparr>it_pos := pos,
                    it_required_field_index :=
                      (if PB_HTYPE (pf_type prev_field) = PB_HTYPE_REQUIRED then it_required_field_index iter + 1
                       else it_required_field_index iter),
                    it_pData := pData, it_pSize := ptr_add pData (pf_size_offset (hd pos))\<rparr>))))"

lemma iter_next_shorter: "pb_field_iter_next iter = (True, iter') \<Longrightarrow> length (it_pos iter') < length (it_pos iter)"
  by (auto simp: pb_field_iter_next_def Let_def last_field_def neq_Nil_conv split: if_splits)

text \<open>\<open>do \<dots> while (pb_field_iter_next(&iter))\<close>.\<close>

function iter_each :: "(pb_field_iter \<Rightarrow> ('s, unit) action) \<Rightarrow> pb_field_iter \<Rightarrow> ('s, unit) action" where
  "iter_each body iter =
     act_bind (body iter) (\<lambda>_. case pb_field_iter_next iter of
        (True, iter') \<Rightarrow> iter_each body iter'
      | (False, _) \<Rightarrow> act_ret ())"
  by pat_completeness auto
termination
  by (relation "measure (\<lambda>(_, iter). length (it_pos iter))") (auto dest: iter_next_shorter [OF sym])

declare iter_each.simps [simp del]

section \<open>Encoding a field\<close>

text \<open>
  What the model does not know: the tables of descriptors behind pointers, the application's
  callbacks (a function pointer, the field and the argument), and the state of a sizing stream.
\<close>

record 'st pb_env =
  env_fields :: "nat \<Rightarrow> pb_field list"
  env_encode :: "nat \<Rightarrow> pb_field \<Rightarrow> nat \<Rightarrow> ('st ostream, unit) action"
  env_ext_encode :: "nat \<Rightarrow> nat \<Rightarrow> ('st ostream, unit) action"
  env_null :: 'st

text \<open>\<open>enc\<close> is \<open>pb_encode\<close>, called on the fields of a submessage.\<close>

type_synonym 'st pb_encoder = "pb_field \<Rightarrow> nat \<Rightarrow> ('st ostream, unit) action"

definition pb_enc_submessage :: "'st pb_env \<Rightarrow> (pb_field list \<Rightarrow> nat \<Rightarrow> ('st ostream, unit) action) \<Rightarrow> 'st pb_encoder" where
  "pb_enc_submessage env enc field src =
     (if pf_ptr field = 0 then PB_RETURN_ERROR ''invalid field descriptor''
      else pb_encode_submessage (env_null env) (enc (env_fields env (pf_ptr field)) src))"

definition PB_ENCODERS ::
    "'st pb_env \<Rightarrow> (pb_field list \<Rightarrow> nat \<Rightarrow> ('st ostream, unit) action) \<Rightarrow> memory \<Rightarrow> byte \<Rightarrow> 'st pb_encoder" where
  "PB_ENCODERS env enc mem lt field src =
     (if lt = PB_LTYPE_BOOL then pb_enc_bool mem src
      else if lt = PB_LTYPE_VARINT then pb_enc_varint field mem src
      else if lt = PB_LTYPE_UVARINT then pb_enc_uvarint field mem src
      else if lt = PB_LTYPE_SVARINT then pb_enc_svarint field mem src
      else if lt = PB_LTYPE_FIXED32 then pb_enc_fixed32 mem src
      else if lt = PB_LTYPE_FIXED64 then pb_enc_fixed64 mem src
      else if lt = PB_LTYPE_BYTES then pb_enc_bytes field mem src
      else if lt = PB_LTYPE_STRING then pb_enc_string field mem src
      else if lt = PB_LTYPE_SUBMESSAGE then pb_enc_submessage env enc field src
      else if lt = PB_LTYPE_FIXED_LENGTH_BYTES then pb_enc_fixed_length_bytes field mem src
      else act_fail)"

text \<open>The calls \<open>func(stream, field, p)\<close> on the elements of an array.\<close>

definition each_item :: "(nat \<Rightarrow> ('s, unit) action) \<Rightarrow> pb_field \<Rightarrow> nat \<Rightarrow> nat \<Rightarrow> ('s, unit) action" where
  "each_item func field pData count = act_each func (map (\<lambda>i. pData + i * pf_data_size field) [0..<count])"

definition encode_array :: "'st pb_env \<Rightarrow> memory \<Rightarrow> pb_field \<Rightarrow> nat \<Rightarrow> nat \<Rightarrow> 'st pb_encoder \<Rightarrow> ('st ostream, unit) action" where
  "encode_array env mem field pData count func =
     (if count = 0 then act_ret ()
      else if PB_ATYPE (pf_type field) \<noteq> PB_ATYPE_POINTER \<and> count > pf_array_size field
      then PB_RETURN_ERROR ''array max size exceeded''
      else if PB_LTYPE (pf_type field) \<le> PB_LTYPE_LAST_PACKABLE
      then act_bind (pb_encode_tag PB_WT_STRING (pf_tag field)) (\<lambda>_.
        case (if PB_LTYPE (pf_type field) = PB_LTYPE_FIXED32 then Some (size_mul 4 count)
              else if PB_LTYPE (pf_type field) = PB_LTYPE_FIXED64 then Some (size_mul 8 count)
              else (case each_item (func field) field pData count (pb_ostream_sizing (env_null env)) of
                      (None, _) \<Rightarrow> None
                    | (Some _, sizestream) \<Rightarrow> Some (os_bytes_written sizestream))) of
          None \<Rightarrow> act_fail
        | Some sz \<Rightarrow>
            act_bind (pb_encode_varint (of_nat sz)) (\<lambda>_ stream.
              if os_callback stream = None then pb_write [] sz stream
              else each_item (func field) field pData count stream))
      else
        each_item
          (\<lambda>p. act_bind (pb_encode_tag_for_field field) (\<lambda>_.
             if PB_ATYPE (pf_type field) = PB_ATYPE_POINTER \<and>
                (PB_LTYPE (pf_type field) = PB_LTYPE_STRING \<or> PB_LTYPE (pf_type field) = PB_LTYPE_BYTES)
             then func field (load 8 mem p) else func field p))
          field pData count)"

section \<open>Fields and messages\<close>

text \<open>
  The recursion into submessages has a bound \<open>n\<close> on its depth, which also bounds the length of a
  list of extensions: with \<open>None\<close>, respectively a failure, where it is used up. C has no such
  bound; what is proved is about runs that stay within it.
\<close>

function iter_all :: "(pb_field_iter \<Rightarrow> bool option) \<Rightarrow> pb_field_iter \<Rightarrow> bool option" where
  "iter_all check iter =
     (case check iter of
        None \<Rightarrow> None
      | Some False \<Rightarrow> Some False
      | Some True \<Rightarrow> (case pb_field_iter_next iter of (True, iter') \<Rightarrow> iter_all check iter' | (False, _) \<Rightarrow> Some True))"
  by pat_completeness auto
termination
  by (relation "measure (\<lambda>(_, iter). length (it_pos iter))") (auto dest: iter_next_shorter [OF sym])

declare iter_all.simps [simp del]

fun pb_check_proto3_default_value :: "nat \<Rightarrow> 'st pb_env \<Rightarrow> memory \<Rightarrow> pb_field \<Rightarrow> nat \<Rightarrow> bool option" where
  "pb_check_proto3_default_value 0 env mem field pData = None"
| "pb_check_proto3_default_value (Suc n) env mem field pData =
     (let type = pf_type field; pSize = ptr_add pData (pf_size_offset field);
          singular =
            (if PB_ATYPE type = PB_ATYPE_STATIC \<and> PB_LTYPE type = PB_LTYPE_BYTES then Some (load 4 mem pData = 0)
             else if PB_ATYPE type = PB_ATYPE_STATIC \<and> PB_LTYPE type = PB_LTYPE_STRING then Some (mem pData = 0)
             else if PB_ATYPE type = PB_ATYPE_STATIC \<and> PB_LTYPE type = PB_LTYPE_FIXED_LENGTH_BYTES then Some (pf_data_size field = 0)
             else if PB_ATYPE type = PB_ATYPE_STATIC \<and> PB_LTYPE type = PB_LTYPE_SUBMESSAGE
             then (case pb_field_iter_begin (env_fields env (pf_ptr field)) pData of
                     (False, _) \<Rightarrow> Some True
                   | (True, iter) \<Rightarrow>
                       iter_all (\<lambda>iter. pb_check_proto3_default_value n env mem (hd (it_pos iter)) (it_pData iter)) iter)
             else if PB_ATYPE type = PB_ATYPE_POINTER \<and> PB_LTYPE type > PB_LTYPE_LAST_PACKABLE then Some (load 8 mem pData = 0)
             else Some (\<forall>b \<in> set (bytes_at mem pData (pf_data_size field)). b = 0))
      in if PB_HTYPE type = PB_HTYPE_REQUIRED then Some False
         else if PB_HTYPE type = PB_HTYPE_REPEATED \<and> pf_size_offset field \<noteq> 0 then Some (load 4 mem pSize = 0)
         else if PB_HTYPE type = PB_HTYPE_REPEATED \<and> PB_ATYPE type = PB_ATYPE_STATIC then Some False
         else if PB_HTYPE type = PB_HTYPE_ONEOF then Some (load 4 mem pSize = 0)
         else if PB_HTYPE type = PB_HTYPE_OPTIONAL \<and> pf_size_offset field \<noteq> 0 then Some (\<not> safe_read_bool mem pSize)
         else singular)"

definition encode_basic_field ::
    "nat \<Rightarrow> 'st pb_env \<Rightarrow> (pb_field list \<Rightarrow> nat \<Rightarrow> ('st ostream, unit) action) \<Rightarrow> memory \<Rightarrow> 'st pb_encoder" where
  "encode_basic_field n env enc mem field pData =
     (let type = pf_type field; func = PB_ENCODERS env enc mem (PB_LTYPE type); pSize = ptr_add pData (pf_size_offset field)
      in case (if pf_size_offset field = 0 \<and> PB_HTYPE type = PB_HTYPE_OPTIONAL
               then map_option Not (pb_check_proto3_default_value n env mem field pData) else Some True) of
           None \<Rightarrow> act_fail
         | Some has \<Rightarrow>
             (let data = (if PB_ATYPE type = PB_ATYPE_POINTER then load 8 mem pData else pData);
                  implicit_has = (if PB_ATYPE type = PB_ATYPE_POINTER then data \<noteq> 0 else has)
              in if PB_HTYPE type = PB_HTYPE_REQUIRED
                 then if data = 0 then PB_RETURN_ERROR ''missing required field''
                      else act_bind (pb_encode_tag_for_field field) (\<lambda>_. func field data)
                 else if PB_HTYPE type = PB_HTYPE_OPTIONAL
                 then if (if pf_size_offset field \<noteq> 0 then safe_read_bool mem pSize else implicit_has)
                      then act_bind (pb_encode_tag_for_field field) (\<lambda>_. func field data) else act_ret ()
                 else if PB_HTYPE type = PB_HTYPE_REPEATED
                 then encode_array env mem field data
                        (if pf_size_offset field \<noteq> 0 then load 4 mem pSize else pf_array_size field) func
                 else if load 4 mem pSize = unat (pf_tag field)
                 then act_bind (pb_encode_tag_for_field field) (\<lambda>_. func field data)
                 else act_ret ()))"

text \<open>
  (The third case for \<open>pSize\<close>, a local variable, is that of fields without a size offset, which are
  never oneofs.)
\<close>

text \<open>A \<open>pb_callback_t\<close> is a function pointer and the argument behind it.\<close>

definition encode_callback_field :: "'st pb_env \<Rightarrow> memory \<Rightarrow> 'st pb_encoder" where
  "encode_callback_field env mem field pData stream =
     (if load 8 mem pData = 0 then (Some (), stream)
      else (case env_encode env (load 8 mem pData) field (pData + 8) stream of
              (None, stream) \<Rightarrow> PB_RETURN_ERROR ''callback error'' stream
            | (Some _, stream) \<Rightarrow> (Some (), stream)))"

definition encode_field ::
    "nat \<Rightarrow> 'st pb_env \<Rightarrow> (pb_field list \<Rightarrow> nat \<Rightarrow> ('st ostream, unit) action) \<Rightarrow> memory \<Rightarrow> 'st pb_encoder" where
  "encode_field n env enc mem field pData =
     (let atype = PB_ATYPE (pf_type field)
      in if atype = PB_ATYPE_STATIC \<or> atype = PB_ATYPE_POINTER then encode_basic_field n env enc mem field pData
         else if atype = PB_ATYPE_CALLBACK then encode_callback_field env mem field pData
         else PB_RETURN_ERROR ''invalid field type'')"

text \<open>
  A \<open>pb_extension_t\<close> holds its type, the destination and the next extension; a
  \<open>pb_extension_type_t\<close> the decoder, the encoder and the argument.
\<close>

definition default_extension_encoder ::
    "nat \<Rightarrow> 'st pb_env \<Rightarrow> (pb_field list \<Rightarrow> nat \<Rightarrow> ('st ostream, unit) action) \<Rightarrow> memory \<Rightarrow> nat \<Rightarrow> ('st ostream, unit) action" where
  "default_extension_encoder n env enc mem extension =
     (let field = hd (env_fields env (load 8 mem (load 8 mem extension + 16)))
      in if PB_ATYPE (pf_type field) = PB_ATYPE_POINTER then encode_field n env enc mem field (extension + 8)
         else encode_field n env enc mem field (load 8 mem (extension + 8)))"

fun encode_extensions ::
    "nat \<Rightarrow> nat \<Rightarrow> 'st pb_env \<Rightarrow> (pb_field list \<Rightarrow> nat \<Rightarrow> ('st ostream, unit) action) \<Rightarrow> memory \<Rightarrow> nat \<Rightarrow> ('st ostream, unit) action" where
  "encode_extensions 0 n env enc mem extension = (if extension = 0 then act_ret () else act_fail)"
| "encode_extensions (Suc m) n env enc mem extension =
     (if extension = 0 then act_ret ()
      else
        (let encode = load 8 mem (load 8 mem extension + 8)
         in act_bind (if encode \<noteq> 0 then env_ext_encode env encode extension else default_extension_encoder n env enc mem extension)
              (\<lambda>_. encode_extensions m n env enc mem (load 8 mem (extension + 16)))))"

definition encode_extension_field ::
    "nat \<Rightarrow> 'st pb_env \<Rightarrow> (pb_field list \<Rightarrow> nat \<Rightarrow> ('st ostream, unit) action) \<Rightarrow> memory \<Rightarrow> nat \<Rightarrow> ('st ostream, unit) action" where
  "encode_extension_field n env enc mem pData = encode_extensions n n env enc mem (load 8 mem pData)"

definition encode_body ::
    "nat \<Rightarrow> 'st pb_env \<Rightarrow> (pb_field list \<Rightarrow> nat \<Rightarrow> ('st ostream, unit) action) \<Rightarrow> memory \<Rightarrow> pb_field_iter \<Rightarrow> ('st ostream, unit) action" where
  "encode_body n env enc mem iter =
     (if PB_LTYPE (pf_type (hd (it_pos iter))) = PB_LTYPE_EXTENSION then encode_extension_field n env enc mem (it_pData iter)
      else encode_field n env enc mem (hd (it_pos iter)) (it_pData iter))"

fun pb_encode :: "nat \<Rightarrow> 'st pb_env \<Rightarrow> memory \<Rightarrow> pb_field list \<Rightarrow> nat \<Rightarrow> ('st ostream, unit) action" where
  "pb_encode 0 env mem fs src = act_fail"
| "pb_encode (Suc n) env mem fs src =
     (case pb_field_iter_begin fs src of
        (False, _) \<Rightarrow> act_ret ()
      | (True, iter) \<Rightarrow> iter_each (encode_body n env (pb_encode n env mem) mem) iter)"

definition pb_encode_delimited :: "nat \<Rightarrow> 'st pb_env \<Rightarrow> memory \<Rightarrow> pb_field list \<Rightarrow> nat \<Rightarrow> ('st ostream, unit) action" where
  "pb_encode_delimited n env mem fs src = pb_encode_submessage (env_null env) (pb_encode n env mem fs src)"

definition pb_encode_nullterminated :: "nat \<Rightarrow> 'st pb_env \<Rightarrow> memory \<Rightarrow> pb_field list \<Rightarrow> nat \<Rightarrow> ('st ostream, unit) action" where
  "pb_encode_nullterminated n env mem fs src = act_bind (pb_encode n env mem fs src) (\<lambda>_. pb_write [0] 1)"

definition pb_get_encoded_size :: "nat \<Rightarrow> 'st pb_env \<Rightarrow> memory \<Rightarrow> pb_field list \<Rightarrow> nat \<Rightarrow> nat option" where
  "pb_get_encoded_size n env mem fs src =
     (case pb_encode n env mem fs src (pb_ostream_sizing (env_null env)) of
        (None, _) \<Rightarrow> None
      | (Some _, stream) \<Rightarrow> Some (os_bytes_written stream))"

end
