(* ===== verification/Pb_Heap.thy ===== *)
theory Pb_Heap
  imports Pb_Message
begin

text \<open>
  The decoder of nanopb (\<open>pb_decode.c\<close>) as it writes to memory: the allocator, the search for a field by
  its tag (\<open>pb_common.c\<close>), and the decoders of single values.
\<close>

section \<open>Memory and allocation\<close>

text \<open>
  The decoder reads from a stream and writes to memory. Blocks from the allocator are known by their
  address and size; \<open>place\<close> says where the allocator puts a new one (0 if it has no memory left).
  \<open>hp_deep\<close> records that a recursion went deeper than the bound the model sets it.
\<close>

record pb_heap =
  hp_mem :: memory
  hp_blocks :: "(nat \<times> nat) list"
  hp_deep :: bool

definition poke :: "nat \<Rightarrow> byte list \<Rightarrow> pb_heap \<Rightarrow> pb_heap" where
  "poke p bs h = h\<lparr>hp_mem := (\<lambda>a. if p \<le> a \<and> a < p + length bs then bs ! (a - p) else hp_mem h a)\<rparr>"

definition peek :: "nat \<Rightarrow> pb_heap \<Rightarrow> nat \<Rightarrow> nat" where
  "peek n h p = load n (hp_mem h) p"

definition pb_realloc :: "((nat \<times> nat) list \<Rightarrow> nat \<Rightarrow> nat) \<Rightarrow> nat \<Rightarrow> nat \<Rightarrow> pb_heap \<Rightarrow> nat \<times> pb_heap" where
  "pb_realloc place ptr n h =
     (let p = place (hp_blocks h) n
      in if p = 0 then (0, h)
         else (p, poke p (take n (case map_of (hp_blocks h) ptr of None \<Rightarrow> [] | Some m \<Rightarrow> bytes_at (hp_mem h) ptr m))
                (h\<lparr>hp_blocks := (p, n) # filter (\<lambda>(q, m). q \<noteq> ptr) (hp_blocks h)\<rparr>)))"

definition pb_free :: "nat \<Rightarrow> pb_heap \<Rightarrow> pb_heap" where
  "pb_free ptr h = h\<lparr>hp_blocks := filter (\<lambda>(q, m). q \<noteq> ptr) (hp_blocks h)\<rparr>"

definition too_deep :: "pb_heap \<Rightarrow> pb_heap" where
  "too_deep h = h\<lparr>hp_deep := True\<rparr>"

type_synonym ('st, 'a) dec = "('st istream \<times> pb_heap, 'a) action"

definition on_stream :: "('st istream, 'a) action \<Rightarrow> ('st, 'a) dec" where
  "on_stream f = (\<lambda>(s, h). case f s of (r, s) \<Rightarrow> (r, (s, h)))"

definition on_heap :: "(pb_heap \<Rightarrow> pb_heap) \<Rightarrow> ('st, unit) dec" where
  "on_heap f = (\<lambda>(s, h). (Some (), (s, f h)))"

definition dec_error :: "string \<Rightarrow> ('st, 'a) dec" where
  "dec_error msg = on_stream (is_return_error msg)"

text \<open>An action that depends on what is in memory.\<close>

definition with_heap :: "(pb_heap \<Rightarrow> ('st, 'a) dec) \<Rightarrow> ('st, 'a) dec" where
  "with_heap f = (\<lambda>(s, h). f h (s, h))"

text \<open>The application: tables of descriptors, the allocator, and the callbacks, which are called on
  streams of two kinds.\<close>

record 'st pb_denv =
  dn_fields :: "nat \<Rightarrow> pb_field list"
  dn_place :: "(nat \<times> nat) list \<Rightarrow> nat \<Rightarrow> nat"
  dn_decode :: "nat \<Rightarrow> pb_field \<Rightarrow> nat \<Rightarrow> ('st, unit) dec"
  dn_decode_buffer :: "nat \<Rightarrow> pb_field \<Rightarrow> nat \<Rightarrow> (byte list, unit) dec"
  dn_ext_decode :: "nat \<Rightarrow> nat \<Rightarrow> u32 \<Rightarrow> u32 \<Rightarrow> ('st, unit) dec"

definition allocate_field :: "'st pb_denv \<Rightarrow> nat \<Rightarrow> nat \<Rightarrow> nat \<Rightarrow> ('st, unit) dec" where
  "allocate_field env pData data_size array_size = with_heap (\<lambda>h.
     if data_size = 0 \<or> array_size = 0 then dec_error ''invalid size''
     else if (data_size \<ge> 2 ^ 32 \<or> array_size \<ge> 2 ^ 32) \<and> (size_mod - 1) div array_size < data_size
     then dec_error ''size too large''
     else (\<lambda>(s, h). case pb_realloc (dn_place env) (peek 8 h pData) (size_mul array_size data_size) h of
             (ptr, h) \<Rightarrow> if ptr = 0 then dec_error ''realloc failed'' (s, h)
                         else (Some (), (s, poke pData (le_bytes 8 ptr) h))))"

section \<open>The search for a field\<close>

text \<open>
  The loop ends when it is back where it started; it looks at no more fields than there are.
\<close>

fun iter_search :: "(pb_field \<Rightarrow> bool) \<Rightarrow> pb_field list \<Rightarrow> nat \<Rightarrow> pb_field_iter \<Rightarrow> bool \<times> pb_field_iter" where
  "iter_search wanted start 0 iter = (False, iter)"
| "iter_search wanted start (Suc m) iter =
     (if wanted (hd (it_pos iter)) then (True, iter)
      else (let iter = snd (pb_field_iter_next iter)
            in if it_pos iter \<noteq> start then iter_search wanted start m iter else (False, iter)))"

definition pb_field_iter_find :: "u32 \<Rightarrow> pb_field_iter \<Rightarrow> bool \<times> pb_field_iter" where
  "pb_field_iter_find tag iter =
     iter_search (\<lambda>f. pf_tag f = tag \<and> PB_LTYPE (pf_type f) \<noteq> PB_LTYPE_EXTENSION) (it_pos iter) (length (it_start iter)) iter"

definition find_extension_field :: "pb_field_iter \<Rightarrow> bool \<times> pb_field_iter" where
  "find_extension_field iter =
     iter_search (\<lambda>f. PB_LTYPE (pf_type f) = PB_LTYPE_EXTENSION) (it_pos iter) (length (it_start iter)) iter"

section \<open>Decoders of single values\<close>

definition pb_dec_bool :: "nat \<Rightarrow> ('st, unit) dec" where
  "pb_dec_bool dest = act_bind (on_stream pb_decode_varint32) (\<lambda>value. on_heap (poke dest [if value \<noteq> 0 then 1 else 0]))"

text \<open>An integer is stored in as many bytes as the field has, and then compared with what was to be stored.\<close>

definition store_int :: "nat \<Rightarrow> nat \<Rightarrow> bool \<Rightarrow> u64 \<Rightarrow> ('st, unit) dec" where
  "store_int data_size dest is_signed svalue =
     (if \<not> int_size data_size then dec_error ''invalid data_size''
      else
        (let clamped =
               (if data_size = 8 then svalue
                else if data_size = 4 then if is_signed then scast (ucast svalue :: u32) else ucast (ucast svalue :: u32)
                else if data_size = 2 then if is_signed then scast (ucast svalue :: u16) else ucast (ucast svalue :: u16)
                else if is_signed then scast (ucast svalue :: byte) else ucast (ucast svalue :: byte))
         in act_bind (on_heap (poke dest (le_bytes data_size (unat svalue)))) (\<lambda>_.
              if clamped \<noteq> svalue then dec_error ''integer too large'' else act_ret ())))"

definition pb_dec_varint :: "pb_field \<Rightarrow> nat \<Rightarrow> ('st, unit) dec" where
  "pb_dec_varint field dest =
     act_bind (on_stream pb_decode_varint) (\<lambda>value.
       store_int (pf_data_size field) dest True
         (if pf_data_size field = 8 then value else scast (ucast value :: u32)))"

definition pb_dec_uvarint :: "pb_field \<Rightarrow> nat \<Rightarrow> ('st, unit) dec" where
  "pb_dec_uvarint field dest =
     act_bind (on_stream pb_decode_varint) (\<lambda>value. store_int (pf_data_size field) dest False value)"

definition pb_dec_svarint :: "pb_field \<Rightarrow> nat \<Rightarrow> ('st, unit) dec" where
  "pb_dec_svarint field dest =
     act_bind (on_stream pb_decode_svarint) (\<lambda>value. store_int (pf_data_size field) dest True value)"

definition pb_dec_fixed32 :: "nat \<Rightarrow> ('st, unit) dec" where
  "pb_dec_fixed32 dest = act_bind (on_stream pb_decode_fixed32) (\<lambda>v. on_heap (poke dest (le_bytes 4 (unat v))))"

definition pb_dec_fixed64 :: "nat \<Rightarrow> ('st, unit) dec" where
  "pb_dec_fixed64 dest = act_bind (on_stream pb_decode_fixed64) (\<lambda>v. on_heap (poke dest (le_bytes 8 (unat v))))"

definition read_into :: "nat \<Rightarrow> nat \<Rightarrow> ('st, unit) dec" where
  "read_into dest n = act_bind (on_stream (pb_read True n)) (\<lambda>bytes. on_heap (poke dest bytes))"

definition pb_dec_bytes :: "'st pb_denv \<Rightarrow> pb_field \<Rightarrow> nat \<Rightarrow> ('st, unit) dec" where
  "pb_dec_bytes env field dest =
     act_bind (on_stream pb_decode_varint32) (\<lambda>v.
       let sz = unat v; alloc_size = PB_BYTES_ARRAY_T_ALLOCSIZE sz
       in if sz > PB_SIZE_MAX then dec_error ''bytes overflow''
          else if sz > alloc_size then dec_error ''size too large''
          else if PB_ATYPE (pf_type field) = PB_ATYPE_POINTER
          then act_bind (allocate_field env dest alloc_size 1) (\<lambda>_. with_heap (\<lambda>h.
                 let bdest = peek 8 h dest
                 in act_bind (on_heap (poke bdest (le_bytes 4 sz))) (\<lambda>_. read_into (bdest + 4) sz)))
          else if alloc_size > pf_data_size field then dec_error ''bytes overflow''
          else act_bind (on_heap (poke dest (le_bytes 4 sz))) (\<lambda>_. read_into (dest + 4) sz))"

text \<open>The terminating zero is written whether the read succeeds or not.\<close>

definition read_string :: "nat \<Rightarrow> nat \<Rightarrow> ('st, unit) dec" where
  "read_string dest n = (\<lambda>st. case read_into dest n st of (status, st) \<Rightarrow> (status, snd (on_heap (poke (dest + n) [0]) st)))"

definition pb_dec_string :: "'st pb_denv \<Rightarrow> pb_field \<Rightarrow> nat \<Rightarrow> ('st, unit) dec" where
  "pb_dec_string env field dest =
     act_bind (on_stream pb_decode_varint32) (\<lambda>v.
       let sz = unat v; alloc_size = unat (v + 1)
       in if alloc_size < sz then dec_error ''size too large''
          else if PB_ATYPE (pf_type field) = PB_ATYPE_POINTER
          then act_bind (allocate_field env dest alloc_size 1) (\<lambda>_. with_heap (\<lambda>h. read_string (peek 8 h dest) sz))
          else if alloc_size > pf_data_size field then dec_error ''string overflow''
          else read_string dest sz)"

definition pb_dec_fixed_length_bytes :: "pb_field \<Rightarrow> nat \<Rightarrow> ('st, unit) dec" where
  "pb_dec_fixed_length_bytes field dest =
     act_bind (on_stream pb_decode_varint32) (\<lambda>v.
       let sz = unat v
       in if sz > PB_SIZE_MAX then dec_error ''bytes overflow''
          else if sz = 0 then on_heap (poke dest (replicate (pf_data_size field) 0))
          else if sz \<noteq> pf_data_size field then dec_error ''incorrect fixed length bytes size''
          else read_into dest (pf_data_size field))"

end
