(* ===== verification/Pb_Defaults.thy ===== *)
theory Pb_Defaults
  imports Pb_Heap
begin

text \<open>
  Default values and release of messages in memory (\<open>pb_decode.c\<close>).
\<close>

section \<open>Defaults and release\<close>

text \<open>
  \<open>msg\<close> and \<open>rel\<close> are the same functions on the fields of a submessage. The bound on the length
  of a list of extensions is the one on the depth of submessages.
\<close>

function iter_fold :: "(pb_field_iter \<Rightarrow> 'h \<Rightarrow> 'h) \<Rightarrow> pb_field_iter \<Rightarrow> 'h \<Rightarrow> 'h" where
  "iter_fold body iter h =
     (case pb_field_iter_next iter of
        (True, iter') \<Rightarrow> iter_fold body iter' (body iter h)
      | (False, _) \<Rightarrow> body iter h)"
  by pat_completeness auto
termination
  by (relation "measure (\<lambda>(_, iter, _). length (it_pos iter))") (auto dest: iter_next_shorter [OF sym])

declare iter_fold.simps [simp del]

definition zeros :: "nat \<Rightarrow> byte list" where
  "zeros n = replicate n 0"

definition iter_from_extension :: "'st pb_denv \<Rightarrow> nat \<Rightarrow> pb_heap \<Rightarrow> pb_field_iter" where
  "iter_from_extension env extension h =
     (let fs = dn_fields env (peek 8 h (peek 8 h extension + 16)); dest = peek 8 h (extension + 8)
      in (snd (pb_field_iter_begin fs dest))
           \<lparr>it_pData := (if PB_ATYPE (pf_type (hd fs)) = PB_ATYPE_POINTER then extension + 8 else dest),
            it_pSize := extension + 24\<rparr>)"

definition default_static :: "'st pb_denv \<Rightarrow> (pb_field list \<Rightarrow> nat \<Rightarrow> pb_heap \<Rightarrow> pb_heap) \<Rightarrow> pb_field_iter \<Rightarrow> pb_heap \<Rightarrow> pb_heap" where
  "default_static env msg iter h =
     (let field = hd (it_pos iter); type = pf_type field;
          init_data = (\<lambda>h. if PB_LTYPE type = PB_LTYPE_SUBMESSAGE then msg (dn_fields env (pf_ptr field)) (it_pData iter) h
             else if pf_ptr field \<noteq> 0 then poke (it_pData iter) (bytes_at (hp_mem h) (pf_ptr field) (pf_data_size field)) h
             else poke (it_pData iter) (zeros (pf_data_size field)) h)
      in if PB_HTYPE type = PB_HTYPE_OPTIONAL \<and> it_pSize iter \<noteq> it_pData iter
         then init_data (poke (it_pSize iter) [0] h)
         else if PB_HTYPE type = PB_HTYPE_REPEATED \<or> PB_HTYPE type = PB_HTYPE_ONEOF
         then poke (it_pSize iter) (zeros 4) h
         else init_data h)"

definition default_pointer :: "pb_field_iter \<Rightarrow> pb_heap \<Rightarrow> pb_heap" where
  "default_pointer iter h =
     (let type = pf_type (hd (it_pos iter)); h = poke (it_pData iter) (zeros 8) h
      in if PB_HTYPE type = PB_HTYPE_REPEATED \<or> PB_HTYPE type = PB_HTYPE_ONEOF then poke (it_pSize iter) (zeros 4) h else h)"

fun pb_field_set_to_default ::
    "nat \<Rightarrow> 'st pb_denv \<Rightarrow> (pb_field list \<Rightarrow> nat \<Rightarrow> pb_heap \<Rightarrow> pb_heap) \<Rightarrow> pb_field_iter \<Rightarrow> pb_heap \<Rightarrow> pb_heap"
  and default_extensions ::
    "nat \<Rightarrow> 'st pb_denv \<Rightarrow> (pb_field list \<Rightarrow> nat \<Rightarrow> pb_heap \<Rightarrow> pb_heap) \<Rightarrow> nat \<Rightarrow> pb_heap \<Rightarrow> pb_heap" where
  "pb_field_set_to_default m env msg iter h =
     (let type = pf_type (hd (it_pos iter))
      in if PB_LTYPE type = PB_LTYPE_EXTENSION
         then (case m of 0 \<Rightarrow> too_deep h | Suc k \<Rightarrow> default_extensions k env msg (peek 8 h (it_pData iter)) h)
         else if PB_ATYPE type = PB_ATYPE_STATIC then default_static env msg iter h
         else if PB_ATYPE type = PB_ATYPE_POINTER then default_pointer iter h
         else h)"
| "default_extensions m env msg ext h =
     (if ext = 0 then h
      else case m of
        0 \<Rightarrow> too_deep h
      | Suc k \<Rightarrow>
          (let h = poke (ext + 24) [0] h;
               h = pb_field_set_to_default k env msg (iter_from_extension env ext h) h
           in default_extensions k env msg (peek 8 h (ext + 16)) h))"

declare pb_field_set_to_default.simps [simp del] default_extensions.simps [simp del]

fun pb_message_set_to_defaults :: "nat \<Rightarrow> 'st pb_denv \<Rightarrow> pb_field list \<Rightarrow> nat \<Rightarrow> pb_heap \<Rightarrow> pb_heap" where
  "pb_message_set_to_defaults 0 env fs dest_struct h = too_deep h"
| "pb_message_set_to_defaults (Suc n) env fs dest_struct h =
     (case pb_field_iter_begin fs dest_struct of
        (False, _) \<Rightarrow> h
      | (True, iter) \<Rightarrow> iter_fold (pb_field_set_to_default n env (pb_message_set_to_defaults n env)) iter h)"

definition release_submessages :: "'st pb_denv \<Rightarrow> (pb_field list \<Rightarrow> nat \<Rightarrow> pb_heap \<Rightarrow> pb_heap) \<Rightarrow> pb_field_iter \<Rightarrow> pb_heap \<Rightarrow> pb_heap" where
  "release_submessages env rel iter h =
     (let field = hd (it_pos iter); type = pf_type field; static = (PB_ATYPE type = PB_ATYPE_STATIC);
          pItem = (if PB_ATYPE type = PB_ATYPE_POINTER then peek 8 h (it_pData iter) else it_pData iter);
          stored = (if static \<and> it_pSize iter = it_pData iter then pf_array_size field else peek 4 h (it_pSize iter));
          count = (if PB_HTYPE type = PB_HTYPE_REPEATED
                   then if static \<and> stored > pf_array_size field then pf_array_size field else stored
                   else 1)
      in if pItem = 0 then h
         else fold (\<lambda>i. rel (dn_fields env (pf_ptr field)) (pItem + i * pf_data_size field)) [0..<count] h)"

definition release_pointer :: "pb_field_iter \<Rightarrow> pb_heap \<Rightarrow> pb_heap" where
  "release_pointer iter h =
     (let field = hd (it_pos iter); type = pf_type field; repeated = (PB_HTYPE type = PB_HTYPE_REPEATED);
          h = (if repeated \<and> (PB_LTYPE type = PB_LTYPE_STRING \<or> PB_LTYPE type = PB_LTYPE_BYTES)
               then fold (\<lambda>p h. poke p (zeros 8) (pb_free (peek 8 h p) h))
                      (map (\<lambda>i. peek 8 h (it_pData iter) + 8 * i) [0..<peek 4 h (it_pSize iter)]) h
               else h);
          h = (if repeated then poke (it_pSize iter) (zeros 4) h else h)
      in poke (it_pData iter) (zeros 8) (pb_free (peek 8 h (it_pData iter)) h))"

fun pb_release_single_field ::
    "nat \<Rightarrow> 'st pb_denv \<Rightarrow> (pb_field list \<Rightarrow> nat \<Rightarrow> pb_heap \<Rightarrow> pb_heap) \<Rightarrow> pb_field_iter \<Rightarrow> pb_heap \<Rightarrow> pb_heap"
  and release_extensions ::
    "nat \<Rightarrow> 'st pb_denv \<Rightarrow> (pb_field list \<Rightarrow> nat \<Rightarrow> pb_heap \<Rightarrow> pb_heap) \<Rightarrow> nat \<Rightarrow> pb_heap \<Rightarrow> pb_heap" where
  "pb_release_single_field m env rel iter h =
     (let field = hd (it_pos iter); type = pf_type field
      in if PB_HTYPE type = PB_HTYPE_ONEOF \<and> peek 4 h (it_pSize iter) \<noteq> unat (pf_tag field) then h
         else
           (let h = (if PB_LTYPE type = PB_LTYPE_EXTENSION
                     then (case m of 0 \<Rightarrow> too_deep h | Suc k \<Rightarrow> release_extensions k env rel (peek 8 h (it_pData iter)) h)
                     else if PB_LTYPE type = PB_LTYPE_SUBMESSAGE \<and> PB_ATYPE type \<noteq> PB_ATYPE_CALLBACK
                     then release_submessages env rel iter h
                     else h)
            in if PB_ATYPE type = PB_ATYPE_POINTER then release_pointer iter h else h))"
| "release_extensions m env rel ext h =
     (if ext = 0 then h
      else case m of
        0 \<Rightarrow> too_deep h
      | Suc k \<Rightarrow>
          (let h = pb_release_single_field k env rel (iter_from_extension env ext h) h
           in release_extensions k env rel (peek 8 h (ext + 16)) h))"

declare pb_release_single_field.simps [simp del] release_extensions.simps [simp del]

fun pb_release :: "nat \<Rightarrow> 'st pb_denv \<Rightarrow> pb_field list \<Rightarrow> nat \<Rightarrow> pb_heap \<Rightarrow> pb_heap" where
  "pb_release 0 env fs dest_struct h = too_deep h"
| "pb_release (Suc n) env fs dest_struct h =
     (if dest_struct = 0 then h
      else case pb_field_iter_begin fs dest_struct of
             (False, _) \<Rightarrow> h
           | (True, iter) \<Rightarrow> iter_fold (pb_release_single_field n env (pb_release n env)) iter h)"

end
