(* ===== verification/Pb_Fields.thy ===== *)
theory Pb_Fields
  imports Pb_Defaults
begin

text \<open>
  Decoding of fields with static and allocated storage (\<open>pb_decode.c\<close>).
\<close>

section \<open>Fields\<close>

text \<open>
  \<open>noinit\<close> and \<open>init\<close> are \<open>pb_decode_noinit\<close> and \<open>pb_decode\<close>, on the fields of a submessage.
\<close>

type_synonym 'st msg_decoder = "pb_field list \<Rightarrow> nat \<Rightarrow> ('st, unit) dec"

definition pb_dec_submessage :: "'st pb_denv \<Rightarrow> 'st msg_decoder \<Rightarrow> 'st msg_decoder \<Rightarrow> pb_field \<Rightarrow> nat \<Rightarrow> ('st, unit) dec" where
  "pb_dec_submessage env noinit init field dest =
     act_bind (on_stream pb_make_string_substream) (\<lambda>substream.
       if pf_ptr field = 0 then dec_error ''invalid field descriptor''
       else (\<lambda>(stream, h).
         case (if PB_HTYPE (pf_type field) = PB_HTYPE_REPEATED then init else noinit)
                (dn_fields env (pf_ptr field)) dest (substream, h) of
           (status, (substream, h)) \<Rightarrow>
             (case pb_close_string_substream substream stream of
                (None, stream) \<Rightarrow> (None, (stream, h))
              | (Some _, stream) \<Rightarrow> (status, (stream, h)))))"

definition PB_DECODERS :: "'st pb_denv \<Rightarrow> 'st msg_decoder \<Rightarrow> 'st msg_decoder \<Rightarrow> pb_field \<Rightarrow> nat \<Rightarrow> ('st, unit) dec" where
  "PB_DECODERS env noinit init field dest =
     (let lt = PB_LTYPE (pf_type field)
      in if lt = PB_LTYPE_BOOL then pb_dec_bool dest
         else if lt = PB_LTYPE_VARINT then pb_dec_varint field dest
         else if lt = PB_LTYPE_UVARINT then pb_dec_uvarint field dest
         else if lt = PB_LTYPE_SVARINT then pb_dec_svarint field dest
         else if lt = PB_LTYPE_FIXED32 then pb_dec_fixed32 dest
         else if lt = PB_LTYPE_FIXED64 then pb_dec_fixed64 dest
         else if lt = PB_LTYPE_BYTES then pb_dec_bytes env field dest
         else if lt = PB_LTYPE_STRING then pb_dec_string env field dest
         else if lt = PB_LTYPE_SUBMESSAGE then pb_dec_submessage env noinit init field dest
         else if lt = PB_LTYPE_FIXED_LENGTH_BYTES then pb_dec_fixed_length_bytes field dest
         else act_fail)"

text \<open>The product of two \<open>pb_size_t\<close> has 32 bits.\<close>

definition item_at :: "nat \<Rightarrow> pb_field \<Rightarrow> nat \<Rightarrow> nat" where
  "item_at base field i = base + pf_data_size field * i mod 2 ^ 32"

definition count_up :: "nat \<Rightarrow> pb_heap \<Rightarrow> pb_heap" where
  "count_up pSize h = poke pSize (le_bytes 4 (peek 4 h pSize + 1)) h"

text \<open>The loop over a packed array; each round reads at least one byte, so that \<open>m\<close> can be the number of bytes left.\<close>

fun static_items :: "nat \<Rightarrow> (pb_field \<Rightarrow> nat \<Rightarrow> ('st, unit) dec) \<Rightarrow> pb_field_iter \<Rightarrow> ('st, unit) dec" where
  "static_items m func iter (substream, h) =
     (let field = hd (it_pos iter); n = peek 4 h (it_pSize iter)
      in if \<not> (is_bytes_left substream > 0 \<and> n < pf_array_size field) then (Some (), (substream, h))
         else case m of
           0 \<Rightarrow> (None, (substream, too_deep h))
         | Suc k \<Rightarrow>
             (case func field (item_at (it_pData iter) field n) (substream, h) of
                (None, st) \<Rightarrow> (None, st)
              | (Some _, (substream, h)) \<Rightarrow> static_items k func iter (substream, count_up (it_pSize iter) h)))"

declare static_items.simps [simp del]

definition decode_static_field ::
    "nat \<Rightarrow> 'st pb_denv \<Rightarrow> 'st msg_decoder \<Rightarrow> 'st msg_decoder \<Rightarrow> u32 \<Rightarrow> pb_field_iter \<Rightarrow> ('st, unit) dec" where
  "decode_static_field n env noinit init wire_type iter =
     (let field = hd (it_pos iter); type = pf_type field; func = PB_DECODERS env noinit init
      in if PB_HTYPE type = PB_HTYPE_REQUIRED then func field (it_pData iter)
         else if PB_HTYPE type = PB_HTYPE_OPTIONAL
         then act_bind (if it_pSize iter \<noteq> it_pData iter then on_heap (poke (it_pSize iter) [1]) else act_ret ())
                (\<lambda>_. func field (it_pData iter))
         else if PB_HTYPE type = PB_HTYPE_REPEATED
         then
           (if wire_type = PB_WT_STRING \<and> PB_LTYPE type \<le> PB_LTYPE_LAST_PACKABLE
            then act_bind (on_stream pb_make_string_substream) (\<lambda>substream (stream, h).
              case static_items (is_bytes_left substream) func iter (substream, h) of
                (status, (substream, h)) \<Rightarrow>
                  if is_bytes_left substream \<noteq> 0 then dec_error ''array overflow'' (stream, h)
                  else (case pb_close_string_substream substream stream of
                          (None, stream) \<Rightarrow> (None, (stream, h))
                        | (Some _, stream) \<Rightarrow> (status, (stream, h))))
            else with_heap (\<lambda>h.
              let i = peek 4 h (it_pSize iter)
              in act_bind (on_heap (count_up (it_pSize iter))) (\<lambda>_.
                   if i \<ge> pf_array_size field then dec_error ''array overflow''
                   else func field (item_at (it_pData iter) field i))))
         else
           act_bind (on_heap (poke (it_pSize iter) (le_bytes 4 (unat (pf_tag field))))) (\<lambda>_.
           act_bind
             (if PB_LTYPE type = PB_LTYPE_SUBMESSAGE
              then on_heap (\<lambda>h. pb_message_set_to_defaults n env (dn_fields env (pf_ptr field)) (it_pData iter)
                     (poke (it_pData iter) (zeros (pf_data_size field)) h))
              else act_ret ()) (\<lambda>_.
           func field (it_pData iter))))"

definition initialize_pointer_field :: "nat \<Rightarrow> 'st pb_denv \<Rightarrow> nat \<Rightarrow> pb_field_iter \<Rightarrow> pb_heap \<Rightarrow> pb_heap" where
  "initialize_pointer_field n env pItem iter h =
     (let field = hd (it_pos iter); lt = PB_LTYPE (pf_type field)
      in if lt = PB_LTYPE_STRING \<or> lt = PB_LTYPE_BYTES then poke pItem (zeros 8) h
         else if lt = PB_LTYPE_SUBMESSAGE
         then pb_message_set_to_defaults n env (dn_fields env (pf_ptr field)) pItem (poke pItem (zeros (pf_data_size field)) h)
         else h)"

text \<open>The same loop for an array that grows; \<open>allocated\<close> is the local \<open>allocated_size\<close>. The first
  result is false where the message of the parent stream is set.\<close>

fun pointer_items ::
    "nat \<Rightarrow> nat \<Rightarrow> 'st pb_denv \<Rightarrow> (pb_field \<Rightarrow> nat \<Rightarrow> ('st, unit) dec) \<Rightarrow> pb_field_iter \<Rightarrow> nat \<Rightarrow> 'st istream \<times> pb_heap \<Rightarrow>
     bool \<times> unit option \<times> 'st istream \<times> pb_heap" where
  "pointer_items m n env func iter allocated (substream, h) =
     (let field = hd (it_pos iter); i = peek 4 h (it_pSize iter)
      in if is_bytes_left substream = 0 then (True, Some (), (substream, h))
         else if i = PB_SIZE_MAX then (False, None, (substream, h))
         else case m of
           0 \<Rightarrow> (True, None, (substream, too_deep h))
         | Suc k \<Rightarrow>
             (let remain = (is_bytes_left substream - 1) div pf_data_size field + 1;
                  wanted = (if remain < PB_SIZE_MAX - allocated then allocated + remain else allocated + 1)
              in case (if i + 1 > allocated then allocate_field env (it_pData iter) (pf_data_size field) wanted (substream, h)
                       else (Some (), (substream, h))) of
                   (None, st) \<Rightarrow> (True, None, st)
                 | (Some _, (substream, h)) \<Rightarrow>
                     (let pItem = item_at (peek 8 h (it_pData iter)) field i
                      in case func field pItem (substream, initialize_pointer_field n env pItem iter h) of
                           (None, st) \<Rightarrow> (True, None, st)
                         | (Some _, (substream, h)) \<Rightarrow>
                             pointer_items k n env func iter (if i + 1 > allocated then wanted else allocated)
                               (substream, count_up (it_pSize iter) h))))"

declare pointer_items.simps [simp del]

definition decode_pointer_field ::
    "nat \<Rightarrow> 'st pb_denv \<Rightarrow> 'st msg_decoder \<Rightarrow> 'st msg_decoder \<Rightarrow> u32 \<Rightarrow> pb_field_iter \<Rightarrow> ('st, unit) dec" where
  "decode_pointer_field n env noinit init wire_type iter =
     (let field = hd (it_pos iter); type = pf_type field; func = PB_DECODERS env noinit init; pData = it_pData iter;
          grow = (\<lambda>count next. act_bind (allocate_field env pData (pf_data_size field) count) (\<lambda>_. with_heap (\<lambda>h. next (peek 8 h pData))))
      in if PB_HTYPE type = PB_HTYPE_REQUIRED \<or> PB_HTYPE type = PB_HTYPE_OPTIONAL \<or> PB_HTYPE type = PB_HTYPE_ONEOF
         then
           act_bind (on_heap (\<lambda>h. if PB_LTYPE type = PB_LTYPE_SUBMESSAGE \<and> peek 8 h pData \<noteq> 0
             then pb_release_single_field n env (pb_release n env) iter h else h)) (\<lambda>_.
           act_bind (if PB_HTYPE type = PB_HTYPE_ONEOF then on_heap (poke (it_pSize iter) (le_bytes 4 (unat (pf_tag field))))
                     else act_ret ()) (\<lambda>_.
           if PB_LTYPE type = PB_LTYPE_STRING \<or> PB_LTYPE type = PB_LTYPE_BYTES then func field pData
           else grow 1 (\<lambda>p. act_bind (on_heap (initialize_pointer_field n env p iter)) (\<lambda>_. func field p))))
         else if wire_type = PB_WT_STRING \<and> PB_LTYPE type \<le> PB_LTYPE_LAST_PACKABLE
         then act_bind (on_stream pb_make_string_substream) (\<lambda>substream (stream, h).
           case pointer_items (is_bytes_left substream) n env func iter (peek 4 h (it_pSize iter)) (substream, h) of
             (quiet, status, (substream, h)) \<Rightarrow>
               (case pb_close_string_substream substream
                       (if quiet then stream else stream\<lparr>is_errmsg := Some ''too many array entries''\<rparr>) of
                  (None, stream) \<Rightarrow> (None, (stream, h))
                | (Some _, stream) \<Rightarrow> (status, (stream, h))))
         else with_heap (\<lambda>h.
           let i = peek 4 h (it_pSize iter)
           in if i = PB_SIZE_MAX then dec_error ''too many array entries''
              else grow (i + 1) (\<lambda>p.
                let pItem = item_at p field i
                in act_bind (on_heap (\<lambda>h. initialize_pointer_field n env pItem iter (count_up (it_pSize iter) h))) (\<lambda>_.
                     func field pItem))))"

end
