(* ===== verification/Pb_Decode_Message.thy ===== *)
theory Pb_Decode_Message
  imports Pb_Fields
begin

text \<open>
  Decoding of messages (\<open>pb_decode.c\<close>): callbacks, unions, extensions, and the loop over the fields of a message.
\<close>

section \<open>Callbacks and unions\<close>

fun callback_loop :: "nat \<Rightarrow> ('st, unit) dec \<Rightarrow> ('st, unit) dec" where
  "callback_loop 0 f (s, h) = (None, (s, too_deep h))"
| "callback_loop (Suc m) f (s, h) =
     (case f (s, h) of
        (None, st) \<Rightarrow> (None, st)
      | (Some _, (s, h)) \<Rightarrow> if is_bytes_left s \<noteq> 0 then callback_loop m f (s, h) else (Some (), (s, h)))"

text \<open>A callback that is given a string is called until it has read all of it.\<close>

definition decode_callback_field :: "'st pb_denv \<Rightarrow> u32 \<Rightarrow> pb_field_iter \<Rightarrow> ('st, unit) dec" where
  "decode_callback_field env wire_type iter =
     with_heap (\<lambda>h.
       let pCallback = it_pData iter; decode = peek 8 h pCallback; field = hd (it_pos iter)
       in if pCallback = 0 \<or> decode = 0 then on_stream (pb_skip_field wire_type)
          else if wire_type = PB_WT_STRING
          then act_bind (on_stream pb_make_string_substream) (\<lambda>substream (stream, h).
            case callback_loop (Suc (is_bytes_left substream)) (dn_decode env decode field (pCallback + 8)) (substream, h) of
              (None, (substream, h)) \<Rightarrow> dec_error ''callback failed'' (stream, h)
            | (Some _, (substream, h)) \<Rightarrow>
                (case pb_close_string_substream substream stream of
                   (None, stream) \<Rightarrow> (None, (stream, h))
                 | (Some _, stream) \<Rightarrow> (Some (), (stream, h))))
          else act_bind (on_stream (read_raw_value wire_type 10)) (\<lambda>buffer (stream, h).
            case dn_decode_buffer env decode field (pCallback + 8) (pb_istream_from_buffer buffer (length buffer), h) of
              (status, (substream, h)) \<Rightarrow> (status, (stream, h))))"

definition pb_release_union_field :: "nat \<Rightarrow> 'st pb_denv \<Rightarrow> pb_field_iter \<Rightarrow> ('st, pb_field_iter) dec" where
  "pb_release_union_field n env iter = with_heap (\<lambda>h.
     let old_tag = peek 4 h (it_pSize iter); new_tag = pf_tag (hd (it_pos iter))
     in if old_tag = 0 \<or> old_tag = unat new_tag then act_ret iter
        else (case pb_field_iter_find (of_nat old_tag) iter of
                (False, iter) \<Rightarrow> dec_error ''invalid union tag''
              | (True, iter) \<Rightarrow>
                  act_bind (on_heap (pb_release_single_field n env (pb_release n env) iter)) (\<lambda>_.
                    case pb_field_iter_find new_tag iter of
                      (False, iter) \<Rightarrow> dec_error ''iterator error''
                    | (True, iter) \<Rightarrow> act_ret iter)))"

text \<open>The result is the iterator, which the release of a union moves.\<close>

definition decode_field ::
    "nat \<Rightarrow> 'st pb_denv \<Rightarrow> 'st msg_decoder \<Rightarrow> 'st msg_decoder \<Rightarrow> u32 \<Rightarrow> pb_field_iter \<Rightarrow> ('st, pb_field_iter) dec" where
  "decode_field n env noinit init wire_type iter =
     act_bind (if PB_HTYPE (pf_type (hd (it_pos iter))) = PB_HTYPE_ONEOF then pb_release_union_field n env iter else act_ret iter) (\<lambda>iter.
     let atype = PB_ATYPE (pf_type (hd (it_pos iter)))
     in act_bind
          (if atype = PB_ATYPE_STATIC then decode_static_field n env noinit init wire_type iter
           else if atype = PB_ATYPE_POINTER then decode_pointer_field n env noinit init wire_type iter
           else if atype = PB_ATYPE_CALLBACK then decode_callback_field env wire_type iter
           else dec_error ''invalid field type'') (\<lambda>_. act_ret iter))"

section \<open>Extensions\<close>

definition default_extension_decoder ::
    "nat \<Rightarrow> 'st pb_denv \<Rightarrow> 'st msg_decoder \<Rightarrow> 'st msg_decoder \<Rightarrow> nat \<Rightarrow> u32 \<Rightarrow> u32 \<Rightarrow> ('st, unit) dec" where
  "default_extension_decoder n env noinit init extension tag wire_type = with_heap (\<lambda>h.
     if pf_tag (hd (dn_fields env (peek 8 h (peek 8 h extension + 16)))) \<noteq> tag then act_ret ()
     else act_bind (on_heap (poke (extension + 24) [1])) (\<lambda>_.
       act_bind (decode_field n env noinit init wire_type (iter_from_extension env extension h)) (\<lambda>_. act_ret ())))"

fun extension_loop ::
    "nat \<Rightarrow> nat \<Rightarrow> 'st pb_denv \<Rightarrow> 'st msg_decoder \<Rightarrow> 'st msg_decoder \<Rightarrow> nat \<Rightarrow> u32 \<Rightarrow> u32 \<Rightarrow> nat \<Rightarrow> ('st, unit) dec" where
  "extension_loop m n env noinit init pos tag wire_type extension (s, h) =
     (if \<not> (extension \<noteq> 0 \<and> pos = is_bytes_left s) then (Some (), (s, h))
      else case m of
        0 \<Rightarrow> (None, (s, too_deep h))
      | Suc k \<Rightarrow>
          (let decode = peek 8 h (peek 8 h extension)
           in case (if decode \<noteq> 0 then dn_ext_decode env decode extension tag wire_type (s, h)
                    else default_extension_decoder n env noinit init extension tag wire_type (s, h)) of
                (None, st) \<Rightarrow> (None, st)
              | (Some _, (s, h)) \<Rightarrow>
                  extension_loop k n env noinit init pos tag wire_type (peek 8 h (extension + 16)) (s, h)))"

declare extension_loop.simps [simp del]

definition decode_extension ::
    "nat \<Rightarrow> 'st pb_denv \<Rightarrow> 'st msg_decoder \<Rightarrow> 'st msg_decoder \<Rightarrow> u32 \<Rightarrow> u32 \<Rightarrow> pb_field_iter \<Rightarrow> ('st, unit) dec" where
  "decode_extension n env noinit init tag wire_type iter = (\<lambda>(s, h).
     extension_loop n n env noinit init (is_bytes_left s) tag wire_type (peek 8 h (it_pData iter)) (s, h))"

section \<open>Messages\<close>

definition PB_MAX_REQUIRED_FIELDS :: nat where
  "PB_MAX_REQUIRED_FIELDS = 64"

text \<open>
  The locals of \<open>pb_decode_noinit\<close>. The address of \<open>fixed_count_size\<close> is taken, so it is in memory,
  at \<open>local\<close>.
\<close>

record decode_state =
  ds_iter :: pb_field_iter
  ds_fields_seen :: "u32 list"
  ds_extension_range_start :: u32
  ds_fixed_count_field :: "pb_field list option"

definition fixed_count_wrong :: "nat \<Rightarrow> pb_field list option \<Rightarrow> pb_heap \<Rightarrow> bool" where
  "fixed_count_wrong local fixed h =
     (case fixed of None \<Rightarrow> False | Some fs \<Rightarrow> peek 4 h local \<noteq> pf_array_size (hd fs))"

definition unknown_field ::
    "nat \<Rightarrow> 'st pb_denv \<Rightarrow> 'st msg_decoder \<Rightarrow> 'st msg_decoder \<Rightarrow> u32 \<Rightarrow> u32 \<Rightarrow> decode_state \<Rightarrow> ('st, decode_state) dec" where
  "unknown_field n env noinit init tag wire_type ds =
     (let skip = (\<lambda>ds. act_bind (on_stream (pb_skip_field wire_type)) (\<lambda>_. act_ret ds))
      in if tag \<ge> ds_extension_range_start ds
         then
           (case find_extension_field (ds_iter ds) of
              (found, iter) \<Rightarrow>
                (let start = (if found then pf_tag (hd (it_pos iter)) else - 1);
                     ds = ds\<lparr>ds_iter := iter, ds_extension_range_start := start\<rparr>
                 in if tag \<ge> start
                    then (\<lambda>(s, h). act_bind (decode_extension n env noinit init tag wire_type iter) (\<lambda>_ (s', h).
                           if is_bytes_left s \<noteq> is_bytes_left s' then (Some ds, (s', h)) else skip ds (s', h)) (s, h))
                    else skip ds))
         else skip ds)"

definition known_field ::
    "nat \<Rightarrow> 'st pb_denv \<Rightarrow> 'st msg_decoder \<Rightarrow> 'st msg_decoder \<Rightarrow> nat \<Rightarrow> u32 \<Rightarrow> decode_state \<Rightarrow> ('st, decode_state) dec" where
  "known_field n env noinit init local wire_type ds = with_heap (\<lambda>h.
     let iter = ds_iter ds; type = pf_type (hd (it_pos iter)); i = it_required_field_index iter;
         fixed = (PB_HTYPE type = PB_HTYPE_REPEATED \<and> it_pSize iter = it_pData iter);
         new = (fixed \<and> ds_fixed_count_field ds \<noteq> Some (it_pos iter));
         iter = (if fixed then iter\<lparr>it_pSize := local\<rparr> else iter);
         seen = (if PB_HTYPE type = PB_HTYPE_REQUIRED \<and> i < PB_MAX_REQUIRED_FIELDS
                 then (ds_fields_seen ds)[i div 32 := ds_fields_seen ds ! (i div 32) OR push_bit (i mod 32) 1]
                 else ds_fields_seen ds)
     in if new \<and> fixed_count_wrong local (ds_fixed_count_field ds) h then dec_error ''wrong size for fixed count field''
        else act_bind (if new then on_heap (poke local (zeros 4)) else act_ret ()) (\<lambda>_.
          act_bind (decode_field n env noinit init wire_type iter) (\<lambda>iter.
            act_ret (ds\<lparr>ds_iter := iter, ds_fields_seen := seen,
              ds_fixed_count_field := (if new then Some (it_pos iter) else ds_fixed_count_field ds)\<rparr>))))"

text \<open>One round of the loop; the first result tells whether it is left.\<close>

definition decode_round ::
    "nat \<Rightarrow> 'st pb_denv \<Rightarrow> 'st msg_decoder \<Rightarrow> 'st msg_decoder \<Rightarrow> nat \<Rightarrow> decode_state \<Rightarrow> ('st, bool \<times> decode_state) dec" where
  "decode_round n env noinit init local ds = (\<lambda>(s, h).
     case pb_decode_tag s of
       ((None, eof), s) \<Rightarrow> if eof then (Some (True, ds), (s, h)) else (None, (s, h))
     | ((Some (wire_type, tag), _), s) \<Rightarrow>
         (case pb_field_iter_find tag (ds_iter ds) of
            (found, iter) \<Rightarrow>
              act_bind
                (if found then known_field n env noinit init local wire_type (ds\<lparr>ds_iter := iter\<rparr>)
                 else unknown_field n env noinit init tag wire_type (ds\<lparr>ds_iter := iter\<rparr>))
                (\<lambda>ds. act_ret (False, ds)) (s, h)))"

text \<open>Each round reads at least a tag, so that the number of bytes left bounds the number of rounds.\<close>

fun decode_loop ::
    "nat \<Rightarrow> nat \<Rightarrow> 'st pb_denv \<Rightarrow> 'st msg_decoder \<Rightarrow> 'st msg_decoder \<Rightarrow> nat \<Rightarrow> decode_state \<Rightarrow> ('st, decode_state) dec" where
  "decode_loop m n env noinit init local ds (s, h) =
     (if is_bytes_left s = 0 then (Some ds, (s, h))
      else case m of
        0 \<Rightarrow> (None, (s, too_deep h))
      | Suc k \<Rightarrow>
          (case decode_round n env noinit init local ds (s, h) of
             (None, st) \<Rightarrow> (None, st)
           | (Some (stop, ds), (s, h)) \<Rightarrow>
               if stop then (Some ds, (s, h)) else decode_loop k n env noinit init local ds (s, h)))"

declare decode_loop.simps [simp del]

text \<open>The number of required fields: that of the last field, and whether that one is required too.\<close>

function last_required :: "pb_field_iter \<Rightarrow> nat \<times> byte \<times> pb_field_iter" where
  "last_required iter =
     (case pb_field_iter_next iter of
        (True, iter') \<Rightarrow> last_required iter'
      | (False, iter') \<Rightarrow> (it_required_field_index iter, pf_type (hd (it_pos iter)), iter'))"
  by pat_completeness auto
termination
  by (relation "measure (\<lambda>iter. length (it_pos iter))") (auto dest: iter_next_shorter [OF sym])

declare last_required.simps [simp del]

definition req_field_count :: "pb_field_iter \<Rightarrow> nat" where
  "req_field_count iter =
     (case last_required iter of
        (n, last_type, iter) \<Rightarrow>
          min PB_MAX_REQUIRED_FIELDS
            (if PB_HTYPE last_type = PB_HTYPE_REQUIRED \<and> \<not> last_field (it_pos iter) then n + 1 else n))"

definition all_seen :: "nat \<Rightarrow> u32 list \<Rightarrow> bool" where
  "all_seen n fields_seen \<longleftrightarrow>
     (\<forall>i \<in> set [0..<n div 32]. fields_seen ! i = - 1) \<and>
     (n mod 32 \<noteq> 0 \<longrightarrow> fields_seen ! (n div 32) = drop_bit (32 - n mod 32) (- 1))"

definition decode_message ::
    "nat \<Rightarrow> 'st pb_denv \<Rightarrow> 'st msg_decoder \<Rightarrow> 'st msg_decoder \<Rightarrow> nat \<Rightarrow> pb_field list \<Rightarrow> nat \<Rightarrow> ('st, unit) dec" where
  "decode_message n env noinit init local fs dest_struct =
     act_bind (on_heap (poke local (zeros 4))) (\<lambda>_ (s, h).
     act_bind
       (decode_loop (is_bytes_left s) n env noinit init local
          \<lparr>ds_iter = snd (pb_field_iter_begin fs dest_struct), ds_fields_seen = [0, 0], ds_extension_range_start = 0,
           ds_fixed_count_field = None\<rparr>)
       (\<lambda>ds (s, h).
          if fixed_count_wrong local (ds_fixed_count_field ds) h then dec_error ''wrong size for fixed count field'' (s, h)
          else if \<not> all_seen (req_field_count (ds_iter ds)) (ds_fields_seen ds)
          then dec_error ''missing required field'' (s, h)
          else (Some (), (s, h))) (s, h))"

text \<open>\<open>pb_decode\<close> at one depth, from \<open>pb_decode_noinit\<close> at that depth.\<close>

definition decode_init :: "nat \<Rightarrow> 'st pb_denv \<Rightarrow> 'st msg_decoder \<Rightarrow> 'st msg_decoder" where
  "decode_init n env noinit fs dest_struct =
     act_bind (on_heap (pb_message_set_to_defaults n env fs dest_struct)) (\<lambda>_ st.
       case noinit fs dest_struct st of
         (None, (s, h)) \<Rightarrow> (None, (s, pb_release n env fs dest_struct h))
       | (Some _, st) \<Rightarrow> (Some (), st))"

fun pb_decode_noinit :: "nat \<Rightarrow> 'st pb_denv \<Rightarrow> (nat \<Rightarrow> nat) \<Rightarrow> 'st msg_decoder" where
  "pb_decode_noinit 0 env local fs dest_struct = (\<lambda>(s, h). (None, (s, too_deep h)))"
| "pb_decode_noinit (Suc n) env local fs dest_struct =
     decode_message n env (pb_decode_noinit n env local) (decode_init n env (pb_decode_noinit n env local)) (local n) fs dest_struct"

definition pb_decode :: "nat \<Rightarrow> 'st pb_denv \<Rightarrow> (nat \<Rightarrow> nat) \<Rightarrow> 'st msg_decoder" where
  "pb_decode n env local = decode_init n env (pb_decode_noinit n env local)"

definition decode_delimited :: "'st msg_decoder \<Rightarrow> 'st msg_decoder" where
  "decode_delimited decode fs dest_struct =
     act_bind (on_stream pb_make_string_substream) (\<lambda>substream (stream, h).
       case decode fs dest_struct (substream, h) of
         (status, (substream, h)) \<Rightarrow>
           (case pb_close_string_substream substream stream of
              (None, stream) \<Rightarrow> (None, (stream, h))
            | (Some _, stream) \<Rightarrow> (status, (stream, h))))"

definition pb_decode_delimited_noinit :: "nat \<Rightarrow> 'st pb_denv \<Rightarrow> (nat \<Rightarrow> nat) \<Rightarrow> 'st msg_decoder" where
  "pb_decode_delimited_noinit n env local = decode_delimited (pb_decode_noinit n env local)"

definition pb_decode_delimited :: "nat \<Rightarrow> 'st pb_denv \<Rightarrow> (nat \<Rightarrow> nat) \<Rightarrow> 'st msg_decoder" where
  "pb_decode_delimited n env local = decode_delimited (pb_decode n env local)"

definition pb_decode_nullterminated :: "nat \<Rightarrow> 'st pb_denv \<Rightarrow> (nat \<Rightarrow> nat) \<Rightarrow> 'st msg_decoder" where
  "pb_decode_nullterminated = pb_decode"

end
