(* ===== verification/Pb_Refine.thy ===== *)
theory Pb_Refine
  imports Pb_Message
begin

text \<open>
  What \<open>pb_encode\<close> writes: a reference encoding of messages, values and fields apart from streams, and the
  proof that the encoder emits it, whether it only counts bytes or writes them to a sink.
\<close>

section \<open>What a message is on the wire\<close>

definition wire_type :: "byte \<Rightarrow> u32 option" where
  "wire_type lt =
     (if lt \<le> PB_LTYPE_SVARINT then Some PB_WT_VARINT
      else if lt = PB_LTYPE_FIXED32 then Some PB_WT_32BIT
      else if lt = PB_LTYPE_FIXED64 then Some PB_WT_64BIT
      else if lt \<le> PB_LTYPE_SUBMESSAGE \<or> lt = PB_LTYPE_FIXED_LENGTH_BYTES then Some PB_WT_STRING
      else None)"

definition tag_bytes :: "u32 \<Rightarrow> u32 \<Rightarrow> byte list" where
  "tag_bytes wt tag = leb (unat tag * 8 + unat wt)"

definition delimited :: "byte list \<Rightarrow> byte list" where
  "delimited w = leb (length w) @ w"

text \<open>The bytes of one value; \<open>sub\<close> is the encoding of the submessages.\<close>

definition ref_value ::
    "(nat \<Rightarrow> pb_field list) \<Rightarrow> (pb_field list \<Rightarrow> nat \<Rightarrow> byte list option) \<Rightarrow> memory \<Rightarrow> pb_field \<Rightarrow> nat \<Rightarrow> byte list option" where
  "ref_value table sub mem field src =
     (let lt = PB_LTYPE (pf_type field); sz = pf_data_size field
      in if lt = PB_LTYPE_BOOL then Some (leb (if mem src = 0 then 0 else 1))
         else if lt = PB_LTYPE_VARINT then if int_size sz then Some (leb (unat (load_signed sz mem src))) else None
         else if lt = PB_LTYPE_UVARINT then if int_size sz then Some (leb (load sz mem src)) else None
         else if lt = PB_LTYPE_SVARINT then if int_size sz then Some (leb (zigzag (sint (load_signed sz mem src)))) else None
         else if lt = PB_LTYPE_FIXED32 then Some (bytes_at mem src 4)
         else if lt = PB_LTYPE_FIXED64 then Some (bytes_at mem src 8)
         else if lt = PB_LTYPE_BYTES
         then if src = 0 then Some (delimited [])
              else if PB_ATYPE (pf_type field) = PB_ATYPE_STATIC \<and> load 4 mem src + 4 > sz then None
              else Some (delimited (bytes_at mem (src + 4) (load 4 mem src)))
         else if lt = PB_LTYPE_STRING
         then Some (delimited (if src = 0 then [] else bytes_at mem src
                (string_size mem src (if PB_ATYPE (pf_type field) = PB_ATYPE_POINTER then size_mod - 1 else sz))))
         else if lt = PB_LTYPE_SUBMESSAGE
         then if pf_ptr field = 0 then None else map_option delimited (sub (table (pf_ptr field)) src)
         else if lt = PB_LTYPE_FIXED_LENGTH_BYTES then Some (delimited (bytes_at mem src sz))
         else None)"

text \<open>The addresses of the values of a field: none, one, or those of an array.\<close>

definition field_items :: "nat \<Rightarrow> 'st pb_env \<Rightarrow> memory \<Rightarrow> pb_field \<Rightarrow> nat \<Rightarrow> nat list option" where
  "field_items n env mem field pData =
     (let htype = PB_HTYPE (pf_type field); pointer = (PB_ATYPE (pf_type field) = PB_ATYPE_POINTER);
          data = (if pointer then load 8 mem pData else pData);
          pSize = ptr_add pData (pf_size_offset field); counted = (pf_size_offset field \<noteq> 0)
      in if htype = PB_HTYPE_REQUIRED then if data = 0 then None else Some [data]
         else if htype = PB_HTYPE_OPTIONAL
         then (case if counted then Some (mem pSize = 0) else pb_check_proto3_default_value n env mem field pData of
                 None \<Rightarrow> None
               | Some absent \<Rightarrow>
                   Some (if (if pointer \<and> \<not> counted then data = 0 else absent) then [] else [data]))
         else if htype = PB_HTYPE_REPEATED
         then (let count = (if counted then load 4 mem pSize else pf_array_size field)
               in if count > 0 \<and> \<not> pointer \<and> count > pf_array_size field then None
                  else Some (map (\<lambda>i. data + i * pf_data_size field) [0..<count]))
         else Some (if load 4 mem pSize = unat (pf_tag field) then [data] else []))"

definition array_of_pointers :: "pb_field \<Rightarrow> bool" where
  "array_of_pointers field \<longleftrightarrow> PB_HTYPE (pf_type field) = PB_HTYPE_REPEATED \<and>
     PB_ATYPE (pf_type field) = PB_ATYPE_POINTER \<and>
     (PB_LTYPE (pf_type field) = PB_LTYPE_STRING \<or> PB_LTYPE (pf_type field) = PB_LTYPE_BYTES)"

definition packed :: "pb_field \<Rightarrow> bool" where
  "packed field \<longleftrightarrow> PB_HTYPE (pf_type field) = PB_HTYPE_REPEATED \<and> PB_LTYPE (pf_type field) \<le> PB_LTYPE_LAST_PACKABLE"

definition ref_field ::
    "nat \<Rightarrow> 'st pb_env \<Rightarrow> (pb_field list \<Rightarrow> nat \<Rightarrow> byte list option) \<Rightarrow> memory \<Rightarrow> pb_field \<Rightarrow> nat \<Rightarrow> byte list option" where
  "ref_field n env sub mem field pData =
     (case field_items n env mem field pData of
        None \<Rightarrow> None
      | Some ps \<Rightarrow>
          (case those (map (\<lambda>p. ref_value (env_fields env) sub mem field (if array_of_pointers field then load 8 mem p else p)) ps) of
             None \<Rightarrow> None
           | Some vs \<Rightarrow>
               if vs = [] then Some []
               else if packed field then Some (tag_bytes PB_WT_STRING (pf_tag field) @ delimited (concat vs))
               else (case wire_type (PB_LTYPE (pf_type field)) of
                       None \<Rightarrow> None
                     | Some wt \<Rightarrow> Some (concat (map ((@) (tag_bytes wt (pf_tag field))) vs)))))"

text \<open>The encodings of callbacks and extensions are parameters.\<close>

function iter_list :: "pb_field_iter \<Rightarrow> (pb_field \<times> nat) list" where
  "iter_list iter = (hd (it_pos iter), it_pData iter) #
     (case pb_field_iter_next iter of (True, iter') \<Rightarrow> iter_list iter' | (False, _) \<Rightarrow> [])"
  by pat_completeness auto
termination
  by (relation "measure (\<lambda>iter. length (it_pos iter))") (auto dest: iter_next_shorter [OF sym])

declare iter_list.simps [simp del]

record refs =
  ref_callback :: "nat \<Rightarrow> pb_field \<Rightarrow> nat \<Rightarrow> byte list"
  ref_extension :: "nat \<Rightarrow> nat \<Rightarrow> byte list"

definition ref_any ::
    "nat \<Rightarrow> 'st pb_env \<Rightarrow> refs \<Rightarrow> (pb_field list \<Rightarrow> nat \<Rightarrow> byte list option) \<Rightarrow> memory \<Rightarrow> pb_field \<Rightarrow> nat \<Rightarrow> byte list option" where
  "ref_any n env cbs sub mem field pData =
     (let atype = PB_ATYPE (pf_type field)
      in if atype = PB_ATYPE_STATIC \<or> atype = PB_ATYPE_POINTER then ref_field n env sub mem field pData
         else if atype = PB_ATYPE_CALLBACK
         then Some (if load 8 mem pData = 0 then [] else ref_callback cbs (load 8 mem pData) field (pData + 8))
         else None)"

fun ref_extensions ::
    "nat \<Rightarrow> nat \<Rightarrow> 'st pb_env \<Rightarrow> refs \<Rightarrow> (pb_field list \<Rightarrow> nat \<Rightarrow> byte list option) \<Rightarrow> memory \<Rightarrow> nat \<Rightarrow> byte list list option" where
  "ref_extensions m n env cbs sub mem extension =
     (if extension = 0 then Some []
      else if m = 0 then None
      else
        (let type = load 8 mem extension; field = hd (env_fields env (load 8 mem (type + 16)));
             dest = (if PB_ATYPE (pf_type field) = PB_ATYPE_POINTER then extension + 8 else load 8 mem (extension + 8))
         in case (if load 8 mem (type + 8) \<noteq> 0 then Some (ref_extension cbs (load 8 mem (type + 8)) extension)
                  else ref_any n env cbs sub mem field dest) of
              None \<Rightarrow> None
            | Some w \<Rightarrow> map_option ((#) w) (ref_extensions (m - 1) n env cbs sub mem (load 8 mem (extension + 16)))))"

declare ref_extensions.simps [simp del]

definition ref_entry ::
    "nat \<Rightarrow> 'st pb_env \<Rightarrow> refs \<Rightarrow> (pb_field list \<Rightarrow> nat \<Rightarrow> byte list option) \<Rightarrow> memory \<Rightarrow> pb_field \<times> nat \<Rightarrow> byte list option" where
  "ref_entry n env cbs sub mem = (\<lambda>(field, pData).
     if PB_LTYPE (pf_type field) = PB_LTYPE_EXTENSION
     then map_option concat (ref_extensions n n env cbs sub mem (load 8 mem pData))
     else ref_any n env cbs sub mem field pData)"

fun ref_message :: "nat \<Rightarrow> 'st pb_env \<Rightarrow> refs \<Rightarrow> memory \<Rightarrow> pb_field list \<Rightarrow> nat \<Rightarrow> byte list option" where
  "ref_message 0 env cbs mem fs src = None"
| "ref_message (Suc n) env cbs mem fs src =
     (case pb_field_iter_begin fs src of
        (False, _) \<Rightarrow> Some []
      | (True, iter) \<Rightarrow>
          map_option concat (those (map (ref_entry n env cbs (ref_message n env cbs mem) mem) (iter_list iter))))"

section \<open>The encoder emits the reference encoding\<close>

lemmas lt_defs = PB_LTYPE_BOOL_def PB_LTYPE_VARINT_def PB_LTYPE_UVARINT_def PB_LTYPE_SVARINT_def PB_LTYPE_FIXED32_def
  PB_LTYPE_FIXED64_def PB_LTYPE_LAST_PACKABLE_def PB_LTYPE_BYTES_def PB_LTYPE_STRING_def PB_LTYPE_SUBMESSAGE_def
  PB_LTYPE_EXTENSION_def PB_LTYPE_FIXED_LENGTH_BYTES_def

lemmas wt_defs = PB_WT_VARINT_def PB_WT_64BIT_def PB_WT_STRING_def PB_WT_32BIT_def

lemma byte_le_3: "(b :: byte) \<le> 3 \<longleftrightarrow> b = 0 \<or> b = 1 \<or> b = 2 \<or> b = 3"
  by (auto simp: word_le_nat_alt word_unat_eq_iff)

lemma byte_le_8: "(b :: byte) \<le> 8 \<longleftrightarrow> b = 0 \<or> b = 1 \<or> b = 2 \<or> b = 3 \<or> b = 4 \<or> b = 5 \<or> b = 6 \<or> b = 7 \<or> b = 8"
  by (auto simp: word_le_nat_alt word_unat_eq_iff)

lemma byte_le_5: "(b :: byte) \<le> 5 \<longleftrightarrow> b = 0 \<or> b = 1 \<or> b = 2 \<or> b = 3 \<or> b = 4 \<or> b = 5"
  by (auto simp: word_le_nat_alt word_unat_eq_iff)

lemma length_bytes_at [simp]: "length (bytes_at mem p n) = n"
  by (simp add: bytes_at_def)

lemma load_less: "load n mem p < 256 ^ n"
  using le_val_less [of "bytes_at mem p n"] by (simp add: load_def)

lemma le_bytes_load: "le_bytes n (load n mem p) = bytes_at mem p n"
  using be_bytes_be_val [of "rev (bytes_at mem p n)"] by (simp add: le_bytes_def load_def le_val_def)

lemma load_1: "load 1 mem p = unat (mem p)"
  by (simp add: load_def bytes_at_def le_val_def)

lemma load_word:
  assumes "8 * n \<le> LENGTH('a)"
  shows "unat (of_nat (load n mem p) :: 'a::len word) = load n mem p"
proof -
  have "load n mem p < 2 ^ (8 * n)" using load_less [of n mem p] by (simp add: power_mult)
  also have "(2 :: nat) ^ (8 * n) \<le> 2 ^ LENGTH('a)" using assms by (rule power_increasing) simp
  finally show ?thesis by (simp add: unat_of_nat)
qed

lemma int_size_le: "int_size n \<Longrightarrow> n \<le> 8"
  by (auto simp: int_size_def)

lemma those_map: "those (map r ps) = Some vs \<Longrightarrow> those (map (\<lambda>p. map_option g (r p)) ps) = Some (map g vs)"
  by (induction ps arbitrary: vs) (auto split: option.splits)

lemma those_Nil: "those (map r ps) = Some vs \<Longrightarrow> vs = [] \<longleftrightarrow> ps = []"
  by (cases ps) (auto split: option.splits)

lemma those_all: "those (map r ps) = Some vs \<Longrightarrow> v \<in> set vs \<Longrightarrow> \<exists>p \<in> set ps. r p = Some v"
  by (induction ps arbitrary: vs) (auto split: option.splits)

lemma those_length: "those (map r ps) = Some vs \<Longrightarrow> length vs = length ps"
  by (induction ps arbitrary: vs) (auto split: option.splits)

lemma length_concat_const: "(\<And>v. v \<in> set vs \<Longrightarrow> length v = n) \<Longrightarrow> length (concat vs) = n * length vs"
  by (induction vs) auto

text \<open>The part of \<open>ref_field\<close> behind the list of the items.\<close>

definition ref_items :: "(nat \<Rightarrow> byte list option) \<Rightarrow> pb_field \<Rightarrow> nat list \<Rightarrow> byte list option" where
  "ref_items r field ps =
     (case those (map r ps) of
        None \<Rightarrow> None
      | Some vs \<Rightarrow>
          if vs = [] then Some []
          else if packed field then Some (tag_bytes PB_WT_STRING (pf_tag field) @ delimited (concat vs))
          else (case wire_type (PB_LTYPE (pf_type field)) of
                  None \<Rightarrow> None
                | Some wt \<Rightarrow> Some (concat (map ((@) (tag_bytes wt (pf_tag field))) vs))))"

lemma ref_field_items:
  "ref_field n env sub mem field pData = Option.bind (field_items n env mem field pData)
     (ref_items (\<lambda>p. ref_value (env_fields env) sub mem field (if array_of_pointers field then load 8 mem p else p)) field)"
  by (simp add: ref_field_def ref_items_def split: option.splits)

lemma htype_cases:
  obtains "PB_HTYPE t = PB_HTYPE_REQUIRED" | "PB_HTYPE t = PB_HTYPE_OPTIONAL"
    | "PB_HTYPE t = PB_HTYPE_REPEATED" | "PB_HTYPE t = PB_HTYPE_ONEOF"
proof -
  define q where "q = drop_bit 4 t AND 3"
  have t: "t AND 0x30 = push_bit 4 q"
  proof (rule bit_word_eqI)
    fix n assume "n < LENGTH(8)"
    then have "n = 0 \<or> n = 1 \<or> n = 2 \<or> n = 3 \<or> n = 4 \<or> n = 5 \<or> n = 6 \<or> n = 7" by auto
    then show "bit (t AND 0x30) n = bit (push_bit 4 q) n"
      unfolding q_def by (elim disjE) (simp_all add: bit_simps)
  qed
  have "q \<le> 3" by (simp add: q_def word_and_le1)
  then consider "q = 0" | "q = 1" | "q = 2" | "q = 3" unfolding byte_le_3 by blast
  then show ?thesis
    using that by cases (simp_all add: t PB_HTYPE_def PB_HTYPE_REQUIRED_def PB_HTYPE_OPTIONAL_def PB_HTYPE_REPEATED_def PB_HTYPE_ONEOF_def)
qed

lemmas ht_defs = PB_HTYPE_REQUIRED_def PB_HTYPE_OPTIONAL_def PB_HTYPE_REPEATED_def PB_HTYPE_ONEOF_def

context sink
begin

definition encodes :: "('st ostream, unit) action \<Rightarrow> byte list option \<Rightarrow> bool" where
  "encodes f r \<longleftrightarrow> (\<forall>w. r = Some w \<and> length w < 2 ^ 63 \<longrightarrow> emits f w)"

lemma encodesD: "encodes f (Some w) \<Longrightarrow> length w < 2 ^ 63 \<Longrightarrow> emits f w"
  by (simp add: encodes_def)

lemma encodes_None [simp]: "encodes f None"
  by (simp add: encodes_def)

lemma emits_encodes: "emits f w \<Longrightarrow> encodes f (Some w)"
  by (simp add: encodes_def)

lemma emits_tag_for_field:
  assumes "wire_type (PB_LTYPE (pf_type field)) = Some wt"
  shows "emits (pb_encode_tag_for_field field) (tag_bytes wt (pf_tag field))"
proof -
  have "unat wt < 8" using assms by (auto simp: wire_type_def wt_defs split: if_splits)
  from emits_tag [OF this, of "pf_tag field"]
  have "emits (pb_encode_tag wt (pf_tag field)) (tag_bytes wt (pf_tag field))" by (simp add: tag_bytes_def)
  moreover have "pb_encode_tag_for_field field = (pb_encode_tag wt (pf_tag field) :: ('st ostream, unit) action)"
    using assms unfolding pb_encode_tag_for_field_def wire_type_def Let_def lt_defs byte_le_3 byte_le_8
    by (auto split: if_splits)
  ultimately show ?thesis by simp
qed

lemma emits_delimited: "n = length w \<Longrightarrow> n < 2 ^ 63 \<Longrightarrow> emits (pb_encode_string w n) (delimited w)"
  using emits_string [of w] by (simp add: delimited_def size_mod_def)

lemma encodes_delimited: "n = length w \<Longrightarrow> encodes (pb_encode_string w n) (Some (delimited w))"
  unfolding encodes_def using emits_delimited [of n w] by (auto simp: delimited_def)

lemma encodes_value:
  assumes sub: "\<And>fs src. encodes (enc fs src) (sub fs src)"
  shows "encodes (PB_ENCODERS env enc mem (PB_LTYPE (pf_type field)) field src) (ref_value (env_fields env) sub mem field src)"
proof -
  let ?lt = "PB_LTYPE (pf_type field)" and ?sz = "pf_data_size field"
  consider "?lt = PB_LTYPE_BOOL" | "?lt = PB_LTYPE_VARINT" | "?lt = PB_LTYPE_UVARINT" | "?lt = PB_LTYPE_SVARINT"
    | "?lt = PB_LTYPE_FIXED32" | "?lt = PB_LTYPE_FIXED64" | "?lt = PB_LTYPE_BYTES" | "?lt = PB_LTYPE_STRING"
    | "?lt = PB_LTYPE_SUBMESSAGE" | "?lt = PB_LTYPE_FIXED_LENGTH_BYTES"
    | "?lt \<notin> {PB_LTYPE_BOOL, PB_LTYPE_VARINT, PB_LTYPE_UVARINT, PB_LTYPE_SVARINT, PB_LTYPE_FIXED32, PB_LTYPE_FIXED64,
        PB_LTYPE_BYTES, PB_LTYPE_STRING, PB_LTYPE_SUBMESSAGE, PB_LTYPE_FIXED_LENGTH_BYTES}"
    by blast
  then show ?thesis
  proof cases
    case 1
    show ?thesis
      by (simp add: 1 PB_ENCODERS_def ref_value_def pb_enc_bool_def safe_read_bool_def emits_encodes emits_leb)
  next
    case 2
    then show ?thesis
      by (simp add: PB_ENCODERS_def ref_value_def lt_defs pb_enc_varint_def emits_encodes emits_varint)
  next
    case 3
    then show ?thesis
      by (simp add: PB_ENCODERS_def ref_value_def lt_defs pb_enc_uvarint_def emits_encodes emits_leb load_word int_size_le)
  next
    case 4
    then show ?thesis
      by (simp add: PB_ENCODERS_def ref_value_def lt_defs pb_enc_svarint_def emits_encodes emits_svarint)
  next
    case 5
    then show ?thesis
      using emits_fixed32 [of "of_nat (load 4 mem src)"]
      by (simp add: PB_ENCODERS_def ref_value_def lt_defs pb_enc_fixed32_def emits_encodes load_word le_bytes_load)
  next
    case 6
    then show ?thesis
      using emits_fixed64 [of "of_nat (load 8 mem src)"]
      by (simp add: PB_ENCODERS_def ref_value_def lt_defs pb_enc_fixed64_def emits_encodes load_word le_bytes_load)
  next
    case 7
    then show ?thesis
      using encodes_delimited [of 0 "[]"] encodes_delimited [of _ "bytes_at mem (src + 4) (load 4 mem src)"]
      by (simp add: PB_ENCODERS_def ref_value_def lt_defs pb_enc_bytes_def Let_def PB_BYTES_ARRAY_T_ALLOCSIZE_def)
  next
    case 8
    then show ?thesis
      by (simp add: PB_ENCODERS_def ref_value_def lt_defs pb_enc_string_def Let_def encodes_delimited bytes_at_def)
  next
    case 9
    have "encodes (pb_encode_submessage (env_null env) (enc fs src)) (map_option delimited (sub fs src))" for fs
      using sub [of fs src] by (cases "sub fs src") (auto simp: encodes_def delimited_def intro!: emits_submessage)
    then show ?thesis using 9
      by (simp add: PB_ENCODERS_def ref_value_def lt_defs pb_enc_submessage_def)
  next
    case 10
    then show ?thesis
      by (simp add: PB_ENCODERS_def ref_value_def lt_defs pb_enc_fixed_length_bytes_def encodes_delimited)
  next
    case 11
    then show ?thesis by (simp add: ref_value_def)
  qed
qed

text \<open>Sequences and packed arrays.\<close>

lemma emits_each: "(\<And>x. x \<in> set xs \<Longrightarrow> emits (f x) (w x)) \<Longrightarrow> emits (act_each f xs) (concat (map w xs))"
  by (induction xs) (simp_all add: emits_ret emits_bind)

lemma emits_sized:
  assumes "emits f w" and "n = length w"
  shows "emits (\<lambda>s. if os_callback s = None then pb_write [] n s else f s) w"
  using assms unfolding emits_def by (auto simp: pb_write_def open_sink_def)

lemma emits_items:
  assumes "those (map r ps) = Some vs" and "length (concat vs) < 2 ^ 63" and "\<And>p. p \<in> set ps \<Longrightarrow> encodes (f p) (r p)"
  shows "emits (act_each f ps) (concat vs)"
  using assms
proof (induction ps arbitrary: vs)
  case (Cons p ps)
  then obtain v ws where v: "r p = Some v" "those (map r ps) = Some ws" "vs = v # ws"
    by (auto split: option.splits)
  have "emits (f p) v" using Cons.prems(3) [of p] Cons.prems(2) v by (intro encodesD) simp_all
  moreover have "emits (act_each f ps) (concat ws)" using Cons.IH [OF v(2)] Cons.prems(2,3) v(3) by simp
  ultimately show ?case using emits_bind v(3) by simp
qed (simp add: emits_ret)

lemma encodes_tagged:
  assumes "wire_type (PB_LTYPE (pf_type field)) = Some wt" and "encodes f r"
  shows "encodes (act_bind (pb_encode_tag_for_field field) (\<lambda>_. f)) (map_option ((@) (tag_bytes wt (pf_tag field))) r)"
  using assms(2) emits_bind [OF emits_tag_for_field [OF assms(1)]] by (auto simp: encodes_def)

lemma encodes_unpacked:
  assumes f: "\<And>p. encodes (f p) (r p)" and "\<not> packed field"
  shows "encodes (act_each (\<lambda>p. act_bind (pb_encode_tag_for_field field) (\<lambda>_. f p)) ps) (ref_items r field ps)"
  unfolding encodes_def
proof (intro allI impI, elim conjE)
  fix w assume w: "ref_items r field ps = Some w" "length w < 2 ^ 63"
  obtain vs where vs: "those (map r ps) = Some vs" using w(1) by (auto simp: ref_items_def split: option.splits)
  show "emits (act_each (\<lambda>p. act_bind (pb_encode_tag_for_field field) (\<lambda>_. f p)) ps) w"
  proof (cases "ps = []")
    case True
    then show ?thesis using w(1) by (simp add: ref_items_def emits_ret)
  next
    case False
    then obtain wt where wt: "wire_type (PB_LTYPE (pf_type field)) = Some wt"
        "w = concat (map ((@) (tag_bytes wt (pf_tag field))) vs)"
      using w(1) vs assms(2) those_Nil [OF vs] by (auto simp: ref_items_def split: option.splits)
    show ?thesis unfolding wt(2)
    proof (rule emits_items [OF those_map [OF vs]])
      show "length (concat (map ((@) (tag_bytes wt (pf_tag field))) vs)) < 2 ^ 63" using w(2) wt(2) by simp
    qed (rule encodes_tagged [OF wt(1) f])
  qed
qed

lemma encodes_array:
  assumes func: "\<And>p. encodes (func field p) (r p)"
    and fixed: "\<And>p v. r p = Some v \<Longrightarrow> PB_LTYPE (pf_type field) = PB_LTYPE_FIXED32 \<Longrightarrow> length v = 4"
      "\<And>p v. r p = Some v \<Longrightarrow> PB_LTYPE (pf_type field) = PB_LTYPE_FIXED64 \<Longrightarrow> length v = 8"
    and rep: "PB_HTYPE (pf_type field) = PB_HTYPE_REPEATED"
    and ok: "count = 0 \<or> PB_ATYPE (pf_type field) = PB_ATYPE_POINTER \<or> count \<le> pf_array_size field"
  shows "encodes (encode_array env mem field pData count func)
    (ref_items (\<lambda>p. r (if array_of_pointers field then load 8 mem p else p)) field (map (\<lambda>i. pData + i * pf_data_size field) [0..<count]))"
    (is "encodes ?f (ref_items ?r field ?ps)")
proof (cases "count = 0")
  case True
  then show ?thesis by (simp add: encode_array_def ref_items_def emits_encodes emits_ret)
next
  case nonzero: False
  then have range: "\<not> (PB_ATYPE (pf_type field) \<noteq> PB_ATYPE_POINTER \<and> count > pf_array_size field)" using ok by auto
  show ?thesis
  proof (cases "PB_LTYPE (pf_type field) \<le> PB_LTYPE_LAST_PACKABLE")
    case False
    then have "\<not> packed field" by (simp add: packed_def)
    have "?f = act_each (\<lambda>p. act_bind (pb_encode_tag_for_field field) (\<lambda>_.
        if array_of_pointers field then func field (load 8 mem p) else func field p)) ?ps"
      unfolding encode_array_def if_not_P [OF nonzero] if_not_P [OF range] if_not_P [OF False]
      using rep by (simp add: each_item_def array_of_pointers_def)
    moreover have "encodes (if array_of_pointers field then func field (load 8 mem p) else func field p) (?r p)" for p
      using func by simp
    ultimately show ?thesis using encodes_unpacked [OF _ \<open>\<not> packed field\<close>] by simp
  next
    case True
    then have packed: "packed field" and direct: "\<not> array_of_pointers field"
      using rep by (auto simp: packed_def array_of_pointers_def lt_defs byte_le_5)
    have r: "?r = r" using direct by simp
    show ?thesis unfolding r encodes_def
    proof (intro allI impI, elim conjE)
      fix w assume w: "ref_items r field ?ps = Some w" "length w < 2 ^ 63"
      then obtain vs where vs: "those (map r ?ps) = Some vs"
          "w = tag_bytes PB_WT_STRING (pf_tag field) @ delimited (concat vs)"
        using nonzero packed those_Nil by (fastforce simp: ref_items_def split: option.splits if_splits)
      have len: "length (concat vs) < 2 ^ 63" using w(2) vs(2) by (simp add: delimited_def)
      have body: "emits (each_item (func field) field pData count) (concat vs)"
        unfolding each_item_def by (rule emits_items [OF vs(1) len func])
      have tag: "emits (pb_encode_tag PB_WT_STRING (pf_tag field)) (tag_bytes PB_WT_STRING (pf_tag field))"
        unfolding tag_bytes_def by (rule emits_tag) (simp add: PB_WT_STRING_def)
      have count: "length vs = count" using those_length [OF vs(1)] by simp
      have const: "length (concat vs) = 4 * count" if "PB_LTYPE (pf_type field) = PB_LTYPE_FIXED32"
        using length_concat_const [of vs 4] those_all [OF vs(1)] fixed(1) that count by blast
      have const': "length (concat vs) = 8 * count" if "PB_LTYPE (pf_type field) = PB_LTYPE_FIXED64"
        using length_concat_const [of vs 8] those_all [OF vs(1)] fixed(2) that count by blast
      let ?send = "\<lambda>sz. act_bind (pb_encode_varint (of_nat sz)) (\<lambda>_ stream.
         if os_callback stream = None then pb_write [] sz stream else each_item (func field) field pData count stream)"
      have send: "emits (?send (length (concat vs))) (delimited (concat vs))"
        using emits_bind [OF emits_leb [of "of_nat (length (concat vs))"] emits_sized [OF body refl]] len
        by (simp add: delimited_def unat_of_nat)
      define sz where "sz = (if PB_LTYPE (pf_type field) = PB_LTYPE_FIXED32 then Some (size_mul 4 count)
              else if PB_LTYPE (pf_type field) = PB_LTYPE_FIXED64 then Some (size_mul 8 count)
              else (case each_item (func field) field pData count (pb_ostream_sizing (env_null env)) of
                      (None, _) \<Rightarrow> None
                    | (Some _, sizestream) \<Rightarrow> Some (os_bytes_written sizestream)))"
      have "sz = Some (length (concat vs))"
        using emits_sizing [OF body, of "pb_ostream_sizing (env_null env)"] len const const'
        by (cases "PB_LTYPE (pf_type field) = PB_LTYPE_FIXED32"; cases "PB_LTYPE (pf_type field) = PB_LTYPE_FIXED64")
           (simp_all add: sz_def pb_ostream_sizing_def size_mod_def lt_defs)
      moreover have "?f = act_bind (pb_encode_tag PB_WT_STRING (pf_tag field)) (\<lambda>_. case sz of None \<Rightarrow> act_fail | Some sz \<Rightarrow> ?send sz)"
        unfolding encode_array_def if_not_P [OF nonzero] if_not_P [OF range] if_P [OF True] sz_def ..
      ultimately show "emits ?f w" using emits_bind [OF tag send] vs(2) by simp
    qed
  qed
qed

lemma encodes_one:
  assumes "PB_HTYPE (pf_type field) \<noteq> PB_HTYPE_REPEATED" and "encodes f (r data)"
  shows "encodes (act_bind (pb_encode_tag_for_field field) (\<lambda>_. f)) (ref_items r field [data])"
proof -
  have "\<not> packed field" using assms(1) by (simp add: packed_def)
  then have items: "ref_items r field [data] = (case r data of None \<Rightarrow> None | Some v \<Rightarrow>
      map_option (\<lambda>wt. tag_bytes wt (pf_tag field) @ v) (wire_type (PB_LTYPE (pf_type field))))"
    by (simp add: ref_items_def split: option.splits)
  show ?thesis
  proof (cases "wire_type (PB_LTYPE (pf_type field))")
    case (Some wt)
    from encodes_tagged [OF this assms(2)] show ?thesis
      unfolding items Some by (cases "r data") simp_all
  qed (simp add: items split: option.splits)
qed

lemma encodes_field:
  assumes sub: "\<And>fs src. encodes (enc fs src) (sub fs src)"
  shows "encodes (encode_basic_field n env enc mem field pData) (ref_field n env sub mem field pData)"
proof -
  let ?type = "pf_type field"
  let ?func = "PB_ENCODERS env enc mem (PB_LTYPE ?type)" and ?r = "ref_value (env_fields env) sub mem field"
  define data where "data = (if PB_ATYPE ?type = PB_ATYPE_POINTER then load 8 mem pData else pData)"
  have func: "encodes (?func field p) (?r p)" for p by (rule encodes_value [OF sub])
  have one: "PB_HTYPE ?type \<noteq> PB_HTYPE_REPEATED \<Longrightarrow>
      encodes (act_bind (pb_encode_tag_for_field field) (\<lambda>_. ?func field data)) (ref_items ?r field [data])"
    by (rule encodes_one [OF _ func])
  have direct: "PB_HTYPE ?type \<noteq> PB_HTYPE_REPEATED \<Longrightarrow>
      (\<lambda>p. ?r (if array_of_pointers field then load 8 mem p else p)) = ?r"
    by (simp add: array_of_pointers_def)
  show ?thesis
  proof (rule htype_cases [of ?type])
    assume h: "PB_HTYPE ?type = PB_HTYPE_REQUIRED"
    then have ne: "PB_HTYPE ?type \<noteq> PB_HTYPE_REPEATED" by (simp add: ht_defs)
    have "encode_basic_field n env enc mem field pData
      = (if data = 0 then PB_RETURN_ERROR ''missing required field'' else act_bind (pb_encode_tag_for_field field) (\<lambda>_. ?func field data))"
      using h by (simp add: encode_basic_field_def Let_def ht_defs data_def)
    moreover have "field_items n env mem field pData = (if data = 0 then None else Some [data])"
      using h by (simp add: field_items_def Let_def data_def)
    ultimately show ?thesis
      using one [OF ne] by (simp add: ref_field_items direct [OF ne])
  next
    assume h: "PB_HTYPE ?type = PB_HTYPE_OPTIONAL"
    then have ne: "PB_HTYPE ?type \<noteq> PB_HTYPE_REPEATED" by (simp add: ht_defs)
    define absent where "absent = (if pf_size_offset field \<noteq> 0 then Some (mem (ptr_add pData (pf_size_offset field)) = 0)
      else pb_check_proto3_default_value n env mem field pData)"
    define gone where "gone b \<longleftrightarrow> (if PB_ATYPE ?type = PB_ATYPE_POINTER \<and> \<not> pf_size_offset field \<noteq> 0 then data = 0 else b)" for b
    have "field_items n env mem field pData = map_option (\<lambda>b. if gone b then [] else [data]) absent"
      using h by (simp add: field_items_def Let_def ht_defs absent_def gone_def data_def split: option.splits)
    moreover have "encode_basic_field n env enc mem field pData
      = (case absent of None \<Rightarrow> act_fail
         | Some b \<Rightarrow> if gone b then act_ret () else act_bind (pb_encode_tag_for_field field) (\<lambda>_. ?func field data))"
      using h by (auto simp: encode_basic_field_def Let_def ht_defs absent_def gone_def data_def safe_read_bool_def split: option.splits)
    ultimately show ?thesis
      using one [OF ne] emits_encodes [OF emits_ret]
      by (cases absent) (simp_all add: ref_field_items direct [OF ne] ref_items_def [of _ _ "[]"])
  next
    assume h: "PB_HTYPE ?type = PB_HTYPE_REPEATED"
    define count where "count = (if pf_size_offset field \<noteq> 0 then load 4 mem (ptr_add pData (pf_size_offset field)) else pf_array_size field)"
    define ps where "ps = map (\<lambda>i. data + i * pf_data_size field) [0..<count]"
    have items: "field_items n env mem field pData =
        (if count > 0 \<and> PB_ATYPE ?type \<noteq> PB_ATYPE_POINTER \<and> count > pf_array_size field then None else Some ps)"
      using h by (simp add: field_items_def Let_def ht_defs count_def ps_def data_def)
    have run: "encode_basic_field n env enc mem field pData = encode_array env mem field data count ?func"
      using h by (simp add: encode_basic_field_def Let_def ht_defs count_def data_def)
    have fixed: "?r p = Some v \<Longrightarrow> PB_LTYPE ?type = PB_LTYPE_FIXED32 \<Longrightarrow> length v = 4"
      "?r p = Some v \<Longrightarrow> PB_LTYPE ?type = PB_LTYPE_FIXED64 \<Longrightarrow> length v = 8" for p v
      by (auto simp: ref_value_def lt_defs)
    show ?thesis
    proof (cases "count > 0 \<and> PB_ATYPE ?type \<noteq> PB_ATYPE_POINTER \<and> count > pf_array_size field")
      case True
      then show ?thesis by (simp add: ref_field_items items)
    next
      case False
      then have ok: "count = 0 \<or> PB_ATYPE ?type = PB_ATYPE_POINTER \<or> count \<le> pf_array_size field" by auto
      show ?thesis
        unfolding run ref_field_items items if_not_P [OF False] ps_def Option.bind.simps
        using fixed h ok by (intro encodes_array func) blast+
    qed
  next
    assume h: "PB_HTYPE ?type = PB_HTYPE_ONEOF"
    then have ne: "PB_HTYPE ?type \<noteq> PB_HTYPE_REPEATED" by (simp add: ht_defs)
    let ?set = "load 4 mem (ptr_add pData (pf_size_offset field)) = unat (pf_tag field)"
    have "field_items n env mem field pData = Some (if ?set then [data] else [])"
      using h by (simp add: field_items_def Let_def ht_defs data_def)
    moreover have "encode_basic_field n env enc mem field pData
      = (if ?set then act_bind (pb_encode_tag_for_field field) (\<lambda>_. ?func field data) else act_ret ())"
      using h by (simp add: encode_basic_field_def Let_def ht_defs data_def)
    ultimately show ?thesis
      using one [OF ne] emits_encodes [OF emits_ret]
      by (simp add: ref_field_items direct [OF ne] ref_items_def [of _ _ "[]"])
  qed
qed

end

section \<open>Messages\<close>

context sink
begin

text \<open>
  What is asked of the application: an encoding callback writes the same bytes whenever it is called
  with the same arguments, and fails if they do not fit.
\<close>

definition honest :: "'st pb_env \<Rightarrow> refs \<Rightarrow> bool" where
  "honest env cbs \<longleftrightarrow>
     (\<forall>f field arg. emits (env_encode env f field arg) (ref_callback cbs f field arg)) \<and>
     (\<forall>f extension. emits (env_ext_encode env f extension) (ref_extension cbs f extension))"

lemma emits_wrapped:
  assumes "emits f w"
  shows "emits (\<lambda>s. case f s of (None, s) \<Rightarrow> PB_RETURN_ERROR msg s | (Some _, s) \<Rightarrow> (Some (), s)) w"
  unfolding emits_def
proof (intro conjI allI impI)
  fix s :: "'st ostream"
  assume "os_callback s = None \<and> os_bytes_written s < size_mod"
  then show "(case f s of (None, s) \<Rightarrow> PB_RETURN_ERROR msg s | (Some _, s) \<Rightarrow> (Some (), s))
      = (Some (), s\<lparr>os_bytes_written := size_add (os_bytes_written s) (length w)\<rparr>)"
    using emits_sizing [OF assms] by simp
next
  fix s :: "'st ostream"
  assume s: "open_sink s"
  show "if os_bytes_written s + length w \<le> os_max_size s
      then \<exists>s'. (case f s of (None, s) \<Rightarrow> PB_RETURN_ERROR msg s | (Some _, s) \<Rightarrow> (Some (), s)) = (Some (), s') \<and> extended w s s'
      else fst (case f s of (None, s) \<Rightarrow> PB_RETURN_ERROR msg s | (Some _, s) \<Rightarrow> (Some (), s)) = None"
  proof (cases "os_bytes_written s + length w \<le> os_max_size s")
    case True
    then obtain t where "f s = (Some (), t)" "extended w s t" using emitsE [OF assms s] by blast
    then show ?thesis using True by simp
  next
    case False
    then have "fst (f s) = None" using emits_full [OF assms s] by simp
    then show ?thesis using False by (cases "f s") (simp add: PB_RETURN_ERROR_def)
  qed
qed

lemma encodes_any:
  assumes sub: "\<And>fs src. encodes (enc fs src) (sub fs src)" and env: "honest env cbs"
  shows "encodes (encode_field n env enc mem field pData) (ref_any n env cbs sub mem field pData)"
proof -
  have cb: "encodes (encode_callback_field env mem field pData)
      (Some (if load 8 mem pData = 0 then [] else ref_callback cbs (load 8 mem pData) field (pData + 8)))"
  proof (cases "load 8 mem pData = 0")
    case True
    then have "encode_callback_field env mem field pData = act_ret ()"
      by (simp add: fun_eq_iff encode_callback_field_def act_ret_def)
    then show ?thesis using True by (simp add: emits_encodes emits_ret)
  next
    case False
    then have "encode_callback_field env mem field pData = (\<lambda>s.
        case env_encode env (load 8 mem pData) field (pData + 8) s of
          (None, s) \<Rightarrow> PB_RETURN_ERROR ''callback error'' s | (Some _, s) \<Rightarrow> (Some (), s))"
      by (simp add: fun_eq_iff encode_callback_field_def)
    then show ?thesis
      using False env emits_wrapped by (simp add: emits_encodes honest_def)
  qed
  show ?thesis
    using encodes_field [OF sub] cb by (simp add: encode_field_def ref_any_def Let_def)
qed

lemma encodes_cons:
  assumes "encodes f r" and "encodes g (map_option concat rs)"
  shows "encodes (act_bind f (\<lambda>_. g)) (case r of None \<Rightarrow> None | Some w \<Rightarrow> map_option concat (map_option ((#) w) rs))"
  using assms by (auto simp: encodes_def split: option.splits intro!: emits_bind)

lemma encodes_extensions:
  assumes sub: "\<And>fs src. encodes (enc fs src) (sub fs src)" and env: "honest env cbs"
  shows "encodes (encode_extensions m n env enc mem extension) (map_option concat (ref_extensions m n env cbs sub mem extension))"
proof (induction m arbitrary: extension)
  case 0
  then show ?case by (simp add: ref_extensions.simps emits_encodes emits_ret)
next
  case (Suc m)
  let ?type = "load 8 mem extension"
  let ?field = "hd (env_fields env (load 8 mem (?type + 16)))"
  let ?dest = "if PB_ATYPE (pf_type ?field) = PB_ATYPE_POINTER then extension + 8 else load 8 mem (extension + 8)"
  let ?f = "if load 8 mem (?type + 8) \<noteq> 0 then env_ext_encode env (load 8 mem (?type + 8)) extension
      else default_extension_encoder n env enc mem extension"
  let ?r = "if load 8 mem (?type + 8) \<noteq> 0 then Some (ref_extension cbs (load 8 mem (?type + 8)) extension)
      else ref_any n env cbs sub mem ?field ?dest"
  show ?case
  proof (cases "extension = 0")
    case True
    then show ?thesis by (simp add: ref_extensions.simps emits_encodes emits_ret)
  next
    case False
    have "default_extension_encoder n env enc mem extension = encode_field n env enc mem ?field ?dest"
      by (simp add: default_extension_encoder_def Let_def)
    then have "encodes ?f ?r"
      using env encodes_any [OF sub env] by (simp add: honest_def emits_encodes)
    from encodes_cons [OF this Suc.IH [of "load 8 mem (extension + 16)"]]
    have "encodes (act_bind ?f (\<lambda>_. encode_extensions m n env enc mem (load 8 mem (extension + 16))))
       (case ?r of None \<Rightarrow> None
         | Some w \<Rightarrow> map_option concat (map_option ((#) w) (ref_extensions m n env cbs sub mem (load 8 mem (extension + 16)))))" .
    moreover have "map_option concat (ref_extensions (Suc m) n env cbs sub mem extension)
      = (case ?r of None \<Rightarrow> None
         | Some w \<Rightarrow> map_option concat (map_option ((#) w) (ref_extensions m n env cbs sub mem (load 8 mem (extension + 16)))))"
      using False by (subst ref_extensions.simps) (simp add: Let_def split: option.splits)
    ultimately show ?thesis using False by (simp add: Let_def)
  qed
qed

lemma encodes_entry:
  assumes sub: "\<And>fs src. encodes (enc fs src) (sub fs src)" and env: "honest env cbs"
  shows "encodes (encode_body n env enc mem iter) (ref_entry n env cbs sub mem (hd (it_pos iter), it_pData iter))"
  using encodes_extensions [OF sub env] encodes_any [OF sub env]
  by (simp add: encode_body_def ref_entry_def encode_extension_field_def)

lemma encodes_entries:
  assumes "\<And>iter. encodes (body iter) (r (hd (it_pos iter), it_pData iter))"
  shows "encodes (iter_each body iter) (map_option concat (those (map r (iter_list iter))))"
proof (induction iter rule: iter_list.induct)
  case (1 iter)
  obtain more iter' where n: "pb_field_iter_next iter = (more, iter')" by (cases "pb_field_iter_next iter")
  let ?rest = "if more then iter_list iter' else []"
  have rest: "encodes (if more then iter_each body iter' else act_ret ()) (map_option concat (those (map r ?rest)))"
    using 1 n by (cases more) (simp_all add: emits_encodes emits_ret)
  have "iter_each body iter = act_bind (body iter) (\<lambda>_. if more then iter_each body iter' else act_ret ())"
    by (subst iter_each.simps) (simp add: n split: bool.split)
  moreover have "iter_list iter = (hd (it_pos iter), it_pData iter) # ?rest"
    by (subst iter_list.simps) (simp add: n split: bool.split)
  ultimately show ?case using encodes_cons [OF assms rest, of iter] by (simp split: option.splits split del: if_split)
qed

theorem encodes_message:
  assumes env: "honest env cbs"
  shows "encodes (pb_encode n env mem fs src) (ref_message n env cbs mem fs src)"
proof (induction n arbitrary: fs src)
  case (Suc n)
  obtain more iter where b: "pb_field_iter_begin fs src = (more, iter)" by (cases "pb_field_iter_begin fs src")
  show ?case
    using encodes_entries [of "encode_body n env (pb_encode n env mem) mem", OF encodes_entry [OF Suc env]] b
    by (cases more) (simp_all add: emits_encodes emits_ret)
qed simp

end

end
