(* ===== verification/Pb_Safe.thy ===== *)
theory Pb_Safe
  imports Pb_Decode_Message Pb_Refine
begin

text \<open>
  Memory safety of the decoder of nanopb: decoding a message of static fields writes to the structure only,
  whatever the input, and its loops end.
\<close>

section \<open>Decoders that keep to their memory\<close>

text \<open>
  A callback is \<open>polite\<close> if it stores no more bytes than it is asked for. A safe decoder, on a stream
  with a polite callback, only writes to the addresses of \<open>R\<close>, whatever the input, never gives back
  bytes, and stays within the bound on recursion.
\<close>

definition polite :: "'st istream \<Rightarrow> bool" where
  "polite s \<longleftrightarrow> (\<forall>st w n bs st'. is_callback s st w n = (Some bs, st') \<longrightarrow> length bs \<le> n)"

definition stays :: "'st istream \<Rightarrow> 'st istream \<Rightarrow> bool" where
  "stays s s' \<longleftrightarrow> is_bytes_left s' \<le> is_bytes_left s \<and> is_callback s' = is_callback s"

definition safe :: "nat set \<Rightarrow> ('st, 'a) dec \<Rightarrow> bool" where
  "safe R f \<longleftrightarrow> (\<forall>s h. polite s \<longrightarrow> (case f (s, h) of (r, (s', h')) \<Rightarrow>
     stays s s' \<and> hp_deep h' = hp_deep h \<and> (\<forall>a. a \<notin> R \<longrightarrow> hp_mem h' a = hp_mem h a)))"

definition calm :: "nat set \<Rightarrow> (pb_heap \<Rightarrow> pb_heap) \<Rightarrow> bool" where
  "calm R f \<longleftrightarrow> (\<forall>h. hp_deep (f h) = hp_deep h \<and> (\<forall>a. a \<notin> R \<longrightarrow> hp_mem (f h) a = hp_mem h a))"

definition shrinks :: "('st istream, 'a) action \<Rightarrow> bool" where
  "shrinks f \<longleftrightarrow> (\<forall>s. stays s (snd (f s)))"

lemma stays_refl [simp]: "stays s s"
  by (simp add: stays_def)

lemma stays_trans: "stays s t \<Longrightarrow> stays t u \<Longrightarrow> stays s u"
  by (simp add: stays_def)

lemma stays_polite: "stays s s' \<Longrightarrow> polite s \<Longrightarrow> polite s'"
  by (simp add: stays_def polite_def)

lemma shrinksD: "shrinks f \<Longrightarrow> f s = (r, s') \<Longrightarrow> stays s s'"
  unfolding shrinks_def by (metis snd_conv)

lemma stays_error [simp]: "stays s (is_set_error msg t) \<longleftrightarrow> stays s t"
  by (simp add: stays_def is_set_error_def)

lemma safeI:
  assumes "\<And>s h r s' h'. polite s \<Longrightarrow> f (s, h) = (r, (s', h')) \<Longrightarrow>
    stays s s' \<and> hp_deep h' = hp_deep h \<and> (\<forall>a. a \<notin> R \<longrightarrow> hp_mem h' a = hp_mem h a)"
  shows "safe R f"
  using assms unfolding safe_def by (auto split: prod.splits)

lemma safeD:
  assumes "safe R f" and "f (s, h) = (r, (s', h'))" and "polite s"
  shows "stays s s'" and "hp_deep h' = hp_deep h" and "a \<notin> R \<Longrightarrow> hp_mem h' a = hp_mem h a" and "polite s'"
proof -
  have "stays s s' \<and> hp_deep h' = hp_deep h \<and> (\<forall>a. a \<notin> R \<longrightarrow> hp_mem h' a = hp_mem h a)"
    using assms(1) [unfolded safe_def, rule_format, of s h] assms(2,3) by simp
  then show "stays s s'" and "hp_deep h' = hp_deep h" and "a \<notin> R \<Longrightarrow> hp_mem h' a = hp_mem h a" and "polite s'"
    using stays_polite [OF _ assms(3)] by blast+
qed

lemma safe_mono: "safe A f \<Longrightarrow> A \<subseteq> B \<Longrightarrow> safe B f"
  unfolding safe_def by (fastforce split: prod.splits)

lemma safe_bind:
  assumes f: "safe R f" and g: "\<And>a. safe R (g a)"
  shows "safe R (act_bind f g)"
proof (rule safeI)
  fix s h r s' h'
  assume s: "polite s" and run: "act_bind f g (s, h) = (r, (s', h'))"
  obtain q t i where q: "f (s, h) = (q, (t, i))" by (cases "f (s, h)") auto
  show "stays s s' \<and> hp_deep h' = hp_deep h \<and> (\<forall>a. a \<notin> R \<longrightarrow> hp_mem h' a = hp_mem h a)"
  proof (cases q)
    case None
    then show ?thesis using run q safeD [OF f q s] by auto
  next
    case (Some a)
    then have "g a (t, i) = (r, (s', h'))" using run q by simp
    from safeD [OF g this safeD(4) [OF f q s]] safeD [OF f q s] show ?thesis using stays_trans by force
  qed
qed

lemma safe_ret [intro]: "safe R (act_ret a)"
  by (simp add: safe_def act_ret_def)

lemma safe_fail [intro]: "safe R act_fail"
  by (simp add: safe_def act_fail_def)

lemma safe_on_stream: "shrinks f \<Longrightarrow> safe R (on_stream f)"
  by (rule safeI) (auto simp: on_stream_def dest: shrinksD split: prod.splits)

lemma shrinks_error [intro]: "shrinks (is_return_error msg)"
  by (simp add: shrinks_def is_return_error_def)

lemma safe_error [intro]: "safe R (dec_error msg)"
  unfolding dec_error_def by (rule safe_on_stream) (rule shrinks_error)

lemma safe_on_heap: "calm R f \<Longrightarrow> safe R (on_heap f)"
  by (simp add: safe_def calm_def on_heap_def)

lemma safe_with_heap: "(\<And>h. safe R (f h)) \<Longrightarrow> safe R (with_heap f)"
  by (simp add: safe_def with_heap_def)

lemma calm_poke: "{p..<p + length bs} \<subseteq> R \<Longrightarrow> calm R (poke p bs)"
  by (auto simp: calm_def poke_def subset_iff)

lemma calm_id [intro]: "calm R (\<lambda>h. h)"
  by (simp add: calm_def)

lemma calm_comp: "calm R f \<Longrightarrow> calm R g \<Longrightarrow> calm R (\<lambda>h. f (g h))"
  by (simp add: calm_def)

lemma calm_mono: "calm A f \<Longrightarrow> A \<subseteq> B \<Longrightarrow> calm B f"
  unfolding calm_def by blast

lemma calm_dep: "(\<And>h. calm R (f h)) \<Longrightarrow> calm R (\<lambda>h. f h h)"
  by (simp add: calm_def)

lemma calm_fold: "(\<And>x. x \<in> set xs \<Longrightarrow> calm R (f x)) \<Longrightarrow> calm R (fold f xs)"
proof (induction xs)
  case (Cons x xs)
  then have "calm R (\<lambda>h. fold f xs (f x h))" using calm_comp [of R "fold f xs" "f x"] by simp
  then show ?case by (simp add: comp_def)
qed (simp add: calm_def)

subsection \<open>Streams\<close>

lemma shrinks_bind:
  assumes "shrinks f" and "\<And>a. shrinks (g a)"
  shows "shrinks (act_bind f g)"
  unfolding shrinks_def
proof
  fix s
  obtain q t where q: "f s = (q, t)" by (cases "f s")
  have t: "stays s t" by (rule shrinksD [OF assms(1) q])
  show "stays s (snd (act_bind f g s))"
  proof (cases q)
    case (Some a)
    have "stays t (snd (g a t))" using assms(2) [of a] by (simp add: shrinks_def)
    then show ?thesis using q Some stays_trans [OF t] by simp
  qed (use q t in simp)
qed

lemma shrinks_ret: "shrinks (act_ret a)"
  by (simp add: shrinks_def act_ret_def)

lemma shrinks_direct: "shrinks (pb_read_direct w n)"
  by (auto simp: shrinks_def pb_read_direct_def is_return_error_def stays_def is_set_error_def split: prod.splits option.splits)

lemma shrinks_skip: "shrinks (pb_read_skip n)"
proof (induction n rule: less_induct)
  case (less n)
  show ?case
    by (subst pb_read_skip.simps) (use less in \<open>auto intro!: shrinks_bind shrinks_direct shrinks_ret\<close>)
qed

lemma shrinks_read: "shrinks (pb_read w n)"
  using shrinks_direct [of _ n] shrinks_skip [of n] by (auto simp: shrinks_def pb_read_def)

lemma shrinks_readbyte: "shrinks pb_readbyte"
  by (auto simp: shrinks_def pb_readbyte_def is_return_error_def stays_def is_set_error_def split: prod.splits option.splits)

text \<open>No more than the bytes that were asked for.\<close>

lemma read_length: "polite s \<Longrightarrow> pb_read True n s = (Some bs, s') \<Longrightarrow> length bs \<le> n"
  unfolding polite_def
  by (auto simp: pb_read_def pb_read_direct_def is_return_error_def split: if_splits prod.splits option.splits) blast

lemma stays_varint32_loop: "stays s (snd (varint32_loop bitpos result s))"
proof (induction bitpos result s rule: varint32_loop.induct)
  case (1 bitpos result s)
  obtain q t where q: "pb_readbyte s = (q, t)" by (cases "pb_readbyte s")
  have t: "stays s t" by (rule shrinksD [OF shrinks_readbyte q])
  show ?case
  proof (cases q)
    case None
    then show ?thesis using q t by (subst varint32_loop.simps) simp
  next
    case (Some b)
    show ?thesis
      using 1 [OF q [symmetric] Some refl] q Some t stays_trans [OF t]
      by (subst varint32_loop.simps) (auto simp: Let_def is_return_error_def)
  qed
qed

text \<open>A successful varint has taken at least a byte from the stream.\<close>

lemma varint32_eof_left:
  assumes "pb_decode_varint32_eof s = ((r, eof), s')"
  shows "stays s s'" and "r \<noteq> None \<Longrightarrow> is_bytes_left s' < is_bytes_left s"
proof -
  obtain q t where q: "pb_readbyte s = (q, t)" by (cases "pb_readbyte s")
  have t: "stays s t" by (rule shrinksD [OF shrinks_readbyte q])
  have "stays s s' \<and> (r \<noteq> None \<longrightarrow> is_bytes_left s' < is_bytes_left s)"
  proof (cases q)
    case None
    then show ?thesis using assms q t by (auto simp: pb_decode_varint32_eof_def)
  next
    case (Some b)
    then have less: "is_bytes_left t < is_bytes_left s" using q pb_readbyte_left by blast
    obtain p u where p: "varint32_loop 7 (ucast (b AND 0x7f)) t = (p, u)" by (cases "varint32_loop 7 (ucast (b AND 0x7f)) t")
    have u: "stays t u"
      using stays_varint32_loop [of t 7 "ucast (b AND 0x7f)"] p by simp
    then have "is_bytes_left u < is_bytes_left s" using less by (simp add: stays_def)
    then show ?thesis
      using assms q Some p less t stays_trans [OF t u]
      by (auto simp: pb_decode_varint32_eof_def is_set_error_def stays_def split: if_splits option.splits)
  qed
  then show "stays s s'" and "r \<noteq> None \<Longrightarrow> is_bytes_left s' < is_bytes_left s" by blast+
qed

lemma shrinks_varint32: "shrinks pb_decode_varint32"
  unfolding shrinks_def pb_decode_varint32_def using varint32_eof_left(1) by (auto split: prod.splits)

lemma varint32_less: "pb_decode_varint32 s = (Some v, s') \<Longrightarrow> is_bytes_left s' < is_bytes_left s"
  unfolding pb_decode_varint32_def using varint32_eof_left(2) by (fastforce split: prod.splits)

lemma stays_varint_loop:
  "stays s (snd (varint_loop bitpos result s)) \<and>
   (\<forall>v. fst (varint_loop bitpos result s) = Some v \<longrightarrow> is_bytes_left (snd (varint_loop bitpos result s)) < is_bytes_left s)"
proof (induction bitpos result s rule: varint_loop.induct)
  case (1 bitpos result s)
  obtain q t where q: "pb_readbyte s = (q, t)" by (cases "pb_readbyte s")
  have t: "stays s t" by (rule shrinksD [OF shrinks_readbyte q])
  show ?case
  proof (cases "bitpos \<ge> 64")
    case True
    then have "varint_loop bitpos result s = is_return_error ''varint overflow'' s" by (subst varint_loop.simps) simp
    then show ?thesis by (simp add: is_return_error_def)
  next
    case False
    show ?thesis
    proof (cases q)
      case None
      then have "varint_loop bitpos result s = (None, t)" using q False by (subst varint_loop.simps) simp
      then show ?thesis using t by simp
    next
      case (Some b)
      then have less: "is_bytes_left t < is_bytes_left s" using q pb_readbyte_left by blast
      have run: "varint_loop bitpos result s = (if b AND 0x80 \<noteq> 0
          then varint_loop (bitpos + 7) (result OR push_bit (unat bitpos) (ucast (b AND 0x7f))) t
          else (Some (result OR push_bit (unat bitpos) (ucast (b AND 0x7f))), t))"
        using False q Some by (subst varint_loop.simps) (simp add: Let_def)
      show ?thesis
      proof (cases "b AND 0x80 = 0")
        case True
        then show ?thesis using less t by (simp add: run)
      next
        case cont: False
        then show ?thesis
          using 1 [OF False q [symmetric] Some refl refl cont] less stays_trans [OF t] unfolding run by force
      qed
    qed
  qed
qed

lemma shrinks_varint: "shrinks pb_decode_varint"
  unfolding shrinks_def pb_decode_varint_def using stays_varint_loop by blast

lemma varint_less: "pb_decode_varint s = (Some v, s') \<Longrightarrow> is_bytes_left s' < is_bytes_left s"
  using stays_varint_loop [of s 0 0] by (simp add: pb_decode_varint_def)

lemma shrinks_svarint: "shrinks pb_decode_svarint"
  unfolding pb_decode_svarint_def by (intro shrinks_bind shrinks_varint shrinks_ret)

lemma shrinks_skip_varint: "shrinks pb_skip_varint"
  unfolding shrinks_def
proof
  show "stays s (snd (pb_skip_varint s))" for s :: "'a istream"
  proof (induction s rule: pb_skip_varint.induct)
    case (1 s)
    obtain q t where q: "pb_read True 1 s = (q, t)" by (cases "pb_read True 1 s")
    have t: "stays s t" by (rule shrinksD [OF shrinks_read q])
    show ?case
    proof (cases q)
      case None
      then show ?thesis using q t by (subst pb_skip_varint.simps) simp
    next
      case (Some b)
      show ?thesis
        using 1 [OF q [symmetric] Some] q Some t stays_trans [OF t] by (subst pb_skip_varint.simps) auto
    qed
  qed
qed

lemma shrinks_skip_string: "shrinks pb_skip_string"
  unfolding pb_skip_string_def by (intro shrinks_bind shrinks_varint32 shrinks_read shrinks_ret)

lemma shrinks_skip_field: "shrinks (pb_skip_field wt)"
  unfolding pb_skip_field_def
  by (auto intro!: shrinks_bind shrinks_read shrinks_ret shrinks_error shrinks_skip_varint shrinks_skip_string)

lemma shrinks_fixed32: "shrinks pb_decode_fixed32" and shrinks_fixed64: "shrinks pb_decode_fixed64"
  unfolding pb_decode_fixed32_def pb_decode_fixed64_def by (intro shrinks_bind shrinks_read shrinks_ret)+

lemma shrinks_make: "shrinks pb_make_string_substream"
  unfolding pb_make_string_substream_def
  by (intro shrinks_bind shrinks_varint32) (simp add: shrinks_def is_return_error_def stays_def is_set_error_def)

lemma make_sub: "pb_make_string_substream s = (Some sub, t) \<Longrightarrow> is_callback sub = is_callback s"
  using shrinksD [OF shrinks_varint32]
  by (fastforce simp: pb_make_string_substream_def act_bind_eq_Some is_return_error_def stays_def split: if_splits)

lemma close_stays: "pb_close_string_substream sub t = (r, u) \<Longrightarrow> stays t u"
  by (auto simp: pb_close_string_substream_def stays_def split: prod.splits option.splits)

section \<open>Single values\<close>

lemma safe_read_into:
  assumes "{dest..<dest + n} \<subseteq> R"
  shows "safe R (read_into dest n)"
proof (rule safeI)
  fix s :: "'st istream" and h r s' h'
  assume s: "polite s" and run: "read_into dest n (s, h) = (r, (s', h'))"
  obtain q t where q: "pb_read True n s = (q, t)" by (cases "pb_read True n s")
  have t: "stays s t" by (rule shrinksD [OF shrinks_read q])
  show "stays s s' \<and> hp_deep h' = hp_deep h \<and> (\<forall>a. a \<notin> R \<longrightarrow> hp_mem h' a = hp_mem h a)"
  proof (cases q)
    case None
    then show ?thesis using run q t by (simp add: read_into_def on_stream_def act_bind_def)
  next
    case (Some bs)
    have "length bs \<le> n" using read_length [OF s] q Some by simp
    then have "calm R (poke dest bs)" using assms by (intro calm_poke) auto
    then show ?thesis using run q Some t by (auto simp: read_into_def on_stream_def on_heap_def act_bind_def calm_def)
  qed
qed

lemma safe_store_int:
  assumes "{dest..<dest + n} \<subseteq> R"
  shows "safe R (store_int n dest b v)"
  using assms unfolding store_int_def Let_def
  by (auto intro!: safe_bind safe_on_heap calm_poke)

text \<open>The size of the field is enough for values of its type.\<close>

definition size_ok :: "pb_field \<Rightarrow> bool" where
  "size_ok field \<longleftrightarrow>
     (let lt = PB_LTYPE (pf_type field); n = pf_data_size field
      in (lt = PB_LTYPE_BOOL \<longrightarrow> 1 \<le> n) \<and> (lt = PB_LTYPE_FIXED32 \<longrightarrow> 4 \<le> n) \<and> (lt = PB_LTYPE_FIXED64 \<longrightarrow> 8 \<le> n))"

text \<open>The bytes that a decoder may write, whatever the size of the field.\<close>

definition extent :: "pb_field \<Rightarrow> nat" where
  "extent field =
     max (pf_data_size field)
       (let lt = PB_LTYPE (pf_type field)
        in if lt = PB_LTYPE_BOOL then 1 else if lt = PB_LTYPE_FIXED32 then 4 else if lt = PB_LTYPE_FIXED64 then 8 else 0)"

lemma extent_ok: "size_ok field \<Longrightarrow> extent field = pf_data_size field"
  by (auto simp: extent_def size_ok_def Let_def)

lemma safe_dec_bytes:
  assumes "PB_ATYPE (pf_type field) \<noteq> PB_ATYPE_POINTER" and "{dest..<dest + pf_data_size field} \<subseteq> R"
  shows "safe R (pb_dec_bytes env field dest)"
  unfolding pb_dec_bytes_def
proof (rule safe_bind [OF safe_on_stream [OF shrinks_varint32]])
  fix v :: u32
  have "{dest..<dest + 4} \<subseteq> R" "{dest + 4..<dest + 4 + unat v} \<subseteq> R" if "unat v + 4 \<le> pf_data_size field"
    using that assms(2) by auto
  then show "safe R (let sz = unat v; alloc_size = PB_BYTES_ARRAY_T_ALLOCSIZE sz
       in if sz > PB_SIZE_MAX then dec_error ''bytes overflow''
          else if sz > alloc_size then dec_error ''size too large''
          else if PB_ATYPE (pf_type field) = PB_ATYPE_POINTER
          then act_bind (allocate_field env dest alloc_size 1) (\<lambda>_. with_heap (\<lambda>h.
                 let bdest = peek 8 h dest
                 in act_bind (on_heap (poke bdest (le_bytes 4 sz))) (\<lambda>_. read_into (bdest + 4) sz)))
          else if alloc_size > pf_data_size field then dec_error ''bytes overflow''
          else act_bind (on_heap (poke dest (le_bytes 4 sz))) (\<lambda>_. read_into (dest + 4) sz))"
    using assms(1) by (auto simp: Let_def PB_BYTES_ARRAY_T_ALLOCSIZE_def subset_iff intro!: safe_bind safe_on_heap calm_poke safe_read_into)
qed

lemma safe_read_string:
  assumes "{dest..<dest + n + 1} \<subseteq> R"
  shows "safe R (read_string dest n)"
proof (rule safeI)
  fix s :: "'st istream" and h r s' h'
  assume s: "polite s" and run: "read_string dest n (s, h) = (r, (s', h'))"
  obtain q t i where q: "read_into dest n (s, h) = (q, (t, i))" by (cases "read_into dest n (s, h)") auto
  have f: "safe R (read_into dest n :: ('st, unit) dec)" using assms by (intro safe_read_into) auto
  have "calm R (poke (dest + n) [0])" using assms by (intro calm_poke) auto
  then show "stays s s' \<and> hp_deep h' = hp_deep h \<and> (\<forall>a. a \<notin> R \<longrightarrow> hp_mem h' a = hp_mem h a)"
    using run q safeD [OF f q s] by (auto simp: read_string_def on_heap_def calm_def)
qed

lemma safe_dec_string:
  assumes "PB_ATYPE (pf_type field) \<noteq> PB_ATYPE_POINTER" and "{dest..<dest + pf_data_size field} \<subseteq> R"
  shows "safe R (pb_dec_string env field dest)"
  unfolding pb_dec_string_def
proof (rule safe_bind [OF safe_on_stream [OF shrinks_varint32]])
  fix v :: u32
  have succ: "unat (v + 1) = unat v + 1" if "\<not> unat (v + 1) < unat v"
  proof -
    have "v \<le> v + 1" using that by (simp add: word_le_nat_alt)
    then show ?thesis using unat_plus_simple [of v 1] by simp
  qed
  have "{dest..<dest + unat v + 1} \<subseteq> R" if "\<not> unat (v + 1) < unat v" "\<not> pf_data_size field < unat (v + 1)"
    using that assms(2) succ by auto
  then show "safe R (let sz = unat v; alloc_size = unat (v + 1)
       in if alloc_size < sz then dec_error ''size too large''
          else if PB_ATYPE (pf_type field) = PB_ATYPE_POINTER
          then act_bind (allocate_field env dest alloc_size 1) (\<lambda>_. with_heap (\<lambda>h. read_string (peek 8 h dest) sz))
          else if alloc_size > pf_data_size field then dec_error ''string overflow''
          else read_string dest sz)"
    using assms(1) by (auto simp: Let_def subset_iff intro!: safe_read_string)
qed

lemma safe_dec_fixed_length_bytes:
  assumes "{dest..<dest + pf_data_size field} \<subseteq> R"
  shows "safe R (pb_dec_fixed_length_bytes field dest)"
  unfolding pb_dec_fixed_length_bytes_def
  using assms by (intro safe_bind safe_on_stream shrinks_varint32) (auto simp: Let_def intro!: safe_on_heap calm_poke safe_read_into)

lemma safe_dec_submessage:
  fixes noinit init :: "'st msg_decoder"
  assumes "safe R (noinit (dn_fields env (pf_ptr field)) dest)" and "safe R (init (dn_fields env (pf_ptr field)) dest)"
  shows "safe R (pb_dec_submessage env noinit init field dest)"
proof (rule safeI)
  fix s :: "'st istream" and h r s' h'
  assume s: "polite s" and run: "pb_dec_submessage env noinit init field dest (s, h) = (r, (s', h'))"
  obtain q t where q: "pb_make_string_substream s = (q, t)" by (cases "pb_make_string_substream s")
  have t: "stays s t" by (rule shrinksD [OF shrinks_make q])
  show "stays s s' \<and> hp_deep h' = hp_deep h \<and> (\<forall>a. a \<notin> R \<longrightarrow> hp_mem h' a = hp_mem h a)"
  proof (cases "q = None \<or> pf_ptr field = 0")
    case True
    then show ?thesis
      using run q t by (cases q) (auto simp: pb_dec_submessage_def on_stream_def act_bind_def dec_error_def is_return_error_def)
  next
    case False
    then obtain sub where sub: "q = Some sub" by auto
    define f where "f = (if PB_HTYPE (pf_type field) = PB_HTYPE_REPEATED then init else noinit) (dn_fields env (pf_ptr field)) dest"
    have f: "safe R f" using assms by (simp add: f_def)
    obtain status sub' i where d: "f (sub, h) = (status, (sub', i))" by (cases "f (sub, h)") auto
    obtain p u where p: "pb_close_string_substream sub' t = (p, u)" by (cases "pb_close_string_substream sub' t")
    have "polite sub" using make_sub [of s sub t] q sub s by (simp add: polite_def)
    then show ?thesis
      using run q sub False d p safeD [OF f d] stays_trans [OF t close_stays [OF p]]
      by (auto simp: pb_dec_submessage_def on_stream_def act_bind_def f_def [symmetric] split: option.splits)
  qed
qed

lemma safe_dec_bool: "{dest..<dest + 1} \<subseteq> R \<Longrightarrow> safe R (pb_dec_bool dest)"
  unfolding pb_dec_bool_def by (intro safe_bind safe_on_stream shrinks_varint32 safe_on_heap calm_poke) simp

lemma safe_dec_varint: "{dest..<dest + pf_data_size field} \<subseteq> R \<Longrightarrow> safe R (pb_dec_varint field dest)"
  unfolding pb_dec_varint_def by (intro safe_bind safe_on_stream shrinks_varint safe_store_int)

lemma safe_dec_uvarint: "{dest..<dest + pf_data_size field} \<subseteq> R \<Longrightarrow> safe R (pb_dec_uvarint field dest)"
  unfolding pb_dec_uvarint_def by (intro safe_bind safe_on_stream shrinks_varint safe_store_int)

lemma safe_dec_svarint: "{dest..<dest + pf_data_size field} \<subseteq> R \<Longrightarrow> safe R (pb_dec_svarint field dest)"
  unfolding pb_dec_svarint_def by (intro safe_bind safe_on_stream shrinks_svarint safe_store_int)

lemma safe_dec_fixed32: "{dest..<dest + 4} \<subseteq> R \<Longrightarrow> safe R (pb_dec_fixed32 dest)"
  unfolding pb_dec_fixed32_def by (intro safe_bind safe_on_stream shrinks_fixed32 safe_on_heap calm_poke) simp

lemma safe_dec_fixed64: "{dest..<dest + 8} \<subseteq> R \<Longrightarrow> safe R (pb_dec_fixed64 dest)"
  unfolding pb_dec_fixed64_def by (intro safe_bind safe_on_stream shrinks_fixed64 safe_on_heap calm_poke) simp

lemma safe_if: "(c \<Longrightarrow> safe R f) \<Longrightarrow> (\<not> c \<Longrightarrow> safe R g) \<Longrightarrow> safe R (if c then f else g)"
  by simp

lemma safe_DECODERS:
  assumes "PB_ATYPE (pf_type field) = PB_ATYPE_STATIC" and extent: "{dest..<dest + extent field} \<subseteq> R"
    and sub: "PB_LTYPE (pf_type field) = PB_LTYPE_SUBMESSAGE \<Longrightarrow>
      safe R (noinit (dn_fields env (pf_ptr field)) dest) \<and> safe R (init (dn_fields env (pf_ptr field)) dest)"
  shows "safe R (PB_DECODERS env noinit init field dest)"
proof -
  have np: "PB_ATYPE (pf_type field) \<noteq> PB_ATYPE_POINTER" using assms(1) by (simp add: PB_ATYPE_STATIC_def PB_ATYPE_POINTER_def)
  have small: "{dest..<dest + k} \<subseteq> R" if "k \<le> extent field" for k using that extent by (auto simp: subset_iff)
  have R: "{dest..<dest + pf_data_size field} \<subseteq> R" by (rule small) (simp add: extent_def)
  have "PB_LTYPE (pf_type field) = PB_LTYPE_BOOL \<Longrightarrow> safe R (pb_dec_bool dest)"
    by (rule safe_dec_bool [OF small]) (simp add: extent_def)
  moreover have "PB_LTYPE (pf_type field) = PB_LTYPE_FIXED32 \<Longrightarrow> safe R (pb_dec_fixed32 dest)"
    by (rule safe_dec_fixed32 [OF small]) (simp add: extent_def lt_defs)
  moreover have "PB_LTYPE (pf_type field) = PB_LTYPE_FIXED64 \<Longrightarrow> safe R (pb_dec_fixed64 dest)"
    by (rule safe_dec_fixed64 [OF small]) (simp add: extent_def lt_defs)
  moreover have "PB_LTYPE (pf_type field) = PB_LTYPE_SUBMESSAGE \<Longrightarrow> safe R (pb_dec_submessage env noinit init field dest)"
    using sub safe_dec_submessage by blast
  ultimately show ?thesis
    unfolding PB_DECODERS_def Let_def
    by (intro safe_if safe_dec_varint [OF R] safe_dec_uvarint [OF R] safe_dec_svarint [OF R] safe_dec_bytes [OF np R]
        safe_dec_string [OF np R] safe_dec_fixed_length_bytes [OF R] safe_fail)
qed

text \<open>Values that can be packed take at least a byte.\<close>

lemma eats_bind_stream:
  assumes "\<And>s v s'. f s = (Some v, s') \<Longrightarrow> is_bytes_left s' < is_bytes_left s" and "\<And>v. safe UNIV (g v)" and "polite s"
    and "act_bind (on_stream f) g (s, h) = (Some a, (s', h'))" and "shrinks f"
  shows "is_bytes_left s' < is_bytes_left s"
proof -
  obtain q t where q: "f s = (q, t)" by (cases "f s")
  then obtain v where v: "q = Some v" "g v (t, h) = (Some a, (s', h'))"
    using assms(4) by (cases q) (auto simp: on_stream_def act_bind_def)
  have "polite t" using stays_polite [OF shrinksD [OF assms(5) q] assms(3)] .
  then have "is_bytes_left s' \<le> is_bytes_left t" using safeD(1) [OF assms(2) v(2)] by (simp add: stays_def)
  moreover have "is_bytes_left t < is_bytes_left s" using assms(1) q v(1) by simp
  ultimately show ?thesis by linarith
qed

lemma read_direct_less: "0 < n \<Longrightarrow> pb_read True n s = (Some bs, s') \<Longrightarrow> is_bytes_left s' < is_bytes_left s"
  by (auto simp: pb_read_def pb_read_direct_def is_return_error_def split: if_splits prod.splits option.splits)

lemma fixed_less:
  "pb_decode_fixed32 s = (Some v, s') \<Longrightarrow> is_bytes_left s' < is_bytes_left s"
  "pb_decode_fixed64 s = (Some w, s') \<Longrightarrow> is_bytes_left s' < is_bytes_left s"
  unfolding pb_decode_fixed32_def pb_decode_fixed64_def
  by (auto simp: act_bind_eq_Some dest!: read_direct_less [rotated])

lemma svarint_less: "pb_decode_svarint s = (Some v, s') \<Longrightarrow> is_bytes_left s' < is_bytes_left s"
  unfolding pb_decode_svarint_def by (auto simp: act_bind_eq_Some dest!: varint_less)

lemma packable_eats:
  assumes lt: "PB_LTYPE (pf_type field) \<le> PB_LTYPE_LAST_PACKABLE" and "polite s"
    and run: "PB_DECODERS env noinit init field dest (s, h) = (Some a, (s', h'))"
  shows "is_bytes_left s' < is_bytes_left s"
proof -
  have cases: "PB_LTYPE (pf_type field) = 0 \<or> PB_LTYPE (pf_type field) = 1 \<or> PB_LTYPE (pf_type field) = 2 \<or>
      PB_LTYPE (pf_type field) = 3 \<or> PB_LTYPE (pf_type field) = 4 \<or> PB_LTYPE (pf_type field) = 5"
    using lt by (simp only: PB_LTYPE_LAST_PACKABLE_def byte_le_5)
  have heap: "safe UNIV (on_heap (poke p bs))" for p bs
    by (rule safe_on_heap [OF calm_poke]) simp
  have int: "safe UNIV (store_int n dest b v)" for n b v
    by (rule safe_store_int) simp
  note steps = eats_bind_stream [OF _ _ assms(2)]
  show ?thesis
    using cases run
    unfolding PB_DECODERS_def Let_def lt_defs pb_dec_bool_def pb_dec_varint_def pb_dec_uvarint_def pb_dec_svarint_def
      pb_dec_fixed32_def pb_dec_fixed64_def
    by (elim disjE)
      (simp_all, (erule steps [rotated 2]; auto intro: heap int shrinks_varint32 shrinks_varint shrinks_svarint shrinks_fixed32
        shrinks_fixed64 dest: varint32_less varint_less svarint_less fixed_less)+)
qed

section \<open>Messages of static fields\<close>

text \<open>All positions of an iterator in a message, from one on.\<close>

function iters :: "pb_field_iter \<Rightarrow> pb_field_iter list" where
  "iters iter = iter # (case pb_field_iter_next iter of (True, iter') \<Rightarrow> iters iter' | (False, _) \<Rightarrow> [])"
  by pat_completeness auto
termination
  by (relation "measure (\<lambda>iter. length (it_pos iter))") (auto dest: iter_next_shorter [OF sym])

declare iters.simps [simp del]

text \<open>A field lies between \<open>lo\<close> and \<open>hi\<close>, with its count or flag. The flag of an array is a \<open>pb_size_t\<close>.\<close>

definition field_at :: "nat \<Rightarrow> nat \<Rightarrow> pb_field_iter \<Rightarrow> bool" where
  "field_at lo hi iter \<longleftrightarrow>
     (let field = hd (it_pos iter); htype = PB_HTYPE (pf_type field); n = pf_data_size field
      in PB_ATYPE (pf_type field) = PB_ATYPE_STATIC \<and> PB_LTYPE (pf_type field) \<noteq> PB_LTYPE_EXTENSION \<and> size_ok field \<and>
         lo \<le> it_pData iter \<and>
         (if htype = PB_HTYPE_REPEATED
          then it_pData iter + n * pf_array_size field \<le> hi \<and> n * pf_array_size field < 2 ^ 32
          else it_pData iter + n \<le> hi) \<and>
         (if htype = PB_HTYPE_REQUIRED then True
          else if htype = PB_HTYPE_OPTIONAL then it_pSize iter = it_pData iter \<or> lo \<le> it_pSize iter \<and> it_pSize iter < hi
          else lo \<le> it_pSize iter \<and> it_pSize iter + 4 \<le> hi))"

definition items_of :: "pb_field_iter \<Rightarrow> nat list" where
  "items_of iter =
     (let field = hd (it_pos iter)
      in if PB_HTYPE (pf_type field) = PB_HTYPE_REPEATED
         then map (\<lambda>i. it_pData iter + i * pf_data_size field) [0..<pf_array_size field]
         else [it_pData iter])"

text \<open>
  A message, from \<open>dest\<close> to \<open>hi\<close>, with submessages at most \<open>n\<close> deep. One without fields has room for
  a byte, since the search for a field takes the end of the table for a boolean field with tag 0.
\<close>

fun static_message :: "nat \<Rightarrow> 'st pb_denv \<Rightarrow> pb_field list \<Rightarrow> nat \<Rightarrow> nat \<Rightarrow> bool" where
  "static_message 0 env fs dest hi \<longleftrightarrow> False"
| "static_message (Suc n) env fs dest hi \<longleftrightarrow>
     (if last_field fs
      then fs \<noteq> [] \<and> pf_type (hd fs) = 0 \<and> dest + pf_data_offset (hd fs) + max 1 (pf_data_size (hd fs)) \<le> hi
      else \<forall>it \<in> set (iters (snd (pb_field_iter_begin fs dest))). field_at dest hi it \<and>
        (PB_LTYPE (pf_type (hd (it_pos it))) = PB_LTYPE_SUBMESSAGE \<longrightarrow>
         (\<forall>p \<in> set (items_of it).
            static_message n env (dn_fields env (pf_ptr (hd (it_pos it)))) p (p + pf_data_size (hd (it_pos it))))))"

lemma iter_fold_eq: "iter_fold body iter = fold body (iters iter)"
proof (induction iter rule: iters.induct)
  case (1 iter)
  obtain go iter' where n: "pb_field_iter_next iter = (go, iter')" by (cases "pb_field_iter_next iter")
  show ?case
    using 1 n by (cases go) (simp_all add: fun_eq_iff iter_fold.simps [of body iter] iters.simps [of iter])
qed

lemma iters_self [simp]: "iter \<in> set (iters iter)"
  by (subst iters.simps) simp

lemma iters_next: "it \<in> set (iters iter) \<Longrightarrow> pb_field_iter_next it = (True, it') \<Longrightarrow> it' \<in> set (iters iter)"
proof (induction iter rule: iters.induct)
  case (1 iter)
  obtain go iter' where n: "pb_field_iter_next iter = (go, iter')" by (cases "pb_field_iter_next iter")
  have unfold: "iters iter = iter # (if go then iters iter' else [])" by (subst iters.simps) (simp add: n split: bool.split)
  show ?case
  proof (cases "it = iter")
    case True
    then show ?thesis using 1(3) n by (simp add: unfold)
  next
    case False
    then have "go" "it \<in> set (iters iter')" using 1(2) by (auto simp: unfold split: if_splits)
    then show ?thesis using 1(1) n 1(3) by (simp add: unfold)
  qed
qed

text \<open>The positions of a message: where they come from, and where they go.\<close>

definition position :: "pb_field list \<Rightarrow> nat \<Rightarrow> pb_field_iter \<Rightarrow> bool" where
  "position fs dest it \<longleftrightarrow> it \<in> set (iters (snd (pb_field_iter_begin fs dest)))"

lemma next_fields:
  assumes "pb_field_iter_next it = (go, it')"
  shows "it_start it' = it_start it" and "it_dest_struct it' = it_dest_struct it" and "go \<Longrightarrow> \<not> last_field (it_pos it')"
    and "\<not> go \<Longrightarrow> \<not> last_field (it_pos it) \<Longrightarrow> it' = snd (pb_field_iter_begin (it_start it) (it_dest_struct it))"
  using assms by (auto simp: pb_field_iter_next_def Let_def pb_field_iter_begin_def split: if_splits)

lemma iters_fields:
  assumes "it \<in> set (iters iter)" and "\<not> last_field (it_pos iter)"
  shows "it_start it = it_start iter \<and> it_dest_struct it = it_dest_struct iter \<and> \<not> last_field (it_pos it)"
  using assms
proof (induction iter rule: iters.induct)
  case (1 iter)
  obtain go iter' where n: "pb_field_iter_next iter = (go, iter')" by (cases "pb_field_iter_next iter")
  have unfold: "iters iter = iter # (if go then iters iter' else [])" by (subst iters.simps) (simp add: n split: bool.split)
  show ?case
  proof (cases "it = iter")
    case False
    then have go: "go" "it \<in> set (iters iter')" using 1(2) by (auto simp: unfold split: if_splits)
    then show ?thesis using 1(1) n next_fields [OF n] by auto
  qed (use 1 in simp)
qed

lemma position_fields:
  assumes "position fs dest it"
  shows "last_field fs \<Longrightarrow> it = snd (pb_field_iter_begin fs dest)"
    and "\<not> last_field fs \<Longrightarrow> it_start it = fs \<and> it_dest_struct it = dest \<and> \<not> last_field (it_pos it)"
proof -
  let ?b = "snd (pb_field_iter_begin fs dest)"
  have b: "it_start ?b = fs" "it_dest_struct ?b = dest" "it_pos ?b = fs" by (simp_all add: pb_field_iter_begin_def Let_def)
  show "\<not> last_field fs \<Longrightarrow> it_start it = fs \<and> it_dest_struct it = dest \<and> \<not> last_field (it_pos it)"
    using iters_fields [of it ?b] assms b by (simp add: position_def)
  assume "last_field fs"
  then have "pb_field_iter_next ?b = (False, ?b)" by (simp add: pb_field_iter_next_def b)
  then show "it = ?b" using assms by (simp add: position_def iters.simps [of ?b])
qed

lemma position_next:
  assumes "position fs dest it"
  shows "position fs dest (snd (pb_field_iter_next it))"
proof (cases "last_field fs")
  case True
  have "last_field (it_pos it)" unfolding position_fields(1) [OF assms True] using True by (simp add: pb_field_iter_begin_def Let_def)
  then show ?thesis using assms by (simp add: pb_field_iter_next_def)
next
  case False
  obtain go it' where n: "pb_field_iter_next it = (go, it')" by (cases "pb_field_iter_next it")
  then show ?thesis
    using iters_next [of it _ it'] assms position_fields(2) [OF assms False] next_fields(4) [OF n]
    by (cases go) (auto simp: position_def)
qed

text \<open>The decoder may have replaced the count of an array without one by its own.\<close>

definition near :: "pb_field list \<Rightarrow> nat \<Rightarrow> nat \<Rightarrow> pb_field_iter \<Rightarrow> bool" where
  "near fs dest local it \<longleftrightarrow> (\<exists>it0. position fs dest it0 \<and>
     (it = it0 \<or> PB_HTYPE (pf_type (hd (it_pos it0))) = PB_HTYPE_REPEATED \<and> it = it0\<lparr>it_pSize := local\<rparr>))"

lemma position_near: "position fs dest it \<Longrightarrow> near fs dest local it"
  by (auto simp: near_def)

lemma position_begin: "position fs dest (snd (pb_field_iter_begin fs dest))"
  by (simp add: position_def)

lemma next_other_size:
  assumes "PB_HTYPE (pf_type (hd (it_pos it))) = PB_HTYPE_REPEATED"
  shows "snd (pb_field_iter_next (it\<lparr>it_pSize := p\<rparr>)) = snd (pb_field_iter_next it) \<or> last_field (it_pos it)"
  using assms by (auto simp: pb_field_iter_next_def Let_def ht_defs)

lemma near_next:
  assumes near: "near fs dest local it" and static: "static_message (Suc n) env fs dest hi"
  shows "position fs dest (snd (pb_field_iter_next it))"
proof -
  obtain it0 where it0: "position fs dest it0" "it = it0 \<or> PB_HTYPE (pf_type (hd (it_pos it0))) = PB_HTYPE_REPEATED \<and> it = it0\<lparr>it_pSize := local\<rparr>"
    using near by (auto simp: near_def)
  show ?thesis
  proof (cases "last_field fs")
    case True
    then have "PB_HTYPE (pf_type (hd (it_pos it0))) \<noteq> PB_HTYPE_REPEATED"
      using static position_fields(1) [OF it0(1)] by (simp add: pb_field_iter_begin_def Let_def PB_HTYPE_def ht_defs)
    then show ?thesis using it0 position_next [OF it0(1)] by simp
  next
    case False
    then show ?thesis
      using it0(2) position_next [OF it0(1)] next_other_size [of it0 local] position_fields(2) [OF it0(1)] by auto
  qed
qed

lemma near_search:
  assumes "near fs dest local it" and "static_message (Suc n) env fs dest hi"
  shows "near fs dest local (snd (iter_search wanted start m it))"
  using assms(1)
proof (induction m arbitrary: it)
  case (Suc m)
  have "near fs dest local (snd (pb_field_iter_next it))"
    using near_next [OF Suc.prems assms(2)] by (rule position_near)
  then show ?case using Suc by (simp add: Let_def)
qed simp

text \<open>What safety needs of a field.\<close>

definition tame :: "nat \<Rightarrow> 'st pb_denv \<Rightarrow> nat set \<Rightarrow> pb_field_iter \<Rightarrow> bool" where
  "tame n env R it \<longleftrightarrow>
     (let field = hd (it_pos it); htype = PB_HTYPE (pf_type field);
          sub = (\<lambda>p. PB_LTYPE (pf_type field) = PB_LTYPE_SUBMESSAGE \<longrightarrow>
                  static_message n env (dn_fields env (pf_ptr field)) p (p + pf_data_size field))
      in PB_ATYPE (pf_type field) = PB_ATYPE_STATIC \<and> PB_LTYPE (pf_type field) \<noteq> PB_LTYPE_EXTENSION \<and>
         (htype \<noteq> PB_HTYPE_REPEATED \<longrightarrow> {it_pData it..<it_pData it + extent field} \<subseteq> R \<and> sub (it_pData it)) \<and>
         (htype = PB_HTYPE_REPEATED \<longrightarrow>
           (\<forall>i<pf_array_size field. item_at (it_pData it) field i = it_pData it + i * pf_data_size field \<and>
              {it_pData it + i * pf_data_size field..<it_pData it + i * pf_data_size field + extent field} \<subseteq> R \<and>
              sub (it_pData it + i * pf_data_size field))) \<and>
         (htype = PB_HTYPE_OPTIONAL \<longrightarrow> it_pSize it = it_pData it \<or> it_pSize it \<in> R) \<and>
         (htype = PB_HTYPE_REPEATED \<or> htype = PB_HTYPE_ONEOF \<longrightarrow> {it_pSize it..<it_pSize it + 4} \<subseteq> R))"

lemma tame_last:
  assumes static: "static_message (Suc n) env fs dest hi" and "last_field fs" and R: "{dest..<hi} \<subseteq> R"
    and it: "position fs dest it"
  shows "tame n env R it"
proof -
  have "it = snd (pb_field_iter_begin fs dest)" by (rule position_fields(1) [OF it assms(2)])
  then have pos: "it_pos it = fs" and data: "it_pData it = dest + pf_data_offset (hd fs)"
    by (simp_all add: pb_field_iter_begin_def Let_def)
  have type: "pf_type (hd fs) = 0" and hi: "it_pData it + max 1 (pf_data_size (hd fs)) \<le> hi"
    using static assms(2) data by simp_all
  have "{it_pData it..<it_pData it + extent (hd fs)} \<subseteq> R"
    using R hi data type by (auto simp: extent_def subset_iff max_def PB_LTYPE_def lt_defs split: if_splits)
  then show ?thesis
    unfolding tame_def Let_def pos type
    by (simp add: PB_ATYPE_def PB_LTYPE_def PB_HTYPE_def ht_defs lt_defs PB_ATYPE_STATIC_def PB_LTYPE_EXTENSION_def)
qed

lemma tame_position:
  assumes static: "static_message (Suc n) env fs dest hi" and R: "{dest..<hi} \<subseteq> R"
    and it: "position fs dest it"
  shows "tame n env R it"
proof (cases "last_field fs")
  case False
  let ?f = "hd (it_pos it)"
  let ?sz = "pf_data_size ?f"
  have at: "field_at dest hi it"
    and sub: "PB_LTYPE (pf_type ?f) = PB_LTYPE_SUBMESSAGE \<Longrightarrow> p \<in> set (items_of it) \<Longrightarrow>
      static_message n env (dn_fields env (pf_ptr ?f)) p (p + ?sz)" for p
    using static False it by (auto simp: position_def)
  then have ext: "extent ?f = ?sz" by (intro extent_ok) (simp add: field_at_def Let_def)
  have range: "{a..<b} \<subseteq> R" if "dest \<le> a" "b \<le> hi" for a b using R that by (auto simp: subset_iff)
  have item: "item_at (it_pData it) ?f i = it_pData it + i * ?sz \<and> {it_pData it + i * ?sz..<it_pData it + i * ?sz + ?sz} \<subseteq> R \<and>
      (PB_LTYPE (pf_type ?f) = PB_LTYPE_SUBMESSAGE \<longrightarrow>
        static_message n env (dn_fields env (pf_ptr ?f)) (it_pData it + i * ?sz) (it_pData it + i * ?sz + ?sz))"
    if "PB_HTYPE (pf_type ?f) = PB_HTYPE_REPEATED" "i < pf_array_size ?f" for i
  proof -
    have "Suc i * ?sz \<le> pf_array_size ?f * ?sz" using that(2) by (intro mult_right_mono) simp_all
    then have le: "i * ?sz + ?sz \<le> ?sz * pf_array_size ?f" by (simp add: mult.commute)
    have hi: "dest \<le> it_pData it" "it_pData it + ?sz * pf_array_size ?f \<le> hi" "?sz * pf_array_size ?f < 2 ^ 32"
      using at that(1) by (simp_all add: field_at_def Let_def)
    have "0 < ?sz \<Longrightarrow> i * ?sz < 2 ^ 32" using le hi(3) by linarith
    then have mod: "?sz * i mod 2 ^ 32 = i * ?sz" by (cases "?sz = 0") (simp_all add: mult.commute)
    have "it_pData it + i * ?sz \<in> set (items_of it)" using that by (auto simp: items_of_def Let_def)
    then show ?thesis using mod sub range [of "it_pData it + i * ?sz" "it_pData it + i * ?sz + ?sz"] hi le by (simp add: item_at_def)
  qed
  have one: "{it_pData it..<it_pData it + ?sz} \<subseteq> R \<and> (PB_LTYPE (pf_type ?f) = PB_LTYPE_SUBMESSAGE \<longrightarrow>
        static_message n env (dn_fields env (pf_ptr ?f)) (it_pData it) (it_pData it + ?sz))"
    if "PB_HTYPE (pf_type ?f) \<noteq> PB_HTYPE_REPEATED"
    using at that sub [of "it_pData it"] range [of "it_pData it" "it_pData it + ?sz"]
    by (simp add: field_at_def items_of_def Let_def)
  have flag: "PB_HTYPE (pf_type ?f) = PB_HTYPE_OPTIONAL \<Longrightarrow> it_pSize it = it_pData it \<or> it_pSize it \<in> R"
    using at R by (auto simp: field_at_def Let_def ht_defs subset_iff)
  have count: "{it_pSize it..<it_pSize it + 4} \<subseteq> R"
    if "PB_HTYPE (pf_type ?f) = PB_HTYPE_REPEATED \<or> PB_HTYPE (pf_type ?f) = PB_HTYPE_ONEOF"
    by (rule range) (use at that in \<open>auto simp: field_at_def Let_def ht_defs\<close>)
  show ?thesis
    unfolding tame_def Let_def using at item one flag count by (simp add: field_at_def Let_def ext)
qed (rule tame_last [OF static _ R it])

lemma tame_near:
  assumes "static_message (Suc n) env fs dest hi" and "{dest..<hi} \<subseteq> R" and "{local..<local + 4} \<subseteq> R"
    and "near fs dest local it"
  shows "tame n env R it"
proof -
  obtain it0 where it0: "position fs dest it0" "it = it0 \<or> PB_HTYPE (pf_type (hd (it_pos it0))) = PB_HTYPE_REPEATED \<and> it = it0\<lparr>it_pSize := local\<rparr>"
    using assms(4) by (auto simp: near_def)
  have tame: "tame n env R it0" by (rule tame_position [OF assms(1-2) it0(1)])
  from it0(2) show ?thesis
  proof (elim disjE conjE)
    assume ht: "PB_HTYPE (pf_type (hd (it_pos it0))) = PB_HTYPE_REPEATED" and it: "it = it0\<lparr>it_pSize := local\<rparr>"
    have no: "PB_HTYPE_REPEATED \<noteq> PB_HTYPE_OPTIONAL" by (simp add: ht_defs)
    show ?thesis using tame ht assms(3) no unfolding it tame_def Let_def by simp
  qed (use tame in simp)
qed

end
