(* ===== verification/Pb_Safe_Message.thy ===== *)
theory Pb_Safe_Message
  imports Pb_Safe
begin

text \<open>
  Memory safety of the message decoder of nanopb, for messages of static fields: defaults and release,
  single fields, and the loop over a message, with the number of bytes left as its measure.
\<close>

section \<open>Defaults and release\<close>

lemma tameD:
  assumes "tame n env R it"
  shows "PB_ATYPE (pf_type (hd (it_pos it))) = PB_ATYPE_STATIC" and "PB_LTYPE (pf_type (hd (it_pos it))) \<noteq> PB_LTYPE_EXTENSION"
    and "PB_HTYPE (pf_type (hd (it_pos it))) \<noteq> PB_HTYPE_REPEATED \<Longrightarrow> {it_pData it..<it_pData it + extent (hd (it_pos it))} \<subseteq> R"
    and "PB_HTYPE (pf_type (hd (it_pos it))) \<noteq> PB_HTYPE_REPEATED \<Longrightarrow> PB_LTYPE (pf_type (hd (it_pos it))) = PB_LTYPE_SUBMESSAGE \<Longrightarrow>
      static_message n env (dn_fields env (pf_ptr (hd (it_pos it)))) (it_pData it) (it_pData it + pf_data_size (hd (it_pos it)))"
    and "PB_HTYPE (pf_type (hd (it_pos it))) = PB_HTYPE_REPEATED \<Longrightarrow> i < pf_array_size (hd (it_pos it)) \<Longrightarrow>
      item_at (it_pData it) (hd (it_pos it)) i = it_pData it + i * pf_data_size (hd (it_pos it)) \<and>
      {item_at (it_pData it) (hd (it_pos it)) i..<item_at (it_pData it) (hd (it_pos it)) i + extent (hd (it_pos it))} \<subseteq> R \<and>
      (PB_LTYPE (pf_type (hd (it_pos it))) = PB_LTYPE_SUBMESSAGE \<longrightarrow>
        static_message n env (dn_fields env (pf_ptr (hd (it_pos it)))) (item_at (it_pData it) (hd (it_pos it)) i)
          (item_at (it_pData it) (hd (it_pos it)) i + pf_data_size (hd (it_pos it))))"
    and "PB_HTYPE (pf_type (hd (it_pos it))) = PB_HTYPE_OPTIONAL \<Longrightarrow> it_pSize it = it_pData it \<or> it_pSize it \<in> R"
    and "PB_HTYPE (pf_type (hd (it_pos it))) = PB_HTYPE_REPEATED \<or> PB_HTYPE (pf_type (hd (it_pos it))) = PB_HTYPE_ONEOF \<Longrightarrow>
      {it_pSize it..<it_pSize it + 4} \<subseteq> R"
  using assms by (simp_all add: tame_def Let_def) (elim disjE; simp)

lemma tame_data:
  assumes "tame n env R it" and "PB_HTYPE (pf_type (hd (it_pos it))) \<noteq> PB_HTYPE_REPEATED"
  shows "{it_pData it..<it_pData it + pf_data_size (hd (it_pos it))} \<subseteq> R"
  using tameD(3) [OF assms] by (auto simp: extent_def subset_iff)

lemma calm_if: "(c \<Longrightarrow> calm R f) \<Longrightarrow> (\<not> c \<Longrightarrow> calm R g) \<Longrightarrow> calm R (\<lambda>h. if c then f h else g h)"
  by (cases c) simp_all

lemma calm_default_static:
  assumes tame: "tame n env R it"
    and msg: "\<And>fs p hi. static_message n env fs p hi \<Longrightarrow> {p..<hi} \<subseteq> R \<Longrightarrow> calm R (msg fs p)"
  shows "calm R (default_static env msg it)"
proof -
  let ?f = "hd (it_pos it)"
  define init_data where "init_data = (\<lambda>h. if PB_LTYPE (pf_type ?f) = PB_LTYPE_SUBMESSAGE
    then msg (dn_fields env (pf_ptr ?f)) (it_pData it) h
    else if pf_ptr ?f \<noteq> 0 then poke (it_pData it) (bytes_at (hp_mem h) (pf_ptr ?f) (pf_data_size ?f)) h
    else poke (it_pData it) (zeros (pf_data_size ?f)) h)"
  have init: "calm R init_data" if one: "PB_HTYPE (pf_type ?f) \<noteq> PB_HTYPE_REPEATED"
  proof -
    have R: "{it_pData it..<it_pData it + pf_data_size ?f} \<subseteq> R" by (rule tame_data [OF tame one])
    have "calm R (\<lambda>h. poke (it_pData it) (bytes_at (hp_mem h) (pf_ptr ?f) (pf_data_size ?f)) h)"
      by (rule calm_dep, rule calm_poke) (use R in \<open>simp add: bytes_at_def\<close>)
    moreover have "calm R (poke (it_pData it) (zeros (pf_data_size ?f)))"
      by (rule calm_poke) (use R in \<open>simp add: zeros_def\<close>)
    moreover have "PB_LTYPE (pf_type ?f) = PB_LTYPE_SUBMESSAGE \<Longrightarrow> calm R (msg (dn_fields env (pf_ptr ?f)) (it_pData it))"
      by (rule msg [OF tameD(4) [OF tame one] R])
    ultimately show ?thesis unfolding init_data_def by (intro calm_if)
  qed
  have no: "PB_HTYPE_OPTIONAL \<noteq> PB_HTYPE_REPEATED" by (simp add: ht_defs)
  have "calm R (\<lambda>h. init_data (poke (it_pSize it) [0] h))"
    if "PB_HTYPE (pf_type ?f) = PB_HTYPE_OPTIONAL \<and> it_pSize it \<noteq> it_pData it"
    by (rule calm_comp [OF init calm_poke]) (use that tameD(6) [OF tame] no in auto)
  moreover have "calm R (poke (it_pSize it) (zeros 4))"
    if "PB_HTYPE (pf_type ?f) = PB_HTYPE_REPEATED \<or> PB_HTYPE (pf_type ?f) = PB_HTYPE_ONEOF"
    by (rule calm_poke) (use tameD(7) [OF tame that] in \<open>simp add: zeros_def\<close>)
  ultimately have "calm R (\<lambda>h. if PB_HTYPE (pf_type ?f) = PB_HTYPE_OPTIONAL \<and> it_pSize it \<noteq> it_pData it
      then init_data (poke (it_pSize it) [0] h)
      else if PB_HTYPE (pf_type ?f) = PB_HTYPE_REPEATED \<or> PB_HTYPE (pf_type ?f) = PB_HTYPE_ONEOF
      then poke (it_pSize it) (zeros 4) h
      else init_data h)"
    using init by (intro calm_if) auto
  then show ?thesis unfolding default_static_def Let_def init_data_def .
qed

lemma calm_field_default:
  assumes "tame n env R it" and "\<And>fs p hi. static_message n env fs p hi \<Longrightarrow> {p..<hi} \<subseteq> R \<Longrightarrow> calm R (msg fs p)"
  shows "calm R (pb_field_set_to_default m env msg it)"
  using calm_default_static [OF assms] tameD(1,2) [OF assms(1)]
  by (simp add: calm_def pb_field_set_to_default.simps Let_def)

lemma calm_message_defaults:
  "static_message n env fs dest hi \<Longrightarrow> {dest..<hi} \<subseteq> R \<Longrightarrow> calm R (pb_message_set_to_defaults n env fs dest)"
proof (induction n arbitrary: fs dest hi)
  case (Suc n)
  have "calm R (fold (pb_field_set_to_default n env (pb_message_set_to_defaults n env)) (iters (snd (pb_field_iter_begin fs dest))))"
  proof (rule calm_fold)
    fix it assume "it \<in> set (iters (snd (pb_field_iter_begin fs dest)))"
    then have "tame n env R it" using tame_position [OF Suc.prems] by (simp add: position_def)
    then show "calm R (pb_field_set_to_default n env (pb_message_set_to_defaults n env) it)"
      by (rule calm_field_default) (rule Suc.IH)
  qed
  then show ?case
    by (cases "pb_field_iter_begin fs dest"; cases "fst (pb_field_iter_begin fs dest)") (simp_all add: iter_fold_eq calm_def)
qed simp

lemma calm_release_submessages:
  assumes tame: "tame n env R it" and sub: "PB_LTYPE (pf_type (hd (it_pos it))) = PB_LTYPE_SUBMESSAGE"
    and rel: "\<And>fs p hi. static_message n env fs p hi \<Longrightarrow> {p..<hi} \<subseteq> R \<Longrightarrow> calm {} (rel fs p)"
  shows "calm {} (release_submessages env rel it)"
proof -
  let ?f = "hd (it_pos it)"
  have np: "PB_ATYPE (pf_type ?f) \<noteq> PB_ATYPE_POINTER" using tameD(1) [OF tame] by (simp add: PB_ATYPE_STATIC_def PB_ATYPE_POINTER_def)
  have item: "calm {} (rel (dn_fields env (pf_ptr ?f)) (it_pData it + i * pf_data_size ?f))"
    if "if PB_HTYPE (pf_type ?f) = PB_HTYPE_REPEATED then i < pf_array_size ?f else i = 0" for i
  proof (cases "PB_HTYPE (pf_type ?f) = PB_HTYPE_REPEATED")
    case True
    have i: "i < pf_array_size ?f" using that True by simp
    show ?thesis
      using tameD(5) [OF tame True i] sub
      by (intro rel) (auto simp: extent_def subset_iff)
  next
    case False
    then show ?thesis using that tameD(4) [OF tame False sub] tame_data [OF tame False] by (simp add: rel)
  qed
  define count where "count = (\<lambda>h. if PB_HTYPE (pf_type ?f) = PB_HTYPE_REPEATED
    then min (pf_array_size ?f) (if it_pSize it = it_pData it then pf_array_size ?f else peek 4 h (it_pSize it)) else 1)"
  have "calm {} (\<lambda>h. fold (\<lambda>i. rel (dn_fields env (pf_ptr ?f)) (it_pData it + i * pf_data_size ?f)) [0..<count h] h)"
  proof (rule calm_dep, rule calm_fold, rule item)
    fix h i assume "i \<in> set [0..<count h]"
    then show "if PB_HTYPE (pf_type ?f) = PB_HTYPE_REPEATED then i < pf_array_size ?f else i = 0"
      by (auto simp: count_def split: if_splits)
  qed
  moreover have "release_submessages env rel it = (\<lambda>h. if it_pData it = 0 then h
      else fold (\<lambda>i. rel (dn_fields env (pf_ptr ?f)) (it_pData it + i * pf_data_size ?f)) [0..<count h] h)"
    using np tameD(1) [OF tame] by (simp add: fun_eq_iff release_submessages_def Let_def count_def min_def)
  ultimately show ?thesis by (simp add: calm_if calm_id)
qed

lemma calm_single_release:
  assumes "tame n env R it" and "\<And>fs p hi. static_message n env fs p hi \<Longrightarrow> {p..<hi} \<subseteq> R \<Longrightarrow> calm {} (rel fs p)"
  shows "calm {} (pb_release_single_field m env rel it)"
proof -
  have "PB_ATYPE (pf_type (hd (it_pos it))) \<noteq> PB_ATYPE_POINTER"
    using tameD(1) [OF assms(1)] by (simp add: PB_ATYPE_STATIC_def PB_ATYPE_POINTER_def)
  then show ?thesis
    using calm_release_submessages [OF assms(1) _ assms(2)] tameD(2) [OF assms(1)]
    by (cases "PB_LTYPE (pf_type (hd (it_pos it))) = PB_LTYPE_SUBMESSAGE")
      (simp_all add: calm_def pb_release_single_field.simps Let_def)
qed

lemma calm_release: "static_message n env fs dest hi \<Longrightarrow> {dest..<hi} \<subseteq> R \<Longrightarrow> calm {} (pb_release n env fs dest)"
proof (induction n arbitrary: fs dest hi)
  case (Suc n)
  have "calm {} (fold (pb_release_single_field n env (pb_release n env)) (iters (snd (pb_field_iter_begin fs dest))))"
  proof (rule calm_fold)
    fix it assume "it \<in> set (iters (snd (pb_field_iter_begin fs dest)))"
    then have "tame n env R it" using tame_position [OF Suc.prems] by (simp add: position_def)
    then show "calm {} (pb_release_single_field n env (pb_release n env) it)"
      by (rule calm_single_release) (rule Suc.IH)
  qed
  then show ?case
    by (cases "pb_field_iter_begin fs dest"; cases "fst (pb_field_iter_begin fs dest)") (simp_all add: iter_fold_eq calm_def)
qed simp

section \<open>Fields\<close>

definition sub_safe :: "nat \<Rightarrow> 'st pb_denv \<Rightarrow> nat set \<Rightarrow> 'st msg_decoder \<Rightarrow> 'st msg_decoder \<Rightarrow> bool" where
  "sub_safe n env R noinit init \<longleftrightarrow> (\<forall>fs p hi. static_message n env fs p hi \<and> {p..<hi} \<subseteq> R \<longrightarrow> safe R (noinit fs p) \<and> safe R (init fs p))"

lemma safe_func:
  assumes tame: "tame n env R it" and sub: "sub_safe n env R noinit init"
  shows "PB_HTYPE (pf_type (hd (it_pos it))) \<noteq> PB_HTYPE_REPEATED \<Longrightarrow> safe R (PB_DECODERS env noinit init (hd (it_pos it)) (it_pData it))"
    and "PB_HTYPE (pf_type (hd (it_pos it))) = PB_HTYPE_REPEATED \<Longrightarrow> i < pf_array_size (hd (it_pos it)) \<Longrightarrow>
      safe R (PB_DECODERS env noinit init (hd (it_pos it)) (item_at (it_pData it) (hd (it_pos it)) i))"
proof -
  let ?f = "hd (it_pos it)"
  have at: "safe R (PB_DECODERS env noinit init ?f p)"
    if "{p..<p + extent ?f} \<subseteq> R" "PB_LTYPE (pf_type ?f) = PB_LTYPE_SUBMESSAGE \<longrightarrow>
      static_message n env (dn_fields env (pf_ptr ?f)) p (p + pf_data_size ?f)" for p
  proof (rule safe_DECODERS [OF tameD(1) [OF tame] that(1)])
    have "{p..<p + pf_data_size ?f} \<subseteq> R" using that(1) by (auto simp: extent_def subset_iff)
    then show "PB_LTYPE (pf_type ?f) = PB_LTYPE_SUBMESSAGE \<Longrightarrow>
      safe R (noinit (dn_fields env (pf_ptr ?f)) p) \<and> safe R (init (dn_fields env (pf_ptr ?f)) p)"
      using sub that(2) unfolding sub_safe_def by blast
  qed
  show "PB_HTYPE (pf_type ?f) \<noteq> PB_HTYPE_REPEATED \<Longrightarrow> safe R (PB_DECODERS env noinit init ?f (it_pData it))"
    using at tameD(3,4) [OF tame] by blast
  show "PB_HTYPE (pf_type ?f) = PB_HTYPE_REPEATED \<Longrightarrow> i < pf_array_size ?f \<Longrightarrow>
      safe R (PB_DECODERS env noinit init ?f (item_at (it_pData it) ?f i))"
    using at tameD(5) [OF tame] by blast
qed

lemma calm_count_up: "{p..<p + 4} \<subseteq> R \<Longrightarrow> calm R (count_up p)"
  unfolding count_up_def [abs_def] by (rule calm_dep, rule calm_poke) simp

lemma static_items_safe:
  assumes tame: "tame n env R it" and sub: "sub_safe n env R noinit init"
    and rep: "PB_HTYPE (pf_type (hd (it_pos it))) = PB_HTYPE_REPEATED" and lt: "PB_LTYPE (pf_type (hd (it_pos it))) \<le> PB_LTYPE_LAST_PACKABLE"
  shows "polite s \<Longrightarrow> is_bytes_left s \<le> m \<Longrightarrow> static_items m (PB_DECODERS env noinit init) it (s, h) = (r, (s', h')) \<Longrightarrow>
    stays s s' \<and> hp_deep h' = hp_deep h \<and> (\<forall>a. a \<notin> R \<longrightarrow> hp_mem h' a = hp_mem h a)"
proof (induction m arbitrary: s h)
  case 0
  then show ?case by (simp add: static_items.simps Let_def)
next
  case (Suc m)
  let ?f = "hd (it_pos it)"
  let ?n = "peek 4 h (it_pSize it)"
  show ?case
  proof (cases "is_bytes_left s > 0 \<and> ?n < pf_array_size ?f")
    case False
    then show ?thesis using Suc.prems(3) by (auto simp: static_items.simps Let_def)
  next
    case True
    obtain q t i where q: "PB_DECODERS env noinit init ?f (item_at (it_pData it) ?f ?n) (s, h) = (q, (t, i))"
      by (cases "PB_DECODERS env noinit init ?f (item_at (it_pData it) ?f ?n) (s, h)") auto
    have safe: "safe R (PB_DECODERS env noinit init ?f (item_at (it_pData it) ?f ?n))"
      using safe_func(2) [OF tame sub rep] True by blast
    note one = safeD [OF safe q Suc.prems(1)]
    show ?thesis
    proof (cases q)
      case None
      then show ?thesis using Suc.prems(3) True q one by (auto simp: static_items.simps Let_def)
    next
      case (Some u)
      have "is_bytes_left t < is_bytes_left s"
        using packable_eats [OF lt Suc.prems(1), of env noinit init] q Some by blast
      then have "is_bytes_left t \<le> m" using Suc.prems(2) by simp
      moreover have "static_items m (PB_DECODERS env noinit init) it (t, count_up (it_pSize it) i) = (r, (s', h'))"
        using Suc.prems(3) True q Some by (simp add: static_items.simps Let_def)
      ultimately have rest: "stays t s' \<and> hp_deep h' = hp_deep (count_up (it_pSize it) i) \<and>
          (\<forall>a. a \<notin> R \<longrightarrow> hp_mem h' a = hp_mem (count_up (it_pSize it) i) a)"
        using Suc.IH one(4) by blast
      have "calm R (count_up (it_pSize it))" using calm_count_up tameD(7) [OF tame] rep by blast
      then show ?thesis using rest one stays_trans by (auto simp: calm_def)
    qed
  qed
qed

lemma safe_packed:
  assumes items: "\<And>s h r s' h'. polite s \<Longrightarrow> items (is_bytes_left s) (s, h) = (r, (s', h')) \<Longrightarrow>
    stays s s' \<and> hp_deep h' = hp_deep h \<and> (\<forall>a. a \<notin> R \<longrightarrow> hp_mem h' a = hp_mem h a)"
  shows "safe R (act_bind (on_stream pb_make_string_substream) (\<lambda>substream (stream, h).
     case items (is_bytes_left substream) (substream, h) of
       (status, (substream, h)) \<Rightarrow>
         if is_bytes_left substream \<noteq> 0 then dec_error msg (stream, h)
         else (case pb_close_string_substream substream stream of
                 (None, stream) \<Rightarrow> (None, (stream, h))
               | (Some _, stream) \<Rightarrow> (status, (stream, h)))))" (is "safe R ?f")
proof (rule safeI)
  fix s h r s' h'
  assume s: "polite s" and run: "?f (s, h) = (r, (s', h'))"
  obtain q t where q: "pb_make_string_substream s = (q, t)" by (cases "pb_make_string_substream s")
  have t: "stays s t" by (rule shrinksD [OF shrinks_make q])
  show "stays s s' \<and> hp_deep h' = hp_deep h \<and> (\<forall>a. a \<notin> R \<longrightarrow> hp_mem h' a = hp_mem h a)"
  proof (cases q)
    case None
    then show ?thesis using run q t by (auto simp: on_stream_def act_bind_def)
  next
    case (Some sub)
    obtain status sub' i where d: "items (is_bytes_left sub) (sub, h) = (status, (sub', i))"
      by (cases "items (is_bytes_left sub) (sub, h)") auto
    obtain p u where p: "pb_close_string_substream sub' t = (p, u)" by (cases "pb_close_string_substream sub' t")
    have "polite sub" using make_sub [of s sub t] q Some s by (simp add: polite_def)
    note i = items [OF this d]
    show ?thesis
    proof (cases "is_bytes_left sub' \<noteq> 0")
      case True
      then show ?thesis using run q Some d i t by (auto simp: on_stream_def act_bind_def dec_error_def is_return_error_def)
    next
      case False
      then show ?thesis
        using run q Some d p i stays_trans [OF t close_stays [OF p]]
        by (auto simp: on_stream_def act_bind_def split: option.splits)
    qed
  qed
qed

lemma safe_static_field:
  assumes tame: "tame n env R it" and sub: "sub_safe n env R noinit init"
  shows "safe R (decode_static_field n env noinit init wt it)"
proof -
  let ?f = "hd (it_pos it)"
  let ?func = "PB_DECODERS env noinit init"
  have no: "PB_HTYPE_REQUIRED \<noteq> PB_HTYPE_REPEATED" "PB_HTYPE_OPTIONAL \<noteq> PB_HTYPE_REPEATED" by (simp_all add: ht_defs)
  note one = safe_func(1) [OF tame sub] and item = safe_func(2) [OF tame sub]
  have flag: "safe R (if it_pSize it \<noteq> it_pData it then on_heap (poke (it_pSize it) [1]) else act_ret ())"
    if "PB_HTYPE (pf_type ?f) = PB_HTYPE_OPTIONAL"
    by (intro safe_if safe_ret safe_on_heap calm_poke) (use tameD(6) [OF tame that] in auto)
  have packed: "safe R (act_bind (on_stream pb_make_string_substream) (\<lambda>substream (stream, h).
      case static_items (is_bytes_left substream) ?func it (substream, h) of
        (status, (substream, h)) \<Rightarrow>
          if is_bytes_left substream \<noteq> 0 then dec_error ''array overflow'' (stream, h)
          else (case pb_close_string_substream substream stream of
                  (None, stream) \<Rightarrow> (None, (stream, h))
                | (Some _, stream) \<Rightarrow> (status, (stream, h)))))"
    if "PB_HTYPE (pf_type ?f) = PB_HTYPE_REPEATED" "PB_LTYPE (pf_type ?f) \<le> PB_LTYPE_LAST_PACKABLE"
    by (rule safe_packed) (rule static_items_safe [OF tame sub that], assumption, rule order_refl)
  have next_item: "safe R (with_heap (\<lambda>h.
      let i = peek 4 h (it_pSize it)
      in act_bind (on_heap (count_up (it_pSize it))) (\<lambda>_.
           if i \<ge> pf_array_size ?f then dec_error ''array overflow'' else ?func ?f (item_at (it_pData it) ?f i))))"
    if "PB_HTYPE (pf_type ?f) = PB_HTYPE_REPEATED"
    unfolding Let_def
    by (intro safe_with_heap safe_bind safe_if safe_error safe_on_heap calm_count_up item that)
      (use tameD(7) [OF tame] that in auto)
  have union: "safe R (act_bind (on_heap (poke (it_pSize it) (le_bytes 4 (unat (pf_tag ?f))))) (\<lambda>_.
      act_bind
        (if PB_LTYPE (pf_type ?f) = PB_LTYPE_SUBMESSAGE
         then on_heap (\<lambda>h. pb_message_set_to_defaults n env (dn_fields env (pf_ptr ?f)) (it_pData it)
                (poke (it_pData it) (zeros (pf_data_size ?f)) h))
         else act_ret ()) (\<lambda>_. ?func ?f (it_pData it))))"
    if ht: "PB_HTYPE (pf_type ?f) = PB_HTYPE_ONEOF"
  proof -
    have nr: "PB_HTYPE (pf_type ?f) \<noteq> PB_HTYPE_REPEATED" using ht by (simp add: ht_defs)
    have R: "{it_pData it..<it_pData it + pf_data_size ?f} \<subseteq> R" by (rule tame_data [OF tame nr])
    have "calm R (poke (it_pSize it) (le_bytes 4 (unat (pf_tag ?f))))" by (rule calm_poke) (use tameD(7) [OF tame] ht in simp)
    moreover have "calm R (poke (it_pData it) (zeros (pf_data_size ?f)))" by (rule calm_poke) (use R in \<open>simp add: zeros_def\<close>)
    moreover have "calm R (pb_message_set_to_defaults n env (dn_fields env (pf_ptr ?f)) (it_pData it))"
      if "PB_LTYPE (pf_type ?f) = PB_LTYPE_SUBMESSAGE"
      by (rule calm_message_defaults [OF tameD(4) [OF tame nr that] R])
    ultimately show ?thesis
      using calm_comp [of R "pb_message_set_to_defaults n env (dn_fields env (pf_ptr ?f)) (it_pData it)"]
      by (intro safe_bind safe_if safe_on_heap safe_ret one [OF nr]) auto
  qed
  have other: "PB_HTYPE (pf_type ?f) = PB_HTYPE_ONEOF"
    if "PB_HTYPE (pf_type ?f) \<noteq> PB_HTYPE_REQUIRED" "PB_HTYPE (pf_type ?f) \<noteq> PB_HTYPE_OPTIONAL"
      "PB_HTYPE (pf_type ?f) \<noteq> PB_HTYPE_REPEATED"
    by (rule htype_cases [of "pf_type ?f"]) (use that in blast)+
  have required: "safe R (?func ?f (it_pData it))" if "PB_HTYPE (pf_type ?f) = PB_HTYPE_REQUIRED"
    by (rule one) (simp add: that no)
  have optional: "safe R (?func ?f (it_pData it))" if "PB_HTYPE (pf_type ?f) = PB_HTYPE_OPTIONAL"
    by (rule one) (simp add: that no)
  show ?thesis
    unfolding decode_static_field_def Let_def
    by (intro safe_if, erule required, rule safe_bind [OF flag optional], assumption+, elim conjE, erule (1) packed,
      erule next_item [unfolded Let_def], rule union [OF other])
qed

subsection \<open>Unions\<close>

definition yields :: "('a \<Rightarrow> bool) \<Rightarrow> ('st, 'a) dec \<Rightarrow> bool" where
  "yields P f \<longleftrightarrow> (\<forall>st a st'. f st = (Some a, st') \<longrightarrow> P a)"

lemma yields_ret: "P a \<Longrightarrow> yields P (act_ret a)"
  by (simp add: yields_def act_ret_def)

lemma yields_error: "yields P (dec_error msg)"
  by (auto simp: yields_def dec_error_def on_stream_def is_return_error_def)

lemma yields_bind: "yields Q f \<Longrightarrow> (\<And>a. Q a \<Longrightarrow> yields P (g a)) \<Longrightarrow> yields P (act_bind f g)"
  unfolding yields_def act_bind_eq_Some by blast

lemma yields_any: "yields (\<lambda>_. True) f"
  by (simp add: yields_def)

lemma yields_if: "(c \<Longrightarrow> yields P f) \<Longrightarrow> (\<not> c \<Longrightarrow> yields P g) \<Longrightarrow> yields P (if c then f else g)"
  by simp

lemma yields_with_heap: "(\<And>h. yields P (f h)) \<Longrightarrow> yields P (with_heap f)"
  by (simp add: yields_def with_heap_def)

lemma safe_bind_yields:
  assumes f: "safe R f" and "yields P f" and g: "\<And>a. P a \<Longrightarrow> safe R (g a)"
  shows "safe R (act_bind f g)"
proof -
  have "act_bind f g = act_bind f (\<lambda>a. if P a then g a else act_fail)"
  proof
    fix st
    obtain q st' where q: "f st = (q, st')" by (cases "f st")
    then have "\<forall>a. q = Some a \<longrightarrow> P a" using assms(2) unfolding yields_def by blast
    then show "act_bind f g st = act_bind f (\<lambda>a. if P a then g a else act_fail) st"
      using q by (cases q) (simp_all add: act_bind_def)
  qed
  then show ?thesis using f g by (simp add: safe_bind safe_fail)
qed

lemma find_near:
  assumes "near fs dest local it" and "static_message (Suc n) env fs dest hi"
  shows "near fs dest local (snd (pb_field_iter_find tag it))"
  unfolding pb_field_iter_find_def by (rule near_search [OF assms])

lemma safe_release_union:
  fixes env :: "'st pb_denv"
  assumes static: "static_message (Suc n) env fs dest hi" and R: "{dest..<hi} \<subseteq> R" "{local..<local + 4} \<subseteq> R"
    and near: "near fs dest local it"
  shows "safe R (pb_release_union_field n env it)" and "yields (near fs dest local) (pb_release_union_field n env it)"
proof -
  have release: "safe R (on_heap (pb_release_single_field n env (pb_release n env) it'))" if "near fs dest local it'" for it'
  proof -
    have "calm {} (pb_release_single_field n env (pb_release n env) it')"
      by (rule calm_single_release [OF tame_near [OF static R that]]) (rule calm_release)
    then show ?thesis by (rule safe_on_heap [OF calm_mono]) simp
  qed
  have find: "near fs dest local (snd (pb_field_iter_find tag it'))" if "near fs dest local it'" for tag it'
    by (rule find_near [OF that static])
  define finish where "finish = (\<lambda>it' :: pb_field_iter. act_bind (on_heap (pb_release_single_field n env (pb_release n env) it')) (\<lambda>_ :: unit.
      case pb_field_iter_find (pf_tag (hd (it_pos it))) it' of
        (False, iter) \<Rightarrow> dec_error ''iterator error''
      | (True, iter) \<Rightarrow> act_ret iter) :: ('st, pb_field_iter) dec)"
  have finish: "safe R (finish it')" "yields (near fs dest local) (finish it')" if "near fs dest local it'" for it'
    unfolding finish_def using find [OF that, of "pf_tag (hd (it_pos it))"]
    by (auto intro!: safe_bind release that yields_bind [OF yields_any] safe_error yields_error yields_ret
      split: prod.split bool.split)
  have body: "pb_release_union_field n env it = with_heap (\<lambda>h.
      let old_tag = peek 4 h (it_pSize it); new_tag = pf_tag (hd (it_pos it))
      in if old_tag = 0 \<or> old_tag = unat new_tag then act_ret it
         else (case pb_field_iter_find (of_nat old_tag) it of
                 (False, iter) \<Rightarrow> dec_error ''invalid union tag''
               | (True, iter) \<Rightarrow> finish iter))"
    unfolding pb_release_union_field_def finish_def Let_def by (rule refl)
  have step: "safe R (case pb_field_iter_find tag it of (False, iter) \<Rightarrow> dec_error ''invalid union tag'' | (True, iter) \<Rightarrow> finish iter)"
    "yields (near fs dest local) (case pb_field_iter_find tag it of (False, iter) \<Rightarrow> dec_error ''invalid union tag'' | (True, iter) \<Rightarrow> finish iter)"
    for tag
    using finish [OF find [OF near, of tag]] by (auto intro!: safe_error yields_error split: prod.split bool.split)
  show "safe R (pb_release_union_field n env it)"
    unfolding body Let_def by (intro safe_with_heap safe_if safe_ret step)
  show "yields (near fs dest local) (pb_release_union_field n env it)"
    unfolding body Let_def by (intro yields_with_heap yields_if yields_ret near step)
qed

lemma safe_decode_field:
  fixes env :: "'st pb_denv"
  assumes static: "static_message (Suc n) env fs dest hi" and R: "{dest..<hi} \<subseteq> R" "{local..<local + 4} \<subseteq> R"
    and sub: "sub_safe n env R noinit init" and near: "near fs dest local it"
  shows "safe R (decode_field n env noinit init wt it)" and "yields (near fs dest local) (decode_field n env noinit init wt it)"
proof -
  have first: "safe R (if c then pb_release_union_field n env it else act_ret it)"
    "yields (near fs dest local) (if c then pb_release_union_field n env it else act_ret it)" for c
    using safe_release_union [OF static R near] near by (auto intro: yields_ret)
  have "safe R (let atype = PB_ATYPE (pf_type (hd (it_pos it')))
     in act_bind
          (if atype = PB_ATYPE_STATIC then decode_static_field n env noinit init wt it'
           else if atype = PB_ATYPE_POINTER then decode_pointer_field n env noinit init wt it'
           else if atype = PB_ATYPE_CALLBACK then decode_callback_field env wt it'
           else dec_error ''invalid field type'') (\<lambda>_. act_ret it'))" if "near fs dest local it'" for it'
    unfolding Let_def if_P [OF tameD(1) [OF tame_near [OF static R that]]]
    by (intro safe_bind safe_static_field [OF tame_near [OF static R that] sub] safe_ret)
  then show "safe R (decode_field n env noinit init wt it)"
    unfolding decode_field_def by (rule safe_bind_yields [OF first])
  show "yields (near fs dest local) (decode_field n env noinit init wt it)"
    unfolding decode_field_def Let_def by (rule yields_bind [OF first(2)]) (intro yields_bind [OF yields_any] yields_ret)
qed

section \<open>Messages\<close>

text \<open>A message of static fields has no place for extensions.\<close>

lemma search_none:
  assumes none: "\<And>it. near fs dest local it \<Longrightarrow> \<not> wanted (hd (it_pos it))" and static: "static_message (Suc n) env fs dest hi"
  shows "near fs dest local it \<Longrightarrow> \<not> fst (iter_search wanted start m it)"
proof (induction m arbitrary: it)
  case (Suc m)
  have "near fs dest local (snd (pb_field_iter_next it))"
    using near_next [OF Suc.prems static] by (rule position_near)
  then show ?case using Suc none by (simp add: Let_def)
qed simp

lemma tag_small:
  assumes "pb_decode_tag s = ((Some (wt, tag), eof), s')"
  shows "tag < 2 ^ 29" and "is_bytes_left s' < is_bytes_left s"
proof -
  obtain temp e where t: "pb_decode_varint32_eof s = ((Some temp, e), s')" "tag = drop_bit 3 temp"
    using assms by (auto simp: pb_decode_tag_def split: prod.splits option.splits if_splits)
  have "unat tag = unat temp div 8" unfolding t(2) by (simp only: unat_drop_bit_eq) (simp add: drop_bit_eq_div)
  moreover have "unat temp < 2 ^ 32" using unsigned_less [of temp] by simp
  ultimately have "unat tag < 2 ^ 29" by simp
  then show "tag < 2 ^ 29" by (simp add: word_less_nat_alt)
  show "is_bytes_left s' < is_bytes_left s" using varint32_eof_left(2) [OF t(1)] by simp
qed

lemma tag_stays: "pb_decode_tag s = (r, s') \<Longrightarrow> stays s s'"
  using varint32_eof_left(1) by (fastforce simp: pb_decode_tag_def split: prod.splits option.splits if_splits)

lemma safe_unknown_field:
  fixes env :: "'st pb_denv"
  assumes static: "static_message (Suc n) env fs dest hi" and R: "{dest..<hi} \<subseteq> R" "{local..<local + 4} \<subseteq> R"
    and near: "near fs dest local (ds_iter ds)" and tag: "tag < 2 ^ 29"
  shows "safe R (unknown_field n env noinit init tag wt ds)"
    and "yields (\<lambda>ds. near fs dest local (ds_iter ds)) (unknown_field n env noinit init tag wt ds)"
proof -
  have none: "\<not> PB_LTYPE (pf_type (hd (it_pos it))) = PB_LTYPE_EXTENSION" if "near fs dest local it" for it
    using tameD(2) [OF tame_near [OF static R that]] by blast
  obtain found it where find: "find_extension_field (ds_iter ds) = (found, it)" by (cases "find_extension_field (ds_iter ds)")
  have "\<not> fst (find_extension_field (ds_iter ds))"
    unfolding find_extension_field_def by (rule search_none [OF _ static near]) (rule none)
  then have "\<not> found" by (simp add: find)
  have it: "near fs dest local it"
    using near_search [OF near static] find unfolding find_extension_field_def by (metis snd_conv)
  have "\<not> - 1 \<le> tag" using tag by (metis word_n1_ge antisym not_less word_order.extremum)
  define ds' where "ds' = (if tag \<ge> ds_extension_range_start ds then ds\<lparr>ds_iter := it, ds_extension_range_start := - 1\<rparr> else ds)"
  have ds': "near fs dest local (ds_iter ds')" using near it by (simp add: ds'_def)
  have skip: "unknown_field n env noinit init tag wt ds = act_bind (on_stream (pb_skip_field wt)) (\<lambda>_. act_ret ds')"
    using \<open>\<not> - 1 \<le> tag\<close> \<open>\<not> found\<close> by (simp add: unknown_field_def find ds'_def Let_def)
  show "safe R (unknown_field n env noinit init tag wt ds)"
    unfolding skip by (intro safe_bind safe_on_stream shrinks_skip_field safe_ret)
  show "yields (\<lambda>ds. near fs dest local (ds_iter ds)) (unknown_field n env noinit init tag wt ds)"
    unfolding skip by (intro yields_bind [OF yields_any] yields_ret ds')
qed

lemma near_local:
  assumes "near fs dest local it" and "PB_HTYPE (pf_type (hd (it_pos it))) = PB_HTYPE_REPEATED"
  shows "near fs dest local (it\<lparr>it_pSize := local\<rparr>)"
  using assms unfolding near_def by fastforce

lemma safe_known_field:
  fixes env :: "'st pb_denv"
  assumes static: "static_message (Suc n) env fs dest hi" and R: "{dest..<hi} \<subseteq> R" "{local..<local + 4} \<subseteq> R"
    and sub: "sub_safe n env R noinit init" and near: "near fs dest local (ds_iter ds)"
  shows "safe R (known_field n env noinit init local wt ds)"
    and "yields (\<lambda>ds. near fs dest local (ds_iter ds)) (known_field n env noinit init local wt ds)"
proof -
  let ?it = "ds_iter ds"
  let ?fixed = "PB_HTYPE (pf_type (hd (it_pos ?it))) = PB_HTYPE_REPEATED \<and> it_pSize ?it = it_pData ?it"
  have it: "near fs dest local (if ?fixed then ?it\<lparr>it_pSize := local\<rparr> else ?it)"
    using near near_local [OF near] by simp
  have count: "safe R (if c then on_heap (poke local (zeros 4)) else act_ret ())" for c :: bool
    using R(2) by (intro safe_if safe_on_heap calm_poke safe_ret) (simp add: zeros_def)
  show "safe R (known_field n env noinit init local wt ds)"
    unfolding known_field_def Let_def
    by (intro safe_with_heap safe_if safe_error safe_bind count safe_decode_field(1) [OF static R sub it] safe_ret)
  show "yields (\<lambda>ds. near fs dest local (ds_iter ds)) (known_field n env noinit init local wt ds)"
    unfolding known_field_def Let_def
    by (intro yields_with_heap yields_if yields_error yields_bind [OF yields_any]
        yields_bind [OF safe_decode_field(2) [OF static R sub it]] yields_ret) simp
qed

text \<open>A round of the loop keeps to its memory, and reads at least a tag.\<close>

lemma decode_round_safe:
  fixes env :: "'st pb_denv"
  assumes static: "static_message (Suc n) env fs dest hi" and R: "{dest..<hi} \<subseteq> R" "{local..<local + 4} \<subseteq> R"
    and sub: "sub_safe n env R noinit init" and near: "near fs dest local (ds_iter ds)" and s: "polite s"
    and run: "decode_round n env noinit init local ds (s, h) = (r, (s', h'))"
  shows "stays s s' \<and> hp_deep h' = hp_deep h \<and> (\<forall>a. a \<notin> R \<longrightarrow> hp_mem h' a = hp_mem h a)"
    and "r = Some (stop, ds') \<Longrightarrow> near fs dest local (ds_iter ds') \<and> (stop \<or> is_bytes_left s' < is_bytes_left s)"
proof -
  obtain t eof u where t: "pb_decode_tag s = ((t, eof), u)" by (cases "pb_decode_tag s") auto
  have u: "stays s u" by (rule tag_stays [OF t])
  have "(stays s s' \<and> hp_deep h' = hp_deep h \<and> (\<forall>a. a \<notin> R \<longrightarrow> hp_mem h' a = hp_mem h a)) \<and>
    (r = Some (stop, ds') \<longrightarrow> near fs dest local (ds_iter ds') \<and> (stop \<or> is_bytes_left s' < is_bytes_left s))"
  proof (cases t)
    case None
    then show ?thesis using run t u near by (auto simp: decode_round_def split: if_splits)
  next
    case (Some p)
    obtain wt tag where p: "p = (wt, tag)" by (cases p)
    note tag = tag_small [OF t [unfolded Some p]]
    obtain found it where find: "pb_field_iter_find tag (ds_iter ds) = (found, it)" by (cases "pb_field_iter_find tag (ds_iter ds)")
    define di where "di = ds\<lparr>ds_iter := it\<rparr>"
    have di: "near fs dest local (ds_iter di)" using find_near [OF near static, of tag] find by (simp add: di_def)
    define f where "f = (if found then known_field n env noinit init local wt di else unknown_field n env noinit init tag wt di)"
    have f: "safe R f" "yields (\<lambda>ds. near fs dest local (ds_iter ds)) f"
      unfolding f_def
      using safe_known_field [OF static R sub di] safe_unknown_field [OF static R di tag(1)] by simp_all
    have step: "decode_round n env noinit init local ds (s, h) = act_bind f (\<lambda>ds. act_ret (False, ds)) (u, h)"
      by (simp add: decode_round_def t Some p find f_def di_def)
    have "safe R (act_bind f (\<lambda>ds. act_ret (False, ds)))"
      by (intro safe_bind f safe_ret)
    note kept = safeD [OF this run [unfolded step] stays_polite [OF u s]]
    have "yields (\<lambda>(stop, ds). near fs dest local (ds_iter ds)) (act_bind f (\<lambda>ds. act_ret (False, ds)))"
      by (rule yields_bind [OF f(2)]) (simp add: yields_ret)
    then have "near fs dest local (ds_iter ds')" if "r = Some (stop, ds')"
      using run [unfolded step] that unfolding yields_def by blast
    moreover have "is_bytes_left s' < is_bytes_left s" using kept(1) tag(2) by (simp add: stays_def)
    ultimately show ?thesis using kept stays_trans [OF u kept(1)] by blast
  qed
  then show "stays s s' \<and> hp_deep h' = hp_deep h \<and> (\<forall>a. a \<notin> R \<longrightarrow> hp_mem h' a = hp_mem h a)"
    and "r = Some (stop, ds') \<Longrightarrow> near fs dest local (ds_iter ds') \<and> (stop \<or> is_bytes_left s' < is_bytes_left s)" by blast+
qed

lemma decode_loop_safe:
  fixes env :: "'st pb_denv"
  assumes static: "static_message (Suc n) env fs dest hi" and R: "{dest..<hi} \<subseteq> R" "{local..<local + 4} \<subseteq> R"
    and sub: "sub_safe n env R noinit init"
  shows "near fs dest local (ds_iter ds) \<Longrightarrow> polite s \<Longrightarrow> is_bytes_left s \<le> m \<Longrightarrow>
    decode_loop m n env noinit init local ds (s, h) = (r, (s', h')) \<Longrightarrow>
    stays s s' \<and> hp_deep h' = hp_deep h \<and> (\<forall>a. a \<notin> R \<longrightarrow> hp_mem h' a = hp_mem h a)"
proof (induction m arbitrary: ds s h)
  case 0
  then show ?case by (simp add: decode_loop.simps)
next
  case (Suc m)
  show ?case
  proof (cases "is_bytes_left s = 0")
    case True
    then show ?thesis using Suc.prems(4) by (simp add: decode_loop.simps)
  next
    case False
    obtain q u i where q: "decode_round n env noinit init local ds (s, h) = (q, (u, i))"
      by (cases "decode_round n env noinit init local ds (s, h)") auto
    note round = decode_round_safe [OF static R sub Suc.prems(1,2) q]
    show ?thesis
    proof (cases q)
      case None
      then show ?thesis using Suc.prems(4) False q round(1) by (simp add: decode_loop.simps)
    next
      case (Some p)
      obtain stop ds' where p: "p = (stop, ds')" by (cases p)
      have near: "near fs dest local (ds_iter ds')" and less: "stop \<or> is_bytes_left u < is_bytes_left s"
        using round(2) Some p by auto
      show ?thesis
      proof (cases stop)
        case True
        then show ?thesis using Suc.prems(4) False q Some p round(1) by (simp add: decode_loop.simps)
      next
        case go: False
        have "decode_loop m n env noinit init local ds' (u, i) = (r, (s', h'))"
          using Suc.prems(4) False q Some p go by (simp add: decode_loop.simps)
        moreover have "is_bytes_left u \<le> m" using less go Suc.prems(3) by simp
        ultimately have "stays u s' \<and> hp_deep h' = hp_deep i \<and> (\<forall>a. a \<notin> R \<longrightarrow> hp_mem h' a = hp_mem i a)"
          using Suc.IH [OF near stays_polite [OF _ Suc.prems(2)]] round(1) by blast
        then show ?thesis using round(1) stays_trans by auto
      qed
    qed
  qed
qed

lemma safe_decode_message:
  fixes env :: "'st pb_denv"
  assumes static: "static_message (Suc n) env fs dest hi" and R: "{dest..<hi} \<subseteq> R" "{local..<local + 4} \<subseteq> R"
    and sub: "sub_safe n env R noinit init"
  shows "safe R (decode_message n env noinit init local fs dest)"
proof -
  define ds where "ds = \<lparr>ds_iter = snd (pb_field_iter_begin fs dest), ds_fields_seen = [0, 0], ds_extension_range_start = 0,
    ds_fixed_count_field = None\<rparr>"
  define finish :: "decode_state \<Rightarrow> ('st, unit) dec" where "finish = (\<lambda>ds (s, h).
    if fixed_count_wrong local (ds_fixed_count_field ds) h then dec_error ''wrong size for fixed count field'' (s, h)
    else if \<not> all_seen (req_field_count (ds_iter ds)) (ds_fields_seen ds) then dec_error ''missing required field'' (s, h)
    else (Some (), (s, h)))"
  have near: "near fs dest local (ds_iter ds)" by (simp add: ds_def position_near position_begin)
  have "safe R (finish ds)" for ds
    by (rule safeI) (auto simp: finish_def dec_error_def on_stream_def is_return_error_def split: if_splits)
  moreover have "safe R (\<lambda>(s, h). decode_loop (is_bytes_left s) n env noinit init local ds (s, h))"
    by (rule safeI) (simp add: decode_loop_safe [OF static R sub near _ order_refl])
  ultimately have loop: "safe R (act_bind (\<lambda>(s, h). decode_loop (is_bytes_left s) n env noinit init local ds (s, h)) finish)"
    by (intro safe_bind)
  have eq: "(\<lambda>(s, h). act_bind (decode_loop (is_bytes_left s) n env noinit init local ds) finish (s, h)) =
    act_bind (\<lambda>(s, h). decode_loop (is_bytes_left s) n env noinit init local ds (s, h)) finish"
    by (simp add: fun_eq_iff act_bind_def)
  have zero: "safe R (on_heap (poke local (zeros 4)))"
    by (rule safe_on_heap, rule calm_poke) (use R in \<open>simp add: zeros_def\<close>)
  show ?thesis
    unfolding decode_message_def ds_def [symmetric] finish_def [symmetric] eq by (rule safe_bind [OF zero loop])
qed

lemma safe_decode_init:
  assumes static: "static_message n env fs dest hi" and R: "{dest..<hi} \<subseteq> R" and noinit: "safe R (noinit fs dest)"
  shows "safe R (decode_init n env noinit fs dest)"
proof -
  have "safe R (\<lambda>st. case noinit fs dest st of (None, (s, h)) \<Rightarrow> (None, (s, pb_release n env fs dest h)) | (Some _, st) \<Rightarrow> (Some (), st))"
    (is "safe R ?f")
  proof (rule safeI)
    fix s h r s' h'
    assume s: "polite s" and run: "?f (s, h) = (r, (s', h'))"
    obtain q t i where q: "noinit fs dest (s, h) = (q, (t, i))" by (cases "noinit fs dest (s, h)") auto
    show "stays s s' \<and> hp_deep h' = hp_deep h \<and> (\<forall>a. a \<notin> R \<longrightarrow> hp_mem h' a = hp_mem h a)"
      using safeD [OF noinit q s] calm_release [OF static R] run q by (cases q) (auto simp: calm_def)
  qed
  then show ?thesis
    unfolding decode_init_def by (intro safe_bind safe_on_heap calm_message_defaults [OF static R])
qed

text \<open>
  Decoding a message of static fields touches the structure and the decoder's own counters, whatever the input.
\<close>

lemma safe_pb_decode:
  "(\<And>k. k < n \<Longrightarrow> {local k..<local k + 4} \<subseteq> R) \<Longrightarrow> static_message n env fs dest hi \<Longrightarrow> {dest..<hi} \<subseteq> R \<Longrightarrow>
    safe R (pb_decode_noinit n env local fs dest) \<and> safe R (pb_decode n env local fs dest)"
proof (induction n arbitrary: fs dest hi)
  case (Suc n)
  have "safe R (pb_decode_noinit n env local fs p) \<and> safe R (pb_decode n env local fs p)"
    if "static_message n env fs p hi" "{p..<hi} \<subseteq> R" for fs p hi
    by (rule Suc.IH [OF Suc.prems(1) [OF less_SucI] that])
  then have "sub_safe n env R (pb_decode_noinit n env local) (decode_init n env (pb_decode_noinit n env local))"
    unfolding sub_safe_def pb_decode_def by blast
  then have "safe R (pb_decode_noinit (Suc n) env local fs dest)"
    using safe_decode_message [OF Suc.prems(2,3) Suc.prems(1)] by simp
  then show ?case using safe_decode_init [OF Suc.prems(2,3)] unfolding pb_decode_def by blast
qed simp

end
