(* ===== verification/Pb_Find.thy ===== *)
theory Pb_Find
  imports Pb_Safe
begin

text \<open>
  The search for a field in nanopb: from any position of a table, \<open>pb_field_iter_find\<close> goes once around and finds
  the field with a tag if the table has one.
\<close>

section \<open>The positions of an iterator, in order\<close>

lemma iters_unfold:
  "iters iter = iter # (if fst (pb_field_iter_next iter) then iters (snd (pb_field_iter_next iter)) else [])"
  by (subst iters.simps) (simp split: prod.split bool.split)

lemma iters_not_Nil [simp]: "iters iter \<noteq> []"
  by (subst iters_unfold) simp

lemma iters_next_nth:
  "Suc i < length (iters iter) \<Longrightarrow> pb_field_iter_next (iters iter ! i) = (True, iters iter ! Suc i)"
proof (induction iter arbitrary: i rule: iters.induct)
  case (1 iter)
  obtain go iter' where n: "pb_field_iter_next iter = (go, iter')" by (cases "pb_field_iter_next iter")
  have unfold: "iters iter = iter # (if go then iters iter' else [])" using iters_unfold [of iter] n by simp
  show ?case
  proof (cases i)
    case 0
    have go: go using 1(2) unfold by (cases go) simp_all
    then show ?thesis using 0 n unfold iters_unfold [of iter'] by simp
  next
    case (Suc k)
    have go: go using 1(2) unfold by (cases go) simp_all
    then show ?thesis using 1(1) [OF n [symmetric]] 1(2) Suc unfold by simp
  qed
qed

lemma iters_next_last: "\<not> fst (pb_field_iter_next (iters iter ! (length (iters iter) - 1)))"
proof (induction iter rule: iters.induct)
  case (1 iter)
  obtain go iter' where n: "pb_field_iter_next iter = (go, iter')" by (cases "pb_field_iter_next iter")
  have unfold: "iters iter = iter # (if go then iters iter' else [])" using iters_unfold [of iter] n by simp
  show ?case
  proof (cases go)
    case True
    then show ?thesis using 1 [OF n [symmetric]] unfold by (simp add: nth_Cons')
  qed (use n unfold in simp)
qed

lemma next_pos: "pb_field_iter_next iter = (True, iter') \<Longrightarrow> it_pos iter' = tl (it_pos iter)"
  by (auto simp: pb_field_iter_next_def Let_def split: if_splits)

lemma iters_pos: "i < length (iters iter) \<Longrightarrow> it_pos (iters iter ! i) = drop i (it_pos iter)"
proof (induction i)
  case 0
  then show ?case by (subst iters_unfold) simp
next
  case (Suc i)
  then have "it_pos (iters iter ! Suc i) = tl (it_pos (iters iter ! i))" using next_pos [OF iters_next_nth [OF Suc.prems]] by simp
  then show ?case using Suc by (simp add: tl_drop drop_Suc)
qed

text \<open>The entries of a table before its end.\<close>

definition table_fields :: "pb_field list \<Rightarrow> pb_field list" where
  "table_fields fs = takeWhile (\<lambda>f. pf_tag f \<noteq> 0) fs"

lemma length_iters:
  "\<not> last_field (it_pos iter) \<Longrightarrow> length (iters iter) = length (table_fields (it_pos iter))"
proof (induction iter rule: iters.induct)
  case (1 iter)
  obtain go iter' where n: "pb_field_iter_next iter = (go, iter')" by (cases "pb_field_iter_next iter")
  have unfold: "iters iter = iter # (if go then iters iter' else [])" using iters_unfold [of iter] n by simp
  obtain f rest where f: "it_pos iter = f # rest" "pf_tag f \<noteq> 0" using 1(2) by (cases "it_pos iter") (auto simp: last_field_def)
  show ?case
  proof (cases go)
    case True
    then have "it_pos iter' = rest" "\<not> last_field (it_pos iter')" using n next_pos next_fields(3) f by fastforce+
    then show ?thesis using 1(1) [OF n [symmetric]] True unfold f by (simp add: table_fields_def)
  next
    case False
    then have "last_field rest" using n f by (auto simp: pb_field_iter_next_def Let_def last_field_def split: if_splits)
    then have "table_fields rest = []" by (cases rest) (auto simp: table_fields_def last_field_def)
    then show ?thesis using False unfold f by (simp add: table_fields_def)
  qed
qed

section \<open>The search goes round\<close>

text \<open>The positions of the table of a message, numbered around the end.\<close>

definition nth_position :: "pb_field list \<Rightarrow> nat \<Rightarrow> nat \<Rightarrow> pb_field_iter" where
  "nth_position fs dest i = iters (snd (pb_field_iter_begin fs dest)) ! (i mod length (table_fields fs))"

lemma begin_pos [simp]: "it_pos (snd (pb_field_iter_begin fs dest)) = fs" "it_start (snd (pb_field_iter_begin fs dest)) = fs"
    "it_dest_struct (snd (pb_field_iter_begin fs dest)) = dest"
  by (simp_all add: pb_field_iter_begin_def Let_def)

lemma table_not_Nil: "\<not> last_field fs \<Longrightarrow> table_fields fs \<noteq> []"
  by (cases fs) (auto simp: table_fields_def last_field_def)

lemma nth_position_pos:
  assumes "\<not> last_field fs"
  shows "it_pos (nth_position fs dest i) = drop (i mod length (table_fields fs)) fs"
  using iters_pos [of "i mod length (table_fields fs)" "snd (pb_field_iter_begin fs dest)"]
    length_iters [of "snd (pb_field_iter_begin fs dest)"] table_not_Nil [OF assms] assms
  by (simp add: nth_position_def)

lemma table_nth: "k < length (table_fields fs) \<Longrightarrow> hd (drop k fs) = table_fields fs ! k"
proof -
  assume k: "k < length (table_fields fs)"
  then have "k < length fs" using length_takeWhile_le [of "\<lambda>f. pf_tag f \<noteq> 0" fs] by (simp add: table_fields_def)
  then show ?thesis using k by (simp add: hd_drop_conv_nth table_fields_def takeWhile_nth)
qed

lemma nth_position_field:
  assumes "\<not> last_field fs"
  shows "hd (it_pos (nth_position fs dest i)) = table_fields fs ! (i mod length (table_fields fs))"
  using table_not_Nil [OF assms] by (simp add: nth_position_pos [OF assms] table_nth)

lemma nth_position_next:
  assumes "\<not> last_field fs"
  shows "snd (pb_field_iter_next (nth_position fs dest i)) = nth_position fs dest (Suc i)"
proof -
  let ?b = "snd (pb_field_iter_begin fs dest)" and ?L = "length (table_fields fs)"
  have L: "length (iters ?b) = ?L" using length_iters [of ?b] assms by simp
  have pos: "0 < ?L" using table_not_Nil [OF assms] by simp
  define k where "k = i mod ?L"
  have k: "k < ?L" using pos by (simp add: k_def)
  show ?thesis
  proof (cases "Suc k < ?L")
    case True
    then have "Suc i mod ?L = Suc k" by (simp add: k_def mod_Suc)
    then show ?thesis using iters_next_nth [of k ?b] True L by (simp add: nth_position_def k_def)
  next
    case False
    then have last: "k = ?L - 1" and zero: "Suc i mod ?L = 0" using k by (simp_all add: k_def mod_Suc)
    have at: "iters ?b ! k \<in> set (iters ?b)" using k L by simp
    obtain go it' where n: "pb_field_iter_next (iters ?b ! k) = (go, it')" by (cases "pb_field_iter_next (iters ?b ! k)")
    have "\<not> go" using iters_next_last [of ?b] n L last by simp
    then have "it' = ?b" using next_fields(4) [OF n] iters_fields [OF at] assms by simp
    then show ?thesis using n zero iters_unfold [of ?b] by (simp add: nth_position_def k_def)
  qed
qed

lemma position_nth:
  assumes "\<not> last_field fs" and "position fs dest it"
  obtains i where "i < length (table_fields fs)" and "it = nth_position fs dest i"
proof -
  have "length (iters (snd (pb_field_iter_begin fs dest))) = length (table_fields fs)" using length_iters assms(1) by simp
  then obtain i where "i < length (table_fields fs)" "it = iters (snd (pb_field_iter_begin fs dest)) ! i"
    using assms(2) unfolding position_def by (metis in_set_conv_nth)
  then show ?thesis using that by (simp add: nth_position_def)
qed

lemma nth_position_pos_eq:
  assumes "\<not> last_field fs"
  shows "it_pos (nth_position fs dest i) = it_pos (nth_position fs dest k) \<longleftrightarrow> i mod length (table_fields fs) = k mod length (table_fields fs)"
proof -
  let ?L = "length (table_fields fs)"
  have "i mod ?L < ?L" "k mod ?L < ?L" "?L \<le> length fs"
    using table_not_Nil [OF assms] length_takeWhile_le [of "\<lambda>f. pf_tag f \<noteq> 0" fs] by (simp_all add: table_fields_def)
  then have "length (drop (i mod ?L) fs) = length (drop (k mod ?L) fs) \<longleftrightarrow> i mod ?L = k mod ?L" by auto
  then show ?thesis by (metis nth_position_pos [OF assms])
qed

lemma iter_search_found:
  assumes fs: "\<not> last_field fs" and d: "d < length (table_fields fs)"
    and wanted: "wanted (hd (it_pos (nth_position fs dest (i + d))))"
    and not: "\<And>e. e < d \<Longrightarrow> \<not> wanted (hd (it_pos (nth_position fs dest (i + e))))"
  shows "e \<le> d \<Longrightarrow> d - e < m \<Longrightarrow>
    iter_search wanted (it_pos (nth_position fs dest i)) m (nth_position fs dest (i + e)) = (True, nth_position fs dest (i + d))"
proof (induction m arbitrary: e)
  case (Suc m)
  show ?case
  proof (cases "e = d")
    case True
    then show ?thesis using wanted by simp
  next
    case False
    have less: "Suc e \<le> d" using False Suc.prems by simp
    have "(i + Suc e) mod length (table_fields fs) \<noteq> i mod length (table_fields fs)"
    proof
      assume "(i + Suc e) mod length (table_fields fs) = i mod length (table_fields fs)"
      then have "length (table_fields fs) dvd Suc e" using mod_eq_dvd_iff_nat [of i "i + Suc e"] by simp
      then show False using less d by (auto dest: dvd_imp_le)
    qed
    then have "it_pos (nth_position fs dest (i + Suc e)) \<noteq> it_pos (nth_position fs dest i)"
      using nth_position_pos_eq [OF fs] by blast
    then show ?thesis
      using Suc.IH [OF less] Suc.prems not [of e] less nth_position_next [OF fs, of dest "i + e"] by (simp add: Let_def)
  qed
qed simp

lemma iter_search_none:
  assumes fs: "\<not> last_field fs" and not: "\<And>k. \<not> wanted (hd (it_pos (nth_position fs dest k)))"
  shows "e < length (table_fields fs) \<Longrightarrow> length (table_fields fs) - e \<le> m \<Longrightarrow>
    iter_search wanted (it_pos (nth_position fs dest i)) m (nth_position fs dest (i + e)) = (False, nth_position fs dest i)"
proof (induction m arbitrary: e)
  case (Suc m)
  let ?L = "length (table_fields fs)"
  show ?case
  proof (cases "Suc e = ?L")
    case True
    then have "nth_position fs dest (Suc (i + e)) = nth_position fs dest i"
      unfolding nth_position_def by (metis add_Suc_right mod_add_self2)
    then show ?thesis using not [of "i + e"] nth_position_next [OF fs, of dest "i + e"] by (simp add: Let_def)
  next
    case False
    then have less: "Suc e < ?L" using Suc.prems by simp
    have "(i + Suc e) mod ?L \<noteq> i mod ?L"
    proof
      assume "(i + Suc e) mod ?L = i mod ?L"
      then have "?L dvd Suc e" using mod_eq_dvd_iff_nat [of i "i + Suc e"] by simp
      then show False using less by (auto dest: dvd_imp_le)
    qed
    then have "it_pos (nth_position fs dest (i + Suc e)) \<noteq> it_pos (nth_position fs dest i)"
      using nth_position_pos_eq [OF fs] by blast
    then show ?thesis
      using Suc.IH [OF less] Suc.prems not [of "i + e"] nth_position_next [OF fs, of dest "i + e"] by (simp add: Let_def)
  qed
qed simp

lemma nth_position_start: "\<not> last_field fs \<Longrightarrow> it_start (nth_position fs dest i) = fs"
  using iters_fields [of "nth_position fs dest i" "snd (pb_field_iter_begin fs dest)"]
    length_iters [of "snd (pb_field_iter_begin fs dest)"] table_not_Nil [of fs]
  by (simp add: nth_position_def)

lemma nth_position_mod: "nth_position fs dest (i mod length (table_fields fs)) = nth_position fs dest i"
  by (simp add: nth_position_def)

text \<open>From wherever it starts, the search ends at the first field that is wanted, or where it started.\<close>

lemma iter_search_exact:
  assumes fs: "\<not> last_field fs" and m: "length (table_fields fs) \<le> m"
  shows "(\<exists>d<length (table_fields fs). wanted (hd (it_pos (nth_position fs dest (i + d)))) \<and>
        iter_search wanted (it_pos (nth_position fs dest i)) m (nth_position fs dest i) = (True, nth_position fs dest (i + d))) \<or>
     (\<forall>f \<in> set (table_fields fs). \<not> wanted f) \<and>
        iter_search wanted (it_pos (nth_position fs dest i)) m (nth_position fs dest i) = (False, nth_position fs dest i)"
proof (cases "\<exists>d<length (table_fields fs). wanted (hd (it_pos (nth_position fs dest (i + d))))")
  case True
  define d where "d = (LEAST d. d < length (table_fields fs) \<and> wanted (hd (it_pos (nth_position fs dest (i + d)))))"
  have d: "d < length (table_fields fs) \<and> wanted (hd (it_pos (nth_position fs dest (i + d))))"
    using True unfolding d_def by (rule LeastI_ex)
  have least: "\<not> wanted (hd (it_pos (nth_position fs dest (i + e))))" if "e < d" for e
    using not_less_Least [of e "\<lambda>d. d < length (table_fields fs) \<and> wanted (hd (it_pos (nth_position fs dest (i + d))))"] that d
    unfolding d_def [symmetric] by auto
  have "iter_search wanted (it_pos (nth_position fs dest i)) m (nth_position fs dest (i + 0)) = (True, nth_position fs dest (i + d))"
    by (rule iter_search_found [OF fs]) (use d least m in auto)
  then show ?thesis using d by auto
next
  case False
  let ?L = "length (table_fields fs)"
  have L: "0 < ?L" using table_not_Nil [OF fs] by simp
  have all: "\<not> wanted (hd (it_pos (nth_position fs dest k)))" for k
  proof -
    define d where "d = (k + (?L - i mod ?L)) mod ?L"
    have "(i + d) mod ?L = (i mod ?L + (k + (?L - i mod ?L))) mod ?L" by (simp add: d_def mod_simps)
    also have "i mod ?L + (k + (?L - i mod ?L)) = k + ?L"
      using mod_less_divisor [OF L, of i] by simp
    finally have "nth_position fs dest (i + d) = nth_position fs dest k" by (simp add: nth_position_def)
    moreover have "d < ?L" using L by (simp add: d_def)
    ultimately show ?thesis using False by metis
  qed
  have "\<not> wanted f" if f: "f \<in> set (table_fields fs)" for f
  proof -
    obtain k where "k < ?L" "f = table_fields fs ! k" using f by (auto simp: in_set_conv_nth)
    then show ?thesis using all [of k] by (simp add: nth_position_field [OF fs])
  qed
  moreover have "iter_search wanted (it_pos (nth_position fs dest i)) m (nth_position fs dest (i + 0)) = (False, nth_position fs dest i)"
    by (rule iter_search_none [OF fs]) (use all L m in simp_all)
  ultimately show ?thesis by simp
qed

lemma find_exact:
  assumes fs: "\<not> last_field fs" and it: "position fs dest it"
  shows "case pb_field_iter_find tag it of
     (True, it') \<Rightarrow> position fs dest it' \<and> pf_tag (hd (it_pos it')) = tag \<and> PB_LTYPE (pf_type (hd (it_pos it'))) \<noteq> PB_LTYPE_EXTENSION
   | (False, it') \<Rightarrow> it' = it \<and> (\<forall>f \<in> set (table_fields fs). pf_tag f = tag \<longrightarrow> PB_LTYPE (pf_type f) = PB_LTYPE_EXTENSION)"
proof -
  obtain i where i: "i < length (table_fields fs)" "it = nth_position fs dest i" by (rule position_nth [OF fs it])
  have m: "length (table_fields fs) \<le> length (it_start it)"
    unfolding i(2) nth_position_start [OF fs] table_fields_def by (rule length_takeWhile_le)
  have pos: "position fs dest (nth_position fs dest k)" for k
    using length_iters [of "snd (pb_field_iter_begin fs dest)"] table_not_Nil [OF fs] fs by (simp add: position_def nth_position_def)
  show ?thesis
    using iter_search_exact [OF fs m, of "\<lambda>f. pf_tag f = tag \<and> PB_LTYPE (pf_type f) \<noteq> PB_LTYPE_EXTENSION" dest i] pos
    unfolding pb_field_iter_find_def i(2) by auto
qed

text \<open>With tags that are all different it is the field itself that is found.\<close>

lemma find_unique:
  assumes fs: "\<not> last_field fs" and it: "position fs dest it" and k: "k < length (table_fields fs)"
    and distinct: "distinct (map pf_tag (table_fields fs))"
    and ext: "PB_LTYPE (pf_type (table_fields fs ! k)) \<noteq> PB_LTYPE_EXTENSION"
  shows "pb_field_iter_find (pf_tag (table_fields fs ! k)) it = (True, nth_position fs dest k)"
proof -
  let ?f = "table_fields fs ! k"
  obtain found it' where f: "pb_field_iter_find (pf_tag ?f) it = (found, it')" by (cases "pb_field_iter_find (pf_tag ?f) it")
  have found: found using find_exact [OF fs it, of "pf_tag ?f"] f k ext by (cases found) auto
  then have it': "position fs dest it'" "pf_tag (hd (it_pos it')) = pf_tag ?f" using find_exact [OF fs it, of "pf_tag ?f"] f by simp_all
  obtain i where i: "i < length (table_fields fs)" "it' = nth_position fs dest i" by (rule position_nth [OF fs it'(1)])
  have "pf_tag (table_fields fs ! i) = pf_tag ?f" using it'(2) i by (simp add: nth_position_field [OF fs])
  then have "i = k" using nth_eq_iff_index_eq [OF distinct, of i k] i k by simp
  then show ?thesis using f found i by simp
qed

end
