(* ===== verification/Pb_Edge.thy ===== *)
theory Pb_Edge
  imports Pb_Find
begin

text \<open>
  Two messages at the edge of what \<open>pb_decode.c\<close> handles: one whose only field is an array without
  a counter, and one without any field.
\<close>

section \<open>Two messages at the edge\<close>

lemma poke_mem: "hp_mem (poke p bs h) a = (if p \<le> a \<and> a < p + length bs then bs ! (a - p) else hp_mem h a)"
  by (simp add: poke_def)

lemma poke_zeros_mem: "hp_mem (poke p (zeros k) h) a = (if a \<in> {p..<p + k} then 0 else hp_mem h a)"
  by (auto simp: poke_def zeros_def)

text \<open>Setting the default of a static array clears the four bytes at its counter, also when the counter is the array itself.\<close>

lemma fixed_count_default:
  assumes "PB_ATYPE (pf_type (hd (it_pos iter))) = PB_ATYPE_STATIC" and "PB_HTYPE (pf_type (hd (it_pos iter))) = PB_HTYPE_REPEATED"
    and "PB_LTYPE (pf_type (hd (it_pos iter))) \<noteq> PB_LTYPE_EXTENSION"
  shows "pb_field_set_to_default n env msg iter h = poke (it_pSize iter) (zeros 4) h"
  using assms by (simp add: pb_field_set_to_default.simps default_static_def PB_HTYPE_OPTIONAL_def PB_HTYPE_REPEATED_def)

text \<open>A message whose only field is a static array of fixed count, decoded from nothing.\<close>

lemma decode_fixed_count:
  assumes f: "PB_ATYPE (pf_type f) = PB_ATYPE_STATIC" "PB_HTYPE (pf_type f) = PB_HTYPE_REPEATED" "PB_LTYPE (pf_type f) \<noteq> PB_LTYPE_EXTENSION"
      "pf_size_offset f = 0" "pf_tag f \<noteq> 0"
    and t: "pf_tag t = 0" and s: "is_bytes_left s = 0"
  shows "pb_decode (Suc n) env local [f, t] dest (s, h) =
    (Some (), (s, poke (local n) (zeros 4) (poke (dest + pf_data_offset f) (zeros 4) h)))"
proof -
  define it where "it = \<lparr>it_start = [f, t], it_pos = [f, t], it_required_field_index = 0, it_dest_struct = dest,
    it_pData = dest + pf_data_offset f, it_pSize = dest + pf_data_offset f\<rparr>"
  have start: "pb_field_iter_begin [f, t] dest = (True, it)"
    using f(4,5) by (simp add: pb_field_iter_begin_def last_field_def ptr_add_def Let_def it_def)
  have it: "it_pos it = [f, t]" "it_pSize it = dest + pf_data_offset f" "it_required_field_index it = 0" "it_start it = [f, t]" "it_dest_struct it = dest"
    by (simp_all add: it_def)
  have fin: "pb_field_iter_next it = (False, it)"
    using f(5) t by (simp add: pb_field_iter_next_def it start last_field_def)
  have "iter_fold (pb_field_set_to_default n env (pb_message_set_to_defaults n env)) it h = poke (dest + pf_data_offset f) (zeros 4) h"
    using fixed_count_default [of it n env "pb_message_set_to_defaults n env" h] f(1-3) it(1,2)
    by (subst iter_fold.simps) (simp add: fin)
  then have defaults: "pb_message_set_to_defaults (Suc n) env [f, t] dest h = poke (dest + pf_data_offset f) (zeros 4) h"
    by (simp add: start)
  have "last_required it = (0, pf_type f, it)"
    by (subst last_required.simps) (simp add: fin it(1,3))
  then have "req_field_count it = 0"
    using f(2) by (simp add: req_field_count_def PB_HTYPE_REQUIRED_def PB_HTYPE_REPEATED_def)
  then have "all_seen (req_field_count it) [0, 0]" by (simp add: all_seen_def)
  then have "decode_message n env rec init (local n) [f, t] dest (s, h') = (Some (), (s, poke (local n) (zeros 4) h'))" for rec init h'
    using s by (simp add: decode_message_def act_bind_def on_heap_def decode_loop.simps start fixed_count_wrong_def)
  then show ?thesis
    by (simp add: pb_decode_def decode_init_def act_bind_def on_heap_def defaults del: pb_message_set_to_defaults.simps)
qed

text \<open>
  A table without fields: the search compares the tag with that of the end of the table and finds field number zero
  there, as a required boolean at the start of the structure.
\<close>

definition PB_LAST_FIELD :: pb_field where
  "PB_LAST_FIELD = \<lparr>pf_tag = 0, pf_type = 0, pf_data_offset = 0, pf_size_offset = 0, pf_data_size = 0, pf_array_size = 0, pf_ptr = 0\<rparr>"

lemma decode_no_fields:
  assumes "is_bytes_left s \<noteq> 0" and tag: "pb_decode_tag s = ((Some (wt, 0), eof), s1)"
    and val: "pb_decode_varint32 s1 = (Some v, s2)" and done2: "is_bytes_left s2 = 0"
  shows "pb_decode (Suc n) env local [PB_LAST_FIELD] dest (s, h) =
    (Some (), (s2, poke dest [if v \<noteq> 0 then 1 else 0] (poke (local n) (zeros 4) h)))"
proof -
  define it where "it = \<lparr>it_start = [PB_LAST_FIELD], it_pos = [PB_LAST_FIELD], it_required_field_index = 0, it_dest_struct = dest,
    it_pData = dest, it_pSize = dest\<rparr>"
  have start: "pb_field_iter_begin [PB_LAST_FIELD] dest = (False, it)"
    by (simp add: pb_field_iter_begin_def last_field_def ptr_add_def Let_def it_def PB_LAST_FIELD_def)
  have it: "it_pos it = [PB_LAST_FIELD]" "it_start it = [PB_LAST_FIELD]" "it_required_field_index it = 0" "it_pData it = dest"
    by (simp_all add: it_def)
  have type: "PB_HTYPE (pf_type PB_LAST_FIELD) = PB_HTYPE_REQUIRED" "PB_ATYPE (pf_type PB_LAST_FIELD) = PB_ATYPE_STATIC"
      "PB_LTYPE (pf_type PB_LAST_FIELD) = PB_LTYPE_BOOL" "PB_LTYPE (pf_type PB_LAST_FIELD) \<noteq> PB_LTYPE_EXTENSION" "pf_tag PB_LAST_FIELD = 0"
      "PB_LTYPE_BOOL \<noteq> PB_LTYPE_EXTENSION" "PB_HTYPE_REQUIRED \<noteq> PB_HTYPE_REPEATED" "PB_HTYPE_REQUIRED \<noteq> PB_HTYPE_ONEOF"
    by code_simp+
  have find: "pb_field_iter_find 0 it = (True, it)"
    unfolding pb_field_iter_find_def it by (simp add: it type)
  have field: "decode_field n env rec init wt it (s1, h') = (Some it, (s2, poke dest [if v \<noteq> 0 then 1 else 0] h'))" for rec init h'
    using val by (simp add: decode_field_def it type decode_static_field_def PB_DECODERS_def pb_dec_bool_def on_stream_def
        on_heap_def act_bind_def act_ret_def Let_def)
  define seen :: "u32 list" where "seen = [1, 0]"
  have known: "known_field n env rec init (local n) wt \<lparr>ds_iter = it, ds_fields_seen = [0, 0], ds_extension_range_start = 0,
      ds_fixed_count_field = None\<rparr> (s1, h') = (Some \<lparr>ds_iter = it, ds_fields_seen = seen, ds_extension_range_start = 0,
      ds_fixed_count_field = None\<rparr>, (s2, poke dest [if v \<noteq> 0 then 1 else 0] h'))" for rec init h'
    by (simp add: known_field_def it type with_heap_def field act_bind_def act_ret_def Let_def seen_def PB_MAX_REQUIRED_FIELDS_def)
  obtain k where k: "is_bytes_left s = Suc k" using assms(1) by (cases "is_bytes_left s") auto
  have "decode_round n env rec init (local n) \<lparr>ds_iter = it, ds_fields_seen = [0, 0], ds_extension_range_start = 0,
      ds_fixed_count_field = None\<rparr> (s, h') = (Some (False, \<lparr>ds_iter = it, ds_fields_seen = seen, ds_extension_range_start = 0,
      ds_fixed_count_field = None\<rparr>), (s2, poke dest [if v \<noteq> 0 then 1 else 0] h'))" for rec init h'
    by (simp add: decode_round_def tag find known act_bind_def act_ret_def)
  then have loop: "decode_loop (is_bytes_left s) n env rec init (local n) \<lparr>ds_iter = it, ds_fields_seen = [0, 0],
      ds_extension_range_start = 0, ds_fixed_count_field = None\<rparr> (s, h') =
    (Some \<lparr>ds_iter = it, ds_fields_seen = seen, ds_extension_range_start = 0, ds_fixed_count_field = None\<rparr>,
      (s2, poke dest [if v \<noteq> 0 then 1 else 0] h'))" for rec init h'
    by (subst decode_loop.simps) (simp add: k decode_loop.simps [of _ _ _ _ _ _ _ s2] done2)
  have "last_required it = (0, 0, it)"
    by (subst last_required.simps) (simp add: pb_field_iter_next_def it last_field_def PB_LAST_FIELD_def)
  then have "all_seen (req_field_count it) seen"
    using it by (simp add: req_field_count_def last_field_def PB_LAST_FIELD_def all_seen_def)
  then have "decode_message n env rec init (local n) [PB_LAST_FIELD] dest (s, h) =
      (Some (), (s2, poke dest [if v \<noteq> 0 then 1 else 0] (poke (local n) (zeros 4) h)))" for rec init
    by (simp add: decode_message_def act_bind_def on_heap_def start loop fixed_count_wrong_def)
  then show ?thesis
    by (simp add: pb_decode_def decode_init_def act_bind_def on_heap_def start)
qed

text \<open>In a table with fields no field has number zero.\<close>

lemma find_zero:
  assumes "\<not> last_field fs" and "position fs dest it"
  shows "pb_field_iter_find 0 it = (False, it)"
proof -
  obtain found it' where r: "pb_field_iter_find 0 it = (found, it')" by fastforce
  have "\<not> found"
  proof
    assume found
    then have "position fs dest it'" and zero: "pf_tag (hd (it_pos it')) = 0" using find_exact [OF assms, of 0] r by simp_all
    then obtain i where i: "i < length (table_fields fs)" "it' = nth_position fs dest i" by (metis position_nth [OF assms(1)])
    then have "hd (it_pos it') = table_fields fs ! i" using nth_position_field [OF assms(1)] by simp
    then have "hd (it_pos it') \<in> set (table_fields fs)" using i(1) by simp
    then show False using zero set_takeWhileD by (fastforce simp: table_fields_def)
  qed
  then show ?thesis using find_exact [OF assms, of 0] r by simp
qed

end
