(* ===== verification/Pb_Roundtrip.thy ===== *)
theory Pb_Roundtrip
  imports Pb_Find
begin

text \<open>
  Round trip of messages in nanopb: what the encoder writes for a structure of scalar fields, the decoder reads
  back into an equal structure.
\<close>

section \<open>Decoders that read and store\<close>

definition scalar_ok :: "pb_field \<Rightarrow> bool" where
  "scalar_ok field \<longleftrightarrow>
     (let lt = PB_LTYPE (pf_type field); n = pf_data_size field
      in if lt = PB_LTYPE_BOOL then n = 1
         else if lt = PB_LTYPE_VARINT \<or> lt = PB_LTYPE_UVARINT \<or> lt = PB_LTYPE_SVARINT then int_size n
         else if lt = PB_LTYPE_FIXED32 then n = 4
         else lt = PB_LTYPE_FIXED64 \<and> n = 8)"

text \<open>What \<open>bool\<close> objects hold.\<close>

definition canonical :: "memory \<Rightarrow> pb_field \<Rightarrow> nat \<Rightarrow> bool" where
  "canonical mem field p \<longleftrightarrow> (PB_LTYPE (pf_type field) = PB_LTYPE_BOOL \<longrightarrow> mem p = 0 \<or> mem p = 1)"

lemma scast_32:
  "scast (ucast (scast (b :: byte) :: u64) :: u32) = (scast b :: u64)"
  "scast (ucast (scast (w :: u16) :: u64) :: u32) = (scast w :: u64)"
  "scast (ucast (scast (v :: u32) :: u64) :: u32) = (scast v :: u64)"
  by (rule bit_word_eqI, auto simp: bit_simps min_def split: if_splits)+

lemma min_below: "n < 8 \<Longrightarrow> min 7 n = n" "n < 16 \<Longrightarrow> min 15 n = n" "n < 32 \<Longrightarrow> min 31 n = n" for n :: nat
  by simp_all

lemma ucast_scast:
  "ucast (scast (b :: byte) :: u64) = b" "ucast (scast (w :: u16) :: u64) = w" "ucast (scast (v :: u32) :: u64) = v"
  by (rule bit_word_eqI, auto simp: bit_simps min_below)+

lemma load_signed_scast:
  "int_size n \<Longrightarrow> n \<noteq> 8 \<Longrightarrow> scast (ucast (load_signed n mem p) :: u32) = load_signed n mem p"
  by (auto simp: int_size_def load_signed_def scast_32)

lemma load_signed_clamp:
  assumes "int_size n"
  shows "(if n = 8 then load_signed n mem p
      else if n = 4 then scast (ucast (load_signed n mem p) :: u32)
      else if n = 2 then scast (ucast (load_signed n mem p) :: u16)
      else scast (ucast (load_signed n mem p) :: byte)) = load_signed n mem p"
  using assms by (auto simp: int_size_def load_signed_def ucast_scast)

lemma le_bytes_mod: "le_bytes n (v mod 256 ^ n) = le_bytes n v"
proof -
  have "le_val (le_bytes n v) = v mod 256 ^ n" by simp
  then show ?thesis using le_bytes_load [of n]
    by (metis be_bytes_be_val le_bytes_def le_val_def length_le_bytes length_rev rev_rev_ident)
qed

lemma load_signed_mod: "int_size n \<Longrightarrow> unat (load_signed n mem p) mod 256 ^ n = load n mem p"
proof -
  assume n: "int_size n"
  have l: "load n mem p < 256 ^ n" by (rule load_less)
  have "unat (ucast (load_signed 1 mem p) :: byte) = load 1 mem p"
    using load_word [of 1 mem p, where 'a = 8] by (simp add: load_signed_def ucast_scast)
  moreover have "unat (ucast (load_signed 2 mem p) :: u16) = load 2 mem p"
    using load_word [of 2 mem p, where 'a = 16] by (simp add: load_signed_def ucast_scast)
  moreover have "unat (ucast (load_signed 4 mem p) :: u32) = load 4 mem p"
    using load_word [of 4 mem p, where 'a = 32] by (simp add: load_signed_def ucast_scast)
  moreover have "unat (load_signed 8 mem p) = load 8 mem p"
    using load_word [of 8 mem p, where 'a = 64] by (simp add: load_signed_def)
  ultimately show ?thesis
    using n l unat_ucast_narrow [where 'a = 8] by (auto simp: int_size_def unat_ucast_narrow)
qed

lemma load_signed_bytes: "int_size n \<Longrightarrow> le_bytes n (unat (load_signed n mem p)) = bytes_at mem p n"
  using le_bytes_mod [of n "unat (load_signed n mem p)"] load_signed_mod [of n mem p] le_bytes_load [of n mem p] by simp

context source
begin

definition stores :: "('st, 'a) dec \<Rightarrow> byte list \<Rightarrow> 'a \<Rightarrow> (pb_heap \<Rightarrow> pb_heap) \<Rightarrow> bool" where
  "stores f w a F \<longleftrightarrow> (\<forall>s h rest. ready s \<and> ahead s = w @ rest \<longrightarrow> (\<exists>s'. f (s, h) = (Some a, (s', F h)) \<and> advanced (length w) s s'))"

lemma storesE:
  assumes "stores f w a F" and "ready s" and "ahead s = w @ rest"
  obtains s' where "f (s, h) = (Some a, (s', F h))" and "advanced (length w) s s'" and "ready s'" and "ahead s' = rest"
proof -
  obtain s' where s': "f (s, h) = (Some a, (s', F h))" "advanced (length w) s s'"
    using assms unfolding stores_def by blast
  then show ?thesis using that advanced_ready [OF s'(2)] ahead_advanced [OF s'(2)] assms(3) by simp
qed

lemma stores_stream: "reads f w a \<Longrightarrow> stores (on_stream f) w a (\<lambda>h. h)"
  unfolding stores_def reads_def on_stream_def by fastforce

lemma stores_heap: "stores (on_heap F) [] () F"
  by (auto simp: stores_def on_heap_def advanced_0)

lemma stores_ret: "stores (act_ret a) [] a (\<lambda>h. h)"
  by (auto simp: stores_def act_ret_def advanced_0)

lemma stores_bind:
  assumes f: "stores f v a F" and g: "stores (g a) w b G"
  shows "stores (act_bind f g) (v @ w) b (\<lambda>h. G (F h))"
  unfolding stores_def
proof (intro allI impI)
  fix s h rest
  assume s: "ready s \<and> ahead s = (v @ w) @ rest"
  then obtain t where t: "f (s, h) = (Some a, (t, F h))" "advanced (length v) s t" "ready t" "ahead t = w @ rest"
    using storesE [OF f, of s "w @ rest" h] by auto
  obtain u where u: "g a (t, F h) = (Some b, (u, G (F h)))" "advanced (length w) t u"
    using storesE [OF g t(3,4), of "F h"] by blast
  show "\<exists>s'. act_bind f g (s, h) = (Some b, (s', G (F h))) \<and> advanced (length (v @ w)) s s'"
    using t(1) u(1) advanced_trans [OF t(2) u(2)] by simp
qed

lemma stores_read_poke:
  assumes "reads f w v" and "g v = on_heap F"
  shows "stores (act_bind (on_stream f) g) w () F"
  using stores_bind [OF stores_stream [OF assms(1)], of g "[]" "()" F] stores_heap [of F] assms(2) by simp

lemma stores_int:
  assumes "reads f w v" and "g v = store_int n p sg v'" and "int_size n" and "le_bytes n (unat v') = bs"
    and "(if n = 8 then v'
          else if n = 4 then if sg then scast (ucast v' :: u32) else ucast (ucast v' :: u32)
          else if n = 2 then if sg then scast (ucast v' :: u16) else ucast (ucast v' :: u16)
          else if sg then scast (ucast v' :: byte) else ucast (ucast v' :: byte)) = v'"
  shows "stores (act_bind (on_stream f) g) w () (poke p bs)"
proof -
  have "g v = act_bind (on_heap (poke p bs)) (\<lambda>_. act_ret ())"
    unfolding assms(2) store_int_def Let_def using assms(3-5) by simp
  then have "stores (g v) [] () (poke p bs)"
    using stores_bind [OF stores_heap [of "poke p bs"], of "\<lambda>_. act_ret ()" "[]" "()" "\<lambda>h. h"] stores_ret [of "()"] by (simp only: append_Nil)
  then show ?thesis using stores_bind [OF stores_stream [OF assms(1)], of g "[]" "()" "poke p bs"] by simp
qed

lemma stores_value:
  fixes env :: "'st pb_denv"
  assumes ok: "scalar_ok field" and can: "canonical mem field q" and v: "ref_value table sub mem field q = Some v"
  shows "stores (PB_DECODERS env noinit init field p) v () (poke p (bytes_at mem q (pf_data_size field)))"
proof -
  let ?lt = "PB_LTYPE (pf_type field)" and ?n = "pf_data_size field"
  consider "?lt = PB_LTYPE_BOOL" | "?lt = PB_LTYPE_VARINT" | "?lt = PB_LTYPE_UVARINT" | "?lt = PB_LTYPE_SVARINT"
    | "?lt = PB_LTYPE_FIXED32" | "?lt = PB_LTYPE_FIXED64"
    using ok by (auto simp: scalar_ok_def Let_def split: if_splits)
  then show ?thesis
  proof cases
    case 1
    define b :: u32 where "b = (if mem q = 0 then 0 else 1)"
    have "v = leb (unat b)" using v 1 by (auto simp: ref_value_def b_def)
    moreover have "bytes_at mem q ?n = [if b \<noteq> 0 then 1 else 0]"
      using ok can 1 by (auto simp: scalar_ok_def canonical_def bytes_at_def b_def)
    moreover have "PB_DECODERS env noinit init field p = pb_dec_bool p" using 1 by (simp add: PB_DECODERS_def)
    ultimately show ?thesis unfolding pb_dec_bool_def using stores_read_poke [OF reads_varint32 [of b]] by simp
  next
    case 2
    let ?v = "load_signed ?n mem q"
    have n: "int_size ?n" using ok 2 by (simp add: scalar_ok_def lt_defs)
    have v: "v = leb (unat ?v)" using v 2 n by (simp add: ref_value_def lt_defs)
    have dec: "PB_DECODERS env noinit init field p = pb_dec_varint field p" using 2 by (simp add: PB_DECODERS_def lt_defs)
    have sv: "(if ?n = 8 then ?v else scast (ucast ?v :: u32)) = ?v" using load_signed_scast [OF n] by simp
    show ?thesis
      unfolding v dec pb_dec_varint_def
      by (rule stores_int [OF reads_varint [of ?v] _ n load_signed_bytes [OF n], where sg = True])
        (simp only: sv, simp only: if_True load_signed_clamp [OF n])
  next
    case 3
    let ?v = "of_nat (load ?n mem q) :: u64"
    have n: "int_size ?n" using ok 3 by (simp add: scalar_ok_def lt_defs)
    have load: "unat ?v = load ?n mem q" by (rule load_word) (use int_size_le [OF n] in simp)
    have v: "v = leb (unat ?v)" using v 3 n load by (simp add: ref_value_def lt_defs)
    have dec: "PB_DECODERS env noinit init field p = pb_dec_uvarint field p" using 3 by (simp add: PB_DECODERS_def lt_defs)
    have bytes: "le_bytes ?n (unat ?v) = bytes_at mem q ?n" using load le_bytes_load by simp
    have "unat ?v < 256 ^ ?n" using load load_less by simp
    then have c: "(if ?n = 8 then ?v else if ?n = 4 then ucast (ucast ?v :: u32) else if ?n = 2 then ucast (ucast ?v :: u16)
        else ucast (ucast ?v :: byte)) = ?v"
      using n by (auto simp: int_size_def word_unat_eq_iff unat_ucast_widen unat_ucast_narrow)
    show ?thesis
      unfolding v dec pb_dec_uvarint_def
      by (rule stores_int [OF reads_varint [of ?v] _ n bytes]) (rule refl, simp only: if_False c)
  next
    case 4
    let ?v = "load_signed ?n mem q"
    have n: "int_size ?n" using ok 4 by (simp add: scalar_ok_def lt_defs)
    have v: "v = leb (zigzag (sint ?v))" using v 4 n by (simp add: ref_value_def lt_defs)
    have dec: "PB_DECODERS env noinit init field p = pb_dec_svarint field p" using 4 by (simp add: PB_DECODERS_def lt_defs)
    show ?thesis
      unfolding v dec pb_dec_svarint_def
      by (rule stores_int [OF reads_svarint [of ?v] _ n load_signed_bytes [OF n]])
        (rule refl, simp only: if_True load_signed_clamp [OF n])
  next
    case 5
    have v: "v = le_bytes 4 (unat (of_nat (load 4 mem q) :: u32))" and b: "bytes_at mem q ?n = v"
      using v ok 5 load_word [of 4 mem q, where 'a = 32] by (simp_all add: ref_value_def scalar_ok_def lt_defs le_bytes_load)
    have dec: "PB_DECODERS env noinit init field p = pb_dec_fixed32 p" using 5 by (simp add: PB_DECODERS_def lt_defs)
    show ?thesis unfolding b dec pb_dec_fixed32_def unfolding v by (intro stores_read_poke [OF reads_fixed32]) simp
  next
    case 6
    have v: "v = le_bytes 8 (unat (of_nat (load 8 mem q) :: u64))" and b: "bytes_at mem q ?n = v"
      using v ok 6 load_word [of 8 mem q, where 'a = 64] by (simp_all add: ref_value_def scalar_ok_def lt_defs le_bytes_load)
    have dec: "PB_DECODERS env noinit init field p = pb_dec_fixed64 p" using 6 by (simp add: PB_DECODERS_def lt_defs)
    show ?thesis unfolding b dec pb_dec_fixed64_def unfolding v by (intro stores_read_poke [OF reads_fixed64]) simp
  qed
qed

end

section \<open>Tables of scalar fields\<close>

definition singular_scalar :: "pb_field \<Rightarrow> bool" where
  "singular_scalar f \<longleftrightarrow> PB_ATYPE (pf_type f) = PB_ATYPE_STATIC \<and> PB_HTYPE (pf_type f) = PB_HTYPE_OPTIONAL \<and>
     pf_size_offset f = 0 \<and> pf_ptr f = 0 \<and> scalar_ok f \<and> unat (pf_tag f) < 2 ^ 29"

definition flat_table :: "pb_field list \<Rightarrow> bool" where
  "flat_table fs \<longleftrightarrow> \<not> last_field fs \<and> (\<forall>f \<in> set (table_fields fs). singular_scalar f) \<and> distinct (map pf_tag (table_fields fs))"

text \<open>Where the fields are in the structure, and its size.\<close>

primrec field_offset :: "pb_field list \<Rightarrow> nat \<Rightarrow> nat" where
  "field_offset fs 0 = pf_data_offset (hd fs)"
| "field_offset fs (Suc k) = field_offset fs k + pf_data_size (table_fields fs ! k) + pf_data_offset (table_fields fs ! Suc k)"

definition flat_size :: "pb_field list \<Rightarrow> nat" where
  "flat_size fs = (let k = length (table_fields fs) - 1 in field_offset fs k + pf_data_size (table_fields fs ! k))"

lemma field_offset_mono: "k < l \<Longrightarrow> field_offset fs k + pf_data_size (table_fields fs ! k) \<le> field_offset fs l"
proof (induction l)
  case (Suc l)
  then show ?case by (cases "k = l") auto
qed simp

lemma field_offset_size: "k < length (table_fields fs) \<Longrightarrow> field_offset fs k + pf_data_size (table_fields fs ! k) \<le> flat_size fs"
proof (cases "k = length (table_fields fs) - 1")
  case False
  assume "k < length (table_fields fs)"
  then have "k < length (table_fields fs) - 1" using False by simp
  then show ?thesis using field_offset_mono [of k _ fs] by (fastforce simp: flat_size_def Let_def)
qed (simp add: flat_size_def Let_def)

lemma ptr_add_0 [simp]: "ptr_add p 0 = p"
  by (simp add: ptr_add_def)

lemma scalar_le: "scalar_ok f \<Longrightarrow> PB_LTYPE (pf_type f) \<le> PB_LTYPE_LAST_PACKABLE"
  by (auto simp: scalar_ok_def Let_def lt_defs split: if_splits)

lemma scalar_not_ext: "scalar_ok f \<Longrightarrow> PB_LTYPE (pf_type f) \<noteq> PB_LTYPE_EXTENSION"
  by (auto simp: scalar_ok_def Let_def lt_defs split: if_splits)

lemma flat_not_last: "flat_table fs \<Longrightarrow> \<not> last_field fs"
  by (simp add: flat_table_def)

lemma flat_field: "flat_table fs \<Longrightarrow> k < length (table_fields fs) \<Longrightarrow> singular_scalar (table_fields fs ! k)"
  by (simp add: flat_table_def)

lemma flat_iters: "flat_table fs \<Longrightarrow> iters (snd (pb_field_iter_begin fs base)) = map (nth_position fs base) [0..<length (table_fields fs)]"
  using length_iters [of "snd (pb_field_iter_begin fs base)"] flat_not_last [of fs]
  by (intro nth_equalityI) (simp_all add: nth_position_def)

lemma flat_position:
  assumes flat: "flat_table fs"
  shows "k < length (table_fields fs) \<Longrightarrow>
     it_pData (nth_position fs base k) = base + field_offset fs k \<and>
     it_pSize (nth_position fs base k) = base + field_offset fs k \<and> it_required_field_index (nth_position fs base k) = 0"
proof (induction k)
  case 0
  have "nth_position fs base 0 = snd (pb_field_iter_begin fs base)"
    using flat_iters [OF flat, of base] 0 by (subst (asm) iters_unfold) (simp add: upt_conv_Cons)
  moreover have "hd fs = table_fields fs ! 0" using table_nth [of 0 fs] 0 by simp
  ultimately show ?case
    using flat_field [OF flat 0] by (simp add: pb_field_iter_begin_def Let_def singular_scalar_def)
next
  case (Suc k)
  let ?L = "length (table_fields fs)"
  have len: "length (iters (snd (pb_field_iter_begin fs base))) = ?L" by (simp add: flat_iters [OF flat])
  have "pb_field_iter_next (iters (snd (pb_field_iter_begin fs base)) ! k) = (True, iters (snd (pb_field_iter_begin fs base)) ! Suc k)"
    by (rule iters_next_nth) (simp add: len Suc.prems)
  then have n: "pb_field_iter_next (nth_position fs base k) = (True, nth_position fs base (Suc k))"
    using Suc.prems by (simp add: nth_position_def)
  have hd1: "hd (it_pos (nth_position fs base k)) = table_fields fs ! k"
    using nth_position_field [OF flat_not_last [OF flat], of base k] Suc.prems by simp
  have hd2: "hd (tl (it_pos (nth_position fs base k))) = table_fields fs ! Suc k"
    using nth_position_field [OF flat_not_last [OF flat], of base "Suc k"] next_pos [OF n] Suc.prems by simp
  have f1: "singular_scalar (table_fields fs ! k)" and f2: "singular_scalar (table_fields fs ! Suc k)"
    using flat_field [OF flat] Suc.prems by simp_all
  have no: "PB_HTYPE_OPTIONAL \<noteq> PB_HTYPE_ONEOF" "PB_HTYPE_OPTIONAL \<noteq> PB_HTYPE_REPEATED" "PB_HTYPE_OPTIONAL \<noteq> PB_HTYPE_REQUIRED"
    "PB_ATYPE_STATIC \<noteq> PB_ATYPE_POINTER" by (simp_all add: ht_defs PB_ATYPE_STATIC_def PB_ATYPE_POINTER_def)
  have "\<not> last_field (it_pos (nth_position fs base k))" "\<not> last_field (tl (it_pos (nth_position fs base k)))"
    using n by (auto simp: pb_field_iter_next_def Let_def split: if_splits)
  then have "nth_position fs base (Suc k) = (nth_position fs base k)
      \<lparr>it_pos := tl (it_pos (nth_position fs base k)), it_required_field_index := it_required_field_index (nth_position fs base k),
       it_pData := it_pData (nth_position fs base k) + pf_data_size (table_fields fs ! k) + pf_data_offset (table_fields fs ! Suc k),
       it_pSize := it_pData (nth_position fs base k) + pf_data_size (table_fields fs ! k) + pf_data_offset (table_fields fs ! Suc k)\<rparr>"
    using n f1 f2 no unfolding pb_field_iter_next_def Let_def hd1 hd2 by (simp add: singular_scalar_def)
  then show ?case using Suc by simp
qed

lemma flat_iter_list:
  assumes flat: "flat_table fs"
  shows "iter_list (snd (pb_field_iter_begin fs base)) =
     map (\<lambda>k. (table_fields fs ! k, base + field_offset fs k)) [0..<length (table_fields fs)]"
proof -
  have "iter_list it = map (\<lambda>it. (hd (it_pos it), it_pData it)) (iters it)" for it
  proof (induction it rule: iters.induct)
    case (1 iter)
    obtain go iter' where n: "pb_field_iter_next iter = (go, iter')" by (cases "pb_field_iter_next iter")
    then show ?case using 1 by (cases go) (simp_all add: iter_list.simps [of iter] iters.simps [of iter])
  qed
  then show ?thesis
    using flat_position [OF flat, of _ base] nth_position_field [OF flat_not_last [OF flat], of base] by (simp add: flat_iters [OF flat])
qed

section \<open>One field\<close>

text \<open>A field that is not encoded holds zeros.\<close>

lemma bytes_at_zeros: "(\<forall>b \<in> set (bytes_at mem p n). b = 0) \<longleftrightarrow> bytes_at mem p n = zeros n"
  using replicate_eqI [of "bytes_at mem p n" n 0] by (auto simp: zeros_def)

lemma scalar_types:
  assumes "singular_scalar f"
  shows "PB_ATYPE (pf_type f) = PB_ATYPE_STATIC" and "PB_HTYPE (pf_type f) = PB_HTYPE_OPTIONAL" and "pf_size_offset f = 0" and "scalar_ok f"
    and "PB_ATYPE (pf_type f) \<noteq> PB_ATYPE_POINTER" and "PB_HTYPE (pf_type f) \<noteq> PB_HTYPE_REPEATED"
    and "PB_HTYPE (pf_type f) \<noteq> PB_HTYPE_REQUIRED" and "PB_HTYPE (pf_type f) \<noteq> PB_HTYPE_ONEOF"
    and "\<not> array_of_pointers f" and "\<not> packed f" and "PB_LTYPE (pf_type f) \<noteq> PB_LTYPE_EXTENSION"
  using assms scalar_not_ext [of f]
  by (simp_all add: singular_scalar_def PB_ATYPE_STATIC_def PB_ATYPE_POINTER_def ht_defs array_of_pointers_def packed_def)

lemma scalar_items:
  assumes f: "singular_scalar f"
  shows "field_items (Suc n) env mem f p = Some (if bytes_at mem p (pf_data_size f) = zeros (pf_data_size f) then [] else [p])"
proof -
  note ty = scalar_types [OF f]
  have lt: "PB_LTYPE (pf_type f) \<noteq> PB_LTYPE_BYTES" "PB_LTYPE (pf_type f) \<noteq> PB_LTYPE_STRING" "PB_LTYPE (pf_type f) \<noteq> PB_LTYPE_SUBMESSAGE"
      "PB_LTYPE (pf_type f) \<noteq> PB_LTYPE_FIXED_LENGTH_BYTES"
    using ty(4) by (auto simp: scalar_ok_def Let_def lt_defs split: if_splits)
  have default: "pb_check_proto3_default_value (Suc n) env mem f p = Some (bytes_at mem p (pf_data_size f) = zeros (pf_data_size f))"
    using ty(3,5,6-8) lt by (simp add: Let_def bytes_at_zeros)
  show ?thesis unfolding field_items_def Let_def default using ty(2,3,5,7) by simp
qed

lemma scalar_entry:
  assumes f: "singular_scalar f" and e: "ref_entry (Suc n) env cbs sub mem (f, p) = Some e"
  obtains (absent) "e = []" and "bytes_at mem p (pf_data_size f) = zeros (pf_data_size f)"
    | (present) wt v where "e = tag_bytes wt (pf_tag f) @ v" and "ref_value (env_fields env) sub mem f p = Some v" and "unat wt < 8"
proof -
  note ty = scalar_types [OF f] and items = scalar_items [OF f]
  have e': "ref_field (Suc n) env sub mem f p = Some e" using e ty(1,11) by (simp add: ref_entry_def ref_any_def Let_def)
  show ?thesis
  proof (cases "bytes_at mem p (pf_data_size f) = zeros (pf_data_size f)")
    case True
    then show ?thesis using e' absent by (simp add: ref_field_def items)
  next
    case False
    then obtain v wt where v: "ref_value (env_fields env) sub mem f p = Some v" and wt: "wire_type (PB_LTYPE (pf_type f)) = Some wt"
      and "e = tag_bytes wt (pf_tag f) @ v"
      using e' by (auto simp: ref_field_def items ty(9,10) split: option.splits)
    moreover have "unat wt < 8" using wt by (auto simp: wire_type_def wt_defs split: if_splits)
    ultimately show ?thesis using present by blast
  qed
qed

text \<open>A position of the decoder at a field of a flat table.\<close>

lemma flat_at:
  assumes "flat_table fs" and "k < length (table_fields fs)"
  shows "hd (it_pos (nth_position fs dest k)) = table_fields fs ! k" and "singular_scalar (table_fields fs ! k)"
    and "it_pData (nth_position fs dest k) = dest + field_offset fs k" and "it_pSize (nth_position fs dest k) = dest + field_offset fs k"
    and "position fs dest (nth_position fs dest k)"
  using nth_position_field [OF flat_not_last [OF assms(1)], of dest k] flat_field [OF assms] flat_position [OF assms, of dest]
    assms(2) flat_iters [OF assms(1), of dest] by (simp_all add: position_def)

context source
begin

lemma stores_first: "stores f w a F \<Longrightarrow> stores (act_bind (act_ret x) (\<lambda>_. f)) w a F"
  by (simp add: act_bind_def act_ret_def stores_def)

lemma stores_last: "stores f v a F \<Longrightarrow> g a = b \<Longrightarrow> stores (act_bind f (\<lambda>x. act_ret (g x))) v b F"
  using stores_bind [of f v a F "\<lambda>x. act_ret (g x)" "[]" b "\<lambda>h. h"] stores_ret [of b] by simp

lemma stores_field:
  fixes env :: "'st pb_denv"
  assumes f: "singular_scalar (hd (it_pos it))" and size: "it_pSize it = it_pData it"
    and can: "canonical mem (hd (it_pos it)) q" and v: "ref_value table sub mem (hd (it_pos it)) q = Some v"
  shows "stores (decode_field n env noinit init wt it) v it (poke (it_pData it) (bytes_at mem q (pf_data_size (hd (it_pos it)))))"
    (is "stores _ _ _ ?F")
proof -
  let ?func = "PB_DECODERS env noinit init (hd (it_pos it)) (it_pData it)"
  have val: "stores ?func v () ?F" using stores_value [OF _ can v] f by (simp add: singular_scalar_def)
  have "decode_static_field n env noinit init wt it = act_bind (act_ret ()) (\<lambda>_. ?func)"
    using f size by (simp add: decode_static_field_def Let_def singular_scalar_def ht_defs)
  then have "stores (decode_static_field n env noinit init wt it) v () ?F"
    using stores_first [OF val] by simp
  then have "stores (act_bind (decode_static_field n env noinit init wt it) (\<lambda>_. act_ret it)) v it ?F"
    by (rule stores_last) simp
  moreover have "decode_field n env noinit init wt it =
      act_bind (act_ret it) (\<lambda>_. act_bind (decode_static_field n env noinit init wt it) (\<lambda>_. act_ret it))"
    using f by (simp add: decode_field_def Let_def singular_scalar_def ht_defs fun_eq_iff act_bind_def act_ret_def)
  ultimately show ?thesis using stores_first by simp
qed

lemma stores_known_field:
  fixes env :: "'st pb_denv"
  assumes f: "singular_scalar (hd (it_pos (ds_iter ds)))" and size: "it_pSize (ds_iter ds) = it_pData (ds_iter ds)"
    and can: "canonical mem (hd (it_pos (ds_iter ds))) q" and v: "ref_value table sub mem (hd (it_pos (ds_iter ds))) q = Some v"
  shows "stores (known_field n env noinit init local wt ds) v ds
    (poke (it_pData (ds_iter ds)) (bytes_at mem q (pf_data_size (hd (it_pos (ds_iter ds))))))" (is "stores _ _ _ ?F")
proof -
  have ht: "PB_HTYPE (pf_type (hd (it_pos (ds_iter ds)))) \<noteq> PB_HTYPE_REPEATED" "PB_HTYPE (pf_type (hd (it_pos (ds_iter ds)))) \<noteq> PB_HTYPE_REQUIRED"
    using f by (simp_all add: singular_scalar_def ht_defs)
  have "known_field n env noinit init local wt ds =
      act_bind (act_ret ()) (\<lambda>_. act_bind (decode_field n env noinit init wt (ds_iter ds)) (\<lambda>iter. act_ret (ds\<lparr>ds_iter := iter\<rparr>)))"
    using ht by (simp add: known_field_def Let_def with_heap_def fun_eq_iff)
  moreover have "stores (act_bind (decode_field n env noinit init wt (ds_iter ds)) (\<lambda>iter. act_ret (ds\<lparr>ds_iter := iter\<rparr>))) v ds ?F"
    by (rule stores_last [OF stores_field [OF f size can v]]) simp
  ultimately show ?thesis using stores_first by simp
qed

text \<open>A round of the loop reads the entry of a field.\<close>

lemma round_stores:
  fixes env :: "'st pb_denv"
  assumes flat: "flat_table fs" and k: "k < length (table_fields fs)" and pos: "position fs dest (ds_iter ds)" and wt: "unat wt < 8"
    and can: "canonical mem (table_fields fs ! k) q" and v: "ref_value table sub mem (table_fields fs ! k) q = Some v"
  shows "stores (decode_round n env noinit init local ds) (tag_bytes wt (pf_tag (table_fields fs ! k)) @ v)
    (False, ds\<lparr>ds_iter := nth_position fs dest k\<rparr>)
    (poke (dest + field_offset fs k) (bytes_at mem q (pf_data_size (table_fields fs ! k))))" (is "stores _ (?t @ v) _ ?F")
  unfolding stores_def
proof (intro allI impI)
  fix s h rest
  assume s: "ready s \<and> ahead s = (?t @ v) @ rest"
  let ?f = "table_fields fs ! k" and ?di = "ds\<lparr>ds_iter := nth_position fs dest k\<rparr>"
  have tag: "unat (pf_tag ?f) < 2 ^ 29" "pf_tag ?f \<noteq> 0"
    using flat_field [OF flat k] nth_mem [OF k] by (auto simp: singular_scalar_def table_fields_def dest: set_takeWhileD)
  obtain t where t: "(case pb_decode_tag s of ((r, eof), s) \<Rightarrow> (r, s)) = (Some (wt, pf_tag ?f), t)" "advanced (length ?t) s t"
      "ready t" "ahead t = v @ rest"
    using readsE [OF reads_tag [OF wt tag], of s "v @ rest"] s unfolding tag_bytes_def by auto
  obtain eof where dec: "pb_decode_tag s = ((Some (wt, pf_tag ?f), eof), t)" using t(1) by (auto split: prod.splits)
  have find: "pb_field_iter_find (pf_tag ?f) (ds_iter ds) = (True, nth_position fs dest k)"
    using find_unique [OF flat_not_last [OF flat] pos k] flat scalar_not_ext [of ?f] flat_field [OF flat k]
    by (simp add: flat_table_def singular_scalar_def)
  note at = flat_at [OF flat k]
  have known: "stores (known_field n env noinit init local wt ?di) v ?di ?F"
    using stores_known_field [of ?di mem q table sub v] at can v by simp
  obtain u where u: "known_field n env noinit init local wt ?di (t, h) = (Some ?di, (u, ?F h))" "advanced (length v) t u"
    using storesE [OF known t(3,4), of h] by blast
  have "decode_round n env noinit init local ds (s, h) = (Some (False, ?di), (u, ?F h))"
    using u(1) by (simp add: decode_round_def dec find act_bind_def act_ret_def)
  then show "\<exists>s'. decode_round n env noinit init local ds (s, h) = (Some (False, ?di), (s', ?F h)) \<and> advanced (length (?t @ v)) s s'"
    using advanced_trans [OF t(2) u(2)] by simp
qed

end

section \<open>The memory after storing fields\<close>

lemma poke_same: "length bs = n \<Longrightarrow> bytes_at (hp_mem (poke p bs h)) p n = bs"
  by (auto simp: bytes_at_def poke_def intro: nth_equalityI)

lemma poke_other: "p + length bs \<le> q \<or> q + n \<le> p \<Longrightarrow> bytes_at (hp_mem (poke p bs h)) q n = bytes_at (hp_mem h) q n"
  by (auto simp: bytes_at_def poke_def)

definition put_fields :: "pb_field list \<Rightarrow> nat \<Rightarrow> (nat \<Rightarrow> byte list) \<Rightarrow> nat list \<Rightarrow> pb_heap \<Rightarrow> pb_heap" where
  "put_fields fs dest data ks = fold (\<lambda>k. poke (dest + field_offset fs k) (data k)) ks"

lemma put_fields_bytes:
  assumes "\<And>k. length (data k) = pf_data_size (table_fields fs ! k)"
  shows "bytes_at (hp_mem (put_fields fs dest data ks h)) (dest + field_offset fs l) (pf_data_size (table_fields fs ! l)) =
    (if l \<in> set ks then data l else bytes_at (hp_mem h) (dest + field_offset fs l) (pf_data_size (table_fields fs ! l)))"
proof (induction ks arbitrary: h)
  case (Cons k ks)
  let ?h = "poke (dest + field_offset fs k) (data k) h"
  have "bytes_at (hp_mem ?h) (dest + field_offset fs l) (pf_data_size (table_fields fs ! l)) =
    (if l = k then data l else bytes_at (hp_mem h) (dest + field_offset fs l) (pf_data_size (table_fields fs ! l)))"
  proof (cases "l = k")
    case True
    then show ?thesis using poke_same assms by simp
  next
    case False
    then have "k < l \<or> l < k" by auto
    then have "dest + field_offset fs k + length (data k) \<le> dest + field_offset fs l \<or>
        dest + field_offset fs l + pf_data_size (table_fields fs ! l) \<le> dest + field_offset fs k"
      using field_offset_mono [of k l fs] field_offset_mono [of l k fs] assms [of k] by auto
    then show ?thesis using poke_other False by simp
  qed
  moreover have "put_fields fs dest data (k # ks) h = put_fields fs dest data ks ?h" by (simp add: put_fields_def)
  ultimately show ?case using Cons.IH [of ?h] by auto
qed (simp add: put_fields_def)

section \<open>The message\<close>

lemma flat_defaults:
  assumes flat: "flat_table fs"
  shows "pb_message_set_to_defaults (Suc n) env fs dest h =
    put_fields fs dest (\<lambda>k. zeros (pf_data_size (table_fields fs ! k))) [0..<length (table_fields fs)] h"
proof -
  let ?L = "length (table_fields fs)" and ?msg = "pb_message_set_to_defaults n env"
  have one: "pb_field_set_to_default n env ?msg (nth_position fs dest k) h =
      poke (dest + field_offset fs k) (zeros (pf_data_size (table_fields fs ! k))) h" if "k < ?L" for k h
  proof -
    note at = flat_at [OF flat that]
    have "PB_HTYPE (pf_type (table_fields fs ! k)) \<noteq> PB_HTYPE_REPEATED" "PB_HTYPE (pf_type (table_fields fs ! k)) \<noteq> PB_HTYPE_ONEOF"
      "PB_LTYPE (pf_type (table_fields fs ! k)) \<noteq> PB_LTYPE_SUBMESSAGE"
      using at(2) by (auto simp: singular_scalar_def ht_defs scalar_ok_def Let_def lt_defs split: if_splits)
    then show ?thesis
      using at(2) scalar_not_ext [of "table_fields fs ! k"]
      by (simp add: pb_field_set_to_default.simps default_static_def Let_def singular_scalar_def at(1,3,4))
  qed
  have "fold (pb_field_set_to_default n env ?msg) (map (nth_position fs dest) ks) h =
      put_fields fs dest (\<lambda>k. zeros (pf_data_size (table_fields fs ! k))) ks h" if "set ks \<subseteq> {..<?L}" for ks
    using that by (induction ks arbitrary: h) (auto simp: put_fields_def one)
  then have "fold (pb_field_set_to_default n env ?msg) (map (nth_position fs dest) [0..<?L]) h =
      put_fields fs dest (\<lambda>k. zeros (pf_data_size (table_fields fs ! k))) [0..<?L] h"
    by (simp add: subset_iff)
  moreover have "pb_field_iter_begin fs dest = (True, snd (pb_field_iter_begin fs dest))"
    using flat_not_last [OF flat] by (simp add: pb_field_iter_begin_def Let_def)
  ultimately show ?thesis
    by (subst pb_message_set_to_defaults.simps) (metis (no_types, lifting) case_prod_conv iter_fold_eq flat_iters [OF flat] bool.simps(3))
qed

lemma flat_none_required:
  assumes flat: "flat_table fs"
  shows "position fs dest it \<Longrightarrow> req_field_count it = 0"
proof -
  have pos: "it_required_field_index it = 0 \<and> PB_HTYPE (pf_type (hd (it_pos it))) \<noteq> PB_HTYPE_REQUIRED" if it: "position fs dest it" for it
  proof -
    obtain k where k: "k < length (table_fields fs)" "it = nth_position fs dest k" by (rule position_nth [OF flat_not_last [OF flat] it])
    then show ?thesis
      using flat_position [OF flat k(1), of dest] flat_at(1,2) [OF flat k(1)] by (simp add: singular_scalar_def ht_defs)
  qed
  have last: "position fs dest it \<Longrightarrow> fst (last_required it) = 0 \<and> PB_HTYPE (fst (snd (last_required it))) \<noteq> PB_HTYPE_REQUIRED" for it
  proof (induction it rule: last_required.induct)
    case (1 iter)
    obtain go iter' where n: "pb_field_iter_next iter = (go, iter')" by (cases "pb_field_iter_next iter")
    then show ?case
      using 1 pos [OF 1(2)] position_next [OF 1(2)] by (cases go) (simp_all add: last_required.simps [of iter])
  qed
  show "position fs dest it \<Longrightarrow> req_field_count it = 0"
    using last [of it] by (cases "last_required it") (simp add: req_field_count_def)
qed

context source
begin

lemma loop_stores:
  fixes env :: "'st pb_denv"
  assumes flat: "flat_table fs"
    and entry: "\<And>k. k < length (table_fields fs) \<Longrightarrow> E k = [] \<or> (\<exists>wt v. E k = tag_bytes wt (pf_tag (table_fields fs ! k)) @ v \<and>
      unat wt < 8 \<and> ref_value table sub mem (table_fields fs ! k) (src + field_offset fs k) = Some v)"
    and can: "\<And>k. k < length (table_fields fs) \<Longrightarrow> canonical mem (table_fields fs ! k) (src + field_offset fs k)"
  shows "set ks \<subseteq> {..<length (table_fields fs)} \<Longrightarrow> position fs dest (ds_iter ds) \<Longrightarrow> ready s \<Longrightarrow> ahead s = concat (map E ks) \<Longrightarrow>
    is_bytes_left s \<le> m \<Longrightarrow>
    \<exists>it s'. position fs dest it \<and> is_bytes_left s' = 0 \<and> decode_loop m n env noinit init local ds (s, h) =
      (Some (ds\<lparr>ds_iter := it\<rparr>), (s', put_fields fs dest (\<lambda>k. bytes_at mem (src + field_offset fs k) (pf_data_size (table_fields fs ! k)))
         (filter (\<lambda>k. E k \<noteq> []) ks) h))"
proof (induction ks arbitrary: ds s h m)
  case Nil
  then have "is_bytes_left s = 0" using length_ahead [of s] by simp
  then show ?case
    using Nil by (intro exI [of _ "ds_iter ds"] exI [of _ s]) (simp add: decode_loop.simps put_fields_def)
next
  case (Cons k ks)
  show ?case
  proof (cases "E k = []")
    case True
    then show ?thesis using Cons by simp
  next
    case False
    have k: "k < length (table_fields fs)" using Cons.prems(1) by simp
    obtain wt v where e: "E k = tag_bytes wt (pf_tag (table_fields fs ! k)) @ v" and wt: "unat wt < 8"
      and v: "ref_value table sub mem (table_fields fs ! k) (src + field_offset fs k) = Some v"
      using entry [OF k] False by auto
    let ?di = "ds\<lparr>ds_iter := nth_position fs dest k\<rparr>"
    let ?h = "poke (dest + field_offset fs k) (bytes_at mem (src + field_offset fs k) (pf_data_size (table_fields fs ! k))) h"
    have ahead: "ahead s = E k @ concat (map E ks)" using Cons.prems(4) by simp
    obtain t where t: "decode_round n env noinit init local ds (s, h) = (Some (False, ?di), (t, ?h))"
      "advanced (length (E k)) s t" "ready t" "ahead t = concat (map E ks)"
      unfolding e by (rule storesE [OF round_stores [OF flat k Cons.prems(2) wt can [OF k] v] Cons.prems(3) ahead [unfolded e]])
    have left: "is_bytes_left s \<noteq> 0" using ahead False length_ahead [OF Cons.prems(3)] by (metis Nil_is_append_conv length_0_conv)
    obtain m' where m: "m = Suc m'" using left Cons.prems(5) by (cases m) auto
    have "is_bytes_left t < is_bytes_left s" using t(2) False left by (auto simp: advanced_def)
    then have le: "is_bytes_left t \<le> m'" using Cons.prems(5) m by simp
    have "decode_loop m n env noinit init local ds (s, h) = decode_loop m' n env noinit init local ?di (t, ?h)"
      using left t(1) by (simp add: m decode_loop.simps [of "Suc m'"])
    then show ?thesis
      using Cons.IH [of ?di t m' ?h] Cons.prems(1) flat_at(5) [OF flat k, of dest] t(3,4) le False by (simp add: put_fields_def)
  qed
qed

lemma flat_decode:
  fixes env :: "'st pb_denv"
  assumes flat: "flat_table fs"
    and entry: "\<And>k. k < length (table_fields fs) \<Longrightarrow>
      E k = [] \<and> bytes_at mem (src + field_offset fs k) (pf_data_size (table_fields fs ! k)) = zeros (pf_data_size (table_fields fs ! k)) \<or>
      (\<exists>wt v. E k = tag_bytes wt (pf_tag (table_fields fs ! k)) @ v \<and>
        unat wt < 8 \<and> ref_value table sub mem (table_fields fs ! k) (src + field_offset fs k) = Some v)"
    and can: "\<And>k. k < length (table_fields fs) \<Longrightarrow> canonical mem (table_fields fs ! k) (src + field_offset fs k)"
    and local: "local n + 4 \<le> dest \<or> dest + flat_size fs \<le> local n"
    and s: "ready s" "ahead s = concat (map E [0..<length (table_fields fs)])"
  shows "\<exists>s' h'. pb_decode (Suc n) env local fs dest (s, h) = (Some (), (s', h')) \<and> is_bytes_left s' = 0 \<and>
    (\<forall>k<length (table_fields fs). bytes_at (hp_mem h') (dest + field_offset fs k) (pf_data_size (table_fields fs ! k)) =
       bytes_at mem (src + field_offset fs k) (pf_data_size (table_fields fs ! k)))"
proof -
  let ?L = "length (table_fields fs)" and ?sz = "\<lambda>k. pf_data_size (table_fields fs ! k)"
  define h0 where "h0 = put_fields fs dest (\<lambda>k. zeros (?sz k)) [0..<?L] h"
  define h1 where "h1 = poke (local n) (zeros 4) h0"
  define ds where "ds = \<lparr>ds_iter = snd (pb_field_iter_begin fs dest), ds_fields_seen = [0, 0], ds_extension_range_start = 0,
    ds_fixed_count_field = None\<rparr>"
  let ?no = "pb_decode_noinit n env local"
  have entry': "E k = [] \<or> (\<exists>wt v. E k = tag_bytes wt (pf_tag (table_fields fs ! k)) @ v \<and>
      unat wt < 8 \<and> ref_value table sub mem (table_fields fs ! k) (src + field_offset fs k) = Some v)" if "k < ?L" for k
    using entry [OF that] by blast
  have pos: "position fs dest (ds_iter ds)" by (simp add: ds_def position_begin)
  obtain it s' where it: "position fs dest it" and s': "is_bytes_left s' = 0" and
    loop: "decode_loop (is_bytes_left s) n env ?no (decode_init n env ?no) (local n) ds (s, h1) =
      (Some (ds\<lparr>ds_iter := it\<rparr>), (s', put_fields fs dest (\<lambda>k. bytes_at mem (src + field_offset fs k) (?sz k)) (filter (\<lambda>k. E k \<noteq> []) [0..<?L]) h1))"
    using loop_stores [OF flat entry' can, of "[0..<?L]" dest ds s "is_bytes_left s" n env ?no "decode_init n env ?no" "local n" h1] pos s
    by (auto simp: atLeast0LessThan)
  define h2 where "h2 = put_fields fs dest (\<lambda>k. bytes_at mem (src + field_offset fs k) (?sz k)) (filter (\<lambda>k. E k \<noteq> []) [0..<?L]) h1"
  have "pb_decode_noinit (Suc n) env local fs dest (s, h0) = (Some (), (s', h2))"
    using loop flat_none_required [OF flat it]
    by (simp add: decode_message_def on_heap_def act_bind_def h1_def [symmetric] ds_def [symmetric] h2_def [symmetric])
      (simp add: ds_def fixed_count_wrong_def all_seen_def)
  then have run: "pb_decode (Suc n) env local fs dest (s, h) = (Some (), (s', h2))"
    using flat_defaults [OF flat, of n env dest h]
    by (simp del: pb_decode_noinit.simps pb_message_set_to_defaults.simps add: pb_decode_def decode_init_def on_heap_def act_bind_def h0_def)
  have "bytes_at (hp_mem h2) (dest + field_offset fs k) (?sz k) = bytes_at mem (src + field_offset fs k) (?sz k)" if k: "k < ?L" for k
  proof -
    have "bytes_at (hp_mem h0) (dest + field_offset fs k) (?sz k) = zeros (?sz k)"
      unfolding h0_def by (subst put_fields_bytes) (use k in \<open>simp_all add: zeros_def\<close>)
    moreover have "bytes_at (hp_mem h1) (dest + field_offset fs k) (?sz k) = bytes_at (hp_mem h0) (dest + field_offset fs k) (?sz k)"
      unfolding h1_def by (rule poke_other) (use local field_offset_size [OF k] in \<open>auto simp: zeros_def\<close>)
    moreover have "bytes_at (hp_mem h2) (dest + field_offset fs k) (?sz k) =
        (if E k \<noteq> [] then bytes_at mem (src + field_offset fs k) (?sz k) else bytes_at (hp_mem h1) (dest + field_offset fs k) (?sz k))"
      unfolding h2_def by (subst put_fields_bytes) (use k in simp_all)
    moreover have "tag_bytes wt tag \<noteq> []" for wt tag by (simp add: tag_bytes_def)
    ultimately show ?thesis using entry [OF k] by auto
  qed
  then show ?thesis using run s' by blast
qed

end

section \<open>The encoding\<close>

lemma scalar_value:
  assumes "scalar_ok f"
  obtains v where "ref_value table sub mem f p = Some v" and "length v \<le> 10"
proof -
  let ?n = "pf_data_size f"
  have l1: "length (leb (if mem p = 0 then 0 else 1)) \<le> 10" using length_leb_u64 [of "if mem p = 0 then 0 else 1"] by (auto split: if_splits)
  have l2: "length (leb (load ?n mem p)) \<le> 10" if "int_size ?n"
  proof -
    have "unat (of_nat (load ?n mem p) :: u64) = load ?n mem p" by (rule load_word) (use int_size_le [OF that] in simp)
    then show ?thesis using length_leb_u64 [of "of_nat (load ?n mem p)"] by simp
  qed
  have l3: "length (leb (zigzag (sint (load_signed ?n mem p)))) \<le> 10"
    using length_leb [of "zigzag (sint (load_signed ?n mem p))" 9] zigzag_less [of "load_signed ?n mem p"] by simp
  let ?lt = "PB_LTYPE (pf_type f)"
  consider "?lt = PB_LTYPE_BOOL" | "?lt = PB_LTYPE_VARINT" "int_size ?n" | "?lt = PB_LTYPE_UVARINT" "int_size ?n"
    | "?lt = PB_LTYPE_SVARINT" "int_size ?n" | "?lt = PB_LTYPE_FIXED32" | "?lt = PB_LTYPE_FIXED64"
    using assms by (auto simp: scalar_ok_def Let_def split: if_splits)
  then show ?thesis
  proof cases
    case 1
    then have "ref_value table sub mem f p = Some (leb (if mem p = 0 then 0 else 1))" by (simp add: ref_value_def)
    then show ?thesis using that l1 by blast
  next
    case 2
    then have "ref_value table sub mem f p = Some (leb (unat (load_signed ?n mem p)))" by (simp add: ref_value_def lt_defs)
    then show ?thesis using that length_leb_u64 by blast
  next
    case 3
    then have "ref_value table sub mem f p = Some (leb (load ?n mem p))" by (simp add: ref_value_def lt_defs)
    then show ?thesis using that l2 [OF 3(2)] by blast
  next
    case 4
    then have "ref_value table sub mem f p = Some (leb (zigzag (sint (load_signed ?n mem p))))" by (simp add: ref_value_def lt_defs)
    then show ?thesis using that l3 by blast
  next
    case 5
    then have "ref_value table sub mem f p = Some (bytes_at mem p 4)" by (simp add: ref_value_def lt_defs)
    then show ?thesis by (rule that) simp
  next
    case 6
    then have "ref_value table sub mem f p = Some (bytes_at mem p 8)" by (simp add: ref_value_def lt_defs)
    then show ?thesis by (rule that) simp
  qed
qed

lemma scalar_entry_some:
  assumes f: "singular_scalar f"
  obtains e where "ref_entry (Suc n) env cbs sub mem (f, p) = Some e" and "length e \<le> 20"
proof -
  note ty = scalar_types [OF f] and items = scalar_items [OF f]
  have ok: "scalar_ok f" and tag: "unat (pf_tag f) < 2 ^ 29" using f by (simp_all add: singular_scalar_def)
  obtain v where v: "ref_value (env_fields env) sub mem f p = Some v" "length v \<le> 10" by (rule scalar_value [OF ok])
  obtain wt where wt: "wire_type (PB_LTYPE (pf_type f)) = Some wt"
    using ok by (auto simp: wire_type_def scalar_ok_def Let_def lt_defs split: if_splits)
  then have "unat wt < 8" by (auto simp: wire_type_def wt_defs split: if_splits)
  then have len: "length (tag_bytes wt (pf_tag f)) \<le> 10"
    using length_leb [of "unat (pf_tag f) * 8 + unat wt" 9] tag by (simp add: tag_bytes_def)
  define absent where "absent = (bytes_at mem p (pf_data_size f) = zeros (pf_data_size f))"
  have e: "ref_field (Suc n) env sub mem f p = Some (if absent then [] else tag_bytes wt (pf_tag f) @ v)"
    by (simp add: ref_field_def items v wt ty absent_def)
  then have "ref_entry (Suc n) env cbs sub mem (f, p) = Some (if absent then [] else tag_bytes wt (pf_tag f) @ v)"
    using ty by (simp add: ref_entry_def ref_any_def Let_def)
  then show ?thesis using that len v(2) by (cases absent) auto
qed

lemma those_Some: "(\<And>x. x \<in> set xs \<Longrightarrow> r x = Some (g x)) \<Longrightarrow> those (map r xs) = Some (map g xs)"
  by (induction xs) simp_all

lemma flat_fields_bound:
  assumes "flat_table fs"
  shows "length (table_fields fs) \<le> 2 ^ 29"
proof -
  have "(\<lambda>f. unat (pf_tag f)) ` set (table_fields fs) \<subseteq> {..<2 ^ 29}"
    using assms by (auto simp: flat_table_def singular_scalar_def)
  moreover have "distinct (map (\<lambda>f. unat (pf_tag f)) (table_fields fs))"
    using assms by (simp add: flat_table_def distinct_map inj_on_def word_unat_eq_iff)
  then have "card ((\<lambda>f. unat (pf_tag f)) ` set (table_fields fs)) = length (table_fields fs)"
    using distinct_card by fastforce
  ultimately show ?thesis using card_mono [of "{..<2 ^ 29 :: nat}"] by (metis card_lessThan finite_lessThan)
qed

lemma flat_message:
  assumes flat: "flat_table fs"
  shows "\<exists>E. ref_message (Suc (Suc n)) env cbs mem fs src = Some (concat (map E [0..<length (table_fields fs)])) \<and>
    length (concat (map E [0..<length (table_fields fs)])) < 2 ^ 63 \<and>
    (\<forall>k<length (table_fields fs).
      E k = [] \<and> bytes_at mem (src + field_offset fs k) (pf_data_size (table_fields fs ! k)) = zeros (pf_data_size (table_fields fs ! k)) \<or>
      (\<exists>wt v. E k = tag_bytes wt (pf_tag (table_fields fs ! k)) @ v \<and>
        unat wt < 8 \<and> ref_value (env_fields env) (ref_message (Suc n) env cbs mem) mem (table_fields fs ! k) (src + field_offset fs k) = Some v))"
proof -
  let ?L = "length (table_fields fs)"
  let ?r = "\<lambda>k. ref_entry (Suc n) env cbs (ref_message (Suc n) env cbs mem) mem (table_fields fs ! k, src + field_offset fs k)"
  define E where "E = (\<lambda>k. the (?r k))"
  have E: "?r k = Some (E k) \<and> length (E k) \<le> 20" if "k < ?L" for k
    using scalar_entry_some [OF flat_field [OF flat that], of n env cbs "ref_message (Suc n) env cbs mem" mem "src + field_offset fs k"]
    unfolding E_def by (metis option.sel)
  obtain it where it: "pb_field_iter_begin fs src = (True, it)" "it = snd (pb_field_iter_begin fs src)"
    using flat_not_last [OF flat] by (simp add: pb_field_iter_begin_def Let_def)
  have list: "iter_list it = map (\<lambda>k. (table_fields fs ! k, src + field_offset fs k)) [0..<?L]"
    unfolding it(2) by (rule flat_iter_list [OF flat])
  have "ref_message (Suc (Suc n)) env cbs mem fs src = map_option concat (those (map ?r [0..<?L]))"
    unfolding ref_message.simps(2) [of "Suc n"] it(1) prod.case bool.case list map_map comp_def by (rule refl)
  also have "those (map ?r [0..<?L]) = Some (map E [0..<?L])"
    by (rule those_Some) (use E in simp)
  finally have ref: "ref_message (Suc (Suc n)) env cbs mem fs src = Some (concat (map E [0..<?L]))" by simp
  have "length (concat (map E ks)) \<le> 20 * length ks" if "set ks \<subseteq> {..<?L}" for ks
    using that E by (induction ks) fastforce+
  from this [of "[0..<?L]"] have "length (concat (map E [0..<?L])) \<le> 20 * ?L" by (simp add: subset_iff)
  then have short: "length (concat (map E [0..<?L])) < 2 ^ 63" using flat_fields_bound [OF flat] by simp
  show ?thesis
  proof (intro exI conjI allI impI, rule ref, rule short)
    fix k assume k: "k < ?L"
    show "E k = [] \<and> bytes_at mem (src + field_offset fs k) (pf_data_size (table_fields fs ! k)) = zeros (pf_data_size (table_fields fs ! k)) \<or>
      (\<exists>wt v. E k = tag_bytes wt (pf_tag (table_fields fs ! k)) @ v \<and>
        unat wt < 8 \<and> ref_value (env_fields env) (ref_message (Suc n) env cbs mem) mem (table_fields fs ! k) (src + field_offset fs k) = Some v)"
      by (rule scalar_entry [OF flat_field [OF flat k] conjunct1 [OF E [OF k]]]) blast+
  qed
qed

end
