(* ===== verification/Percent.thy ===== *)
theory Percent
  imports Prelude
begin

text \<open>
  Percent-encoding of metadata (\<open>gRPC-Core/src/core/lib/slice/percent_encoding.cc\<close>): the encoder and the two
  decoders, each of which counts in a first pass what the second one writes.
\<close>

section \<open>The code\<close>

text \<open>
  A table has a bit for each byte. A slice is the list of its bytes; a new reference to a slice is the same list.
  \<open>None\<close> stands for what must not happen: an access past the end of a slice, or an assertion that fails.
\<close>

definition grpc_url_percent_encoding_unreserved_bytes :: "byte list" where
  "grpc_url_percent_encoding_unreserved_bytes =
     [0x00, 0x00, 0x00, 0x00, 0x00, 0x60, 0xff, 0x03, 0xfe, 0xff, 0xff,
      0x87, 0xfe, 0xff, 0xff, 0x47, 0x00, 0x00, 0x00, 0x00, 0x00, 0x00,
      0x00, 0x00, 0x00, 0x00, 0x00, 0x00, 0x00, 0x00, 0x00, 0x00]"

definition grpc_compatible_percent_encoding_unreserved_bytes :: "byte list" where
  "grpc_compatible_percent_encoding_unreserved_bytes =
     [0x00, 0x00, 0x00, 0x00, 0xdf, 0xff, 0xff, 0xff, 0xff, 0xff, 0xff,
      0xff, 0xff, 0xff, 0xff, 0x7f, 0x00, 0x00, 0x00, 0x00, 0x00, 0x00,
      0x00, 0x00, 0x00, 0x00, 0x00, 0x00, 0x00, 0x00, 0x00, 0x00]"

definition is_unreserved_character :: "byte \<Rightarrow> byte list \<Rightarrow> bool" where
  "is_unreserved_character c unreserved_bytes \<longleftrightarrow> drop_bit (unat c mod 8) (unreserved_bytes ! (unat c div 8)) AND 1 \<noteq> 0"

definition hex_digits :: "byte list" where
  "hex_digits = [0x30, 0x31, 0x32, 0x33, 0x34, 0x35, 0x36, 0x37, 0x38, 0x39, 0x41, 0x42, 0x43, 0x44, 0x45, 0x46]"

text \<open>The first pass: how long the output is, and whether there is anything to encode.\<close>

primrec encode_count :: "byte list \<Rightarrow> byte list \<Rightarrow> nat \<times> bool \<Rightarrow> nat \<times> bool" where
  "encode_count unreserved_bytes [] acc = acc"
| "encode_count unreserved_bytes (c # p) acc =
     (let unres = is_unreserved_character c unreserved_bytes
      in encode_count unreserved_bytes p (fst acc + (if unres then 1 else 3), snd acc \<or> \<not> unres))"

primrec encode_bytes :: "byte list \<Rightarrow> byte list \<Rightarrow> byte list" where
  "encode_bytes unreserved_bytes [] = []"
| "encode_bytes unreserved_bytes (c # p) =
     (if is_unreserved_character c unreserved_bytes then [c]
      else [0x25, hex_digits ! unat (drop_bit 4 c), hex_digits ! unat (c AND 15)]) @ encode_bytes unreserved_bytes p"

definition grpc_percent_encode_slice :: "byte list \<Rightarrow> byte list \<Rightarrow> byte list option" where
  "grpc_percent_encode_slice input unreserved_bytes =
     (case encode_count unreserved_bytes input (0, False) of
        (output_length, any_reserved_bytes) \<Rightarrow>
          if \<not> any_reserved_bytes then Some input
          else if length (encode_bytes unreserved_bytes input) = output_length then Some (encode_bytes unreserved_bytes input)
          else None)"

text \<open>A pointer into a slice is the rest of it.\<close>

definition valid_hex :: "byte list \<Rightarrow> bool" where
  "valid_hex p \<longleftrightarrow> (case p of [] \<Rightarrow> False
     | c # _ \<Rightarrow> 0x30 \<le> c \<and> c \<le> 0x39 \<or> 0x61 \<le> c \<and> c \<le> 0x66 \<or> 0x41 \<le> c \<and> c \<le> 0x46)"

definition dehex :: "byte \<Rightarrow> byte" where
  "dehex c =
     (if 0x30 \<le> c \<and> c \<le> 0x39 then c - 0x30
      else if 0x41 \<le> c \<and> c \<le> 0x46 then c - 0x41 + 10
      else if 0x61 \<le> c \<and> c \<le> 0x66 then c - 0x61 + 10
      else 255)"

function strict_count :: "byte list \<Rightarrow> byte list \<Rightarrow> nat \<times> bool \<Rightarrow> (nat \<times> bool) option" where
  "strict_count unreserved_bytes p acc =
     (case p of [] \<Rightarrow> Some acc
      | c # p' \<Rightarrow>
          if c = 0x25
          then if \<not> valid_hex p' then None
               else if \<not> valid_hex (tl p') then None
               else strict_count unreserved_bytes (tl (tl p')) (fst acc + 1, True)
          else if is_unreserved_character c unreserved_bytes then strict_count unreserved_bytes p' (fst acc + 1, snd acc)
          else None)"
  by pat_completeness auto
termination
  by (relation "measure (\<lambda>(_, p, _). length p)") (auto simp: less_Suc_eq_le)

declare strict_count.simps [simp del]

text \<open>The second pass of the strict decoder reads the two digits without a test.\<close>

fun strict_copy :: "byte list \<Rightarrow> byte list option" where
  "strict_copy [] = Some []"
| "strict_copy (c # p) =
     (if c = 0x25
      then (case p of
              a # b # p \<Rightarrow> map_option ((#) (push_bit 4 (dehex a) OR dehex b)) (strict_copy p)
            | _ \<Rightarrow> None)
      else map_option ((#) c) (strict_copy p))"

definition grpc_strict_percent_decode_slice :: "byte list \<Rightarrow> byte list \<Rightarrow> (bool \<times> byte list) option" where
  "grpc_strict_percent_decode_slice slice_in unreserved_bytes =
     (case strict_count unreserved_bytes slice_in (0, False) of
        None \<Rightarrow> Some (False, [])
      | Some (out_length, any_percent_encoded_stuff) \<Rightarrow>
          if \<not> any_percent_encoded_stuff then Some (True, slice_in)
          else (case strict_copy slice_in of
                  None \<Rightarrow> None
                | Some out \<Rightarrow> if length out = out_length then Some (True, out) else None))"

function permissive_count :: "byte list \<Rightarrow> nat \<times> bool \<Rightarrow> nat \<times> bool" where
  "permissive_count p acc =
     (case p of [] \<Rightarrow> acc
      | c # p' \<Rightarrow>
          if c = 0x25
          then if \<not> valid_hex p' \<or> \<not> valid_hex (tl p') then permissive_count p' (fst acc + 1, snd acc)
               else permissive_count (tl (tl p')) (fst acc + 1, True)
          else permissive_count p' (fst acc + 1, snd acc))"
  by pat_completeness auto
termination
  by (relation "measure (\<lambda>(p, _). length p)") (auto simp: less_Suc_eq_le)

declare permissive_count.simps [simp del]

function permissive_copy :: "byte list \<Rightarrow> byte list" where
  "permissive_copy p =
     (case p of [] \<Rightarrow> []
      | c # p' \<Rightarrow>
          if c = 0x25
          then if \<not> valid_hex p' \<or> \<not> valid_hex (tl p') then c # permissive_copy p'
               else (push_bit 4 (dehex (hd p')) OR dehex (hd (tl p'))) # permissive_copy (tl (tl p'))
          else c # permissive_copy p')"
  by pat_completeness auto
termination
  by (relation "measure length") (auto simp: less_Suc_eq_le)

declare permissive_copy.simps [simp del]

definition grpc_permissive_percent_decode_slice :: "byte list \<Rightarrow> byte list option" where
  "grpc_permissive_percent_decode_slice slice_in =
     (case permissive_count slice_in (0, False) of
        (out_length, any_percent_encoded_stuff) \<Rightarrow>
          if \<not> any_percent_encoded_stuff then Some slice_in
          else if length (permissive_copy slice_in) = out_length then Some (permissive_copy slice_in)
          else None)"

section \<open>Encoding\<close>

definition escape :: "byte list \<Rightarrow> byte \<Rightarrow> byte list" where
  "escape table c = (if is_unreserved_character c table then [c] else [0x25, hex_digits ! unat (drop_bit 4 c), hex_digits ! unat (c AND 15)])"

lemma encode_bytes_concat: "encode_bytes table s = concat (map (escape table) s)"
  by (induction s) (simp_all add: escape_def)

lemma encode_count_eq:
  "encode_count table s acc =
     (fst acc + length (encode_bytes table s), snd acc \<or> (\<exists>c \<in> set s. \<not> is_unreserved_character c table))"
  by (induction s arbitrary: acc) (auto simp: Let_def)

lemma encode_bytes_plain: "\<forall>c \<in> set s. is_unreserved_character c table \<Longrightarrow> encode_bytes table s = s"
  by (induction s) simp_all

lemma encode_slice_eq: "grpc_percent_encode_slice s table = Some (encode_bytes table s)"
  using encode_bytes_plain [of s table] by (auto simp: grpc_percent_encode_slice_def encode_count_eq)

section \<open>Decoding\<close>

lemma hex_digit: "x < 16 \<Longrightarrow> valid_hex (hex_digits ! x # p) \<and> unat (dehex (hex_digits ! x)) = x"
proof -
  assume "x < 16"
  then have x: "x \<in> set [0..<16]" by simp
  have "\<forall>x \<in> set [0..<16]. valid_hex [hex_digits ! x] \<and> unat (dehex (hex_digits ! x)) = x" by code_simp
  then show ?thesis using x by (auto simp: valid_hex_def)
qed

lemma unescape: "push_bit 4 (dehex (hex_digits ! unat (drop_bit 4 c))) OR dehex (hex_digits ! unat (c AND 15)) = (c :: byte)"
proof -
  have "unat (drop_bit 4 c) = unat c div 16" by (simp only: unat_drop_bit_eq) (simp add: drop_bit_eq_div)
  then have hi: "unat (drop_bit 4 c) < 16" using unat_byte_less [of c] by linarith
  have lo: "unat (c AND 15) < 16" using unat_and_mask [of c 4] by (simp add: mask_numeral)
  have "dehex (hex_digits ! unat (drop_bit 4 c)) = drop_bit 4 c" "dehex (hex_digits ! unat (c AND 15)) = c AND 15"
    using hex_digit [OF hi] hex_digit [OF lo] by (simp_all add: word_unat_eq_iff)
  moreover have "c AND 15 = take_bit 4 c" by (simp add: take_bit_eq_mask mask_numeral)
  moreover have "push_bit 4 (drop_bit 4 c) OR take_bit 4 c = c" by (rule bit_word_eqI) (auto simp: bit_simps)
  ultimately show ?thesis by simp
qed

lemmas scan_simps =
  strict_count.simps [of _ "[]"] strict_count.simps [of _ "c # p" for c p]
  permissive_count.simps [of "[]"] permissive_count.simps [of "c # p" for c p]
  permissive_copy.simps [of "[]"] permissive_copy.simps [of "c # p" for c p]

text \<open>What the strict decoder accepts: unreserved bytes and escapes.\<close>

lemma strict_count_copy:
  "strict_count table p acc = Some (n, any) \<Longrightarrow>
     \<exists>out. strict_copy p = Some out \<and> n = fst acc + length out \<and> permissive_copy p = out \<and>
       (\<not> any \<longrightarrow> out = p \<and> \<not> snd acc) \<and> (any \<longleftrightarrow> snd acc \<or> 0x25 \<in> set p) \<and>
       (\<forall>acc. permissive_count p acc = (fst acc + length out, snd acc \<or> 0x25 \<in> set p))"
proof (induction table p acc rule: strict_count.induct)
  case (1 table p acc)
  show ?case
  proof (cases p)
    case Nil
    then show ?thesis using 1(3)
      by (auto simp: scan_simps)
  next
    case (Cons c p')
    show ?thesis
    proof (cases "c = 0x25")
      case True
      then have hex: "valid_hex p'" "valid_hex (tl p')" and rest: "strict_count table (tl (tl p')) (fst acc + 1, True) = Some (n, any)"
        using 1(3) Cons by (simp_all add: scan_simps split: if_splits)
      then obtain a b q where q: "p' = a # b # q" by (auto simp: valid_hex_def split: list.splits)
      show ?thesis
        using 1(1) [OF Cons True] hex rest q True Cons
        by (auto simp: scan_simps)
    next
      case False
      then have "is_unreserved_character c table" and "strict_count table p' (fst acc + 1, snd acc) = Some (n, any)"
        using 1(3) Cons by (simp_all add: scan_simps split: if_splits)
      then show ?thesis
        using 1(2) [OF Cons False] False Cons
        by (auto simp: scan_simps)
    qed
  qed
qed

lemma permissive_copy_plain: "0x25 \<notin> set p \<Longrightarrow> permissive_copy p = p"
  by (induction p) (simp_all add: scan_simps)

lemma permissive_count_eq:
  "permissive_count p acc = (fst acc + length (permissive_copy p), snd (permissive_count p acc)) \<and>
     (\<not> snd (permissive_count p acc) \<longrightarrow> permissive_copy p = p \<and> \<not> snd acc)"
proof (induction p acc rule: permissive_count.induct)
  case (1 p acc)
  show ?case
  proof (cases p)
    case (Cons c p')
    then show ?thesis
      using 1 by (auto simp: scan_simps)
  qed (simp add: scan_simps)
qed

text \<open>Both decoders undo the encoder.\<close>

lemma strict_count_escape:
  assumes "\<not> is_unreserved_character 0x25 table"
  shows "\<exists>n any. strict_count table (encode_bytes table s) acc = Some (n, any)"
proof (induction s arbitrary: acc)
  case Nil
  then show ?case by (simp add: scan_simps)
next
  case (Cons c s)
  show ?case
  proof (cases "is_unreserved_character c table")
    case True
    then have "c \<noteq> 0x25" using assms by auto
    then show ?thesis using True Cons by (simp add: scan_simps)
  next
    case False
    have "unat (drop_bit 4 c) = unat c div 16" by (simp only: unat_drop_bit_eq) (simp add: drop_bit_eq_div)
    then have hi: "unat (drop_bit 4 c) < 16" using unat_byte_less [of c] by linarith
    have lo: "unat (c AND 15) < 16" using unat_and_mask [of c 4] by (simp add: mask_numeral)
    show ?thesis using False hex_digit [OF hi] hex_digit [OF lo] Cons by (simp add: scan_simps)
  qed
qed

lemma strict_copy_escape:
  assumes "\<not> is_unreserved_character 0x25 table"
  shows "strict_copy (encode_bytes table s) = Some s"
  using assms by (induction s) (auto simp: unescape)

section \<open>Slices\<close>

lemma permissive_slice_eq: "grpc_permissive_percent_decode_slice p = Some (permissive_copy p)"
  using permissive_count_eq [of p "(0, False)"]
  by (cases "permissive_count p (0, False)") (auto simp: grpc_permissive_percent_decode_slice_def)

lemma strict_slice_cases:
  "(strict_count table p (0, False) = None \<and> grpc_strict_percent_decode_slice p table = Some (False, [])) \<or>
   (\<exists>n any. strict_count table p (0, False) = Some (n, any) \<and> strict_copy p = Some (permissive_copy p) \<and>
     grpc_strict_percent_decode_slice p table = Some (True, permissive_copy p))"
proof (cases "strict_count table p (0, False)")
  case None
  then show ?thesis by (simp add: grpc_strict_percent_decode_slice_def)
next
  case (Some r)
  obtain n any where r: "r = (n, any)" by (cases r)
  show ?thesis
    using strict_count_copy [OF Some [unfolded r]] Some r by (auto simp: grpc_strict_percent_decode_slice_def)
qed

lemma strict_slice_escape:
  assumes "\<not> is_unreserved_character 0x25 table"
  shows "grpc_strict_percent_decode_slice (encode_bytes table s) table = Some (True, s)"
    and "grpc_permissive_percent_decode_slice (encode_bytes table s) = Some s"
proof -
  obtain n any where "strict_count table (encode_bytes table s) (0, False) = Some (n, any)"
    using strict_count_escape [OF assms] by blast
  then show "grpc_strict_percent_decode_slice (encode_bytes table s) table = Some (True, s)"
    and "grpc_permissive_percent_decode_slice (encode_bytes table s) = Some s"
    using strict_slice_cases [of table "encode_bytes table s"] strict_copy_escape [OF assms, of s]
    by (auto simp: permissive_slice_eq)
qed

section \<open>The language of the strict decoder\<close>

text \<open>The grammar, independent of the code: an escape is a percent sign and two hexadecimal digits of either case.\<close>

definition hex_value :: "byte \<Rightarrow> nat option" where
  "hex_value c = map_of (zip (hex_digits @ [0x61, 0x62, 0x63, 0x64, 0x65, 0x66]) ([0..<16] @ [10..<16])) c"

inductive percent_text :: "byte list \<Rightarrow> byte list \<Rightarrow> byte list \<Rightarrow> bool" for table where
  percent_end: "percent_text table [] []"
| percent_plain: "c \<noteq> 0x25 \<Longrightarrow> is_unreserved_character c table \<Longrightarrow> percent_text table p out \<Longrightarrow> percent_text table (c # p) (c # out)"
| percent_escape: "hex_value a = Some x \<Longrightarrow> hex_value b = Some y \<Longrightarrow> percent_text table p out \<Longrightarrow>
    percent_text table (0x25 # a # b # p) (of_nat (16 * x + y) # out)"

inductive_cases percent_text_NilE [elim!]: "percent_text table [] out"
inductive_cases percent_text_ConsE: "percent_text table (c # p) out"

lemma valid_hex_digit: "valid_hex [c] \<longleftrightarrow> c \<in> set (hex_digits @ [0x61, 0x62, 0x63, 0x64, 0x65, 0x66])" (is "_ \<longleftrightarrow> c \<in> ?digits")
proof
  let ?codes = "[48..<58] @ [65..<71] @ [97..<103]"
  assume "valid_hex [c]"
  then have "unat c \<in> {48..<58} \<union> {65..<71} \<union> {97..<103}" by (auto simp: valid_hex_def word_le_nat_alt)
  then have "unat c \<in> set ?codes" by (simp only: set_append set_upt Un_assoc)
  moreover have "\<forall>n \<in> set ?codes. (of_nat n :: byte) \<in> ?digits" by code_simp
  ultimately show "c \<in> ?digits" by (metis of_nat_unat ucast_id)
next
  assume "c \<in> ?digits"
  moreover have "\<forall>c \<in> ?digits. valid_hex [c]" by code_simp
  ultimately show "valid_hex [c]" by blast
qed

lemma hex_value_valid: "(hex_value c \<noteq> None \<longleftrightarrow> valid_hex [c]) \<and> (valid_hex [c] \<longrightarrow> hex_value c = Some (unat (dehex c)) \<and> unat (dehex c) < 16)"
proof -
  let ?digits = "set (hex_digits @ [0x61, 0x62, 0x63, 0x64, 0x65, 0x66])"
  have "\<forall>c \<in> ?digits. hex_value c = Some (unat (dehex c)) \<and> unat (dehex c) < 16" by code_simp
  moreover have "hex_value c \<noteq> None \<Longrightarrow> c \<in> ?digits"
    unfolding hex_value_def by (auto dest!: map_of_SomeD set_zip_leftD)
  ultimately show ?thesis unfolding valid_hex_digit by auto
qed

lemma nibbles_eq: "unat (a :: byte) < 16 \<Longrightarrow> unat b < 16 \<Longrightarrow> push_bit 4 a OR b = of_nat (16 * unat a + unat b)"
proof -
  assume a: "unat a < 16" and b: "unat b < 16"
  have "take_bit 4 b = b" using b by (simp add: take_bit_eq_mod mod_word_less word_less_nat_alt)
  then have "push_bit 4 a AND b = 0"
    by (metis (no_types) and.commute push_bit_and take_bit_eq_mask mask_eq_0_iff take_bit_push_bit and.assoc bit.conj_zero_right diff_self_eq_0 push_bit_of_0 take_bit_0)
  then have "push_bit 4 a OR b = push_bit 4 a + b" by (simp add: disjunctive_add_eq_or)
  moreover have "push_bit 4 a = 16 * a" by (simp add: push_bit_eq_mult)
  ultimately show ?thesis by simp
qed

lemma strict_text:
  "strict_count table p acc \<noteq> None \<and> permissive_copy p = out \<longleftrightarrow> percent_text table p out"
proof (induction table p acc arbitrary: out rule: strict_count.induct)
  case (1 table p acc)
  show ?case
  proof (cases p)
    case Nil
    then show ?thesis by (auto simp: scan_simps intro: percent_text.intros)
  next
    case (Cons c p')
    show ?thesis
    proof (cases "c = 0x25")
      case True
      show ?thesis
      proof (cases "valid_hex p' \<and> valid_hex (tl p')")
        case valid: True
        then obtain a b q where q: "p' = a # b # q" by (auto simp: valid_hex_def split: list.splits)
        have "valid_hex [a]" "valid_hex [b]" using valid q by (simp_all add: valid_hex_def)
        then have ab: "hex_value a = Some (unat (dehex a))" "hex_value b = Some (unat (dehex b))"
            "push_bit 4 (dehex a) OR dehex b = of_nat (16 * unat (dehex a) + unat (dehex b))"
          using hex_value_valid [of a] hex_value_valid [of b] nibbles_eq by simp_all
        have "percent_text table p out \<longleftrightarrow> (\<exists>o'. out = (push_bit 4 (dehex a) OR dehex b) # o' \<and> percent_text table q o')"
          unfolding Cons True q ab(3) using percent_escape [OF ab(1,2), of table q] by (auto elim!: percent_text_ConsE simp: ab(1,2))
        moreover have "strict_count table q (fst acc + 1, True) \<noteq> None \<and> permissive_copy q = o' \<longleftrightarrow> percent_text table q o'" for o'
          using 1(1) [OF Cons True] valid q by simp
        ultimately show ?thesis using valid unfolding Cons True q by (auto simp: scan_simps)
      next
        case False
        have "\<not> percent_text table p out"
        proof
          assume "percent_text table p out"
          then obtain a b q x y where "p' = a # b # q" "hex_value a = Some x" "hex_value b = Some y"
            unfolding Cons True by (auto elim!: percent_text_ConsE)
          then show False using False hex_value_valid [of a] hex_value_valid [of b] by (auto simp: valid_hex_def)
        qed
        then show ?thesis using False unfolding Cons True by (auto simp: scan_simps)
      qed
    next
      case False
      have "percent_text table p out \<longleftrightarrow> is_unreserved_character c table \<and> (\<exists>o'. out = c # o' \<and> percent_text table p' o')"
        unfolding Cons using False by (auto elim!: percent_text_ConsE intro: percent_text.intros)
      then show ?thesis
        using 1(2) [OF Cons False] False unfolding Cons by (auto simp: scan_simps)
    qed
  qed
qed

lemma strict_slice_exact: "grpc_strict_percent_decode_slice p table = Some (True, out) \<longleftrightarrow> percent_text table p out"
  using strict_text [of table p "(0, False)" out] strict_slice_cases [of table p] by auto

end
