(* ===== verification/Dictionary.thy ===== *)
theory Dictionary
  imports Prelude
begin

text \<open>
  What the containers below promise, an interface between them and their clients: runs of insertions and deletions on
  a store of entries under keys behave as on a function. \<open>Avl\<close> and \<open>Lhash\<close> interpret it.
\<close>

section \<open>Dictionaries\<close>

text \<open>
  What a client relies on: a store of entries under keys, in which a later entry under the same key takes the
  place of an earlier one. An operation may fail; then the client stops.
\<close>

datatype ('e, 'k) dict_op = Store 'e | Remove 'k

fun run_ops :: "('e \<Rightarrow> 's \<Rightarrow> 's option) \<Rightarrow> ('k \<Rightarrow> 's \<Rightarrow> 's option) \<Rightarrow> ('e, 'k) dict_op list \<Rightarrow> 's \<Rightarrow> 's option" where
  "run_ops put del [] s = Some s"
| "run_ops put del (Store e # ops) s = Option.bind (put e s) (run_ops put del ops)"
| "run_ops put del (Remove k # ops) s = Option.bind (del k s) (run_ops put del ops)"

text \<open>The abstract dictionary is a function; the last operation on a key decides.\<close>

fun spec_ops ::
    "('k \<Rightarrow> 'k \<Rightarrow> bool) \<Rightarrow> ('e \<Rightarrow> 'k) \<Rightarrow> ('e \<Rightarrow> 'v) \<Rightarrow> ('e, 'k) dict_op list \<Rightarrow> ('k \<Rightarrow> 'v option) \<Rightarrow> 'k \<Rightarrow> 'v option" where
  "spec_ops same key val [] f = f"
| "spec_ops same key val (Store e # ops) f = spec_ops same key val ops (\<lambda>x. if same (key e) x then Some (val e) else f x)"
| "spec_ops same key val (Remove k # ops) f = spec_ops same key val ops (\<lambda>x. if same k x then None else f x)"

locale dictionary =
  fixes inv :: "'s \<Rightarrow> bool" and lookup :: "'s \<Rightarrow> 'k \<Rightarrow> 'v option"
    and put :: "'e \<Rightarrow> 's \<Rightarrow> 's option" and del :: "'k \<Rightarrow> 's \<Rightarrow> 's option"
    and key :: "'e \<Rightarrow> 'k" and val :: "'e \<Rightarrow> 'v" and same :: "'k \<Rightarrow> 'k \<Rightarrow> bool"
  assumes put_inv: "inv s \<Longrightarrow> put e s = Some t \<Longrightarrow> inv t"
    and put_lookup: "inv s \<Longrightarrow> put e s = Some t \<Longrightarrow> lookup t x = (if same (key e) x then Some (val e) else lookup s x)"
    and del_inv: "inv s \<Longrightarrow> del k s = Some t \<Longrightarrow> inv t"
    and del_lookup: "inv s \<Longrightarrow> del k s = Some t \<Longrightarrow> lookup t x = (if same k x then None else lookup s x)"
begin

lemma run_refines: "inv s \<Longrightarrow> run_ops put del ops s = Some t \<Longrightarrow> inv t \<and> lookup t = spec_ops same key val ops (lookup s)"
proof (induction ops arbitrary: s)
  case (Cons op ops)
  show ?case
  proof (cases op)
    case (Store e)
    then obtain u where u: "put e s = Some u" "run_ops put del ops u = Some t" using Cons.prems(2) by (cases "put e s") auto
    have "lookup u = (\<lambda>x. if same (key e) x then Some (val e) else lookup s x)"
      using put_lookup [OF Cons.prems(1) u(1)] by (simp add: fun_eq_iff)
    then show ?thesis using Cons.IH [OF put_inv [OF Cons.prems(1) u(1)] u(2)] Store by simp
  next
    case (Remove k)
    then obtain u where u: "del k s = Some u" "run_ops put del ops u = Some t" using Cons.prems(2) by (cases "del k s") auto
    have "lookup u = (\<lambda>x. if same k x then None else lookup s x)"
      using del_lookup [OF Cons.prems(1) u(1)] by (simp add: fun_eq_iff)
    then show ?thesis using Cons.IH [OF del_inv [OF Cons.prems(1) u(1)] u(2)] Remove by simp
  qed
qed simp

text \<open>If no operation ever fails, neither does a run.\<close>

lemma run_succeeds:
  assumes "\<And>e s. inv s \<Longrightarrow> put e s \<noteq> None" and "\<And>k s. inv s \<Longrightarrow> del k s \<noteq> None"
  shows "inv s \<Longrightarrow> \<exists>t. run_ops put del ops s = Some t"
proof (induction ops arbitrary: s)
  case (Cons op ops)
  show ?case
  proof (cases op)
    case (Store e)
    obtain u where "put e s = Some u" using assms(1) [OF Cons.prems] by blast
    then show ?thesis using Cons.IH [OF put_inv [OF Cons.prems]] Store by simp
  next
    case (Remove k)
    obtain u where "del k s = Some u" using assms(2) [OF Cons.prems] by blast
    then show ?thesis using Cons.IH [OF del_inv [OF Cons.prems]] Remove by simp
  qed
qed simp

end

end
