(* ===== verification/Avl.thy ===== *)
theory Avl
  imports Dictionary
begin

text \<open>
  The immutable balanced trees of gRPC (\<open>gRPC-Core/src/core/lib/avl/avl.cc\<close>): lookup, insertion and removal with
  the assertions of the debug build, shown never to fail, and the dictionary the trees implement.
\<close>

section \<open>The code\<close>

text \<open>
  A tree is immutable and shared; a node is the value it points to, and \<open>Null\<close> the null pointer. \<open>None\<close> stands for
  what must not happen: a null pointer is dereferenced, or an assertion of the debug build fails. The functions of
  the vtable take the user data as their last argument. Heights are integers.
\<close>

datatype ('k, 'v) avl_node =
  is_null: Null | Node (node_key: 'k) (node_value: 'v) (node_left: "('k, 'v) avl_node") (node_right: "('k, 'v) avl_node") (node_stored_height: int)

record ('k, 'v, 'u) grpc_avl_vtable =
  copy_key :: "'k \<Rightarrow> 'u \<Rightarrow> 'k"
  compare_keys :: "'k \<Rightarrow> 'k \<Rightarrow> 'u \<Rightarrow> int"
  copy_value :: "'v \<Rightarrow> 'u \<Rightarrow> 'v"

record ('k, 'v, 'u) grpc_avl =
  avl_vtable :: "('k, 'v, 'u) grpc_avl_vtable"
  avl_root :: "('k, 'v) avl_node"

definition grpc_avl_create :: "('k, 'v, 'u) grpc_avl_vtable \<Rightarrow> ('k, 'v, 'u) grpc_avl" where
  "grpc_avl_create vt = \<lparr>avl_vtable = vt, avl_root = Null\<rparr>"

definition node_height :: "('k, 'v) avl_node \<Rightarrow> int" where
  "node_height n = (case n of Null \<Rightarrow> 0 | Node k v l r h \<Rightarrow> h)"

primrec calculate_height :: "('k, 'v) avl_node \<Rightarrow> int" where
  "calculate_height Null = 0"
| "calculate_height (Node k v l r h) = 1 + max (calculate_height l) (calculate_height r)"

primrec assert_invariants :: "('k, 'v) avl_node \<Rightarrow> ('k, 'v) avl_node option" where
  "assert_invariants Null = Some Null"
| "assert_invariants (Node k v l r h) =
     (case assert_invariants l of None \<Rightarrow> None
      | Some _ \<Rightarrow>
          (case assert_invariants r of None \<Rightarrow> None
           | Some _ \<Rightarrow>
               if \<not> calculate_height (Node k v l r h) = h then None
               else if \<not> \<bar>node_height l - node_height r\<bar> \<le> 1 then None
               else Some (Node k v l r h)))"

definition new_node :: "'k \<Rightarrow> 'v \<Rightarrow> ('k, 'v) avl_node \<Rightarrow> ('k, 'v) avl_node \<Rightarrow> ('k, 'v) avl_node option" where
  "new_node k v l r =
     (case assert_invariants l of None \<Rightarrow> None
      | Some l \<Rightarrow>
          (case assert_invariants r of None \<Rightarrow> None
           | Some r \<Rightarrow> Some (Node k v l r (1 + max (node_height l) (node_height r)))))"

primrec get :: "('k, 'v, 'u) grpc_avl_vtable \<Rightarrow> ('k, 'v) avl_node \<Rightarrow> 'k \<Rightarrow> 'u \<Rightarrow> ('k, 'v) avl_node" where
  "get vt Null k u = Null"
| "get vt (Node nk nv l r h) k u =
     (let cmp = compare_keys vt nk k u
      in if cmp = 0 then Node nk nv l r h
         else if cmp > 0 then get vt l k u
         else get vt r k u)"

text \<open>A null result is \<open>None\<close> here: the value the node holds otherwise.\<close>

definition grpc_avl_get :: "('k, 'v, 'u) grpc_avl \<Rightarrow> 'k \<Rightarrow> 'u \<Rightarrow> 'v option" where
  "grpc_avl_get avl k u = (case get (avl_vtable avl) (avl_root avl) k u of Null \<Rightarrow> None | Node _ v _ _ _ \<Rightarrow> Some v)"

definition grpc_avl_maybe_get :: "('k, 'v, 'u) grpc_avl \<Rightarrow> 'k \<Rightarrow> 'v \<Rightarrow> 'u \<Rightarrow> int \<times> 'v" where
  "grpc_avl_maybe_get avl k val u =
     (case get (avl_vtable avl) (avl_root avl) k u of Node _ v _ _ _ \<Rightarrow> (1, v) | Null \<Rightarrow> (0, val))"

definition rotate_left ::
    "('k, 'v, 'u) grpc_avl_vtable \<Rightarrow> 'k \<Rightarrow> 'v \<Rightarrow> ('k, 'v) avl_node \<Rightarrow> ('k, 'v) avl_node \<Rightarrow> 'u \<Rightarrow> ('k, 'v) avl_node option" where
  "rotate_left vt k v left right u =
     (case right of Null \<Rightarrow> None
      | Node rk rv rl rr _ \<Rightarrow>
          Option.bind (new_node k v left rl) (\<lambda>n. new_node (copy_key vt rk u) (copy_value vt rv u) n rr))"

definition rotate_right ::
    "('k, 'v, 'u) grpc_avl_vtable \<Rightarrow> 'k \<Rightarrow> 'v \<Rightarrow> ('k, 'v) avl_node \<Rightarrow> ('k, 'v) avl_node \<Rightarrow> 'u \<Rightarrow> ('k, 'v) avl_node option" where
  "rotate_right vt k v left right u =
     (case left of Null \<Rightarrow> None
      | Node lk lv ll lr _ \<Rightarrow>
          Option.bind (new_node k v lr right) (\<lambda>n. new_node (copy_key vt lk u) (copy_value vt lv u) ll n))"

definition rotate_left_right ::
    "('k, 'v, 'u) grpc_avl_vtable \<Rightarrow> 'k \<Rightarrow> 'v \<Rightarrow> ('k, 'v) avl_node \<Rightarrow> ('k, 'v) avl_node \<Rightarrow> 'u \<Rightarrow> ('k, 'v) avl_node option" where
  "rotate_left_right vt k v left right u =
     (case left of Null \<Rightarrow> None
      | Node lk lv ll lr _ \<Rightarrow>
          (case lr of Null \<Rightarrow> None
           | Node lrk lrv lrl lrr _ \<Rightarrow>
               Option.bind (new_node (copy_key vt lk u) (copy_value vt lv u) ll lrl) (\<lambda>a.
               Option.bind (new_node k v lrr right) (\<lambda>b.
               new_node (copy_key vt lrk u) (copy_value vt lrv u) a b))))"

definition rotate_right_left ::
    "('k, 'v, 'u) grpc_avl_vtable \<Rightarrow> 'k \<Rightarrow> 'v \<Rightarrow> ('k, 'v) avl_node \<Rightarrow> ('k, 'v) avl_node \<Rightarrow> 'u \<Rightarrow> ('k, 'v) avl_node option" where
  "rotate_right_left vt k v left right u =
     (case right of Null \<Rightarrow> None
      | Node rk rv rl rr _ \<Rightarrow>
          (case rl of Null \<Rightarrow> None
           | Node rlk rlv rll rlr _ \<Rightarrow>
               Option.bind (new_node k v left rll) (\<lambda>a.
               Option.bind (new_node (copy_key vt rk u) (copy_value vt rv u) rlr rr) (\<lambda>b.
               new_node (copy_key vt rlk u) (copy_value vt rlv u) a b))))"

definition rebalance ::
    "('k, 'v, 'u) grpc_avl_vtable \<Rightarrow> 'k \<Rightarrow> 'v \<Rightarrow> ('k, 'v) avl_node \<Rightarrow> ('k, 'v) avl_node \<Rightarrow> 'u \<Rightarrow> ('k, 'v) avl_node option" where
  "rebalance vt k v left right u =
     (if node_height left - node_height right = 2 then
        (case left of Null \<Rightarrow> None
         | Node _ _ ll lr _ \<Rightarrow>
             if node_height ll - node_height lr = -1
             then Option.bind (rotate_left_right vt k v left right u) assert_invariants
             else Option.bind (rotate_right vt k v left right u) assert_invariants)
      else if node_height left - node_height right = -2 then
        (case right of Null \<Rightarrow> None
         | Node _ _ rl rr _ \<Rightarrow>
             if node_height rl - node_height rr = 1
             then Option.bind (rotate_right_left vt k v left right u) assert_invariants
             else Option.bind (rotate_left vt k v left right u) assert_invariants)
      else Option.bind (new_node k v left right) assert_invariants)"

primrec add_key :: "('k, 'v, 'u) grpc_avl_vtable \<Rightarrow> ('k, 'v) avl_node \<Rightarrow> 'k \<Rightarrow> 'v \<Rightarrow> 'u \<Rightarrow> ('k, 'v) avl_node option" where
  "add_key vt Null k v u = new_node k v Null Null"
| "add_key vt (Node nk nv l r h) k v u =
     (let cmp = compare_keys vt nk k u
      in if cmp = 0 then new_node k v l r
         else if cmp > 0 then
           Option.bind (add_key vt l k v u) (\<lambda>l'. rebalance vt (copy_key vt nk u) (copy_value vt nv u) l' r u)
         else
           Option.bind (add_key vt r k v u) (\<lambda>r'. rebalance vt (copy_key vt nk u) (copy_value vt nv u) l r' u))"

definition grpc_avl_add :: "('k, 'v, 'u) grpc_avl \<Rightarrow> 'k \<Rightarrow> 'v \<Rightarrow> 'u \<Rightarrow> ('k, 'v, 'u) grpc_avl option" where
  "grpc_avl_add avl k v u =
     (case add_key (avl_vtable avl) (avl_root avl) k v u of None \<Rightarrow> None
      | Some root \<Rightarrow> (case assert_invariants root of None \<Rightarrow> None | Some _ \<Rightarrow> Some (avl\<lparr>avl_root := root\<rparr>)))"

fun in_order_head :: "('k, 'v) avl_node \<Rightarrow> ('k \<times> 'v) option" where
  "in_order_head Null = None"
| "in_order_head (Node k v l r h) = (if \<not> is_null l then in_order_head l else Some (k, v))"

fun in_order_tail :: "('k, 'v) avl_node \<Rightarrow> ('k \<times> 'v) option" where
  "in_order_tail Null = None"
| "in_order_tail (Node k v l r h) = (if \<not> is_null r then in_order_tail r else Some (k, v))"

primrec remove_key :: "('k, 'v, 'u) grpc_avl_vtable \<Rightarrow> ('k, 'v) avl_node \<Rightarrow> 'k \<Rightarrow> 'u \<Rightarrow> ('k, 'v) avl_node option" where
  "remove_key vt Null k u = Some Null"
| "remove_key vt (Node nk nv l r h) k u =
     (let cmp = compare_keys vt nk k u
      in if cmp = 0 then
           if is_null l then Some r
           else if is_null r then Some l
           else if node_height l < node_height r then
             Option.bind (in_order_head r) (\<lambda>(hk, hv).
             Option.bind (remove_key vt r hk u) (\<lambda>r'. rebalance vt (copy_key vt hk u) (copy_value vt hv u) l r' u))
           else
             Option.bind (in_order_tail l) (\<lambda>(hk, hv).
             Option.bind (remove_key vt l hk u) (\<lambda>l'. rebalance vt (copy_key vt hk u) (copy_value vt hv u) l' r u))
         else if cmp > 0 then
           Option.bind (remove_key vt l k u) (\<lambda>l'. rebalance vt (copy_key vt nk u) (copy_value vt nv u) l' r u)
         else
           Option.bind (remove_key vt r k u) (\<lambda>r'. rebalance vt (copy_key vt nk u) (copy_value vt nv u) l r' u))"

definition grpc_avl_remove :: "('k, 'v, 'u) grpc_avl \<Rightarrow> 'k \<Rightarrow> 'u \<Rightarrow> ('k, 'v, 'u) grpc_avl option" where
  "grpc_avl_remove avl k u =
     (case remove_key (avl_vtable avl) (avl_root avl) k u of None \<Rightarrow> None
      | Some root \<Rightarrow> (case assert_invariants root of None \<Rightarrow> None | Some _ \<Rightarrow> Some (avl\<lparr>avl_root := root\<rparr>)))"

definition grpc_avl_is_empty :: "('k, 'v, 'u) grpc_avl \<Rightarrow> bool" where
  "grpc_avl_is_empty avl \<longleftrightarrow> (case avl_root avl of Null \<Rightarrow> True | Node _ _ _ _ _ \<Rightarrow> False)"

section \<open>Balance\<close>

text \<open>Every subtree satisfies what the code asserts: the stored height is right, and those of its children differ by at most one.\<close>

definition avl :: "('k, 'v) avl_node \<Rightarrow> bool" where
  "avl n \<longleftrightarrow> assert_invariants n \<noteq> None"

lemma assert_same: "assert_invariants n = Some m \<Longrightarrow> m = n"
  by (cases n) (auto split: option.splits if_splits)

lemma avl_assert [simp]: "avl n \<Longrightarrow> assert_invariants n = Some n"
  unfolding avl_def using assert_same by blast

lemma avl_Null [simp]: "avl Null" by (simp add: avl_def)

lemma node_height_simps [simp]: "node_height Null = 0" "node_height (Node k v l r h) = h"
  by (simp_all add: node_height_def)

lemma avl_height: "avl n \<Longrightarrow> calculate_height n = node_height n"
  by (cases n) (auto simp: avl_def split: option.splits if_splits)

lemma avl_Node [simp]:
  "avl (Node k v l r h) \<longleftrightarrow> avl l \<and> avl r \<and> h = 1 + max (node_height l) (node_height r) \<and> \<bar>node_height l - node_height r\<bar> \<le> 1"
  using avl_height [of l] avl_height [of r]
  by (auto simp: avl_def split: option.splits)

declare assert_invariants.simps [simp del] calculate_height.simps [simp del]

lemma height_nonneg: "avl n \<Longrightarrow> 0 \<le> node_height n"
  by (induction n) auto

lemma height_zero: "avl n \<Longrightarrow> node_height n = 0 \<longleftrightarrow> n = Null"
  using height_nonneg by (cases n) fastforce+

lemma new_node_avl [simp]:
  "avl l \<Longrightarrow> avl r \<Longrightarrow> new_node k v l r = Some (Node k v l r (1 + max (node_height l) (node_height r)))"
  by (simp add: new_node_def)

text \<open>The in-order sequence of entries, of which \<open>rank\<close> is the key and \<open>content\<close> the value.\<close>

primrec entries :: "('k \<Rightarrow> 'o) \<Rightarrow> ('v \<Rightarrow> 'c) \<Rightarrow> ('k, 'v) avl_node \<Rightarrow> ('o \<times> 'c) list" where
  "entries rank content Null = []"
| "entries rank content (Node k v l r h) = entries rank content l @ (rank k, content v) # entries rank content r"

text \<open>What a vtable promises for some user data: keys are compared by their rank, and copies are as good as originals.\<close>

definition good_vtable :: "('k \<Rightarrow> 'o :: linorder) \<Rightarrow> ('v \<Rightarrow> 'c) \<Rightarrow> ('k, 'v, 'u) grpc_avl_vtable \<Rightarrow> 'u \<Rightarrow> bool" where
  "good_vtable rank content vt u \<longleftrightarrow>
     (\<forall>a b. (compare_keys vt a b u = 0 \<longleftrightarrow> rank a = rank b) \<and> (compare_keys vt a b u > 0 \<longleftrightarrow> rank b < rank a)) \<and>
     (\<forall>k. rank (copy_key vt k u) = rank k) \<and> (\<forall>v. content (copy_value vt v u) = content v)"

lemma good_vtableD [simp]:
  assumes "good_vtable rank content vt u"
  shows "compare_keys vt a b u = 0 \<longleftrightarrow> rank a = rank b" and "0 < compare_keys vt a b u \<longleftrightarrow> rank b < rank a"
    and "rank (copy_key vt k u) = rank k" and "content (copy_value vt v u) = content v"
  using assms by (simp_all add: good_vtable_def)

text \<open>Rebalancing repairs a difference of two and keeps the sequence.\<close>

lemma rebalance_avl:
  assumes "good_vtable rank content vt u" and "avl l" and "avl r" and "\<bar>node_height l - node_height r\<bar> \<le> 2"
  shows "\<exists>t. rebalance vt k v l r u = Some t \<and> avl t \<and>
    entries rank content t = entries rank content l @ (rank k, content v) # entries rank content r \<and>
    (let h = 1 + max (node_height l) (node_height r)
     in node_height t = h \<or> \<bar>node_height l - node_height r\<bar> = 2 \<and> node_height t = h - 1)"
proof -
  consider "node_height l - node_height r = 2" | "node_height l - node_height r = - 2" | "\<bar>node_height l - node_height r\<bar> \<le> 1"
    using assms(4) by linarith
  then show ?thesis
  proof cases
    case 1
    then obtain lk lv ll lr h where l: "l = Node lk lv ll lr h"
      using height_nonneg [OF assms(3)] by (cases l) auto
    show ?thesis
    proof (cases "node_height ll - node_height lr = - 1")
      case True
      then obtain k' v' a b h' where lr: "lr = Node k' v' a b h'"
        using height_nonneg [of ll] assms(2) by (cases lr) (auto simp: l)
      show ?thesis
        using 1 True assms by (auto simp: rebalance_def rotate_left_right_def l lr Let_def max_def split: if_splits)
    next
      case False
      then show ?thesis
        using 1 assms by (auto simp: rebalance_def rotate_right_def l Let_def max_def split: if_splits)
    qed
  next
    case 2
    then obtain rk rv rl rr h where r: "r = Node rk rv rl rr h"
      using height_nonneg [OF assms(2)] by (cases r) auto
    show ?thesis
    proof (cases "node_height rl - node_height rr = 1")
      case True
      then obtain k' v' a b h' where rl: "rl = Node k' v' a b h'"
        using height_nonneg [of rr] assms(3) by (cases rl) (auto simp: r)
      show ?thesis
        using 2 True assms by (auto simp: rebalance_def rotate_right_left_def r rl Let_def max_def split: if_splits)
    next
      case False
      then show ?thesis
        using 2 assms by (auto simp: rebalance_def rotate_left_def r Let_def max_def split: if_splits)
    qed
  next
    case 3
    then show ?thesis using assms by (auto simp: rebalance_def Let_def)
  qed
qed

section \<open>Insertion and removal\<close>

definition below :: "'o :: linorder \<Rightarrow> ('o \<times> 'c) list \<Rightarrow> ('o \<times> 'c) list" where
  "below x ps = filter (\<lambda>p. fst p < x) ps"

definition above :: "'o :: linorder \<Rightarrow> ('o \<times> 'c) list \<Rightarrow> ('o \<times> 'c) list" where
  "above x ps = filter (\<lambda>p. x < fst p) ps"

definition ascending_keys :: "('o :: linorder \<times> 'c) list \<Rightarrow> bool" where
  "ascending_keys ps \<longleftrightarrow> sorted_wrt (<) (map fst ps)"

lemma ascending_split:
  "ascending_keys (ps @ (y, w) # qs) \<longleftrightarrow>
     ascending_keys ps \<and> ascending_keys qs \<and> (\<forall>p \<in> set ps. fst p < y) \<and> (\<forall>p \<in> set qs. y < fst p)"
  by (auto simp: ascending_keys_def sorted_wrt_append intro: less_trans)

lemma ascending_Nil [simp]: "ascending_keys []" by (simp add: ascending_keys_def)

lemma below_above_split:
  assumes "ascending_keys (ps @ (y, w) # qs)"
  shows "x < y \<Longrightarrow> below x (ps @ (y, w) # qs) = below x ps" "x < y \<Longrightarrow> above x (ps @ (y, w) # qs) = above x ps @ (y, w) # qs"
    and "y < x \<Longrightarrow> below x (ps @ (y, w) # qs) = ps @ (y, w) # below x qs" "y < x \<Longrightarrow> above x (ps @ (y, w) # qs) = above x qs"
    and "below y (ps @ (y, w) # qs) = ps" "above y (ps @ (y, w) # qs) = qs"
  using assms unfolding ascending_split below_def above_def
  by (auto simp: filter_empty_conv filter_id_conv)

lemma ascending_below_above: "ascending_keys ps \<Longrightarrow> ascending_keys (below x ps @ above x ps)"
    "ascending_keys ps \<Longrightarrow> ascending_keys (below x ps @ (x, v) # above x ps)"
  by (auto simp: ascending_keys_def below_def above_def sorted_wrt_append sorted_wrt_map sorted_wrt_filter intro: less_trans)

lemma map_of_below_above:
  "map_of (below x ps @ above x ps) = (map_of ps)(x := None)"
  "map_of (below x ps @ (x, v) # above x ps) = (map_of ps)(x \<mapsto> v)"
proof -
  have "map_of (below x ps) y = (if y < x then map_of ps y else None)" "map_of (above x ps) y = (if x < y then map_of ps y else None)" for y
    by (induction ps) (auto simp: below_def above_def)
  then show "map_of (below x ps @ above x ps) = (map_of ps)(x := None)"
    and "map_of (below x ps @ (x, v) # above x ps) = (map_of ps)(x \<mapsto> v)"
    by (auto simp: fun_eq_iff map_add_def split: option.splits)
qed

lemma add_key_avl:
  assumes "good_vtable rank content vt u" and "avl t" and "ascending_keys (entries rank content t)"
  shows "\<exists>t'. add_key vt t k v u = Some t' \<and> avl t' \<and>
    entries rank content t' = below (rank k) (entries rank content t) @ (rank k, content v) # above (rank k) (entries rank content t) \<and>
    (node_height t' = node_height t \<or> node_height t' = node_height t + 1)"
  using assms(2,3)
proof (induction t)
  case Null
  then show ?case by (simp add: below_def above_def)
next
  case (Node nk nv l r h)
  note asc = Node.prems(2) [simplified]
  note parts = asc [unfolded ascending_split] and split = below_above_split [OF asc]
  consider "rank nk = rank k" | "rank k < rank nk" | "rank nk < rank k" by fastforce
  then show ?case
  proof cases
    case 1
    then show ?thesis using Node.prems split(5,6) assms(1) by (simp add: Let_def)
  next
    case 2
    then obtain l' where l': "add_key vt l k v u = Some l'" "avl l'"
        "entries rank content l' = below (rank k) (entries rank content l) @ (rank k, content v) # above (rank k) (entries rank content l)"
        "node_height l' = node_height l \<or> node_height l' = node_height l + 1"
      using Node.IH(1) Node.prems(1) parts by auto
    have "\<bar>node_height l' - node_height r\<bar> \<le> 2" using l'(4) Node.prems(1) by auto
    from rebalance_avl [OF assms(1) l'(2) _ this, of "copy_key vt nk u" "copy_value vt nv u"]
    show ?thesis
      using 2 l' split(1,2) Node.prems(1) assms(1) by (auto simp: Let_def)
  next
    case 3
    then obtain r' where r': "add_key vt r k v u = Some r'" "avl r'"
        "entries rank content r' = below (rank k) (entries rank content r) @ (rank k, content v) # above (rank k) (entries rank content r)"
        "node_height r' = node_height r \<or> node_height r' = node_height r + 1"
      using Node.IH(2) Node.prems(1) parts by auto
    have "\<bar>node_height l - node_height r'\<bar> \<le> 2" using r'(4) Node.prems(1) by auto
    from rebalance_avl [OF assms(1) _ r'(2) this, of "copy_key vt nk u" "copy_value vt nv u"]
    show ?thesis
      using 3 r' split(3,4) Node.prems(1) assms(1) by (auto simp: Let_def)
  qed
qed

lemma in_order_head_entries:
  "\<not> is_null t \<Longrightarrow> \<exists>k v ps. in_order_head t = Some (k, v) \<and> entries rank content t = (rank k, content v) # ps"
  by (induction t rule: in_order_head.induct) (auto simp: is_null_def)

lemma in_order_tail_entries:
  "\<not> is_null t \<Longrightarrow> \<exists>k v ps. in_order_tail t = Some (k, v) \<and> entries rank content t = ps @ [(rank k, content v)]"
  by (induction t rule: in_order_tail.induct) (auto simp: is_null_def)

lemma remove_key_avl:
  assumes "good_vtable rank content vt u"
  shows "avl t \<Longrightarrow> ascending_keys (entries rank content t) \<Longrightarrow> \<exists>t'. remove_key vt t k u = Some t' \<and> avl t' \<and>
    entries rank content t' = below (rank k) (entries rank content t) @ above (rank k) (entries rank content t) \<and>
    (node_height t' = node_height t \<or> node_height t' = node_height t - 1)"
proof (induction t arbitrary: k)
  case Null
  then show ?case by (simp add: below_def above_def)
next
  case (Node nk nv l r h)
  note asc = Node.prems(2) [simplified]
  note parts = asc [unfolded ascending_split] and split = below_above_split [OF asc]
  have removed: "\<exists>l'. remove_key vt l k u = Some l' \<and> avl l' \<and>
      entries rank content l' = below (rank k) (entries rank content l) @ above (rank k) (entries rank content l) \<and>
      (node_height l' = node_height l \<or> node_height l' = node_height l - 1)"
    "\<exists>r'. remove_key vt r k u = Some r' \<and> avl r' \<and>
      entries rank content r' = below (rank k) (entries rank content r) @ above (rank k) (entries rank content r) \<and>
      (node_height r' = node_height r \<or> node_height r' = node_height r - 1)" for k
    using Node.IH Node.prems(1) parts by simp_all
  consider "rank nk = rank k" "is_null l" | "rank nk = rank k" "\<not> is_null l" "is_null r"
    | "rank nk = rank k" "\<not> is_null l" "\<not> is_null r" "node_height l < node_height r"
    | "rank nk = rank k" "\<not> is_null l" "\<not> is_null r" "\<not> node_height l < node_height r"
    | "rank k < rank nk" | "rank nk < rank k" by fastforce
  then show ?case
  proof cases
    case 1
    then show ?thesis using Node.prems split(5,6) assms height_nonneg [of r] by (cases l) (auto simp: Let_def)
  next
    case 2
    then show ?thesis using Node.prems split(5,6) assms height_nonneg [of l] by (cases r) (auto simp: Let_def)
  next
    case 3
    obtain hk hv ps where hd: "in_order_head r = Some (hk, hv)" "entries rank content r = (rank hk, content hv) # ps"
      using in_order_head_entries [OF 3(3)] by blast
    have "ascending_keys ([] @ (rank hk, content hv) # ps)" using parts hd(2) by simp
    note below_above_split(5,6) [OF this, simplified]
    moreover obtain r' where r': "remove_key vt r hk u = Some r'" "avl r'"
        "entries rank content r' = below (rank hk) (entries rank content r) @ above (rank hk) (entries rank content r)"
        "node_height r' = node_height r \<or> node_height r' = node_height r - 1"
      using removed(2) by blast
    moreover have "\<bar>node_height l - node_height r'\<bar> \<le> 2" using r'(4) Node.prems(1) by auto
    note rebalance_avl [OF assms _ r'(2) this, of "copy_key vt hk u" "copy_value vt hv u"]
    ultimately show ?thesis
      using 3 hd split(5,6) Node.prems(1) assms by (auto simp: Let_def)
  next
    case 4
    obtain hk hv ps where tl: "in_order_tail l = Some (hk, hv)" "entries rank content l = ps @ [(rank hk, content hv)]"
      using in_order_tail_entries [OF 4(2)] by blast
    have "ascending_keys (ps @ (rank hk, content hv) # [])" using parts tl(2) by simp
    note below_above_split(5,6) [OF this]
    moreover obtain l' where l': "remove_key vt l hk u = Some l'" "avl l'"
        "entries rank content l' = below (rank hk) (entries rank content l) @ above (rank hk) (entries rank content l)"
        "node_height l' = node_height l \<or> node_height l' = node_height l - 1"
      using removed(1) by blast
    moreover have "\<bar>node_height l' - node_height r\<bar> \<le> 2" using l'(4) Node.prems(1) by auto
    note rebalance_avl [OF assms l'(2) _ this, of "copy_key vt hk u" "copy_value vt hv u"]
    ultimately show ?thesis
      using 4 tl split(5,6) Node.prems(1) assms by (auto simp: Let_def)
  next
    case 5
    then obtain l' where l': "remove_key vt l k u = Some l'" "avl l'"
        "entries rank content l' = below (rank k) (entries rank content l) @ above (rank k) (entries rank content l)"
        "node_height l' = node_height l \<or> node_height l' = node_height l - 1"
      using removed(1) by blast
    have "\<bar>node_height l' - node_height r\<bar> \<le> 2" using l'(4) Node.prems(1) by auto
    from rebalance_avl [OF assms l'(2) _ this, of "copy_key vt nk u" "copy_value vt nv u"]
    show ?thesis
      using 5 l' split(1,2) Node.prems(1) assms by (auto simp: Let_def)
  next
    case 6
    then obtain r' where r': "remove_key vt r k u = Some r'" "avl r'"
        "entries rank content r' = below (rank k) (entries rank content r) @ above (rank k) (entries rank content r)"
        "node_height r' = node_height r \<or> node_height r' = node_height r - 1"
      using removed(2) by blast
    have "\<bar>node_height l - node_height r'\<bar> \<le> 2" using r'(4) Node.prems(1) by auto
    from rebalance_avl [OF assms _ r'(2) this, of "copy_key vt nk u" "copy_value vt nv u"]
    show ?thesis
      using 6 r' split(3,4) Node.prems(1) assms by (auto simp: Let_def)
  qed
qed

section \<open>Lookup\<close>

lemma map_of_ascending:
  assumes "ascending_keys (ps @ (y, w) # qs)"
  shows "map_of (ps @ (y, w) # qs) x = (if x = y then Some w else if x < y then map_of ps x else map_of qs x)"
proof -
  have "map_of ps x = None" if "y \<le> x"
    using assms that unfolding ascending_split map_of_eq_None_iff by fastforce
  moreover have "map_of qs x = None" if "x \<le> y"
    using assms that unfolding ascending_split map_of_eq_None_iff by fastforce
  ultimately show ?thesis by (auto simp: map_add_def split: option.splits)
qed

lemma get_entries:
  assumes "good_vtable rank content vt u"
  shows "ascending_keys (entries rank content t) \<Longrightarrow>
    (case get vt t k u of Null \<Rightarrow> None | Node _ v _ _ _ \<Rightarrow> Some (content v)) = map_of (entries rank content t) (rank k)"
proof (induction t)
  case (Node nk nv l r h)
  note asc = Node.prems [simplified]
  show ?case
    using Node.IH asc [unfolded ascending_split] assms by (auto simp: map_of_ascending [OF asc] Let_def simp del: map_of_append)
qed simp

text \<open>A tree is well formed if its vtable is, it is balanced, and its ranks ascend.\<close>

definition avl_ok :: "('k \<Rightarrow> 'o :: linorder) \<Rightarrow> ('v \<Rightarrow> 'c) \<Rightarrow> 'u \<Rightarrow> ('k, 'v, 'u) grpc_avl \<Rightarrow> bool" where
  "avl_ok rank content u s \<longleftrightarrow>
     good_vtable rank content (avl_vtable s) u \<and> avl (avl_root s) \<and> ascending_keys (entries rank content (avl_root s))"

abbreviation avl_lookup :: "('v \<Rightarrow> 'c) \<Rightarrow> 'u \<Rightarrow> ('k, 'v, 'u) grpc_avl \<Rightarrow> 'k \<Rightarrow> 'c option" where
  "avl_lookup content u s k \<equiv> map_option content (grpc_avl_get s k u)"

lemma avl_lookup_entries:
  "avl_ok rank content u s \<Longrightarrow> avl_lookup content u s k = map_of (entries rank content (avl_root s)) (rank k)"
  using get_entries [of rank content "avl_vtable s" u "avl_root s" k]
  by (simp add: avl_ok_def grpc_avl_get_def split: avl_node.splits)

lemma maybe_get_eq: "grpc_avl_maybe_get s k val u = (case grpc_avl_get s k u of None \<Rightarrow> (0, val) | Some v \<Rightarrow> (1, v))"
  by (simp add: grpc_avl_maybe_get_def grpc_avl_get_def split: avl_node.splits)

lemma create_ok: "good_vtable rank content vt u \<Longrightarrow> avl_ok rank content u (grpc_avl_create vt)"
  by (simp add: avl_ok_def grpc_avl_create_def)

lemma avl_add_ok:
  assumes "avl_ok rank content u s"
  shows "\<exists>t. grpc_avl_add s k v u = Some t \<and> avl_ok rank content u t \<and>
    entries rank content (avl_root t) =
      below (rank k) (entries rank content (avl_root s)) @ (rank k, content v) # above (rank k) (entries rank content (avl_root s))"
  using add_key_avl [of rank content "avl_vtable s" u "avl_root s" k v] assms
  by (auto simp: avl_ok_def grpc_avl_add_def ascending_below_above)

lemma avl_remove_ok:
  assumes "avl_ok rank content u s"
  shows "\<exists>t. grpc_avl_remove s k u = Some t \<and> avl_ok rank content u t \<and>
    entries rank content (avl_root t) =
      below (rank k) (entries rank content (avl_root s)) @ above (rank k) (entries rank content (avl_root s))"
  using remove_key_avl [of rank content "avl_vtable s" u "avl_root s" k] assms
  by (auto simp: avl_ok_def grpc_avl_remove_def ascending_below_above)

interpretation avl_dict: dictionary "avl_ok rank content u" "avl_lookup content u"
    "\<lambda>(k, v) s. grpc_avl_add s k v u" "\<lambda>k s. grpc_avl_remove s k u" fst "\<lambda>(k, v). content v" "\<lambda>a b. rank a = rank b"
  for rank :: "'k \<Rightarrow> 'o :: linorder" and content :: "'v \<Rightarrow> 'c" and u :: 'u
proof
  fix s :: "('k, 'v, 'u) grpc_avl" and e :: "'k \<times> 'v" and t
  assume s: "avl_ok rank content u s" and run: "(case e of (k, v) \<Rightarrow> \<lambda>s. grpc_avl_add s k v u) s = Some t"
  obtain k v where e: "e = (k, v)" by (cases e)
  have t: "avl_ok rank content u t" "entries rank content (avl_root t) =
      below (rank k) (entries rank content (avl_root s)) @ (rank k, content v) # above (rank k) (entries rank content (avl_root s))"
    using avl_add_ok [OF s, of k v] run e by auto
  then show "avl_ok rank content u t" by simp
  show "avl_lookup content u t x = (if rank (fst e) = rank x then Some (case e of (k, v) \<Rightarrow> content v) else avl_lookup content u s x)" for x
    unfolding avl_lookup_entries [OF s] avl_lookup_entries [OF t(1)] t(2) map_of_below_above by (simp add: e)
next
  fix s :: "('k, 'v, 'u) grpc_avl" and k t
  assume s: "avl_ok rank content u s" and run: "grpc_avl_remove s k u = Some t"
  have t: "avl_ok rank content u t" "entries rank content (avl_root t) =
      below (rank k) (entries rank content (avl_root s)) @ above (rank k) (entries rank content (avl_root s))"
    using avl_remove_ok [OF s, of k] run by auto
  then show "avl_ok rank content u t" by simp
  show "avl_lookup content u t x = (if rank k = rank x then None else avl_lookup content u s x)" for x
    unfolding avl_lookup_entries [OF s] avl_lookup_entries [OF t(1)] t(2) map_of_below_above by simp
qed

text \<open>Neither operation fails, so no run does.\<close>

lemma avl_runs:
  assumes "avl_ok rank content u s"
  shows "\<exists>t. run_ops (\<lambda>(k, v) s. grpc_avl_add s k v u) (\<lambda>k s. grpc_avl_remove s k u) ops s = Some t \<and> avl_ok rank content u t \<and>
    avl_lookup content u t = spec_ops (\<lambda>a b. rank a = rank b) fst (\<lambda>(k, v). content v) ops (avl_lookup content u s)"
proof -
  have "\<exists>t. run_ops (\<lambda>(k, v) s. grpc_avl_add s k v u) (\<lambda>k s. grpc_avl_remove s k u) ops s = Some t"
    by (rule avl_dict.run_succeeds [where rank = rank and content = content, OF _ _ assms])
       (use avl_add_ok avl_remove_ok in fastforce)+
  then show ?thesis using avl_dict.run_refines [OF assms] by blast
qed

text \<open>Trees are shallow: the recursion of every operation is at most twice the logarithm of the number of entries.\<close>

lemma avl_shallow: "avl t \<Longrightarrow> 2 ^ (nat (node_height t) div 2) \<le> length (entries rank content t) + 1"
proof (induction t)
  case (Node k v l r h)
  have h: "0 \<le> node_height l" "0 \<le> node_height r" "h = 1 + max (node_height l) (node_height r)"
      "\<bar>node_height l - node_height r\<bar> \<le> 1"
    using Node.prems height_nonneg by auto
  have ih: "2 ^ (nat (node_height l) div 2) \<le> length (entries rank content l) + 1"
      "2 ^ (nat (node_height r) div 2) \<le> length (entries rank content r) + 1"
    using Node by simp_all
  show ?case
  proof (cases "h \<le> 1")
    case True
    then have "nat h div 2 = 0" by linarith
    then show ?thesis by simp
  next
    case False
    define d where "d = nat (h - 2) div 2"
    have d: "nat h div 2 = Suc d" using False by (simp add: d_def nat_diff_distrib')
    have "d \<le> nat (node_height l) div 2" "d \<le> nat (node_height r) div 2"
      using h unfolding d_def by (auto intro!: div_le_mono)
    then have "(2 :: nat) ^ d \<le> 2 ^ (nat (node_height l) div 2)" "(2 :: nat) ^ d \<le> 2 ^ (nat (node_height r) div 2)"
      by simp_all
    then have "2 ^ Suc d \<le> (length (entries rank content l) + 1) + (length (entries rank content r) + 1)"
      using ih unfolding power_Suc by linarith
    then show ?thesis by (simp add: d)
  qed
qed simp

end
