(* ===== verification/Lhash.thy ===== *)
theory Lhash
  imports Mem Dictionary "HOL-Library.Multiset"
begin

text \<open>
  The hash table of BoringSSL (\<open>crypto/lhash/lhash.c\<close>): chained buckets that are resized as items come and go. Its
  operations keep a table well formed and implement a dictionary, whatever the allocator grants.
\<close>

section \<open>The code\<close>

text \<open>
  A chain is the list of its items, \<open>buckets\<close> the array of chains; \<open>num_buckets\<close> is its length. A pointer to a pointer
  is a link: a bucket and the number of items of its chain before the pointer. The comparison and hash functions are
  those the table holds; a null result is \<open>None\<close>. \<open>num_items\<close> is a \<open>size_t\<close>.
\<close>

record 'd lhash_item =
  item_data :: 'd
  item_hash :: u32

record 'd lhash =
  num_items :: nat
  buckets :: "'d lhash_item list list"
  callback_depth :: u32
  comp_fn :: "'d \<Rightarrow> 'd \<Rightarrow> int"
  hash_fn :: "'d \<Rightarrow> u32"

abbreviation num_buckets :: "'d lhash \<Rightarrow> nat" where
  "num_buckets lh \<equiv> length (buckets lh)"

definition kMinNumBuckets :: nat where "kMinNumBuckets = 16"

definition kMaxAverageChainLength :: nat where "kMaxAverageChainLength = 2"

definition kMinAverageChainLength :: nat where "kMinAverageChainLength = 1"

definition sizeof_lhash :: nat where "sizeof_lhash = 48"

definition sizeof_item :: nat where "sizeof_item = 24"

definition sizeof_link :: nat where "sizeof_link = 8"

definition lh_new :: "alloc \<Rightarrow> ('d \<Rightarrow> u32) \<Rightarrow> ('d \<Rightarrow> 'd \<Rightarrow> int) \<Rightarrow> 'd lhash option" where
  "lh_new env hsh cmp =
     (case OPENSSL_malloc env sizeof_lhash of None \<Rightarrow> None
      | Some _ \<Rightarrow>
          (case OPENSSL_malloc env (size_mul sizeof_link kMinNumBuckets) of None \<Rightarrow> None
           | Some _ \<Rightarrow> Some \<lparr>num_items = 0, buckets = replicate kMinNumBuckets [], callback_depth = 0,
                              comp_fn = cmp, hash_fn = hsh\<rparr>))"

definition lh_num_items :: "'d lhash \<Rightarrow> nat" where
  "lh_num_items lh = num_items lh"

text \<open>The search along a chain stops at the link to the first item that satisfies the test, or at the last link.\<close>

primrec chain_search :: "('d \<Rightarrow> bool) \<Rightarrow> 'd lhash_item list \<Rightarrow> nat" where
  "chain_search is_equal [] = 0"
| "chain_search is_equal (cur # chain) = (if is_equal (item_data cur) then 0 else Suc (chain_search is_equal chain))"

definition get_next_ptr_and_hash :: "'d lhash \<Rightarrow> 'd \<Rightarrow> (nat \<times> nat) \<times> u32" where
  "get_next_ptr_and_hash lh d =
     (let h = hash_fn lh d; b = unat h mod num_buckets lh
      in ((b, chain_search (\<lambda>x. comp_fn lh x d = 0) (buckets lh ! b)), h))"

definition get_next_ptr_by_key :: "'d lhash \<Rightarrow> 'k \<Rightarrow> u32 \<Rightarrow> ('k \<Rightarrow> 'd \<Rightarrow> int) \<Rightarrow> nat \<times> nat" where
  "get_next_ptr_by_key lh k key_hash cmp_key =
     (let b = unat key_hash mod num_buckets lh
      in (b, chain_search (\<lambda>x. cmp_key k x = 0) (buckets lh ! b)))"

definition deref :: "'d lhash \<Rightarrow> nat \<times> nat \<Rightarrow> 'd lhash_item option" where
  "deref lh next_ptr =
     (case next_ptr of (b, i) \<Rightarrow> if i < length (buckets lh ! b) then Some (buckets lh ! b ! i) else None)"

definition lh_retrieve :: "'d lhash \<Rightarrow> 'd \<Rightarrow> 'd option" where
  "lh_retrieve lh d = map_option item_data (deref lh (fst (get_next_ptr_and_hash lh d)))"

definition lh_retrieve_key :: "'d lhash \<Rightarrow> 'k \<Rightarrow> u32 \<Rightarrow> ('k \<Rightarrow> 'd \<Rightarrow> int) \<Rightarrow> 'd option" where
  "lh_retrieve_key lh k key_hash cmp_key = map_option item_data (deref lh (get_next_ptr_by_key lh k key_hash cmp_key))"

text \<open>Each item is pushed on the front of its new chain.\<close>

definition move_item :: "nat \<Rightarrow> 'd lhash_item \<Rightarrow> 'd lhash_item list list \<Rightarrow> 'd lhash_item list list" where
  "move_item new_num_buckets cur new_buckets =
     (let new_bucket = unat (item_hash cur) mod new_num_buckets
      in new_buckets[new_bucket := cur # new_buckets ! new_bucket])"

definition lh_rebucket :: "alloc \<Rightarrow> 'd lhash \<Rightarrow> nat \<Rightarrow> 'd lhash" where
  "lh_rebucket env lh new_num_buckets =
     (let alloc_size = size_mul sizeof_link new_num_buckets
      in if alloc_size div sizeof_link \<noteq> new_num_buckets then lh
         else (case OPENSSL_malloc env alloc_size of None \<Rightarrow> lh
               | Some _ \<Rightarrow> lh\<lparr>buckets := fold (fold (move_item new_num_buckets)) (buckets lh) (replicate new_num_buckets [])\<rparr>))"

definition lh_maybe_resize :: "alloc \<Rightarrow> 'd lhash \<Rightarrow> 'd lhash" where
  "lh_maybe_resize env lh =
     (if callback_depth lh > 0 then lh
      else
        let avg_chain_length = num_items lh div num_buckets lh
        in if avg_chain_length > kMaxAverageChainLength then
             (let new_num_buckets = size_mul (num_buckets lh) 2
              in if new_num_buckets > num_buckets lh then lh_rebucket env lh new_num_buckets else lh)
           else if avg_chain_length < kMinAverageChainLength \<and> num_buckets lh > kMinNumBuckets then
             (let new_num_buckets = num_buckets lh div 2
              in lh_rebucket env lh (if new_num_buckets < kMinNumBuckets then kMinNumBuckets else new_num_buckets))
           else lh)"

definition store :: "'d lhash \<Rightarrow> nat \<Rightarrow> 'd lhash_item list \<Rightarrow> 'd lhash" where
  "store lh b chain = lh\<lparr>buckets := (buckets lh)[b := chain]\<rparr>"

text \<open>The result is the return value and what is stored in \<open>*old_data\<close>.\<close>

definition lh_insert :: "alloc \<Rightarrow> 'd \<Rightarrow> 'd lhash \<Rightarrow> (nat \<times> 'd option) \<times> 'd lhash" where
  "lh_insert env d lh =
     (case get_next_ptr_and_hash lh d of ((b, i), h) \<Rightarrow>
        (case deref lh (b, i) of
           Some item \<Rightarrow> ((1, Some (item_data item)), store lh b ((buckets lh ! b)[i := item\<lparr>item_data := d\<rparr>]))
         | None \<Rightarrow>
             (case OPENSSL_malloc env sizeof_item of
                None \<Rightarrow> ((0, None), lh)
              | Some _ \<Rightarrow>
                  let lh = store lh b (take i (buckets lh ! b) @ [\<lparr>item_data = d, item_hash = h\<rparr>]);
                      lh = lh\<lparr>num_items := size_add (num_items lh) 1\<rparr>
                  in ((1, None), lh_maybe_resize env lh))))"

definition lh_delete :: "alloc \<Rightarrow> 'd \<Rightarrow> 'd lhash \<Rightarrow> 'd option \<times> 'd lhash" where
  "lh_delete env d lh =
     (case fst (get_next_ptr_and_hash lh d) of (b, i) \<Rightarrow>
        (case deref lh (b, i) of
           None \<Rightarrow> (None, lh)
         | Some item \<Rightarrow>
             let lh = store lh b (take i (buckets lh ! b) @ drop (Suc i) (buckets lh ! b));
                 lh = lh\<lparr>num_items := size_add (num_items lh) (size_mod - 1)\<rparr>
             in (Some (item_data item), lh_maybe_resize env lh)))"

text \<open>The callback changes what \<open>arg\<close> points to and leaves the table alone.\<close>

definition lh_doall_arg :: "alloc \<Rightarrow> ('d \<Rightarrow> 'w \<Rightarrow> 'w) \<Rightarrow> 'w \<Rightarrow> 'd lhash \<Rightarrow> 'w \<times> 'd lhash" where
  "lh_doall_arg env func arg lh =
     (let lh = (if callback_depth lh < 0xffffffff then lh\<lparr>callback_depth := callback_depth lh + 1\<rparr> else lh);
          arg = fold (fold (\<lambda>cur. func (item_data cur))) (buckets lh) arg;
          lh = (if callback_depth lh < 0xffffffff then lh\<lparr>callback_depth := callback_depth lh - 1\<rparr> else lh)
      in (arg, lh_maybe_resize env lh))"

definition lh_strhash :: "byte list option \<Rightarrow> u32" where
  "lh_strhash c = (case c of None \<Rightarrow> 0 | Some s \<Rightarrow> OPENSSL_hash32 s (length (takeWhile (\<lambda>x. x \<noteq> 0) s)))"

section \<open>Well-formed tables\<close>

text \<open>
  What the table asks of its functions, with \<open>ident\<close> the identity they compare: data is equal if it has the same
  identity, and then has the same hash value.
\<close>

definition good_functions :: "('d \<Rightarrow> 'k) \<Rightarrow> ('d \<Rightarrow> u32) \<Rightarrow> ('d \<Rightarrow> 'd \<Rightarrow> int) \<Rightarrow> bool" where
  "good_functions ident hsh cmp \<longleftrightarrow>
     (\<forall>a b. (cmp a b = 0 \<longleftrightarrow> ident a = ident b) \<and> (ident a = ident b \<longrightarrow> hsh a = hsh b))"

definition lh_items :: "'d lhash \<Rightarrow> 'd lhash_item list" where
  "lh_items lh = concat (buckets lh)"

definition in_place :: "'d lhash_item list list \<Rightarrow> bool" where
  "in_place bs \<longleftrightarrow> (\<forall>b < length bs. \<forall>x \<in> set (bs ! b). unat (item_hash x) mod length bs = b)"

definition wf_lhash :: "('d \<Rightarrow> 'k) \<Rightarrow> 'd lhash \<Rightarrow> bool" where
  "wf_lhash ident lh \<longleftrightarrow>
     good_functions ident (hash_fn lh) (comp_fn lh) \<and> kMinNumBuckets \<le> num_buckets lh \<and> in_place (buckets lh) \<and>
     (\<forall>x \<in> set (lh_items lh). item_hash x = hash_fn lh (item_data x)) \<and>
     distinct (map (\<lambda>x. ident (item_data x)) (lh_items lh)) \<and> num_items lh = length (lh_items lh) mod size_mod"

lemma mset_concat_update:
  "b < length bs \<Longrightarrow> mset (concat (bs[b := c])) + mset (bs ! b) = mset (concat bs) + mset c"
proof (induction bs arbitrary: b)
  case (Cons x bs)
  then show ?case by (cases b) (simp_all add: ac_simps)
qed simp

lemma in_place_update:
  "in_place bs \<Longrightarrow> (\<And>x. x \<in> set c \<Longrightarrow> unat (item_hash x) mod length bs = b) \<Longrightarrow> in_place (bs[b := c])"
proof -
  assume old: "in_place bs" and new: "\<And>x. x \<in> set c \<Longrightarrow> unat (item_hash x) mod length bs = b"
  have "unat (item_hash x) mod length bs = k" if "k < length bs" "x \<in> set (bs[b := c] ! k)" for k x
    using that old new by (cases "k = b") (simp_all add: in_place_def)
  then show ?thesis by (simp add: in_place_def)
qed

lemma rebucket_items:
  assumes "0 < n" and "length bs = n" and "in_place bs"
  shows "length (fold (move_item n) chain bs) = n \<and> in_place (fold (move_item n) chain bs) \<and>
    mset (concat (fold (move_item n) chain bs)) = mset (concat bs) + mset chain"
  using assms(2,3)
proof (induction chain arbitrary: bs)
  case (Cons x chain)
  let ?b = "unat (item_hash x) mod n"
  have b: "?b < length bs" using Cons.prems assms(1) by simp
  have "unat (item_hash y) mod length bs = ?b" if "y \<in> set (x # bs ! ?b)" for y
    using that b Cons.prems by (auto simp: in_place_def)
  then have "in_place (bs[?b := x # bs ! ?b])" by (rule in_place_update [OF Cons.prems(2)])
  then have bs': "length (move_item n x bs) = n" "in_place (move_item n x bs)"
    using Cons.prems(1) by (simp_all add: move_item_def Let_def)
  have "mset (concat (move_item n x bs)) = mset (concat bs) + {#x#}"
    using mset_concat_update [OF b, of "x # bs ! ?b"] by (simp add: move_item_def Let_def)
  then show ?case using Cons.IH [OF bs'] by simp
qed simp

lemma rebucket_chains:
  assumes "0 < n" and "length bs = n" and "in_place bs"
  shows "length (fold (fold (move_item n)) cs bs) = n \<and> in_place (fold (fold (move_item n)) cs bs) \<and>
    mset (concat (fold (fold (move_item n)) cs bs)) = mset (concat bs) + mset (concat cs)"
  using assms(2,3)
proof (induction cs arbitrary: bs)
  case (Cons chain cs)
  then show ?case using rebucket_items [OF assms(1) Cons.prems, of chain] by simp
qed simp

lemma same_hash: "good_functions ident hsh cmp \<Longrightarrow> ident a = ident b \<Longrightarrow> hsh a = hsh b"
  unfolding good_functions_def by blast

lemma wf_lhashD:
  assumes "wf_lhash ident lh"
  shows "good_functions ident (hash_fn lh) (comp_fn lh)" and "0 < num_buckets lh" and "kMinNumBuckets \<le> num_buckets lh" and "in_place (buckets lh)"
    and "x \<in> set (lh_items lh) \<Longrightarrow> item_hash x = hash_fn lh (item_data x)"
    and "distinct (map (\<lambda>x. ident (item_data x)) (lh_items lh))" and "num_items lh = length (lh_items lh) mod size_mod"
  using assms by (auto simp: wf_lhash_def kMinNumBuckets_def)

text \<open>Only the items count: a table with the same functions and the same items in their places is as good.\<close>

lemma wf_lhash_items:
  assumes "wf_lhash ident lh" and "comp_fn lh' = comp_fn lh" and "hash_fn lh' = hash_fn lh"
    and "kMinNumBuckets \<le> num_buckets lh'" and "in_place (buckets lh')" and "num_items lh' = num_items lh"
    and "mset (lh_items lh') = mset (lh_items lh)"
  shows "wf_lhash ident lh'"
proof -
  have "set (lh_items lh') = set (lh_items lh)" using assms(7) by (metis set_mset_mset)
  moreover have "length (lh_items lh') = length (lh_items lh)" using assms(7) by (metis size_mset)
  moreover have "mset (map (\<lambda>x. ident (item_data x)) (lh_items lh')) = mset (map (\<lambda>x. ident (item_data x)) (lh_items lh))"
    using assms(7) by simp
  then have "distinct (map (\<lambda>x. ident (item_data x)) (lh_items lh'))"
    using wf_lhashD(6) [OF assms(1)] mset_eq_imp_distinct_iff by blast
  ultimately show ?thesis using assms by (simp add: wf_lhash_def)
qed

lemma lh_rebucket_ok:
  assumes "wf_lhash ident lh" and "kMinNumBuckets \<le> n"
  shows "wf_lhash ident (lh_rebucket env lh n) \<and> mset (lh_items (lh_rebucket env lh n)) = mset (lh_items lh) \<and>
    callback_depth (lh_rebucket env lh n) = callback_depth lh"
proof -
  have n: "0 < n" using assms(2) by (simp add: kMinNumBuckets_def)
  have nb: "in_place (replicate n [])" "mset (concat (replicate n [])) = {#}" by (simp_all add: in_place_def)
  let ?lh = "lh\<lparr>buckets := fold (fold (move_item n)) (buckets lh) (replicate n [])\<rparr>"
  have new: "num_buckets ?lh = n" "in_place (buckets ?lh)" "mset (lh_items ?lh) = mset (lh_items lh)"
    using rebucket_chains [OF n _ nb(1), of "buckets lh"] nb(2) by (simp_all add: lh_items_def)
  then have "wf_lhash ident ?lh" using assms by (intro wf_lhash_items [OF assms(1)]) simp_all
  then show ?thesis
    using new assms(1) by (auto simp: lh_rebucket_def Let_def split: option.splits)
qed

lemma lh_maybe_resize_ok:
  assumes "wf_lhash ident lh"
  shows "wf_lhash ident (lh_maybe_resize env lh) \<and> mset (lh_items (lh_maybe_resize env lh)) = mset (lh_items lh) \<and>
    callback_depth (lh_maybe_resize env lh) = callback_depth lh"
  using lh_rebucket_ok [OF assms, of _ env] assms wf_lhashD(3) [OF assms]
  by (auto simp: lh_maybe_resize_def Let_def)

section \<open>Search\<close>

lemma chain_search_found: "i = chain_search p c \<Longrightarrow> i < length c \<Longrightarrow> p (item_data (c ! i))"
  by (induction c arbitrary: i) (auto split: if_splits)

lemma chain_search_end: "chain_search p c \<le> length c" "chain_search p c = length c \<longleftrightarrow> (\<forall>x \<in> set c. \<not> p (item_data x))"
  by (induction c) auto

lemma item_of_bucket: "b < num_buckets lh \<Longrightarrow> x \<in> set (buckets lh ! b) \<Longrightarrow> x \<in> set (lh_items lh)"
  unfolding lh_items_def set_concat using nth_mem [of b "buckets lh"] by (rule UN_I)

lemma bucket_of_item:
  assumes "wf_lhash ident lh" and "x \<in> set (lh_items lh)" and "ident (item_data x) = ident d"
  shows "x \<in> set (buckets lh ! (unat (hash_fn lh d) mod num_buckets lh))"
proof -
  obtain b where b: "b < num_buckets lh" "x \<in> set (buckets lh ! b)"
    using assms(2) by (auto simp: lh_items_def in_set_conv_nth [of _ "buckets lh"])
  moreover have "item_hash x = hash_fn lh d"
    using wf_lhashD(5) [OF assms(1,2)] same_hash [OF wf_lhashD(1) [OF assms(1)] assms(3)] by simp
  moreover have "unat (item_hash x) mod num_buckets lh = b" using b wf_lhashD(4) [OF assms(1)] by (simp add: in_place_def)
  ultimately show ?thesis by metis
qed

text \<open>The link either points to the item with the identity sought, or there is none.\<close>

lemma link_cases:
  assumes "wf_lhash ident lh" and "get_next_ptr_and_hash lh d = ((b, i), h)"
  obtains x where "deref lh (b, i) = Some x" and "b < num_buckets lh" and "i < length (buckets lh ! b)" and "x = buckets lh ! b ! i"
      and "ident (item_data x) = ident d" and "x \<in> set (lh_items lh)" and "h = hash_fn lh d" and "b = unat h mod num_buckets lh"
    | "deref lh (b, i) = None" and "b < num_buckets lh" and "i = length (buckets lh ! b)"
      and "\<forall>x \<in> set (lh_items lh). ident (item_data x) \<noteq> ident d" and "h = hash_fn lh d" and "b = unat h mod num_buckets lh"
proof -
  have h: "h = hash_fn lh d" "b = unat h mod num_buckets lh" "i = chain_search (\<lambda>x. comp_fn lh x d = 0) (buckets lh ! b)"
    using assms(2) by (auto simp: get_next_ptr_and_hash_def Let_def)
  have b: "b < num_buckets lh" using h(2) wf_lhashD(2) [OF assms(1)] by simp
  have eq: "comp_fn lh x d = 0 \<longleftrightarrow> ident x = ident d" for x
    using wf_lhashD(1) [OF assms(1)] by (simp add: good_functions_def)
  show thesis
  proof (cases "i < length (buckets lh ! b)")
    case True
    then have "buckets lh ! b ! i \<in> set (lh_items lh)" using item_of_bucket [OF b] by simp
    moreover have "ident (item_data (buckets lh ! b ! i)) = ident d" using chain_search_found [OF h(3) True] eq by simp
    moreover have "deref lh (b, i) = Some (buckets lh ! b ! i)" using True by (simp add: deref_def)
    ultimately show thesis using that(1) True h(1,2) b by blast
  next
    case False
    then have i: "i = length (buckets lh ! b)"
      using chain_search_end(1) [of "\<lambda>x. comp_fn lh x d = 0" "buckets lh ! b"] h(3) by simp
    then have "\<forall>x \<in> set (buckets lh ! b). comp_fn lh (item_data x) d \<noteq> 0"
      using chain_search_end(2) [of "\<lambda>x. comp_fn lh x d = 0" "buckets lh ! b"] h(3) by simp
    then have "\<forall>x \<in> set (lh_items lh). ident (item_data x) \<noteq> ident d"
      using bucket_of_item [OF assms(1), of _ d] h eq by blast
    moreover have "deref lh (b, i) = None" using False by (simp add: deref_def)
    ultimately show thesis using that(2) i h(1,2) b by blast
  qed
qed

lemma lh_retrieve_Some:
  assumes "wf_lhash ident lh"
  shows "lh_retrieve lh d = Some v \<longleftrightarrow> ident v = ident d \<and> v \<in> item_data ` set (lh_items lh)"
proof -
  obtain b i h where link: "get_next_ptr_and_hash lh d = ((b, i), h)" by (metis prod.exhaust)
  from assms link show ?thesis
  proof (cases rule: link_cases)
    case (1 x)
    have "item_data y = item_data x" if "y \<in> set (lh_items lh)" "ident (item_data y) = ident d" for y
      using wf_lhashD(6) [OF assms] that 1(5,6) by (auto simp: distinct_map inj_on_def)
    moreover have "lh_retrieve lh d = Some (item_data x)" using 1(1) link by (simp add: lh_retrieve_def)
    ultimately show ?thesis using 1(5,6) by (metis (no_types, lifting) image_iff option.inject)
  next
    case 2
    then show ?thesis using link by (auto simp: lh_retrieve_def)
  qed
qed

section \<open>Insertion and deletion\<close>

text \<open>The three ways the items change: one is replaced by another of the same identity, one is added, one is removed.\<close>

lemma mset_swap:
  assumes "A + C = B + C'" and "C' + X = C + (Y :: 'a multiset)"
  shows "A + X = B + Y"
proof -
  have "(A + X) + C = (A + C) + X" by (simp only: ac_simps)
  also have "\<dots> = B + (C' + X)" by (simp only: assms(1) ac_simps)
  also have "\<dots> = (B + Y) + C" by (simp only: assms(2) ac_simps)
  finally show ?thesis by simp
qed

lemma wf_replace:
  assumes "wf_lhash ident lh" and "b < num_buckets lh" and "i < length (buckets lh ! b)" and "x = buckets lh ! b ! i"
    and "ident (item_data x) = ident d"
  defines "lh' \<equiv> store lh b ((buckets lh ! b)[i := x\<lparr>item_data := d\<rparr>])"
  shows "wf_lhash ident lh'" and "mset (lh_items lh') + {#x#} = mset (lh_items lh) + {#x\<lparr>item_data := d\<rparr>#}"
proof -
  let ?c = "buckets lh ! b" and ?y = "x\<lparr>item_data := d\<rparr>"
  have x: "x \<in> set ?c" using assms(3,4) by simp
  note x = x item_of_bucket [OF assms(2) x]
  have place: "unat (item_hash y) mod num_buckets lh = b" if "y \<in> set ?c" for y
    using that assms(2) wf_lhashD(4) [OF assms(1)] by (simp add: in_place_def)
  have "mset (?c[i := ?y]) + {#x#} = mset ?c + {#?y#}"
    using assms(3) x(1) by (simp add: mset_update assms(4) [symmetric])
  from mset_swap [OF mset_concat_update [OF assms(2)] this]
  show items: "mset (lh_items lh') + {#x#} = mset (lh_items lh) + {#?y#}" by (simp add: lh'_def store_def lh_items_def)
  have "in_place ((buckets lh)[b := ?c[i := ?y]])"
  proof (rule in_place_update [OF wf_lhashD(4) [OF assms(1)]])
    fix y assume "y \<in> set (?c[i := ?y])"
    then show "unat (item_hash y) mod num_buckets lh = b" using place x(1) set_update_subset_insert by fastforce
  qed
  moreover have "item_hash y = hash_fn lh (item_data y)" if "y \<in> set (lh_items lh')" for y
  proof -
    have "y \<in> set (lh_items lh) \<or> y = ?y" using that items by (metis Un_iff insert_iff set_mset_add_mset_insert set_mset_mset set_mset_union add_mset_add_single)
    moreover have "item_hash ?y = hash_fn lh (item_data ?y)"
      using wf_lhashD(5) [OF assms(1) x(2)] same_hash [OF wf_lhashD(1) [OF assms(1)] assms(5)] by simp
    ultimately show ?thesis using wf_lhashD(5) [OF assms(1)] by blast
  qed
  moreover have "mset (map (\<lambda>x. ident (item_data x)) (lh_items lh')) = mset (map (\<lambda>x. ident (item_data x)) (lh_items lh))"
    using arg_cong [OF items, of "image_mset (\<lambda>x. ident (item_data x))"] assms(5) by simp
  then have "distinct (map (\<lambda>x. ident (item_data x)) (lh_items lh'))"
    using wf_lhashD(6) [OF assms(1)] mset_eq_imp_distinct_iff by blast
  moreover have "length (lh_items lh') = length (lh_items lh)" using arg_cong [OF items, of size] by simp
  ultimately show "wf_lhash ident lh'" using assms(1) by (simp add: wf_lhash_def lh'_def store_def)
qed

lemma wf_add:
  assumes "wf_lhash ident lh" and "b < num_buckets lh" and "h = hash_fn lh d" and "b = unat h mod num_buckets lh"
    and "\<forall>x \<in> set (lh_items lh). ident (item_data x) \<noteq> ident d"
  defines "x \<equiv> \<lparr>item_data = d, item_hash = h\<rparr>"
  defines "lh' \<equiv> store lh b (buckets lh ! b @ [x])\<lparr>num_items := size_add (num_items lh) 1\<rparr>"
  shows "wf_lhash ident lh'" and "mset (lh_items lh') = mset (lh_items lh) + {#x#}"
proof -
  show items: "mset (lh_items lh') = mset (lh_items lh) + {#x#}"
    using mset_concat_update [OF assms(2), of "buckets lh ! b @ [x]"] by (simp add: lh'_def store_def lh_items_def)
  then have set: "set (lh_items lh') = insert x (set (lh_items lh))" by (metis set_mset_add_mset_insert set_mset_mset add_mset_add_single)
  have "in_place ((buckets lh)[b := buckets lh ! b @ [x]])"
    using assms(2,4) wf_lhashD(4) [OF assms(1)] by (intro in_place_update) (auto simp: in_place_def x_def)
  moreover have "distinct (map (\<lambda>x. ident (item_data x)) (lh_items lh')) \<longleftrightarrow> distinct (map (\<lambda>x. ident (item_data x)) (x # lh_items lh))"
    by (rule mset_eq_imp_distinct_iff) (simp add: items)
  moreover have "length (lh_items lh') = Suc (length (lh_items lh))" using arg_cong [OF items, of size] by simp
  ultimately show "wf_lhash ident lh'"
    using assms(1,3,5) set by (auto simp: wf_lhash_def lh'_def store_def x_def size_add_def mod_simps)
qed

lemma wf_remove:
  assumes "wf_lhash ident lh" and "b < num_buckets lh" and "i < length (buckets lh ! b)" and "x = buckets lh ! b ! i"
  defines "lh' \<equiv> store lh b (take i (buckets lh ! b) @ drop (Suc i) (buckets lh ! b))\<lparr>num_items := size_add (num_items lh) (size_mod - 1)\<rparr>"
  shows "wf_lhash ident lh'" and "mset (lh_items lh) = mset (lh_items lh') + {#x#}"
proof -
  let ?c = "buckets lh ! b"
  have "mset ?c = mset (take i ?c @ drop (Suc i) ?c) + {#x#}"
    using arg_cong [OF id_take_nth_drop [OF assms(3)], of mset] assms(4) by simp
  then show items: "mset (lh_items lh) = mset (lh_items lh') + {#x#}"
    using mset_concat_update [OF assms(2), of "take i ?c @ drop (Suc i) ?c"] by (simp add: lh'_def store_def lh_items_def)
  then have set: "set (lh_items lh) = insert x (set (lh_items lh'))" by (metis set_mset_add_mset_insert set_mset_mset add_mset_add_single)
  have "in_place ((buckets lh)[b := take i ?c @ drop (Suc i) ?c])"
    using assms(2) wf_lhashD(4) [OF assms(1)]
    by (intro in_place_update) (auto simp: in_place_def dest: in_set_takeD in_set_dropD)
  moreover have "distinct (map (\<lambda>x. ident (item_data x)) (lh_items lh)) \<longleftrightarrow> distinct (map (\<lambda>x. ident (item_data x)) (x # lh_items lh'))"
    by (rule mset_eq_imp_distinct_iff) (simp add: items)
  moreover have "length (lh_items lh) = Suc (length (lh_items lh'))" using arg_cong [OF items, of size] by simp
  then have "size_add (num_items lh) (size_mod - 1) = length (lh_items lh') mod size_mod"
    using wf_lhashD(7) [OF assms(1)] by (simp add: size_add_def size_mod_def mod_simps)
  ultimately show "wf_lhash ident lh'"
    using assms(1) set by (auto simp: wf_lhash_def lh'_def store_def)
qed

text \<open>The data of a table decides what it retrieves.\<close>

definition lh_data :: "'d lhash \<Rightarrow> 'd set" where
  "lh_data lh = item_data ` set (lh_items lh)"

lemma option_eqI: "(\<And>v. a = Some v \<longleftrightarrow> b = Some v) \<Longrightarrow> a = b"
  by (metis not_Some_eq)

lemma lh_retrieve_data: "wf_lhash ident lh \<Longrightarrow> lh_retrieve lh d = Some v \<longleftrightarrow> ident v = ident d \<and> v \<in> lh_data lh"
  by (simp add: lh_retrieve_Some lh_data_def)

lemma lh_retrieve_new: "lh_new env hsh cmp = Some lh \<Longrightarrow> good_functions ident hsh cmp \<Longrightarrow>
    wf_lhash ident lh \<and> lh_retrieve lh = (\<lambda>_. None) \<and> callback_depth lh = 0"
proof -
  assume new: "lh_new env hsh cmp = Some lh" and fns: "good_functions ident hsh cmp"
  have lh: "lh = \<lparr>num_items = 0, buckets = replicate kMinNumBuckets [], callback_depth = 0, comp_fn = cmp, hash_fn = hsh\<rparr>"
    using new by (simp add: lh_new_def split: option.splits)
  have "lh_items lh = []" by (simp add: lh lh_items_def)
  moreover have "in_place (buckets lh)" by (simp add: lh in_place_def)
  ultimately have wf: "wf_lhash ident lh" using fns by (simp add: wf_lhash_def lh)
  moreover have "lh_retrieve lh d = None" for d
    using lh_retrieve_data [OF wf] \<open>lh_items lh = []\<close> by (auto simp: lh_data_def intro: option_eqI)
  ultimately show ?thesis by (auto simp: lh)
qed

lemma data_mset: "mset (lh_items lh') = mset (lh_items lh) \<Longrightarrow> lh_data lh' = lh_data lh"
  unfolding lh_data_def by (metis set_mset_mset)

lemma retrieve_put:
  assumes "wf_lhash ident lh" and "wf_lhash ident lh'" and "lh_data lh' = insert d {v \<in> lh_data lh. ident v \<noteq> ident d}"
  shows "lh_retrieve lh' x = (if ident d = ident x then Some d else lh_retrieve lh x)"
  by (rule option_eqI) (auto simp: lh_retrieve_data [OF assms(1)] lh_retrieve_data [OF assms(2)] assms(3))

lemma retrieve_del:
  assumes "wf_lhash ident lh" and "wf_lhash ident lh'" and "lh_data lh' = {v \<in> lh_data lh. ident v \<noteq> ident d}"
  shows "lh_retrieve lh' x = (if ident d = ident x then None else lh_retrieve lh x)"
  by (rule option_eqI) (auto simp: lh_retrieve_data [OF assms(1)] lh_retrieve_data [OF assms(2)] assms(3))

lemma split_item:
  assumes "wf_lhash ident lh" and "x \<in> set (lh_items lh)"
  obtains rs where "mset (lh_items lh) = mset (x # rs)" and "\<forall>z \<in> set rs. ident (item_data z) \<noteq> ident (item_data x)"
proof -
  have ms: "mset (lh_items lh) = mset (x # remove1 x (lh_items lh))" using assms(2) by simp
  then have "mset (map (\<lambda>x. ident (item_data x)) (lh_items lh)) = mset (map (\<lambda>x. ident (item_data x)) (x # remove1 x (lh_items lh)))"
    by (simp only: mset_map)
  then have "distinct (map (\<lambda>x. ident (item_data x)) (x # remove1 x (lh_items lh)))"
    using wf_lhashD(6) [OF assms(1)] mset_eq_imp_distinct_iff by blast
  then have "\<forall>z \<in> set (remove1 x (lh_items lh)). ident (item_data z) \<noteq> ident (item_data x)"
    unfolding list.map distinct.simps set_map by (metis imageI)
  then show thesis using that ms by blast
qed

lemma data_split: "mset (lh_items lh) = mset (x # rs) \<Longrightarrow> lh_data lh = insert (item_data x) (item_data ` set rs)"
  unfolding lh_data_def by (drule arg_cong [of _ _ set_mset]) simp

lemma resized:
  assumes "wf_lhash ident lh"
  shows "wf_lhash ident (lh_maybe_resize env lh)" and "lh_data (lh_maybe_resize env lh) = lh_data lh"
    and "callback_depth (lh_maybe_resize env lh) = callback_depth lh"
    and "length (lh_items (lh_maybe_resize env lh)) = length (lh_items lh)"
  using lh_maybe_resize_ok [OF assms, of env] data_mset mset_eq_length by blast+

text \<open>Insertion returns the data it replaces; if it fails, which it can only for want of memory, the table is as before.\<close>

lemma lh_insert_ok:
  assumes "wf_lhash ident lh" and "lh_insert env d lh = ((r, old), lh')"
  shows "wf_lhash ident lh'" and "callback_depth lh' = callback_depth lh"
    and "r = 1 \<and> old = lh_retrieve lh d \<and> lh_data lh' = insert d {v \<in> lh_data lh. ident v \<noteq> ident d} \<or>
         r = 0 \<and> old = None \<and> lh_retrieve lh d = None \<and> lh' = lh \<and> OPENSSL_malloc env sizeof_item = None"
proof -
  obtain b i h where link: "get_next_ptr_and_hash lh d = ((b, i), h)" by (metis prod.exhaust)
  have "wf_lhash ident lh' \<and> callback_depth lh' = callback_depth lh \<and>
    (r = 1 \<and> old = lh_retrieve lh d \<and> lh_data lh' = insert d {v \<in> lh_data lh. ident v \<noteq> ident d} \<or>
         r = 0 \<and> old = None \<and> lh_retrieve lh d = None \<and> lh' = lh \<and> OPENSSL_malloc env sizeof_item = None)"
    using assms(1) link
  proof (cases rule: link_cases)
    case (1 x)
    note new = wf_replace [OF assms(1) 1(2-5)]
    have lh': "r = 1" "old = lh_retrieve lh d" "lh' = store lh b ((buckets lh ! b)[i := x\<lparr>item_data := d\<rparr>])"
      using assms(2) link 1(1) by (simp_all add: lh_insert_def lh_retrieve_def)
    have "lh_data lh' = insert d {v \<in> lh_data lh. ident v \<noteq> ident d}"
    proof -
      obtain rs where rs: "mset (lh_items lh) = mset (x # rs)" "\<forall>z \<in> set rs. ident (item_data z) \<noteq> ident (item_data x)"
        using split_item [OF assms(1) 1(6)] .
      have "mset (lh_items lh') = mset (x\<lparr>item_data := d\<rparr> # rs)" using new(2) rs(1) by (simp add: lh')
      then show ?thesis using data_split [OF rs(1)] data_split [of lh'] rs(2) 1(5) by auto
    qed
    then show ?thesis using new(1) lh' by (simp add: store_def)
  next
    case 2
    show ?thesis
    proof (cases "OPENSSL_malloc env sizeof_item")
      case None
      then show ?thesis using assms link 2(1) by (simp add: lh_insert_def lh_retrieve_def)
    next
      case (Some m)
      let ?lh = "store lh b (buckets lh ! b @ [\<lparr>item_data = d, item_hash = h\<rparr>])\<lparr>num_items := size_add (num_items lh) 1\<rparr>"
      note new = wf_add [OF assms(1) 2(2,5,6,4)]
      have "lh_insert env d lh = ((1, lh_retrieve lh d), lh_maybe_resize env ?lh)"
        using link 2(1,3) Some by (simp add: lh_insert_def lh_retrieve_def store_def)
      then have lh': "r = 1" "old = lh_retrieve lh d" "lh' = lh_maybe_resize env ?lh" using assms(2) by simp_all
      have "lh_data ?lh = insert d {v \<in> lh_data lh. ident v \<noteq> ident d}"
        using arg_cong [OF new(2), of set_mset] 2(4) by (auto simp: lh_data_def)
      then show ?thesis using resized [OF new(1), of env] lh' by (simp add: store_def)
    qed
  qed
  then show "wf_lhash ident lh'" and "callback_depth lh' = callback_depth lh"
    and "r = 1 \<and> old = lh_retrieve lh d \<and> lh_data lh' = insert d {v \<in> lh_data lh. ident v \<noteq> ident d} \<or>
         r = 0 \<and> old = None \<and> lh_retrieve lh d = None \<and> lh' = lh \<and> OPENSSL_malloc env sizeof_item = None"
    by blast+
qed

lemma lh_delete_ok:
  assumes "wf_lhash ident lh" and "lh_delete env d lh = (r, lh')"
  shows "wf_lhash ident lh'" and "callback_depth lh' = callback_depth lh"
    and "r = lh_retrieve lh d" and "lh_data lh' = {v \<in> lh_data lh. ident v \<noteq> ident d}"
proof -
  obtain b i h where link: "get_next_ptr_and_hash lh d = ((b, i), h)" by (metis prod.exhaust)
  have "wf_lhash ident lh' \<and> callback_depth lh' = callback_depth lh \<and> r = lh_retrieve lh d \<and>
      lh_data lh' = {v \<in> lh_data lh. ident v \<noteq> ident d}"
    using assms(1) link
  proof (cases rule: link_cases)
    case (1 x)
    let ?lh = "store lh b (take i (buckets lh ! b) @ drop (Suc i) (buckets lh ! b))\<lparr>num_items := size_add (num_items lh) (size_mod - 1)\<rparr>"
    note new = wf_remove [OF assms(1) 1(2-4)]
    have lh': "r = lh_retrieve lh d" "lh' = lh_maybe_resize env ?lh"
      using assms(2) link 1(1) by (simp_all add: lh_delete_def lh_retrieve_def store_def)
    obtain rs where rs: "mset (lh_items lh) = mset (x # rs)" "\<forall>z \<in> set rs. ident (item_data z) \<noteq> ident (item_data x)"
      using split_item [OF assms(1) 1(6)] .
    have "mset (lh_items ?lh) = mset rs" using new(2) rs(1) by simp
    then have "lh_data ?lh = item_data ` set rs" unfolding lh_data_def by (metis set_mset_mset)
    then have "lh_data ?lh = {v \<in> lh_data lh. ident v \<noteq> ident d}" using data_split [OF rs(1)] rs(2) 1(5) by auto
    then show ?thesis using resized [OF new(1), of env] lh' by (simp add: store_def)
  next
    case 2
    then show ?thesis using assms link by (auto simp: lh_delete_def lh_retrieve_def lh_data_def)
  qed
  then show "wf_lhash ident lh'" and "callback_depth lh' = callback_depth lh"
    and "r = lh_retrieve lh d" and "lh_data lh' = {v \<in> lh_data lh. ident v \<noteq> ident d}"
    by blast+
qed

section \<open>The table as a dictionary\<close>

abbreviation lh_put :: "alloc \<Rightarrow> 'd \<Rightarrow> 'd lhash \<Rightarrow> 'd lhash option" where
  "lh_put env d lh \<equiv> (case lh_insert env d lh of ((r, old), lh') \<Rightarrow> if r = 1 then Some lh' else None)"

abbreviation lh_del :: "alloc \<Rightarrow> 'd \<Rightarrow> 'd lhash \<Rightarrow> 'd lhash option" where
  "lh_del env d lh \<equiv> Some (snd (lh_delete env d lh))"

interpretation lh_dict: dictionary "wf_lhash ident" lh_retrieve "lh_put env" "lh_del env" "\<lambda>d. d" "\<lambda>d. d" "\<lambda>a b. ident a = ident b"
  for ident :: "'d \<Rightarrow> 'k" and env
proof
  fix s t :: "'d lhash" and d
  assume s: "wf_lhash ident s" and run: "lh_put env d s = Some t"
  obtain r old where ins: "lh_insert env d s = ((r, old), t)" "r = 1"
    using run by (auto split: prod.splits if_splits)
  show t: "wf_lhash ident t" by (rule lh_insert_ok(1) [OF s ins(1)])
  show "lh_retrieve t x = (if ident d = ident x then Some d else lh_retrieve s x)" for x
    using lh_insert_ok(3) [OF s ins(1)] ins(2) by (intro retrieve_put [OF s t]) simp
next
  fix s t :: "'d lhash" and d
  assume s: "wf_lhash ident s" and run: "lh_del env d s = Some t"
  obtain r where del: "lh_delete env d s = (r, t)" using run by (metis option.inject prod.collapse)
  show t: "wf_lhash ident t" by (rule lh_delete_ok(1) [OF s del])
  show "lh_retrieve t x = (if ident d = ident x then None else lh_retrieve s x)" for x
    by (rule retrieve_del [OF s t lh_delete_ok(4) [OF s del]])
qed

lemma lh_runs_total:
  assumes "OPENSSL_malloc env sizeof_item \<noteq> None" and "wf_lhash ident s"
  shows "\<exists>t. run_ops (lh_put env) (lh_del env) ops s = Some t"
proof (rule lh_dict.run_succeeds [OF _ _ assms(2)])
  fix d and s :: "'a lhash"
  assume s: "wf_lhash ident s"
  obtain r old t where ins: "lh_insert env d s = ((r, old), t)" by (metis prod.exhaust)
  then show "lh_put env d s \<noteq> None" using lh_insert_ok(3) [OF s ins] assms(1) by (elim disjE) simp_all
qed simp

section \<open>Search by key, traversal, load\<close>

lemma lh_retrieve_key_ok:
  assumes "wf_lhash ident lh" and "\<And>v. cmp_key k v = 0 \<longleftrightarrow> ident v = kid" and "\<And>v. ident v = kid \<Longrightarrow> hash_fn lh v = key_hash"
  shows "lh_retrieve_key lh k key_hash cmp_key = Some v \<longleftrightarrow> v \<in> lh_data lh \<and> ident v = kid"
proof -
  let ?b = "unat key_hash mod num_buckets lh"
  let ?c = "buckets lh ! ?b"
  let ?i = "chain_search (\<lambda>x. cmp_key k x = 0) ?c"
  have b: "?b < num_buckets lh" using wf_lhashD(2) [OF assms(1)] by simp
  have link: "get_next_ptr_by_key lh k key_hash cmp_key = (?b, ?i)" by (simp add: get_next_ptr_by_key_def Let_def)
  have here: "x \<in> set ?c" if "x \<in> set (lh_items lh)" "ident (item_data x) = kid" for x
    using bucket_of_item [OF assms(1) that(1) refl] assms(3) [OF that(2)] by simp
  show ?thesis
  proof (cases "?i < length ?c")
    case True
    have x: "?c ! ?i \<in> set (lh_items lh)" "ident (item_data (?c ! ?i)) = kid"
      using item_of_bucket [OF b] True chain_search_found [OF refl True] assms(2) by simp_all
    then obtain rs where "mset (lh_items lh) = mset (?c ! ?i # rs)" "\<forall>z \<in> set rs. ident (item_data z) \<noteq> kid"
      using split_item [OF assms(1) x(1)] by metis
    then have "lh_data lh = insert (item_data (?c ! ?i)) (item_data ` set rs)" "\<forall>z \<in> set rs. ident (item_data z) \<noteq> kid"
      using data_split by blast+
    moreover have "lh_retrieve_key lh k key_hash cmp_key = Some (item_data (?c ! ?i))"
      using True by (simp add: lh_retrieve_key_def link deref_def)
    ultimately show ?thesis using x(2) by auto
  next
    case False
    then have "?i = length ?c" using chain_search_end(1) [of "\<lambda>x. cmp_key k x = 0" ?c] by simp
    then have none: "\<forall>x \<in> set ?c. ident (item_data x) \<noteq> kid"
      using chain_search_end(2) [of "\<lambda>x. cmp_key k x = 0" ?c] assms(2) by simp
    have "lh_retrieve_key lh k key_hash cmp_key = None"
      using False by (simp add: lh_retrieve_key_def link deref_def)
    moreover have "\<not> (v \<in> lh_data lh \<and> ident v = kid)" using here none unfolding lh_data_def by blast
    ultimately show ?thesis by simp
  qed
qed

text \<open>The callback sees every item once; the order is that of the buckets.\<close>

lemma fold_concat: "fold (fold f) xss a = fold f (concat xss) a"
  by (induction xss arbitrary: a) simp_all

lemma lh_doall_ok:
  assumes "wf_lhash ident lh" and "lh_doall_arg env func arg lh = (arg', lh')"
  shows "arg' = fold func (map item_data (lh_items lh)) arg" and "wf_lhash ident lh'" and "lh_data lh' = lh_data lh"
    and "callback_depth lh < 0xfffffffe \<Longrightarrow> callback_depth lh' = callback_depth lh"
proof -
  have wf: "wf_lhash ident (lh\<lparr>callback_depth := n\<rparr>)" "lh_items (lh\<lparr>callback_depth := n\<rparr>) = lh_items lh" for n
    using assms(1) by (simp_all add: wf_lhash_def lh_items_def)
  obtain n where lh': "lh' = lh_maybe_resize env (lh\<lparr>callback_depth := n\<rparr>)"
      and n: "callback_depth lh < 0xfffffffe \<Longrightarrow> n = callback_depth lh"
  proof
    let ?n = "if callback_depth lh < 0xffffffff
      then (if callback_depth lh + 1 < 0xffffffff then callback_depth lh else callback_depth lh + 1) else callback_depth lh"
    show "lh' = lh_maybe_resize env (lh\<lparr>callback_depth := ?n\<rparr>)"
      using assms(2) by (auto simp: lh_doall_arg_def Let_def)
    show "?n = callback_depth lh" if "callback_depth lh < 0xfffffffe"
    proof -
      have "callback_depth lh + 1 < 0xffffffff" using that by (simp add: word_less_nat_alt unat_word_ariths(1))
      then show ?thesis by simp
    qed
  qed
  have "lh_data (lh\<lparr>callback_depth := n\<rparr>) = lh_data lh" using wf(2) by (simp add: lh_data_def)
  then show "wf_lhash ident lh'" and "lh_data lh' = lh_data lh" and "callback_depth lh < 0xfffffffe \<Longrightarrow> callback_depth lh' = callback_depth lh"
    using resized [OF wf(1), of env n] n by (simp_all add: lh')
  show "arg' = fold func (map item_data (lh_items lh)) arg"
    using assms(2) by (auto simp: lh_doall_arg_def Let_def lh_items_def fold_concat fold_map comp_def split: if_splits)
qed

text \<open>With memory, and while no traversal suppresses resizing, chains have at most three items on average.\<close>

definition lh_loaded :: "'d lhash \<Rightarrow> bool" where
  "lh_loaded lh \<longleftrightarrow> num_items lh div num_buckets lh \<le> kMaxAverageChainLength"

lemma maybe_resize_loaded:
  assumes "\<forall>n < 2 ^ 40. OPENSSL_malloc env n \<noteq> None" and "kMinNumBuckets \<le> num_buckets lh" and "num_buckets lh < 2 ^ 36"
    and "callback_depth lh = 0" and "num_items lh div num_buckets lh \<le> 3"
  shows "lh_loaded (lh_maybe_resize env lh)"
proof -
  have rebucket: "num_buckets (lh_rebucket env lh n) = n \<and> num_items (lh_rebucket env lh n) = num_items lh" if "n < 2 ^ 37" and "0 < n" for n
  proof -
    have "size_mul sizeof_link n = 8 * n" using that by (simp add: sizeof_link_def size_mod_def)
    moreover have "OPENSSL_malloc env (8 * n) \<noteq> None" using assms(1) [rule_format, of "8 * n"] that by simp
    moreover have "length (fold (fold (move_item n)) (buckets lh) (replicate n [])) = n"
      using rebucket_chains [of n "replicate n []" "buckets lh"] that by (simp add: in_place_def)
    ultimately show ?thesis by (auto simp: lh_rebucket_def sizeof_link_def)
  qed
  have b: "0 < num_buckets lh" using assms(2) unfolding kMinNumBuckets_def by linarith
  consider (grow) "num_items lh div num_buckets lh = 3" | (shrink) "num_items lh < num_buckets lh" "kMinNumBuckets < num_buckets lh"
    | (keep) "num_items lh div num_buckets lh \<le> 2" "\<not> (num_items lh < num_buckets lh \<and> kMinNumBuckets < num_buckets lh)"
    using assms(5) by linarith
  then show ?thesis
  proof cases
    case grow
    let ?n = "num_buckets lh * 2"
    have "size_mul (num_buckets lh) 2 = ?n" using assms(3) by (simp add: size_mod_def)
    moreover have "num_items lh < 4 * num_buckets lh" 
      using mult_div_mod_eq [of "num_buckets lh" "num_items lh", unfolded grow] mod_less_divisor [OF b, of "num_items lh"] by linarith
    then have "num_items lh div ?n \<le> 2" by (simp add: less_mult_imp_div_less less_Suc_eq_le [symmetric])
    ultimately show ?thesis
      using grow b assms(3,4) rebucket [of ?n] by (simp add: lh_maybe_resize_def lh_loaded_def kMaxAverageChainLength_def)
  next
    case shrink
    let ?n = "if num_buckets lh div 2 < kMinNumBuckets then kMinNumBuckets else num_buckets lh div 2"
    have n: "?n < 2 ^ 37" "0 < ?n" "num_buckets lh < 2 * ?n + 2" using assms(3) by (auto simp: kMinNumBuckets_def)
    have "num_items lh < 3 * ?n" using shrink(1) n(3) by (auto simp: kMinNumBuckets_def split: if_splits)
    then have "num_items lh div ?n \<le> 2" by (simp add: less_mult_imp_div_less less_Suc_eq_le [symmetric])
    moreover have "num_items lh div num_buckets lh = 0" using shrink(1) by simp
    ultimately show ?thesis
      using shrink(2) assms(4) rebucket [OF n(1,2)]
      by (simp add: lh_maybe_resize_def lh_loaded_def kMaxAverageChainLength_def kMinAverageChainLength_def Let_def)
  next
    case keep
    then have "lh_maybe_resize env lh = lh"
      using b by (auto simp: lh_maybe_resize_def kMaxAverageChainLength_def kMinAverageChainLength_def Let_def div_eq_0_iff)
    then show ?thesis using keep(1) by (simp add: lh_loaded_def kMaxAverageChainLength_def)
  qed
qed

lemma lh_insert_loaded:
  assumes "\<forall>n < 2 ^ 40. OPENSSL_malloc env n \<noteq> None" and "wf_lhash ident lh" and "num_buckets lh < 2 ^ 36"
    and "callback_depth lh = 0" and "lh_loaded lh"
  shows "lh_loaded (snd (lh_insert env d lh))"
proof -
  obtain b i h where link: "get_next_ptr_and_hash lh d = ((b, i), h)" by (metis prod.exhaust)
  have "size_add (num_items lh) 1 \<le> num_items lh + 1" unfolding size_add_def by (rule mod_less_eq_dividend)
  then have "size_add (num_items lh) 1 div num_buckets lh \<le> (num_items lh + num_buckets lh) div num_buckets lh"
    using wf_lhashD(2) [OF assms(2)] by (intro div_le_mono) linarith
  then have n: "size_add (num_items lh) 1 div num_buckets lh \<le> 3"
    using assms(5) div_add_self2 [of "num_buckets lh" "num_items lh"] wf_lhashD(2) [OF assms(2)]
    unfolding lh_loaded_def kMaxAverageChainLength_def by linarith
  show ?thesis
  proof (cases "deref lh (b, i)")
    case None
    let ?lh = "store lh b (take i (buckets lh ! b) @ [\<lparr>item_data = d, item_hash = h\<rparr>])\<lparr>num_items := size_add (num_items lh) 1\<rparr>"
    obtain p where "OPENSSL_malloc env sizeof_item = Some p" using assms(1) by (fastforce simp: sizeof_item_def)
    then have "lh_insert env d lh = ((1, None), lh_maybe_resize env ?lh)"
      using link None by (simp add: lh_insert_def store_def)
    moreover have "lh_loaded (lh_maybe_resize env ?lh)"
      using n assms(3,4) wf_lhashD(3) [OF assms(2)] by (intro maybe_resize_loaded [OF assms(1)]) (simp_all add: store_def)
    ultimately show ?thesis by simp
  next
    case (Some x)
    then show ?thesis using assms(5) link by (simp add: lh_insert_def lh_loaded_def store_def)
  qed
qed

end
