(* ===== verification/Spec2Isabelle.thy ===== *)
theory Spec2Isabelle
  imports Prelude Mem Oid Set_Of Unicode Cbb_Failed Ber Ber_Total Stack Bio_Pair Base64_Stream Pb_Safe_Message Pb_Edge Pb_Roundtrip Percent Avl Lhash "HOL-Library.Code_Target_Nat"
begin

text \<open>
  A verification library for the C code under \<open>src/PC Build/Pods\<close> that is the application's
  own protocol core: the byte-string and ASN.1 layer of BoringSSL, the data structures under
  it, the Protocol Buffers runtime nanopb, and two self-contained parts of gRPC. File names below are
  relative to \<open>BoringSSL-GRPC/src\<close> and \<open>nanopb\<close>, or to the pods where they begin with \<open>gRPC-Core\<close>.

  How C is read. A function that returns one or zero and updates an object through a pointer is
  an \<open>action\<close>: the object goes in, and out come an optional result and the object as the call
  leaves it. Machine integers are words; \<open>size_t\<close> is a natural number, with \<open>size_add\<close> and
  \<open>size_mul\<close> wherever the code does not rule out wrap-around. A pointer into a buffer is the
  list of bytes from that pointer on. \<open>malloc\<close> is a parameter (\<open>alloc\<close>): which requests are
  granted and what fresh memory holds. Loops with a bound are structural or have a measure;
  loops whose end rests on an invariant are \<open>partial_function (option)\<close>, where the invariant
  is then shown to give a result; where fuel is used it is the number of bytes left, and lemmas
  show that it is enough: more fuel gives the same result for \<open>cbs_while\<close> (\<open>while_fuel_enough\<close>), \<open>find_ber_loop\<close>,
  \<open>convert_loop\<close> and \<open>implicit_chunks\<close> (\<open>cbs_find_ber_fuel\<close>, \<open>cbs_convert_ber_fuel\<close>, \<open>implicit_chunks_fuel\<close>), and in
  the decoder of nanopb exhaustion would be recorded in \<open>hp_deep\<close>. \<open>assert\<close>s are preconditions.

  Theories.
  \<^item> \<open>Prelude\<close>: word types, actions, big-endian numbers. \<open>Mem\<close> (\<open>crypto/mem.c\<close>): allocation
    behind a length prefix, constant-time comparison, string copies.
  \<^item> \<open>Cbs\<close>, \<open>Cbs_Asn1\<close> (\<open>crypto/bytestring/cbs.c\<close>): the read window and its readers, then DER.
    \<open>Der\<close> is the encoding as a mathematical object; \<open>Asn1_Read\<close> proves that the parser accepts
    exactly that encoding.
  \<^item> \<open>Cbb\<close>, \<open>Cbb_Asn1\<close> (\<open>crypto/bytestring/cbb.c\<close>): the builder with its nested open children.
    \<open>Cbb_Spec\<close> states the abstract builder, a stack of unfinished contents; \<open>Cbb_Ops\<close> and
    \<open>Cbb_Build\<close> prove by the locale \<open>builder_op\<close> that each operation refines it and, with enough
    memory, succeeds.
  \<^item> \<open>Oid\<close> (object identifiers as text), \<open>Set_Of\<close> (sorting a SET OF), \<open>Unicode\<close>
    (\<open>unicode.c\<close>), \<open>Ber\<close> (\<open>ber.c\<close>, \<open>asn1_compat.c\<close>): clients of parser and builder. \<open>Ber_Total\<close> proves that
    every input of bounded depth and size is converted, and that the fuel of the three loops of \<open>Ber\<close> has no
    influence on any result; \<open>Cbb_Failed\<close> that no sequence of calls revives a builder that failed.
  \<^item> \<open>Stack\<close> (\<open>crypto/stack/stack.c\<close>): arrays of pointers, by the locale \<open>stack_op\<close> functions on
    lists; binary search and sorting.
  \<^item> \<open>Bio_Pair\<close> (\<open>crypto/bio/pair.c\<close>): two BIOs over ring buffers; the locale \<open>pipe\<close> is the
    lossless queue they implement.
  \<^item> \<open>Const_Time\<close> (\<open>crypto/internal.h\<close>), \<open>Base64\<close>, \<open>Base64_Stream\<close>
    (\<open>crypto/base64/base64.c\<close>): branch-free selection, the block codec against a definition by
    six-bit digits, the streaming codec by the locale \<open>chunked\<close>.

  \<^item> \<open>Pb_Stream\<close>, \<open>Pb_Encode\<close>, \<open>Pb_Decode\<close> (\<open>pb_encode.c\<close>, first half of \<open>pb_decode.c\<close>): streams over
    any callback, field descriptors, encoders and decoders of single values. The locales \<open>source\<close>
    and \<open>sink\<close> are what a lossless stream promises; \<open>Pb_Wire\<close> proves inside them what is read
    and written on the wire.
  \<^item> \<open>Pb_Message\<close> (\<open>pb_common.c\<close>, \<open>pb_encode.c\<close>): iterators over the fields of a structure in memory and the
    message encoder; \<open>Pb_Refine\<close> shows that it writes a reference encoding.
  \<^item> \<open>Pb_Heap\<close>, \<open>Pb_Defaults\<close>, \<open>Pb_Fields\<close>, \<open>Pb_Decode_Message\<close> (\<open>pb_decode.c\<close>): memory and allocator, value
    decoders, default values and release, fields of every storage class, and the loop over a message.
    \<open>Pb_Safe\<close> and \<open>Pb_Safe_Message\<close> prove that it is memory safe on static messages; \<open>Pb_Find\<close> that the
    search for a field is exact; \<open>Pb_Edge\<close> computes two messages that the code gets wrong, one with an array without
    a counter and one without fields; \<open>Pb_Roundtrip\<close> that structures of scalar fields survive encoding and decoding.

  \<^item> \<open>Percent\<close> (\<open>gRPC-Core/src/core/lib/slice/percent_encoding.cc\<close>): percent-encoding of metadata and the two
    decoders, against a grammar of the texts they accept.
  \<^item> \<open>Dictionary\<close>: the locale \<open>dictionary\<close>, runs of insertions and removals that act as on a function.
    \<open>Avl\<close> (\<open>gRPC-Core/src/core/lib/avl/avl.cc\<close>), immutable balanced trees with their assertions, and
    \<open>Lhash\<close> (\<open>crypto/lhash/lhash.c\<close>), hash tables that resize, interpret it. A tree is the value it
    denotes, a chain of items a list; the functions of the vtable and of the table are parameters.

  How the message layer of nanopb is read. A structure is a range of addresses of a memory of
  bytes; a descriptor table is a list of entries, and a pointer into it is the rest of the list.
  Pointers have eight bytes, \<open>pb_size_t\<close> four (the pods define \<open>PB_FIELD_32BIT\<close> and
  \<open>PB_ENABLE_MALLOC\<close>). Tables behind pointers, callbacks of the application and the place the
  allocator chooses are parameters (\<open>pb_env\<close>, \<open>pb_denv\<close>). The recursion into submessages has a
  bound \<open>n\<close>; where it is reached the decoder sets \<open>hp_deep\<close>, and on static messages that does not
  happen. Loops over input have the number of bytes left as fuel, which is enough since every round
  reads a byte. The decoder takes the address of its local \<open>fixed_count_size\<close>; \<open>local\<close> gives the
  address of that variable at each depth. A read that fails stores nothing in the model.

  The properties below are grouped the same way: exactness of the parser, refinement and totality
  of the builder, round trips between both, then the clients, then nanopb, the dictionaries and
  percent-encoding.

  Not modelled: freeing and clearing memory, the error queue (\<open>OPENSSL_PUT_ERROR\<close>), reference
  counts and heap addresses of objects, which have no effect on the results stated here; what a
  failed call stores through its output pointers; the C library (\<open>malloc\<close>, \<open>qsort\<close>); the store of the length
  prefix of \<open>OPENSSL_malloc\<close>, which for a request that wraps lies outside the block that was granted. Outside
  these components: big numbers, ciphers, hashes and curves, X.509 and the TLS state machines of
  BoringSSL, and the C++ and Objective-C pods (the rest of gRPC, Abseil, LevelDB, Firebase).
  Callbacks of \<open>lh_doall_arg\<close> that change the table they traverse are not modelled either.
\<close>

section \<open>A concrete C library for the witnesses\<close>

definition libc :: alloc where
  "libc = \<lparr>malloc_ok = (\<lambda>n. n < 2 ^ 63), fresh = (\<lambda>i. 0)\<rparr>"

lemma libc_ok [simp]: "malloc_bounded libc" "plenty libc"
  by (simp_all add: libc_def malloc_bounded_def plenty_def)

lemma libc_malloc [simp]:
  "n + 8 < 2 ^ 63 \<Longrightarrow> OPENSSL_malloc libc n = Some (replicate n 0)"
  by (simp add: OPENSSL_malloc_def OPENSSL_MALLOC_PREFIX_def libc_def size_mod_def map_replicate_const)

definition empty_cbb :: cbb where
  "empty_cbb = snd (CBB_init libc 0)"

lemma empty_cbb_init: "CBB_init libc 0 = (Some (), empty_cbb)"
proof -
  obtain s where "CBB_init libc 0 = (Some (), s)" using CBB_init_total [of libc 0] by auto
  then show ?thesis by (simp add: empty_cbb_def)
qed

lemma empty_cbb_ok [simp]: "wf_cbb empty_cbb" "abs_cbb empty_cbb = ([], [])" "roomy empty_cbb"
  using CBB_init_ok [OF empty_cbb_init] CBB_init_total [of libc 0] empty_cbb_init by (simp_all add: size_mod_def)

section \<open>Properties of the parser\<close>

lemma any_asn1_sound:
  assumes get: "CBS_get_any_asn1 c = (Some (out, tag), c')" and wf: "wf_cbs c"
  shows "\<exists>body rest. cbs_view c = der_elem tag body @ rest \<and> length body < 2 ^ 32 \<and>
       out = body_window c tag body \<and> c' = cbs_after (length (der_elem tag body)) c"
proof -
  obtain e t where "CBS_get_any_asn1_element c = (Some e, t)"
    using get unfolding CBS_get_any_asn1_def by (rule act_bind_SomeE)
  then obtain tag' body rest where view: "cbs_view c = der_elem tag' body @ rest" and n: "length body < 2 ^ 32"
    using wf by (rule CBS_get_any_asn1_element_sound)
  then show ?thesis using get CBS_get_any_asn1_der [OF wf view n] by auto
qed

lemma int_elem_def:
  "length body < 128 \<Longrightarrow> der_elem CBS_ASN1_INTEGER body = 0x02 # of_nat (length body) # body"
  by (simp add: der_elem_def der_header_def der_length_def der_tag_def tag_number_def tag_class_def CBS_ASN1_INTEGER_def)

text \<open>C1. On a well-formed window the tag parser accepts exactly the identifier octets of DER
  in their shortest form, and returns the tag they encode and the window behind them.\<close>
theorem parse_asn1_tag_exact:
  assumes "wf_cbs c"
  shows "parse_asn1_tag c = (Some tag, c') \<longleftrightarrow>
    (\<exists>rest. cbs_view c = der_tag tag @ rest) \<and> c' = cbs_after (length (der_tag tag)) c"
  using parse_asn1_tag_sound [of c tag c'] parse_asn1_tag_complete [OF assms, of tag] assms by auto

theorem parse_asn1_tag_exact_witness:
  "parse_asn1_tag (cbs_of [0x1f, 0x81, 0x00, 0x05]) = (Some 0x80, cbs_of [0x05])"
proof -
  let ?c = "cbs_of [0x1f, 0x81, 0x00, 0x05]"
  have tag: "der_tag 0x80 = [0x1f, 0x81, 0x00]"
    by (simp add: der_tag_def tag_number_def tag_class_def base128_def b128_prefix_pos)
  then have "\<exists>rest. cbs_view ?c = der_tag 0x80 @ rest" and "cbs_of [0x05] = cbs_after (length (der_tag 0x80)) ?c"
    by (simp_all add: cbs_of_def CBS_init_def cbs_view_def cbs_after_def)
  moreover have "wf_cbs ?c" by simp
  ultimately show ?thesis using parse_asn1_tag_exact [of ?c "0x80" "cbs_of [0x05]"] by blast
qed


text \<open>C2. The reader of one element of any tag accepts exactly a DER element with a body below
  \<open>2 ^ 32\<close> bytes, and returns its tag, the window of its contents and the window behind it.\<close>
theorem CBS_get_any_asn1_exact:
  assumes "wf_cbs c"
  shows "CBS_get_any_asn1 c = (Some (out, tag), c') \<longleftrightarrow>
    (\<exists>body rest. cbs_view c = der_elem tag body @ rest \<and> length body < 2 ^ 32 \<and>
       out = body_window c tag body \<and> c' = cbs_after (length (der_elem tag body)) c)"
    (is "?get \<longleftrightarrow> ?der")
proof
  assume ?get
  then show ?der using assms by (rule any_asn1_sound)
qed (auto simp: CBS_get_any_asn1_der [OF assms])

theorem CBS_get_any_asn1_exact_witness:
  "CBS_get_any_asn1 (cbs_of [0x04, 0x02, 0xaa, 0xbb, 0x05]) =
     (Some (CBS_init [0xaa, 0xbb, 0x05] 2, 4), cbs_of [0x05])"
proof -
  let ?c = "cbs_of [0x04, 0x02, 0xaa, 0xbb, 0x05]" and ?body = "[0xaa, 0xbb] :: byte list"
  have elem: "der_header 4 (length ?body) = [0x04, 0x02]"
    by (simp add: der_header_def der_length_def der_tag_def tag_number_def tag_class_def)
  have "\<exists>body rest. cbs_view ?c = der_elem 4 body @ rest \<and> length body < 2 ^ 32 \<and>
       CBS_init [0xaa, 0xbb, 0x05] 2 = body_window ?c 4 body \<and> cbs_of [0x05] = cbs_after (length (der_elem 4 body)) ?c"
    by (rule exI [of _ ?body], rule exI [of _ "[0x05]"])
       (use elem in \<open>simp add: der_elem_def body_window_def cbs_of_def CBS_init_def cbs_view_def cbs_after_def\<close>)
  then show ?thesis by (subst CBS_get_any_asn1_exact) simp_all
qed

text \<open>C3. DER is canonical: two windows from which the reader returns the same tag and the same
  contents started with the same bytes.\<close>
theorem CBS_get_any_asn1_canonical:
  assumes "wf_cbs c" and "wf_cbs d"
    and "CBS_get_any_asn1 c = (Some (out, tag), c')" and "CBS_get_any_asn1 d = (Some (out', tag), d')"
    and "cbs_view out = cbs_view out'"
  shows "\<exists>elem. cbs_view c = elem @ cbs_view c' \<and> cbs_view d = elem @ cbs_view d'"
proof -
  obtain body rest where b: "cbs_view c = der_elem tag body @ rest" "out = body_window c tag body"
      "c' = cbs_after (length (der_elem tag body)) c"
    using any_asn1_sound [OF assms(3,1)] by blast
  obtain body' rest' where b': "cbs_view d = der_elem tag body' @ rest'" "out' = body_window d tag body'"
      "d' = cbs_after (length (der_elem tag body')) d"
    using any_asn1_sound [OF assms(4,2)] by blast
  have "body = body'"
    using assms(5) body_window_view [OF assms(1) b(1)] body_window_view [OF assms(2) b'(1)] b(2) b'(2) by simp
  then show ?thesis using b(1,3) b'(1,3) by (intro exI [of _ "der_elem tag body"]) simp
qed

theorem CBS_get_any_asn1_canonical_witness:
  "\<exists>elem. cbs_view (cbs_of [0x05, 0x00, 0x07]) = elem @ cbs_view (cbs_of [0x07]) \<and>
          cbs_view (cbs_of [0x05, 0x00]) = elem @ cbs_view (cbs_of [])"
proof -
  have elem: "der_elem 5 [] = [0x05, 0x00]"
    by (simp add: der_elem_def der_header_def der_length_def der_tag_def tag_number_def tag_class_def)
  have c: "wf_cbs (cbs_of [0x05, 0x00, 0x07])" "cbs_view (cbs_of [0x05, 0x00, 0x07]) = der_elem 5 [] @ [0x07]"
    and d: "wf_cbs (cbs_of [0x05, 0x00])" "cbs_view (cbs_of [0x05, 0x00]) = der_elem 5 [] @ []"
    using elem by simp_all
  have views: "cbs_view (body_window (cbs_of [0x05, 0x00, 0x07]) 5 []) = cbs_view (body_window (cbs_of [0x05, 0x00]) 5 [])"
    by (simp add: body_window_view [OF c] body_window_view [OF d])
  have get: "CBS_get_any_asn1 (cbs_of [0x05, 0x00, 0x07]) = (Some (body_window (cbs_of [0x05, 0x00, 0x07]) 5 [], 5), cbs_of [0x07])"
    "CBS_get_any_asn1 (cbs_of [0x05, 0x00]) = (Some (body_window (cbs_of [0x05, 0x00]) 5 [], 5), cbs_of [])"
    using CBS_get_any_asn1_der [OF c] CBS_get_any_asn1_der [OF d] elem
    by (simp_all add: cbs_of_def CBS_init_def cbs_after_def)
  show ?thesis by (rule CBS_get_any_asn1_canonical [OF c(1) d(1) get views])
qed

text \<open>C4. An INTEGER is read as an unsigned 64-bit number exactly when its contents are a
  minimal two's complement encoding of that number; every other input is refused.\<close>
theorem CBS_get_asn1_uint64_exact:
  assumes "wf_cbs c"
  shows "CBS_get_asn1_uint64 c = (Some v, c') \<longleftrightarrow>
    (\<exists>body rest. cbs_view c = der_elem CBS_ASN1_INTEGER body @ rest \<and> length body < 2 ^ 32 \<and>
       minimal_int body \<and> int_val body = int (unat v) \<and>
       c' = cbs_after (length (der_elem CBS_ASN1_INTEGER body)) c)"
  using assms by (rule CBS_get_asn1_uint64_iff)

theorem CBS_get_asn1_uint64_exact_witness:
  "CBS_get_asn1_uint64 (cbs_of [0x02, 0x02, 0x00, 0x80]) = (Some 0x80, cbs_of [])"
  by (subst CBS_get_asn1_uint64_exact, simp, rule exI [of _ "[0x00, 0x80]"], rule exI [of _ "[]"])
     (simp add: int_elem_def minimal_int_def int_val_def cbs_of_def CBS_init_def cbs_view_def cbs_after_def)

text \<open>C5. An INTEGER is read as a signed 64-bit number exactly when its contents are a minimal
  two's complement encoding of that number.\<close>
theorem CBS_get_asn1_int64_exact:
  assumes "wf_cbs c"
  shows "CBS_get_asn1_int64 c = (Some v, c') \<longleftrightarrow>
    (\<exists>body rest. cbs_view c = der_elem CBS_ASN1_INTEGER body @ rest \<and> length body < 2 ^ 32 \<and>
       minimal_int body \<and> int_val body = sint v \<and>
       c' = cbs_after (length (der_elem CBS_ASN1_INTEGER body)) c)"
  using assms by (rule CBS_get_asn1_int64_iff)

theorem CBS_get_asn1_int64_exact_witness:
  "CBS_get_asn1_int64 (cbs_of [0x02, 0x02, 0xff, 0x7f]) = (Some (- 129), cbs_of [])"
  by (subst CBS_get_asn1_int64_exact, simp, rule exI [of _ "[0xff, 0x7f]"], rule exI [of _ "[]"])
     (simp add: int_elem_def minimal_int_def int_val_def cbs_of_def CBS_init_def cbs_view_def cbs_after_def)

text \<open>A BOOLEAN is read exactly when its contents are the single byte that DER prescribes.\<close>

lemma CBS_get_asn1_bool_exact:
  assumes "wf_cbs c"
  shows "CBS_get_asn1_bool c = (Some v, c') \<longleftrightarrow>
    (\<exists>rest. cbs_view c = der_elem CBS_ASN1_BOOLEAN [if v then 0xff else 0] @ rest \<and>
       c' = cbs_after (length (der_elem CBS_ASN1_BOOLEAN [if v then 0xff else 0])) c)"
  using assms by (rule CBS_get_asn1_bool_iff)

text \<open>An optional element is reported absent, and nothing consumed, exactly when the window does
  not start with its tag; reported present, it was a whole DER element of that tag.\<close>
lemma CBS_get_optional_asn1_exact:
  assumes "wf_cbs c" and "CBS_get_optional_asn1 tag c = (Some r, c')"
  shows "case r of
      None \<Rightarrow> c' = c \<and> (\<nexists>rest. cbs_view c = der_tag tag @ rest)
    | Some out \<Rightarrow> \<exists>body. cbs_view c = der_elem tag body @ cbs_view c' \<and> cbs_view out = body"
  using assms by (rule CBS_get_optional_asn1_cases)

text \<open>C6. The loop that reads elements until the window is empty always returns; it succeeds exactly
  when the window is a sequence of DER elements, and then returns those elements in order.\<close>
theorem element_loop_splits:
  assumes "wf_cbs c"
  shows "(\<exists>es c'. cbs_while CBS_get_any_asn1_element c = (Some es, c') \<and> map element_view es = xs) \<longleftrightarrow>
    cbs_view c = concat xs \<and> (\<forall>x \<in> set xs. is_der_elem x)"
  using elements_split [OF assms] elements_complete [OF assms, of xs] by fastforce

theorem element_loop_splits_witness:
  "\<exists>es c'. cbs_while CBS_get_any_asn1_element (cbs_of [0x05, 0x00, 0x01, 0x01, 0xff]) = (Some es, c') \<and>
     map element_view es = [[0x05, 0x00], [0x01, 0x01, 0xff]]"
proof -
  have "[0x05, 0x00] = der_elem 5 []" "[0x01, 0x01, 0xff] = der_elem 1 [0xff]"
    by (simp_all add: der_elem_def der_header_def der_length_def der_tag_def tag_number_def tag_class_def)
  then have "is_der_elem [0x05, 0x00]" "is_der_elem [0x01, 0x01, 0xff]"
    unfolding is_der_elem_def by (force, force)
  then show ?thesis by (subst element_loop_splits) simp_all
qed

section \<open>Properties of the builder\<close>

lemma length_pair: "length [x, y] = 2"
  by simp

definition two_bytes :: cbb where
  "two_bytes = snd (CBB_add_bytes libc 0 [1, 2] 2 empty_cbb)"

lemma two_bytes_add: "CBB_add_bytes libc 0 [1, 2] 2 empty_cbb = (Some (), two_bytes)"
proof -
  have "\<exists>r s'. CBB_add_bytes libc 0 [1, 2] (length [1 :: byte, 2]) empty_cbb = (Some r, s') \<and> wf_cbb s' \<and> roomy s' \<and>
     abs_cbb s' = ([1, 2], [])"
    by (rule builder_op.op_total [OF builder_op_add_bytes]) (simp_all add: spec_write_def)
  then show ?thesis unfolding length_pair by (auto simp: two_bytes_def)
qed

text \<open>C7. Closing children is the abstract operation: a flush that succeeds keeps the invariant of the
  builder and puts every closed child, behind its length, into its parent; one that fails on an open
  builder marks it as failed.\<close>
theorem CBB_flush_refines_spec:
  assumes "malloc_bounded env" and "wf_cbb s"
  shows "case CBB_flush env d s of
      (Some _, s') \<Rightarrow> wf_cbb s' \<and> length (cbb_kids s') = d \<and> spec_flush d (abs_cbb s) = Some (abs_cbb s')
    | (None, s') \<Rightarrow> d \<le> length (cbb_kids s) \<longrightarrow> failed s'"
proof -
  obtain r s' where fl: "CBB_flush env d s = (r, s')" by fastforce
  show ?thesis
    using flush_op.op_ok [OF assms] CBB_flush_refines(2,3) [OF assms(2,1)] fl by (cases r) auto
qed

theorem CBB_flush_refines_spec_witness:
  "case CBB_flush libc 0 empty_cbb of
      (Some _, s') \<Rightarrow> wf_cbb s' \<and> length (cbb_kids s') = 0 \<and> spec_flush 0 ([], []) = Some (abs_cbb s')
    | (None, s') \<Rightarrow> 0 \<le> length (cbb_kids empty_cbb) \<longrightarrow> failed s'"
  using CBB_flush_refines_spec [of libc empty_cbb 0] by (simp only: libc_ok empty_cbb_ok simp_thms)

text \<open>Adding bytes at any depth appends exactly those bytes, after closing the children below it.\<close>

lemma CBB_add_bytes_appends:
  assumes "malloc_bounded env" and "wf_cbb s" and "length w < 2 ^ 63"
    and "CBB_add_bytes env d w (length w) s = (Some u, s')"
  shows "wf_cbb s' \<and> spec_write d w (abs_cbb s) = Some (abs_cbb s')"
  using builder_op.op_ok [OF builder_op_add_bytes [OF assms(3)] assms(1,2,4)] .

text \<open>C8. With plenty of memory no write is refused: adding bytes to an open builder whose result stays
  below \<open>2 ^ 38\<close> bytes succeeds.\<close>
theorem CBB_add_bytes_total:
  assumes "malloc_bounded env" and "plenty env" and "wf_cbb s" and "roomy s" and "length w < 2 ^ 63"
    and "spec_write d w (abs_cbb s) = Some st" and "spec_size st < 2 ^ 38"
  shows "\<exists>s'. CBB_add_bytes env d w (length w) s = (Some (), s') \<and> abs_cbb s' = st"
  using builder_op.op_total [OF builder_op_add_bytes [OF assms(5)] assms(1-4,6,7)] by auto

theorem CBB_add_bytes_total_witness:
  "\<exists>s'. CBB_add_bytes libc 0 [7] (length [7 :: byte]) empty_cbb = (Some (), s') \<and> abs_cbb s' = ([7], [])"
  using CBB_add_bytes_total [of libc empty_cbb "[7]" 0 "([7], [])"] by (simp add: spec_write_def)

text \<open>Opening an ASN.1 element writes its identifier octets and starts an empty child.\<close>

lemma CBB_add_asn1_opens:
  assumes "malloc_bounded env" and "wf_cbb s" and "CBB_add_asn1 env d tag s = (Some u, s')"
  shows "wf_cbb s' \<and>
    Option.bind (spec_write d (der_tag tag) (abs_cbb s)) (\<lambda>(c, fs). Some (c, fs @ [(DerLength, [])])) = Some (abs_cbb s')"
  using add_asn1.op_ok [OF assms] by (simp add: spec_asn1_def)



section \<open>Round trips\<close>

text \<open>The builder after the object identifier \<open>2.5.4\<close>.\<close>

definition oid_start :: cbb where
  "oid_start = \<lparr>cbb_base = Some \<lparr>bb_buf = [0, 0, 0], bb_len = 0, bb_cap = 3, bb_can_resize = False,
     bb_error = False\<rparr>, cbb_kids = []\<rparr>"

definition oid_cbb :: cbb where
  "oid_cbb = snd (CBB_add_asn1_oid_from_text libc 0 [0x32, 0x2e, 0x35, 0x2e, 0x34] 5 oid_start)"

lemma oid_start_ok [simp]: "wf_cbb oid_start" "abs_cbb oid_start = ([], [])"
  by (simp_all add: oid_start_def wf_cbb_def wf_buffer_def abs_cbb_def bb_data_def)

lemma oid_cbb_add: "CBB_add_asn1_oid_from_text libc 0 [0x32, 0x2e, 0x35, 0x2e, 0x34] 5 oid_start = (Some (), oid_cbb)"
proof -
  have "fst (CBB_add_asn1_oid_from_text libc 0 [0x32, 0x2e, 0x35, 0x2e, 0x34] 5 oid_start) = Some ()" by code_simp
  then show ?thesis by (simp add: oid_cbb_def prod_eq_iff)
qed

text \<open>A builder holding two elements in descending order, and what the sort makes of it.\<close>

definition set_builder :: cbb where
  "set_builder = \<lparr>cbb_base = Some \<lparr>bb_buf = [2, 1, 9, 1, 1, 0], bb_len = 6, bb_cap = 6, bb_can_resize = False,
     bb_error = False\<rparr>, cbb_kids = []\<rparr>"

definition sorted_builder :: cbb where
  "sorted_builder = snd (CBB_flush_asn1_set_of libc 0 set_builder)"

lemma set_builder_ok:
  "wf_cbb set_builder" "CBB_flush_asn1_set_of libc 0 set_builder = (Some (), sorted_builder)"
proof -
  show "wf_cbb set_builder" by (simp add: set_builder_def wf_cbb_def wf_buffer_def)
  have "fst (CBB_flush_asn1_set_of libc 0 set_builder) = Some ()" by code_simp
  then show "CBB_flush_asn1_set_of libc 0 set_builder = (Some (), sorted_builder)"
    by (simp add: sorted_builder_def prod_eq_iff)
qed

lemma length_uint64_elem: "length (uint64_elem v) \<le> 20"
proof -
  have "length (uint_body (be_bytes 8 (unat v))) \<le> 9" using length_uint_body [of "be_bytes 8 (unat v)"] by simp
  then show ?thesis
    using length_der_header [of CBS_ASN1_INTEGER "length (uint_body (be_bytes 8 (unat v)))"]
    unfolding uint64_elem_def length_der_elem by linarith
qed

lemma length_int64_elem: "length (int64_elem v) \<le> 20"
  using int64_body_props(4) [of v] length_der_header [of CBS_ASN1_INTEGER "length (int64_body v)"]
  unfolding int64_elem_def length_der_elem by linarith

text \<open>C10. A builder that writes an unsigned 64-bit INTEGER and finishes yields an encoding from which
  the reader gets the same number and leaves nothing over.\<close>
theorem asn1_uint64_roundtrip:
  assumes "malloc_bounded env" and "cap < 2 ^ 63" and "build1 env cap (CBB_add_asn1_uint64 env 0 v) = Some bs"
  shows "\<exists>c'. CBS_get_asn1_uint64 (cbs_of bs) = (Some v, c') \<and> cbs_len c' = 0"
proof -
  have bs: "bs = uint64_elem v" using build1_ok [OF add_uint64.builder_op_axioms assms] .
  have "length bs < 2 ^ 63" using length_uint64_elem [of v] bs by simp
  then show ?thesis using uint64_elem_read [of "cbs_of bs" v "[]"] bs by simp
qed

theorem asn1_uint64_roundtrip_witness:
  "\<exists>bs c'. build1 libc 0 (CBB_add_asn1_uint64 libc 0 300) = Some bs \<and>
     CBS_get_asn1_uint64 (cbs_of bs) = (Some 300, c') \<and> cbs_len c' = 0"
proof -
  have "build1 libc 0 (CBB_add_asn1_uint64 libc 0 300) = Some (uint64_elem 300)"
    by (rule build1_total [OF add_uint64.builder_op_axioms])
       (use length_uint64_elem [of 300] in \<open>simp_all add: order.strict_trans1\<close>)
  then show ?thesis using asn1_uint64_roundtrip [of libc 0 300] by auto
qed

text \<open>C11. The same for signed 64-bit INTEGERs, negative ones included.\<close>
theorem asn1_int64_roundtrip:
  assumes "malloc_bounded env" and "cap < 2 ^ 63" and "build1 env cap (CBB_add_asn1_int64 env 0 v) = Some bs"
  shows "\<exists>c'. CBS_get_asn1_int64 (cbs_of bs) = (Some v, c') \<and> cbs_len c' = 0"
proof -
  have bs: "bs = int64_elem v" using build1_ok [OF add_int64.builder_op_axioms assms] .
  have "length bs < 2 ^ 63" using length_int64_elem [of v] bs by simp
  then show ?thesis using int64_elem_read [of "cbs_of bs" v "[]"] bs by simp
qed

theorem asn1_int64_roundtrip_witness:
  "\<exists>bs c'. build1 libc 0 (CBB_add_asn1_int64 libc 0 (- 129)) = Some bs \<and>
     CBS_get_asn1_int64 (cbs_of bs) = (Some (- 129), c') \<and> cbs_len c' = 0"
proof -
  have "build1 libc 0 (CBB_add_asn1_int64 libc 0 (- 129)) = Some (int64_elem (- 129))"
    by (rule build1_total [OF add_int64.builder_op_axioms])
       (use length_int64_elem [of "- 129"] in \<open>simp_all add: order.strict_trans1\<close>)
  then show ?thesis using asn1_int64_roundtrip [of libc 0 "- 129"] by auto
qed

text \<open>An OCTET STRING written by a builder is read back as the same bytes.\<close>
lemma asn1_octet_string_roundtrip:
  assumes "malloc_bounded env" and "cap < 2 ^ 63" and "w \<noteq> []" and "length w < 2 ^ 32 - 1"
    and "build1 env cap (CBB_add_asn1_octet_string env 0 w (length w)) = Some bs"
  shows "\<exists>out c'. CBS_get_asn1 CBS_ASN1_OCTETSTRING (cbs_of bs) = (Some out, c') \<and> cbs_view out = w \<and> cbs_len c' = 0"
proof -
  have bs: "bs = der_elem CBS_ASN1_OCTETSTRING w"
    using build1_ok [OF builder_op_octet_string [OF assms(4,3)] assms(1,2,5)] .
  have "length bs < 2 ^ 63"
    using assms(4) length_der_header [of CBS_ASN1_OCTETSTRING "length w"] by (simp add: bs length_der_elem)
  then have "wf_cbs (cbs_of bs)" "cbs_view (cbs_of bs) = der_elem CBS_ASN1_OCTETSTRING w @ []" using bs by simp_all
  then show ?thesis
    using CBS_get_asn1_der [of "cbs_of bs" CBS_ASN1_OCTETSTRING w "[]" CBS_ASN1_OCTETSTRING] assms(4)
      body_window_view [of "cbs_of bs" CBS_ASN1_OCTETSTRING w "[]"] bs by auto
qed

text \<open>C12. An object identifier in dotted form that the builder accepts is printed again by
  \<open>CBS_asn1_oid_to_text\<close>, with its terminating zero, as the same text.\<close>
theorem oid_text_roundtrip:
  assumes "malloc_bounded env" and "wf_cbb s" and "n \<le> length txt" and "length txt < 2 ^ 63"
    and "CBB_add_asn1_oid_from_text env d txt n s = (Some u, s')"
    and "malloc_bounded env'" and "plenty env'" and "n < 2 ^ 37"
  shows "\<exists>w. spec_write d w (abs_cbb s) = Some (abs_cbb s') \<and>
    (\<forall>c. wf_cbs c \<and> cbs_view c = w \<longrightarrow> CBS_asn1_oid_to_text env' c = Some (take n txt @ [0]))"
proof -
  obtain a b cs where tx: "take n txt = dotted (a # b # cs)" and ab: "a \<le> 2" "a < 2 \<longrightarrow> b \<le> 39" "40 * a + b < 2 ^ 64"
    and cs: "\<forall>x \<in> set cs. x < 2 ^ 64" and spec: "spec_write d (oid_body ((40 * a + b) # cs)) (abs_cbb s) = Some (abs_cbb s')"
    using oid_from_text_sound [OF assms(5,3,4,1,2)] by blast
  have "CBS_asn1_oid_to_text env' c = Some (take n txt @ [0])"
    if "wf_cbs c" and "cbs_view c = oid_body ((40 * a + b) # cs)" for c
    unfolding CBS_asn1_oid_to_text_build tx
    by (rule build1_total [OF builder_op_oid_text [OF that cs ab(3,1,2)] assms(6,7)])
       (use assms(8) arg_cong [OF tx, of length] in simp_all)
  then show ?thesis using spec by blast
qed

theorem oid_text_roundtrip_witness:
  "\<exists>w. spec_write 0 w ([], []) = Some (abs_cbb oid_cbb) \<and>
    (\<forall>c. wf_cbs c \<and> cbs_view c = w \<longrightarrow> CBS_asn1_oid_to_text libc c = Some ([0x32, 0x2e, 0x35, 0x2e, 0x34] @ [0]))"
  using oid_text_roundtrip [OF _ _ _ _ oid_cbb_add, of libc] by simp

text \<open>C13. Flushing a SET OF sorts: when it succeeds, the contents of the open builder were a sequence of DER elements,
  and are now exactly these elements in ascending lexicographic order; nothing else changes. (\<open>st\<close> is the builder with
  the contents of its innermost open part taken away.)\<close>
theorem CBB_flush_asn1_set_of_sorts:
  assumes "malloc_bounded env" and "wf_cbb s" and "CBB_flush_asn1_set_of env d s = (Some u, s')"
  shows "\<exists>st xs. spec_flush d (abs_cbb s) = Some (spec_append (concat xs) st) \<and> (\<forall>x \<in> set xs. is_der_elem x) \<and>
    inner_contents st = [] \<and> wf_cbb s' \<and> abs_cbb s' = spec_append (concat (sort xs)) st"
  using assms by (rule set_of_sorts)

theorem CBB_flush_asn1_set_of_sorts_witness:
  "\<exists>st xs. spec_flush 0 (abs_cbb set_builder) = Some (spec_append (concat xs) st) \<and> (\<forall>x \<in> set xs. is_der_elem x) \<and>
    inner_contents st = [] \<and> wf_cbb sorted_builder \<and> abs_cbb sorted_builder = spec_append (concat (sort xs)) st"
  using CBB_flush_asn1_set_of_sorts [OF _ set_builder_ok(1,2)] by simp

text \<open>C14. The UTF-8 reader only returns valid code points, and consumes exactly the bytes of the
  shortest UTF-8 encoding of what it returns.\<close>
theorem cbs_get_utf8_shortest:
  assumes "wf_cbs c" and "cbs_get_utf8 c = (Some u, c')"
  shows "is_valid_code_point u \<and> cbs_view c = utf8 (unat u) @ cbs_view c'"
  using cbs_get_utf8_sound [OF assms(2,1)] by blast

theorem cbs_get_utf8_shortest_witness:
  "is_valid_code_point 0xe9 \<and> cbs_view (cbs_of [0xc3, 0xa9, 0x21]) = utf8 0xe9 @ [0x21]"
proof -
  have "cbs_get_utf8 (cbs_of [0xc3, 0xa9, 0x21]) = (Some 0xe9, cbs_of [0x21])" by code_simp
  from cbs_get_utf8_shortest [OF _ this] show ?thesis by simp
qed

section \<open>BER\<close>

text \<open>C15. What the BER converter returns is the DER form of its whole input, read as a sequence of BER
  trees, or, when it found nothing to convert, the first element unchanged. Conversely, with enough memory every
  sequence of BER trees in which the walk finds BER, with definite lengths below \<open>2 ^ 32\<close>, nested at most \<open>kMaxDepth\<close>
  (2048) levels deep, below \<open>2 ^ 39\<close> bytes and with a DER form below \<open>2 ^ 32 - 1\<close> bytes, is converted.\<close>
theorem ber_to_der_exact:
  assumes "malloc_bounded env" and "wf_cbs inp"
  shows "(case CBS_asn1_ber_to_der env inp of
      (None, _) \<Rightarrow> True
    | (Some (out, None), inp') \<Rightarrow> is_der_elem (cbs_view out) \<and> cbs_view inp = cbs_view out @ cbs_view inp'
    | (Some (out, Some _), inp') \<Rightarrow> \<exists>ts. list_all (ber_ok 0) ts \<and> cbs_view inp = concat (map ber_enc ts) \<and> cbs_view inp' = [] \<and>
        cbs_view out = concat (map (ber_der 0) ts)) \<and>
    (\<forall>ts. plenty env \<and> list_all (ber_ok 0) ts \<and> (\<forall>t \<in> set ts. ber_depth t \<le> kMaxDepth) \<and>
        cbs_view inp = concat (map ber_enc ts) \<and> cbs_len inp < 2 ^ 39 \<and> length (concat (map (ber_der 0) ts)) < 2 ^ 32 - 1 \<and>
        cbs_find_ber (Suc kMaxDepth) inp = Some True \<longrightarrow>
      (\<exists>out storage inp'. CBS_asn1_ber_to_der env inp = (Some (out, Some storage), inp') \<and>
        cbs_view out = concat (map (ber_der 0) ts)))"
proof (intro conjI allI impI; (elim conjE)?)
  show "case CBS_asn1_ber_to_der env inp of
      (None, _) \<Rightarrow> True
    | (Some (out, None), inp') \<Rightarrow> is_der_elem (cbs_view out) \<and> cbs_view inp = cbs_view out @ cbs_view inp'
    | (Some (out, Some _), inp') \<Rightarrow> \<exists>ts. list_all (ber_ok 0) ts \<and> cbs_view inp = concat (map ber_enc ts) \<and> cbs_view inp' = [] \<and>
        cbs_view out = concat (map (ber_der 0) ts)"
    using CBS_asn1_ber_to_der_sound [OF assms] by (auto split: prod.splits option.splits)
qed (rule ber_to_der_complete [OF assms(1) _ assms(2)]; assumption)

definition ber_octets :: "byte list" where
  "ber_octets = [0x24, 0x80, 0x04, 0x01, 0x07, 0x00, 0x00]"

lemma ber_octets_tree:
  "list_all (ber_ok 0) [BInd 0x20000004 [BPrim 4 [7]]]" "concat (map ber_enc [BInd 0x20000004 [BPrim 4 [7]]]) = ber_octets"
  "concat (map (ber_der 0) [BInd 0x20000004 [BPrim 4 [7]]]) = [0x04, 0x01, 0x07]"
  by (simp_all add: ber_octets_def string_of_def wrap_def is_string_type_def CBS_ASN1_CONSTRUCTED_def CBS_ASN1_TAG_SHIFT_def
      CBS_ASN1_BITSTRING_def CBS_ASN1_OCTETSTRING_def der_elem_def der_header_def der_length_def der_tag_def tag_number_def tag_class_def)

lemma ber_octets_found: "cbs_find_ber (Suc kMaxDepth) (cbs_of ber_octets) = Some True"
proof -
  have el: "CBS_get_any_ber_asn1_element (cbs_of ber_octets) = (Some (CBS_init ber_octets 2, 0x20000004, 2), cbs_of (drop 2 ber_octets))"
    "is_indefinite (CBS_init ber_octets 2) 2" "CBS_len (cbs_of ber_octets) = Suc 6"
    by code_simp+
  then show ?thesis unfolding cbs_find_ber.simps by (subst find_ber_loop.simps) simp
qed

theorem ber_to_der_exact_witness:
  "\<exists>out storage inp'. CBS_asn1_ber_to_der libc (cbs_of ber_octets) = (Some (out, Some storage), inp') \<and>
    cbs_view out = [0x04, 0x01, 0x07] \<and> cbs_view inp' = []"
proof -
  have inp: "wf_cbs (cbs_of ber_octets)" "cbs_view (cbs_of ber_octets) = ber_octets" "cbs_len (cbs_of ber_octets) < 2 ^ 39"
    by (simp_all add: ber_octets_def)
  have depth: "\<forall>t \<in> set [BInd 0x20000004 [BPrim 4 [7]]]. ber_depth t \<le> kMaxDepth" by (simp add: kMaxDepth_def)
  note exact = ber_to_der_exact [OF libc_ok(1) inp(1)]
  obtain out storage inp' where "CBS_asn1_ber_to_der libc (cbs_of ber_octets) = (Some (out, Some storage), inp')"
      "cbs_view out = [0x04, 0x01, 0x07]"
    using conjunct2 [OF exact, rule_format, of "[BInd 0x20000004 [BPrim 4 [7]]]"] ber_octets_tree ber_octets_found inp depth by auto
  then show ?thesis using conjunct1 [OF exact] by auto
qed

text \<open>C16. Input that is DER already, with contents below \<open>2 ^ 32\<close> bytes and nested at most \<open>kMaxDepth\<close> (2048) levels deep,
  is never converted: the first element is returned as it is.\<close>
theorem ber_to_der_keeps_der:
  assumes "wf_cbs c" and "cbs_view c = concat (map ber_enc (t # ts))" and "list_all der_tree (t # ts)"
    and "\<forall>t \<in> set (t # ts). ber_depth t \<le> kMaxDepth"
  shows "\<exists>out c'. CBS_asn1_ber_to_der env c = (Some (out, None), c') \<and> cbs_view out = ber_enc t \<and>
    cbs_view c' = concat (map ber_enc ts)"
  using assms by (rule CBS_asn1_ber_to_der_der)

theorem ber_to_der_keeps_der_witness:
  "\<exists>out c'. CBS_asn1_ber_to_der libc (cbs_of [0x05, 0x00]) = (Some (out, None), c') \<and> cbs_view out = [0x05, 0x00] \<and>
    cbs_view c' = []"
proof -
  have elem: "ber_enc (BPrim 5 []) = [0x05, 0x00]"
    by (simp add: der_elem_def der_header_def der_length_def der_tag_def tag_number_def tag_class_def)
  have tree: "der_tree (BPrim 5 [])" by (simp add: CBS_ASN1_CONSTRUCTED_def CBS_ASN1_TAG_SHIFT_def)
  show ?thesis
    using ber_to_der_keeps_der [of "cbs_of [0x05, 0x00]" "BPrim 5 []" "[]" libc] elem tree
    by (simp del: ber_enc.simps)
qed

text \<open>C17. The walk that looks for BER forgets what it found: here a SEQUENCE holds a SEQUENCE with an
  indefinite-length element, followed by an empty SEQUENCE. The indefinite length is seen and then
  overwritten by the walk through the last element, so the input is returned unconverted.\<close>
theorem find_ber_forgets:
  "cbs_find_ber (Suc kMaxDepth) (cbs_of [0x30, 0x08, 0x30, 0x04, 0x30, 0x80, 0x00, 0x00, 0x30, 0x00]) = Some False \<and>
   (\<exists>inner. cbs_find_ber kMaxDepth inner = Some True \<and> cbs_view inner = [0x30, 0x80, 0x00, 0x00])"
proof -
  let ?b = "[0x30, 0x04, 0x30, 0x80, 0x00, 0x00, 0x30, 0x00] :: byte list"
  let ?c = "[0x30, 0x80, 0x00, 0x00, 0x30, 0x00] :: byte list"
  have e1: "CBS_get_any_ber_asn1_element (cbs_of (0x30 # 0x08 # ?b)) = (Some (cbs_of (0x30 # 0x08 # ?b), 0x20000010, 2), cbs_of [])"
    by code_simp
  have e2: "CBS_get_any_ber_asn1_element (cbs_of ?b) = (Some (CBS_init ?b 6, 0x20000010, 2), cbs_of [0x30, 0x00])"
    by code_simp
  have e3: "CBS_get_any_ber_asn1_element (CBS_init ?c 4) = (Some (CBS_init ?c 2, 0x20000010, 2), CBS_init [0x00, 0x00, 0x30, 0x00] 2)"
    by code_simp
  have e4: "CBS_get_any_ber_asn1_element (cbs_of [0x30, 0x00]) = (Some (cbs_of [0x30, 0x00], 0x20000010, 2), cbs_of [])"
    by code_simp
  have skip: "CBS_skip 2 (cbs_of (0x30 # 0x08 # ?b)) = (Some (), cbs_of ?b)" "CBS_skip 2 (CBS_init ?b 6) = (Some (), CBS_init ?c 4)"
      "CBS_skip 2 (cbs_of [0x30, 0x00]) = (Some (), cbs_of [])"
    by code_simp+
  have tag: "0x20000010 AND CBS_ASN1_CONSTRUCTED \<noteq> 0" "\<not> is_string_type 0x20000010"
    by code_simp+
  have ind: "\<not> is_indefinite (cbs_of (0x30 # 0x08 # ?b)) 2" "\<not> is_indefinite (CBS_init ?b 6) 2" "is_indefinite (CBS_init ?c 2) 2"
      "\<not> is_indefinite (cbs_of [0x30, 0x00]) 2"
    by code_simp+
  have len: "CBS_len (cbs_of (0x30 # 0x08 # ?b)) = Suc 9" "CBS_len (cbs_of ?b) = Suc (Suc 6)" "CBS_len (CBS_init ?c 4) = Suc 3"
      "CBS_len (cbs_of [0x30, 0x00]) = Suc 1" "CBS_len (cbs_of []) = 0"
    by (simp_all add: cbs_of_def CBS_init_def CBS_len_def)
  have three: "cbs_find_ber (Suc n) (CBS_init ?c 4) = Some True" for n
    unfolding cbs_find_ber.simps by (subst find_ber_loop.simps) (simp add: len e3 ind)
  have nil: "cbs_find_ber (Suc n) (cbs_of []) = Some False" for n
    unfolding cbs_find_ber.simps by (subst find_ber_loop.simps) (simp add: len)
  have two: "cbs_find_ber (Suc (Suc n)) (cbs_of ?b) = Some False" for n
    unfolding cbs_find_ber.simps(2) [of "Suc n"] len
    by (subst find_ber_loop.simps, simp add: len e2 ind tag skip three del: cbs_find_ber.simps,
        subst find_ber_loop.simps, simp add: len e4 ind tag skip nil del: cbs_find_ber.simps,
        subst find_ber_loop.simps, simp add: len)
  have one: "cbs_find_ber (Suc (Suc (Suc n))) (cbs_of (0x30 # 0x08 # ?b)) = Some False" for n
    unfolding cbs_find_ber.simps(2) [of "Suc (Suc n)"] len
    by (subst find_ber_loop.simps, simp add: len e1 ind tag skip two del: cbs_find_ber.simps,
        subst find_ber_loop.simps, simp add: len)
  have "kMaxDepth = Suc (Suc 2046)" by (simp add: kMaxDepth_def)
  moreover have "cbs_view (CBS_init ?c 4) = [0x30, 0x80, 0x00, 0x00]" by (simp add: CBS_init_def cbs_view_def)
  ultimately show ?thesis using one [of 2046] three [of "Suc 2046"] by metis
qed

text \<open>C18. An implicitly tagged string is returned with the contents of its one primitive element, or of all
  the fragments of a constructed one, in order. Conversely, both forms are accepted: the primitive one always, the
  constructed one with enough memory when \<open>outer\<close> is not itself a constructed tag, whatever the fragments hold; the
  bounds are \<open>2 ^ 38\<close> bytes of input and \<open>2 ^ 32\<close> of contents.\<close>
theorem implicit_string_exact:
  assumes "malloc_bounded env" and "wf_cbs inp"
  shows "(case CBS_get_asn1_implicit_string env outer inner inp of
      (None, _) \<Rightarrow> True
    | (Some (out, None), inp') \<Rightarrow> cbs_view inp = der_elem outer (cbs_view out) @ cbs_view inp'
    | (Some (out, Some _), inp') \<Rightarrow>
        \<exists>bs. cbs_view inp = der_elem (outer OR CBS_ASN1_CONSTRUCTED) (concat (map (der_elem inner) bs)) @ cbs_view inp' \<and>
          cbs_view out = concat bs) \<and>
    (\<forall>body rest. cbs_view inp = der_elem outer body @ rest \<and> length body < 2 ^ 32 \<longrightarrow>
      (\<exists>out inp'. CBS_get_asn1_implicit_string env outer inner inp = (Some (out, None), inp') \<and>
        cbs_view out = body \<and> cbs_view inp' = rest)) \<and>
    (\<forall>bs rest. plenty env \<and> \<not> constructed outer \<and> cbs_len inp < 2 ^ 38 \<and> length (concat (map (der_elem inner) bs)) < 2 ^ 32 \<and>
        cbs_view inp = der_elem (outer OR CBS_ASN1_CONSTRUCTED) (concat (map (der_elem inner) bs)) @ rest \<longrightarrow>
      (\<exists>out storage inp'. CBS_get_asn1_implicit_string env outer inner inp = (Some (out, Some storage), inp') \<and>
        cbs_view out = concat bs \<and> cbs_view inp' = rest))"
proof (intro conjI allI impI; (elim conjE)?)
  show "case CBS_get_asn1_implicit_string env outer inner inp of
      (None, _) \<Rightarrow> True
    | (Some (out, None), inp') \<Rightarrow> cbs_view inp = der_elem outer (cbs_view out) @ cbs_view inp'
    | (Some (out, Some _), inp') \<Rightarrow>
        \<exists>bs. cbs_view inp = der_elem (outer OR CBS_ASN1_CONSTRUCTED) (concat (map (der_elem inner) bs)) @ cbs_view inp' \<and>
          cbs_view out = concat bs"
    using CBS_get_asn1_implicit_string_sound [OF assms] by (auto split: prod.splits option.splits)
qed ((rule implicit_string_primitive [OF assms(2)]; assumption), (rule implicit_string_complete [OF assms(1) _ assms(2)]; assumption))

theorem implicit_string_exact_witness:
  "\<exists>out storage inp'. CBS_get_asn1_implicit_string libc 0x80000000 4 (cbs_of [0xa0, 0x06, 0x04, 0x01, 0x07, 0x04, 0x01, 0x08]) =
      (Some (out, Some storage), inp') \<and> cbs_view out = [7, 8] \<and> cbs_view inp' = []"
proof -
  let ?inp = "cbs_of [0xa0, 0x06, 0x04, 0x01, 0x07, 0x04, 0x01, 0x08]"
  have view: "cbs_view ?inp = der_elem (0x80000000 OR CBS_ASN1_CONSTRUCTED) (concat (map (der_elem 4) [[7], [8]])) @ []"
    and con: "\<not> constructed 0x80000000" and small: "cbs_len ?inp < 2 ^ 38" "length (concat (map (der_elem 4) [[7], [8]])) < 2 ^ 32"
    by code_simp+
  have "wf_cbs ?inp" by simp
  from implicit_string_exact [OF libc_ok(1) this, of "0x80000000" 4] view con small show ?thesis
    by (elim conjE allE [of _ "[[7], [8]]"] allE [of _ "[]"]) simp
qed

section \<open>Stacks\<close>

text \<open>Pointers compared by their values, and a \<open>qsort\<close> for the witnesses.\<close>

definition by_value :: "ptr \<Rightarrow> ptr \<Rightarrow> ptr \<Rightarrow> int" where
  "by_value f a b = int (unat a) - int (unat b)"

lemma by_value_consistent [simp]: "consistent_cmp (by_value f)"
  by (auto simp: consistent_cmp_def by_value_def sgn_if)

lemma insert_cmp_ascending:
  assumes "consistent_cmp cmp" and "ascending cmp xs"
  shows "ascending cmp (insert_cmp cmp x xs) \<and> mset (insert_cmp cmp x xs) = add_mset x (mset xs)"
  using assms(2)
proof (induction xs)
  case (Cons y ys)
  have yx: "\<not> cmp x y \<le> 0 \<Longrightarrow> cmp y x \<le> 0"
    using consistent_cmpD(1) [OF assms(1), of y x] by linarith
  have "cmp x y \<le> 0 \<Longrightarrow> z \<in> set ys \<Longrightarrow> cmp x z \<le> 0" for z
    using consistent_cmpD(3) [OF assms(1), of x y z] Cons.prems by (simp add: ascending_def)
  then show ?case using Cons yx by (auto simp: ascending_def set_insert_cmp)
qed (simp add: ascending_def)

lemma insertion_is_qsort [simp]: "is_qsort qsort"
proof -
  have "mset (qsort cmp xs) = mset xs \<and> ascending cmp (qsort cmp xs)" if "consistent_cmp cmp" for cmp and xs :: "ptr list"
    using insert_cmp_ascending [OF that] by (induction xs) (auto simp: qsort_def ascending_def)
  then show ?thesis by (simp add: is_qsort_def)
qed

definition small_stack :: "bool \<Rightarrow> ptr list \<Rightarrow> stack" where
  "small_stack b xs = \<lparr>st_num = length xs, st_data = xs @ [0, 0, 0, 0], st_sorted = b,
     st_num_alloc = length xs + 4, st_comp = 1\<rparr>"

lemma small_stack_ok [simp]:
  "length xs < 100 \<Longrightarrow> wf_stack (small_stack b xs)" "contents (small_stack b xs) = xs" "st_comp (small_stack b xs) = 1"
  "st_sorted (small_stack b xs) = b" "st_num (small_stack b xs) = length xs"
  by (simp_all add: small_stack_def wf_stack_def contents_def)

text \<open>C19. Inserting either fails and changes nothing, or puts the pointer at its place, at the end if the place is
  beyond the end, and returns the new length; the invariant of the array is kept.\<close>
theorem sk_insert_inserts:
  assumes "malloc_bounded env" and "wf_stack s" and "sk_insert env p i (Some s) = (r, Some s')"
  shows "if r = 0 then s' = s
    else wf_stack s' \<and> contents s' = take i (contents s) @ p # drop i (contents s) \<and> r = length (contents s') \<and>
      st_comp s' = st_comp s"
  using assms by (rule sk_insert_cases)

theorem sk_insert_inserts_witness:
  "\<exists>s'. sk_insert libc 5 1 (Some (small_stack False [7, 8])) = (3, Some s') \<and> contents s' = [7, 5, 8]"
proof -
  let ?s' = "snd (sk_insert libc 5 1 (Some (small_stack False [7, 8])))"
  have run: "sk_insert libc 5 1 (Some (small_stack False [7, 8])) = (3, ?s')" and "?s' \<noteq> None"
    by (simp_all add: sk_insert_def or_null_def small_stack_def size_mod_def Let_def)
  then obtain s' where s': "?s' = Some s'" by auto
  with run have "sk_insert libc 5 1 (Some (small_stack False [7, 8])) = (3, Some s')" by simp
  from this sk_insert_inserts [OF _ _ this] show ?thesis by auto
qed

text \<open>A pop returns the pointer of the push before it and restores the contents.\<close>
lemma sk_push_pop:
  assumes "malloc_bounded env" and "wf_stack s" and "sk_push env p s = (r, Some s1)" and "r \<noteq> 0"
  shows "\<exists>s2. sk_pop (Some s1) = (p, Some s2) \<and> wf_stack s2 \<and> contents s2 = contents s"
proof -
  have s1: "wf_stack s1" "contents s1 = contents s @ [p]"
    using sk_insert_cases [OF assms(1,2) assms(3) [unfolded sk_push_def]] assms(2,4) by simp_all
  then obtain s2 where "sk_pop (Some s1) = (p, Some s2)" "wf_stack s2" "contents s2 = contents s"
    using pop.on_stack [OF s1(1)] by (auto simp: list_delete_def)
  then show ?thesis by blast
qed

text \<open>C20. After sorting a stack that has a comparison function and is not marked as sorted (with the mark set \<open>sk_sort\<close>
  does nothing), the binary search for a pointer other than \<open>NULL\<close> finds the first pointer that compares equal, and finds
  one whenever the stack held one. \<open>qsort\<close> and the comparison function are parameters.\<close>
theorem sk_sort_then_find:
  assumes "is_qsort qsort" and "wf_stack s" and "st_comp s \<noteq> 0" and "\<not> st_sorted s" and "consistent_cmp (call (st_comp s))"
    and "sk_sort qsort call (Some s) = (u, Some s')" and "p \<noteq> 0"
  shows "mset (contents s') = mset (contents s) \<and>
    (case sk_find call (Some s') p of
       None \<Rightarrow> \<forall>x \<in> set (contents s). call (st_comp s) p x \<noteq> 0
     | Some i \<Rightarrow> i < length (contents s') \<and> call (st_comp s) p (contents s' ! i) = 0 \<and>
         (\<forall>j < i. call (st_comp s) p (contents s' ! j) \<noteq> 0))"
proof -
  have s': "wf_stack s'" "st_comp s' = st_comp s" "mset (contents s') = mset (contents s)"
      "ascending (call (st_comp s)) (contents s')"
    using sk_sort_ok [OF assms(1-6)] by simp_all
  have find: "sk_find call (Some s') p = first_index (\<lambda>x. call (st_comp s) p x = 0) (contents s')"
    using sk_find_first [OF s'(1) _ assms(7), of call] s'(2,4) assms(3,5) by simp
  have "set (contents s') = set (contents s)" using s'(3) by (metis set_mset_mset)
  then show ?thesis
    unfolding find using s'(3) by (auto simp: first_index_None first_index_Some split: option.splits)
qed

theorem sk_sort_then_find_witness:
  "\<exists>s'. sk_sort qsort by_value (Some (small_stack False [9, 4])) = ((), Some s') \<and> mset (contents s') = {#4, 9#} \<and>
    sk_find by_value (Some s') 9 \<noteq> None"
proof -
  obtain s' where run: "sk_sort qsort by_value (Some (small_stack False [9, 4])) = ((), Some s')"
    by (simp add: sk_sort_def or_null_def small_stack_def Let_def)
  from sk_sort_then_find [OF _ _ _ _ _ run, of 9] show ?thesis
    using run by (auto simp: by_value_def split: option.splits)
qed

text \<open>C21. \<open>sk_set\<close> leaves the mark that the stack is sorted, although it may break the order: on every sorted stack
  without equal elements, under a consistent comparison, storing a pointer that compares greater than all others at the middle place keeps the mark, and
  makes the binary search miss every pointer other than \<open>NULL\<close> behind the middle, although it is still in the stack and was found before.\<close>
theorem sk_set_breaks_find:
  assumes "wf_stack s" and "st_comp s \<noteq> 0" and "st_sorted s" and "consistent_cmp (call (st_comp s))"
    and "sorted_wrt (\<lambda>a b. call (st_comp s) a b < 0) (contents s)"
    and "(st_num s - 1) div 2 < j" and "j < st_num s" and "contents s ! j \<noteq> 0"
    and "\<forall>x \<in> set (contents s). 0 < call (st_comp s) y x"
  shows "\<exists>s'. sk_set ((st_num s - 1) div 2) y (Some s) = (y, Some s') \<and> sk_is_sorted (Some s') \<and>
    contents s' = (contents s)[(st_num s - 1) div 2 := y] \<and> contents s' ! j = contents s ! j \<and>
    sk_find call (Some s) (contents s ! j) = Some j \<and> sk_find call (Some s') (contents s ! j) = None"
  using assms by (rule sk_set_loses)

theorem sk_set_breaks_find_witness:
  "\<exists>s'. sk_set 1 9 (Some (small_stack True [1, 2, 3])) = (9, Some s') \<and> sk_is_sorted (Some s') \<and> contents s' = [1, 9, 3] \<and>
    sk_find by_value (Some (small_stack True [1, 2, 3])) 3 = Some 2 \<and> sk_find by_value (Some s') 3 = None"
  using sk_set_breaks_find [of "small_stack True [1, 2, 3]" by_value 2 9] by (simp add: by_value_def) blast

section \<open>BIO pairs\<close>

text \<open>C22. A fresh pair of BIOs is a lossless queue: for every run of writes and reads, every call returns, what was read
  is a prefix of what was accepted, and the rest is still in the ring; the invariant of the pair holds throughout.\<close>
theorem bio_pair_fifo:
  assumes "bio_make_pair env x y n m bs = (True, bs1)" and "malloc_bounded env" and "x \<noteq> y"
    and "bio_new env = Some (bi_ptr (bs x))" and "bio_new env = Some (bi_ptr (bs y))" and "n < 2 ^ 62" and "m < 2 ^ 62"
    and "\<forall>e \<in> set es. int_event e"
  shows "\<exists>w r bs2. pipe_run (bio_put x) (bio_get y) es bs1 = Some (w, r, bs2) \<and> w = r @ pending x bs2 \<and> wf_pair x y bs2"
proof -
  have "wf_pair x y bs1" "pending x bs1 = []" using bio_make_pair_ok [OF assms(1-7)] by simp_all
  then show ?thesis using bio_pipe.run_delivers [OF _ assms(8), of x y bs1] by auto
qed

definition fresh_bios :: bios where
  "fresh_bios = (\<lambda>_. \<lparr>bi_init = False, bi_shutdown = 1, bi_flags = 0, bi_retry_reason = 0,
     bi_ptr = the (bio_new libc), bi_num_read = 0, bi_num_write = 0\<rparr>)"

lemma fresh_bios_new: "bio_new libc = Some (bi_ptr (fresh_bios x))"
  by (simp add: fresh_bios_def bio_new_def sizeof_bio_bio_def)

lemma fresh_pair: "\<exists>bs1. bio_make_pair libc 0 1 4 4 fresh_bios = (True, bs1)"
  by (simp add: bio_make_pair_def fresh_bios_def bio_new_def sizeof_bio_bio_def bio_buffer_def upd_ptr_def)

theorem bio_pair_fifo_witness:
  "\<exists>bs1 w r bs2. bio_make_pair libc 0 1 4 4 fresh_bios = (True, bs1) \<and>
    pipe_run (bio_put 0) (bio_get 1) [Put [1, 2], Get 1, Put [3], Get 9] bs1 = Some (w, r, bs2) \<and> w = r @ pending 0 bs2"
proof -
  obtain bs1 where 1: "bio_make_pair libc 0 1 4 4 fresh_bios = (True, bs1)" using fresh_pair by blast
  show ?thesis
    using bio_pair_fifo [OF 1 _ _ fresh_bios_new fresh_bios_new, of "[Put [1, 2], Get 1, Put [3], Get 9]"] 1
    by (auto simp: int_event_def)
qed

text \<open>C23. Writing a whole buffer to one end always returns; a prefix of the buffer was appended to the queue, all of it
  when the call reports success, and the other direction is untouched.\<close>
theorem BIO_write_all_total:
  assumes "wf_pair x y bs" and "len \<le> length dat"
  shows "\<exists>ok bs' k. BIO_write_all x dat len bs = Some (ok, bs') \<and> wf_pair x y bs' \<and> pending y bs' = pending y bs \<and>
    pending x bs' = pending x bs @ take k dat \<and> k \<le> len \<and> (ok \<longrightarrow> k = len)"
  using assms by (rule BIO_write_all_returns)

theorem BIO_write_all_total_witness:
  "\<exists>bs ok bs' k. wf_pair 0 1 bs \<and> BIO_write_all 0 [1, 2, 3] 3 bs = Some (ok, bs') \<and> pending 0 bs' = take k [1, 2, 3]"
proof -
  obtain bs where 1: "bio_make_pair libc 0 1 4 4 fresh_bios = (True, bs)" using fresh_pair by blast
  have wf: "wf_pair 0 1 bs" "pending 0 bs = []"
    using bio_make_pair_ok [OF 1 _ _ fresh_bios_new fresh_bios_new] by simp_all
  have "3 \<le> length [1 :: byte, 2, 3]" by simp
  from BIO_write_all_total [OF wf(1) this] obtain ok bs' k where "BIO_write_all 0 [1, 2, 3] 3 bs = Some (ok, bs')"
    and "pending 0 bs' = pending 0 bs @ take k [1, 2, 3]" by blast
  then show ?thesis using wf by (metis append_Nil)
qed

section \<open>Base64\<close>

text \<open>Encoding a block writes the reference encoding and a terminator, and \<open>EVP_EncodedLength\<close> is the size of
  the buffer this takes.\<close>
lemma EVP_EncodeBlock_reference:
  assumes "length src < 2 ^ 61"
  shows "EVP_EncodeBlock src = (b64 src @ [0], length (b64 src)) \<and>
    EVP_EncodedLength (length src) = Some (length (fst (EVP_EncodeBlock src)))"
proof -
  have "(length src + 2) div 3 \<le> length src + 2" by (rule div_le_dividend)
  then have len: "length (b64 src) + 1 < size_mod" "length src < size_mod"
    using assms by (simp_all add: length_b64 size_mod_def)
  then show ?thesis
    using EVP_EncodeBlock_eq [of src] EVP_EncodedLength_eq [of "length src"] by (simp add: length_b64)
qed

text \<open>C24. The block decoder accepts exactly the texts that encode some bytes, with any value of the bits that padding
  leaves unused, and returns those bytes; nothing else and nothing that would not fit.\<close>
theorem EVP_DecodeBase64_exact:
  "EVP_DecodeBase64 max_out inp = Some bs \<longleftrightarrow>
     (\<exists>k. inp = b64_with k bs) \<and> (length bs + 2) div 3 * 3 \<le> max_out"
  by (rule EVP_DecodeBase64_iff)

text \<open>C25. Streams round trip, up to \<open>2 ^ 29\<close> bytes of input in all (the lengths of the interface are \<open>int\<close>s): the text
  that calls of \<open>EVP_EncodeUpdate\<close> and \<open>EVP_EncodeFinal\<close> write for the pieces of an input is decoded to that
  input by calls of \<open>EVP_DecodeUpdate\<close> and \<open>EVP_DecodeFinal\<close>, whatever pieces the text comes in.\<close>
theorem base64_stream_roundtrip:
  assumes "length (concat xs) \<le> 2 ^ 29" and "concat ys = out @ take n fin"
    and "feed encode_step EVP_EncodeInit xs = Some (ctx, out)" and "EVP_EncodeFinal ctx = (ctx', fin, n)"
  shows "\<exists>dctx. feed decode_step EVP_DecodeInit ys = Some (dctx, concat xs) \<and> EVP_DecodeFinal dctx = 1"
  using stream_roundtrip [OF assms(1,3,4,2)] .

theorem base64_stream_roundtrip_witness:
  "\<exists>ctx out fin n dctx. feed encode_step EVP_EncodeInit [[1], [2, 3]] = Some (ctx, out) \<and>
    EVP_EncodeFinal ctx = (ctx\<lparr>ec_data_used := 0\<rparr>, fin, n) \<and>
    feed decode_step EVP_DecodeInit [out @ take n fin] = Some (dctx, [1, 2, 3]) \<and> EVP_DecodeFinal dctx = 1"
proof -
  have "length (concat [[1 :: byte], [2, 3]]) \<le> 2 ^ 30" by simp
  from encode_stream [OF this] obtain ctx out where run: "feed encode_step EVP_EncodeInit [[1], [2, 3]] = Some (ctx, out)"
    by blast
  have "length (concat [[1 :: byte], [2, 3]]) \<le> 2 ^ 29" by simp
  have init: "enc_ok EVP_EncodeInit" "ec_pending EVP_EncodeInit = []"
    by (simp_all add: enc_ok_def EVP_EncodeInit_def sizeof_ec_data_def ec_pending_def)
  have ok: "enc_ok ctx" using encoder.feed_good [OF init(1) _ run] by simp
  have "ec_pending ctx = [1, 2, 3]" using encoder.feed_concat [OF init(1), of "[[1], [2, 3]]"] init(2) run by simp
  then obtain fin n where fin: "EVP_EncodeFinal ctx = (ctx\<lparr>ec_data_used := 0\<rparr>, fin, n)"
    using EVP_EncodeFinal_ok [OF ok] by simp
  show ?thesis using base64_stream_roundtrip [OF _ _ run fin, of "[out @ take n fin]"] run fin by auto
qed

section \<open>Unicode\<close>

text \<open>C26. A valid code point that a builder writes as UTF-8 is read back, and nothing is left over; an invalid one is
  refused before anything is written.\<close>
theorem utf8_roundtrip:
  assumes "malloc_bounded env" and "cap < 2 ^ 63"
  shows "if is_valid_code_point u
    then \<forall>bs. build1 env cap (cbb_add_utf8 env 0 u) = Some bs \<longrightarrow>
      (\<exists>c'. cbs_get_utf8 (cbs_of bs) = (Some u, c') \<and> cbs_len c' = 0) \<and> length bs = cbb_get_utf8_len u
    else \<forall>s. cbb_add_utf8 env d u s = (None, s)"
proof (cases "is_valid_code_point u")
  case True
  have "(\<exists>c'. cbs_get_utf8 (cbs_of bs) = (Some u, c') \<and> cbs_len c' = 0) \<and> length bs = cbb_get_utf8_len u"
    if "build1 env cap (cbb_add_utf8 env 0 u) = Some bs" for bs
  proof -
    have bs: "bs = utf8 (unat u)" using build1_ok [OF builder_op_add_utf8 [OF True] assms that] .
    have len: "length bs = cbb_get_utf8_len u" using length_utf8 [OF True] bs by simp
    then have "length bs \<le> 4" by (simp add: cbb_get_utf8_len_def)
    then have "wf_cbs (cbs_of bs)" "cbs_view (cbs_of bs) = utf8 (unat u) @ []" using bs by simp_all
    from cbs_get_utf8_complete [OF this True] show ?thesis
      using len bs by (simp add: cbs_of_def CBS_init_def cbs_after_def)
  qed
  then show ?thesis using True by simp
qed (simp add: cbb_add_utf8_invalid)

theorem utf8_roundtrip_witness:
  "\<exists>bs c'. build1 libc 0 (cbb_add_utf8 libc 0 0x20ac) = Some bs \<and> cbs_get_utf8 (cbs_of bs) = (Some 0x20ac, c') \<and> length bs = 3"
proof -
  have valid: "is_valid_code_point 0x20ac" by (simp add: is_valid_code_point_def)
  have len: "length (utf8 (unat (0x20ac :: u32))) = 3" using length_utf8 [OF valid] by (simp add: cbb_get_utf8_len_def)
  have "build1 libc 0 (cbb_add_utf8 libc 0 0x20ac) = Some (utf8 (unat (0x20ac :: u32)))"
    by (rule build1_total [OF builder_op_add_utf8 [OF valid]]; (unfold len)?) simp_all
  then show ?thesis using utf8_roundtrip [of libc 0 "0x20ac"] valid by (auto simp: cbb_get_utf8_len_def)
qed

section \<open>Memory\<close>

text \<open>The constant-time comparison returns zero exactly when the two regions have equal bytes.\<close>
lemma CRYPTO_memcmp_decides_equality:
  assumes "n \<le> length a" and "n \<le> length b"
  shows "CRYPTO_memcmp a b n = 0 \<longleftrightarrow> take n a = take n b"
  using assms by (rule CRYPTO_memcmp_zero_iff)

text \<open>C27. \<open>OPENSSL_malloc\<close> adds its eight-byte prefix without an overflow check: a request within eight
  bytes of the top of \<open>size_t\<close> is granted with a block of far fewer bytes than asked for.\<close>
theorem OPENSSL_malloc_wraps:
  assumes "size_mod - 8 \<le> n" and "n < size_mod" and "malloc_ok env (n + 8 - size_mod)"
  shows "\<exists>p. OPENSSL_malloc env n = Some p \<and> length p < n"
proof -
  have "(n + 8) mod size_mod = n + 8 - size_mod"
    using assms(1,2) by (simp add: mod_if size_mod_def)
  then show ?thesis
    using assms by (simp add: OPENSSL_malloc_def size_add_def OPENSSL_MALLOC_PREFIX_def size_mod_def)
qed

theorem OPENSSL_malloc_wraps_witness:
  "\<exists>p. OPENSSL_malloc libc (2 ^ 64 - 1) = Some p \<and> length p < 2 ^ 64 - 1"
  using OPENSSL_malloc_wraps [of "2 ^ 64 - 1" libc] by (simp add: libc_def size_mod_def)

section \<open>Protocol buffers\<close>

text \<open>An example message of the application: \<open>gdt_cct_QosTiersOverride\<close> with one \<open>gdt_cct_QosTierConfiguration\<close>.\<close>

definition example_tables :: "nat \<Rightarrow> pb_field list" where
  "example_tables = (\<lambda>p. if p = 16 then
      [\<lparr>pf_tag = 2, pf_type = 0x12, pf_data_offset = 4, pf_size_offset = - 4, pf_data_size = 4, pf_array_size = 0, pf_ptr = 0\<rparr>,
       \<lparr>pf_tag = 3, pf_type = 0x11, pf_data_offset = 4, pf_size_offset = - 4, pf_data_size = 4, pf_array_size = 0, pf_ptr = 0\<rparr>,
       \<lparr>pf_tag = 0, pf_type = 0, pf_data_offset = 0, pf_size_offset = 0, pf_data_size = 0, pf_array_size = 0, pf_ptr = 0\<rparr>]
    else
      [\<lparr>pf_tag = 1, pf_type = 0xa8, pf_data_offset = 8, pf_size_offset = - 8, pf_data_size = 16, pf_array_size = 0, pf_ptr = 16\<rparr>,
       \<lparr>pf_tag = 2, pf_type = 0x11, pf_data_offset = 8, pf_size_offset = - 8, pf_data_size = 8, pf_array_size = 0, pf_ptr = 0\<rparr>,
       \<lparr>pf_tag = 0, pf_type = 0, pf_data_offset = 0, pf_size_offset = 0, pf_data_size = 0, pf_array_size = 0, pf_ptr = 0\<rparr>])"

definition example_env :: "(byte list \<times> byte list) pb_env" where
  "example_env = \<lparr>env_fields = example_tables, env_encode = (\<lambda>_ _ _. pb_write [8, 1] 2),
     env_ext_encode = (\<lambda>_ _. pb_write [8, 1] 2), env_null = ([], [])\<rparr>"

definition example_memory :: memory where
  "example_memory = (\<lambda>a. if a = 96 then 1 else if a = 104 then 200 else if a = 112 then 1 else if a = 120 then 5
     else if a = 200 then 1 else if a = 204 then 3 else if a = 208 then 1 else if 212 \<le> a \<and> a < 216 then 0xff else 0)"

definition example_bytes :: "byte list" where
  "example_bytes = [0x0a, 13, 0x10, 3, 0x18, 0xff, 0xff, 0xff, 0xff, 0xff, 0xff, 0xff, 0xff, 0xff, 1, 0x10, 5]"

definition example_refs :: refs where
  "example_refs = \<lparr>ref_callback = \<lambda>_ _ _. [8, 1], ref_extension = \<lambda>_ _. [8, 1]\<rparr>"

lemma example_message: "ref_message 2 example_env example_refs
    example_memory (example_tables 0) 96 = Some example_bytes"
  by code_simp

lemma example_honest: "buffer_sink.honest example_env example_refs"
  using buffer_sink.emits_write [of "[8, 1]", unfolded length_pair]
  by (simp add: buffer_sink.honest_def example_env_def example_refs_def size_mod_def)

text \<open>C28. The encoder of messages: the size it computes is the number of bytes it writes. Whenever a
  structure has an encoding, \<open>pb_get_encoded_size\<close> returns its length, and \<open>pb_encode\<close> writes it to every
  buffer it fits in, and fails on all others. Packed arrays and submessages, which are encoded twice,
  extensions and callbacks are included.\<close>
theorem pb_encode_exact:
  assumes "buffer_sink.honest env cbs" and "ref_message n env cbs mem fs src = Some w" and "length w < 2 ^ 63"
  shows "pb_get_encoded_size n env mem fs src = Some (length w) \<and>
    (length buf < 2 ^ 63 \<longrightarrow>
      (case pb_encode n env mem fs src (pb_ostream_from_buffer buf (length buf)) of
         (Some _, s) \<Rightarrow> length w \<le> length buf \<and> os_bytes_written s = length w \<and> fst (os_state s) = w
       | (None, _) \<Rightarrow> length buf < length w))"
proof -
  have run: "buffer_sink.emits (pb_encode n env mem fs src) w"
    using buffer_sink.encodesD [OF _ assms(3)] buffer_sink.encodes_message [OF assms(1), of n mem fs src] assms(2) by simp
  show ?thesis
  proof (intro conjI impI)
    show "pb_get_encoded_size n env mem fs src = Some (length w)"
      using buffer_sink.emits_sizing [OF run, of "pb_ostream_sizing (env_null env)"] assms(3)
      by (simp add: pb_get_encoded_size_def pb_ostream_sizing_def size_mod_def)
    assume buf: "length buf < 2 ^ 63"
    let ?s = "pb_ostream_from_buffer buf (length buf)"
    have s: "buffer_sink.open_sink ?s" "os_bytes_written ?s = 0" "os_max_size ?s = length buf" "fst (os_state ?s) = []"
      using buffer_open [OF buf] by (simp_all add: pb_ostream_from_buffer_def)
    show "case pb_encode n env mem fs src ?s of
         (Some _, s) \<Rightarrow> length w \<le> length buf \<and> os_bytes_written s = length w \<and> fst (os_state s) = w
       | (None, _) \<Rightarrow> length buf < length w"
    proof (cases "length w \<le> length buf")
      case True
      then obtain t where "pb_encode n env mem fs src ?s = (Some (), t)" "buffer_sink.extended w ?s t"
        using buffer_sink.emitsE [OF run s(1)] s by auto
      then show ?thesis using True s by (simp add: buffer_sink.extended_def)
    next
      case False
      then have "fst (pb_encode n env mem fs src ?s) = None"
        using buffer_sink.emits_full [OF run s(1)] s by simp
      then show ?thesis using False by (cases "pb_encode n env mem fs src ?s") simp
    qed
  qed
qed

theorem pb_encode_exact_witness:
  "pb_get_encoded_size 2 example_env example_memory (example_tables 0) 96 = Some 17 \<and>
   fst (os_state (snd (pb_encode 2 example_env example_memory (example_tables 0) 96 (pb_ostream_from_buffer (replicate 20 0) 20)))) = example_bytes"
proof -
  have len: "length example_bytes = 17" "length (replicate 20 (0 :: byte)) = 20" by (simp_all add: example_bytes_def)
  show ?thesis
    using pb_encode_exact [OF example_honest example_message, of "replicate 20 0", unfolded len]
    by (auto split: prod.splits option.splits)
qed

text \<open>C29. Not all varints that are too large are refused. \<close>
theorem pb_decode_varint32_accepts_overflow:
  "fst (pb_decode_varint32 (pb_istream_from_buffer [0x80, 0x80, 0x80, 0x80, 0xf0, 0x00] 6)) = Some 0 \<and>
   fst (pb_decode_varint (pb_istream_from_buffer [0x80, 0x80, 0x80, 0x80, 0xf0, 0x00] 6)) = Some (0x70 * 2 ^ 28) \<and>
   fst (pb_decode_varint32 (pb_istream_from_buffer (replicate 37 0x80 @ [0x01]) 38)) = Some 8 \<and>
   fst (pb_decode_varint (pb_istream_from_buffer (replicate 37 0x80 @ [0x01]) 38)) = None"
proof -
  have len: "length [0x80, 0x80, 0x80, 0x80, 0xf0, 0x00 :: byte] = 6" "length (replicate 37 0x80 @ [0x01 :: byte]) = 38" by simp_all
  have "p_varint32 [0x80, 0x80, 0x80, 0x80, 0xf0, 0x00] = Some (0, 6)"
    by (simp add: varint32_step_def varint32_bad_def Let_def)
  moreover have "p_varint 10 [0x80, 0x80, 0x80, 0x80, 0xf0, 0x00] = Some (0x70 * 2 ^ 28, 6)"
    by (simp add: p_varint_def)
  moreover have "p_varint32 (replicate 37 0x80 @ [0x01]) = Some (8, 38)"
    by code_simp
  moreover have "p_varint 10 (replicate 37 0x80 @ [0x01]) = None"
    by code_simp
  ultimately show ?thesis
    using fst_parses [OF buffer_source.parses_varint32, of "[0x80, 0x80, 0x80, 0x80, 0xf0, 0x00]"]
      fst_parses [OF buffer_source.parses_varint, of "[0x80, 0x80, 0x80, 0x80, 0xf0, 0x00]"]
      fst_parses [OF buffer_source.parses_varint32, of "replicate 37 0x80 @ [0x01]"]
      fst_parses [OF buffer_source.parses_varint, of "replicate 37 0x80 @ [0x01]"]
    unfolding len by simp
qed

text \<open>A 32-bit varint may be written as 32 bits, or, when it is negative, with its sign extended.\<close>

lemma reads_varint32_extended:
  assumes "source read content"
  shows "source.reads read content pb_decode_varint32 (leb (unat (v :: u32))) v \<and>
   source.reads read content pb_decode_varint32 (leb (unat (scast v :: u64))) v"
proof (intro conjI)
  show "source.reads read content pb_decode_varint32 (leb (unat v)) v" by (rule source.reads_varint32 [OF assms])
  show "source.reads read content pb_decode_varint32 (leb (unat (scast v :: u64))) v"
  proof (cases "2 ^ 31 \<le> unat v")
    case True
    then have n: "unat (scast v :: u64) = 2 ^ 64 - 2 ^ 32 + unat v" by (simp add: unat_scast_32)
    have "length (leb (2 ^ 64 - 2 ^ 32 + unat v)) = 10"
      using length_leb_ge [of 9 "2 ^ 64 - 2 ^ 32 + unat v"] length_leb_u64 [of "scast v"] n by simp
    then show ?thesis
      unfolding n using p_varint32_negative [OF True]
      by (intro source.reads_parses [OF assms source.parses_varint32 [OF assms]]) simp
  next
    case False
    then have "unat (scast v :: u64) = unat v" by (simp add: unat_scast_32)
    then show ?thesis using source.reads_varint32 [OF assms, of v] by simp
  qed
qed

text \<open>C30. Round trips of single values: what the encoders of the scalar types emit, to any sink (a callback that appends
  what it is given as long as there is room), the decoders read back, from any source (a callback that delivers the
  next bytes of a content), as the same value; a 32-bit varint also from the ten bytes of a negative number with its
  sign extended.\<close>
theorem pb_scalar_roundtrip:
  assumes "sink put written space" and "source read content"
  shows
  "sink.emits put written space (pb_encode_varint v) (leb (unat v)) \<and> source.reads read content pb_decode_varint (leb (unat v)) v \<and>
   sink.emits put written space (pb_encode_svarint v) (leb (zigzag (sint v))) \<and>
   source.reads read content pb_decode_svarint (leb (zigzag (sint v))) v \<and>
   sink.emits put written space (pb_encode_fixed32 u) (le_bytes 4 (unat u)) \<and>
   source.reads read content pb_decode_fixed32 (le_bytes 4 (unat u)) u \<and>
   sink.emits put written space (pb_encode_fixed64 v) (le_bytes 8 (unat v)) \<and>
   source.reads read content pb_decode_fixed64 (le_bytes 8 (unat v)) v \<and>
   source.reads read content pb_decode_varint32 (leb (unat u)) u \<and>
   source.reads read content pb_decode_varint32 (leb (unat (scast u :: u64))) u"
  by (intro conjI sink.emits_varint [OF assms(1)] sink.emits_svarint [OF assms(1)] sink.emits_fixed32 [OF assms(1)]
      sink.emits_fixed64 [OF assms(1)] source.reads_varint [OF assms(2)] source.reads_svarint [OF assms(2)]
      source.reads_fixed32 [OF assms(2)] source.reads_fixed64 [OF assms(2)]
      reads_varint32_extended [OF assms(2), THEN conjunct1] reads_varint32_extended [OF assms(2), THEN conjunct2])

theorem pb_scalar_roundtrip_witness:
  "buffer_sink.emits (pb_encode_varint 300) (leb 300) \<and> buffer_source.reads pb_decode_varint (leb 300) 300"
  using pb_scalar_roundtrip [OF buffer_sink.sink_axioms buffer_source.source_axioms, of 300] by simp

section \<open>Properties of the message decoder\<close>

text \<open>The fields of a timestamp (\<open>google_protobuf_Timestamp_fields\<close>): 64-bit seconds and 32-bit nanoseconds.\<close>

definition timestamp_fields :: "pb_field list" where
  "timestamp_fields =
     [\<lparr>pf_tag = 1, pf_type = 0x11, pf_data_offset = 0, pf_size_offset = 0, pf_data_size = 8, pf_array_size = 0, pf_ptr = 0\<rparr>,
      \<lparr>pf_tag = 2, pf_type = 0x11, pf_data_offset = 0, pf_size_offset = 0, pf_data_size = 4, pf_array_size = 0, pf_ptr = 0\<rparr>,
      \<lparr>pf_tag = 0, pf_type = 0, pf_data_offset = 0, pf_size_offset = 0, pf_data_size = 0, pf_array_size = 0, pf_ptr = 0\<rparr>]"

definition no_application :: "byte list pb_denv" where
  "no_application = \<lparr>dn_fields = (\<lambda>_. timestamp_fields), dn_place = (\<lambda>_ _. 0), dn_decode = (\<lambda>_ _ _. act_fail),
     dn_decode_buffer = (\<lambda>_ _ _. act_fail), dn_ext_decode = (\<lambda>_ _ _ _. act_fail)\<rparr>"

definition blank_heap :: pb_heap where
  "blank_heap = \<lparr>hp_mem = (\<lambda>_. 0), hp_blocks = [], hp_deep = False\<rparr>"

lemma timestamp_static: "static_message 1 no_application timestamp_fields 96 112"
  by code_simp

lemma polite_buffer: "polite (pb_istream_from_buffer buf n)"
  by (auto simp: polite_def pb_istream_from_buffer_def buf_read_def)

text \<open>C31. Memory safety of the decoder of messages. Whatever the input, decoding a message of static fields, with
  submessages, arrays and unions, writes to the structure and to the decoder's own counters only, leaves the
  rest of memory as it is, never gives back bytes of the input, and stays within the bound on recursion. The structure
  reaches from \<open>dest\<close> to \<open>hi\<close>, and \<open>static_message\<close> asks that it has room for four bytes at the counter of every array,
  also of an array with a fixed count, which has no counter and there means the array itself (the next property shows
  that a shorter one is overrun), and for one byte if the message has no fields. The stream has a callback that stores
  no more bytes than it is asked for (\<open>polite\<close>).\<close>
theorem pb_decode_memory_safe:
  assumes "static_message n env fs dest hi" and "polite s" and "pb_decode n env local fs dest (s, h) = (r, (s', h'))"
  shows "(\<forall>a. a \<notin> {dest..<hi} \<and> a \<notin> (\<Union>k<n. {local k..<local k + 4}) \<longrightarrow> hp_mem h' a = hp_mem h a) \<and>
    is_bytes_left s' \<le> is_bytes_left s \<and> hp_deep h' = hp_deep h"
proof -
  let ?R = "{dest..<hi} \<union> (\<Union>k<n. {local k..<local k + 4})"
  have "safe ?R (pb_decode n env local fs dest)"
    using safe_pb_decode [of n local ?R env fs dest hi] assms(1) by auto
  from safeD [OF this assms(3,2)] show ?thesis by (simp add: stays_def)
qed

theorem pb_decode_memory_safe_witness:
  "hp_mem (snd (snd (pb_decode 1 no_application (\<lambda>_. 200) timestamp_fields 96 (pb_istream_from_buffer [8, 5, 16, 7] 4, blank_heap)))) 112 = 0"
proof -
  obtain r s h where run: "pb_decode 1 no_application (\<lambda>_. 200) timestamp_fields 96 (pb_istream_from_buffer [8, 5, 16, 7] 4, blank_heap) = (r, (s, h))"
    by (cases "pb_decode 1 no_application (\<lambda>_. 200) timestamp_fields 96 (pb_istream_from_buffer [8, 5, 16, 7] 4, blank_heap)") auto
  have "hp_mem h 112 = hp_mem blank_heap 112"
    using pb_decode_memory_safe [OF timestamp_static polite_buffer run] by simp
  then show ?thesis unfolding run by (simp add: blank_heap_def)
qed

text \<open>A message whose only field is an array of one boolean, with a fixed count.\<close>

definition fixed_count_fields :: "pb_field list" where
  "fixed_count_fields =
     [\<lparr>pf_tag = 1, pf_type = 0x20, pf_data_offset = 0, pf_size_offset = 0, pf_data_size = 1, pf_array_size = 1, pf_ptr = 0\<rparr>,
      \<lparr>pf_tag = 0, pf_type = 0, pf_data_offset = 0, pf_size_offset = 0, pf_data_size = 0, pf_array_size = 0, pf_ptr = 0\<rparr>]"

text \<open>C32. Arrays with a fixed count have no counter, but setting defaults resets four bytes for one. Decoding nothing into a
  message whose only field is such a static array, of any element type and size, clears the first four bytes at the array, and
  nothing else but the decoder's own counter; if the array is shorter than four bytes, the bytes behind it are lost.\<close>
theorem pb_decode_fixed_count_overrun:
  assumes "PB_ATYPE (pf_type f) = PB_ATYPE_STATIC" and "PB_HTYPE (pf_type f) = PB_HTYPE_REPEATED"
    and "PB_LTYPE (pf_type f) \<noteq> PB_LTYPE_EXTENSION" and "pf_size_offset f = 0" and "pf_tag f \<noteq> 0" and "pf_tag t = 0"
    and "is_bytes_left s = 0"
  shows "\<exists>h'. pb_decode (Suc n) env local [f, t] dest (s, h) = (Some (), (s, h')) \<and>
    (\<forall>a. hp_mem h' a =
       (if a \<in> {dest + pf_data_offset f..<dest + pf_data_offset f + 4} \<union> {local n..<local n + 4} then 0 else hp_mem h a)) \<and>
    (\<forall>i. pf_data_size f * pf_array_size f \<le> i \<and> i < 4 \<longrightarrow> hp_mem h' (dest + pf_data_offset f + i) = 0)"
  using decode_fixed_count [OF assms, of n env local dest h] by (simp add: poke_zeros_mem)

theorem pb_decode_fixed_count_overrun_witness:
  "\<exists>h'. pb_decode 1 no_application (\<lambda>_. 200) fixed_count_fields 96 (pb_istream_from_buffer [] 0, blank_heap\<lparr>hp_mem := (\<lambda>_. 0xee)\<rparr>) =
      (Some (), (pb_istream_from_buffer [] 0, h')) \<and>
    map (hp_mem h') [95, 96, 97, 98, 99, 100] = [0xee, 0, 0, 0, 0, 0xee]"
proof -
  obtain f t where ft: "fixed_count_fields = [f, t]" "pf_tag t = 0" "pf_tag f \<noteq> 0" "pf_size_offset f = 0" "pf_data_offset f = 0"
      "pf_type f = 0x20"
    by (simp add: fixed_count_fields_def)
  have "PB_ATYPE 0x20 = PB_ATYPE_STATIC" "PB_HTYPE 0x20 = PB_HTYPE_REPEATED" "PB_LTYPE 0x20 \<noteq> PB_LTYPE_EXTENSION"
      "is_bytes_left (pb_istream_from_buffer [] 0) = 0"
    by code_simp+
  then show ?thesis
    using pb_decode_fixed_count_overrun [of f t "pb_istream_from_buffer [] 0" 0 no_application "\<lambda>_. 200" 96 "blank_heap\<lparr>hp_mem := (\<lambda>_. 0xee)\<rparr>"] ft
    by auto
qed

text \<open>C33. A message type without fields does not skip field number zero: if a tag with that number and a varint \<open>v\<close> are all
  that a stream holds, the search takes the end of the table for the field, and the decoder succeeds and stores a
  boolean in the first byte of the structure. In every table with fields the search does not find number zero.\<close>
theorem pb_decode_field_zero:
  assumes "is_bytes_left s \<noteq> 0" and "pb_decode_tag s = ((Some (wt, 0), eof), s1)"
    and "pb_decode_varint32 s1 = (Some v, s2)" and "is_bytes_left s2 = 0"
  shows "(\<exists>h'. pb_decode (Suc n) env local [PB_LAST_FIELD] dest (s, h) = (Some (), (s2, h')) \<and>
      hp_mem h' dest = (if v \<noteq> 0 then 1 else 0)) \<and>
    (\<forall>fs it. \<not> last_field fs \<and> position fs dest it \<longrightarrow> pb_field_iter_find 0 it = (False, it))"
  using decode_no_fields [OF assms, of n env local dest h] find_zero by (auto simp: poke_mem)

theorem pb_decode_field_zero_witness:
  "\<exists>s' h'. pb_decode 1 no_application (\<lambda>_. 200) [PB_LAST_FIELD] 96 (pb_istream_from_buffer [1, 1] 2, blank_heap) = (Some (), (s', h')) \<and>
    hp_mem h' 96 = 1"
proof -
  have *: "is_bytes_left (pb_istream_from_buffer [1, 1] 2) \<noteq> 0"
    "pb_decode_tag (pb_istream_from_buffer [1, 1] 2) = ((Some (1, 0), False), (pb_istream_from_buffer [1] 1))"
    "pb_decode_varint32 (pb_istream_from_buffer [1] 1) = (Some 1, pb_istream_from_buffer [] 0)"
    "is_bytes_left (pb_istream_from_buffer [] 0) = 0"
    by (simp_all add: pb_istream_from_buffer_def pb_decode_tag_def pb_decode_varint32_def pb_decode_varint32_eof_def
        pb_readbyte_def buf_read_def)
  from pb_decode_field_zero [OF *, of 0 no_application "\<lambda>_. 200" 96 blank_heap] show ?thesis by auto
qed

text \<open>C34. The search for a field is exact: from any position of a message it ends at a position of the same walk through
  the structure, at the field with the tag that was asked for, whenever the table has one; otherwise it comes back
  to where it started. Entries for extensions are passed over.\<close>
theorem pb_field_iter_find_exact:
  assumes "\<not> last_field fs" and "position fs dest it"
  shows "case pb_field_iter_find tag it of
     (True, it') \<Rightarrow> position fs dest it' \<and> pf_tag (hd (it_pos it')) = tag \<and> PB_LTYPE (pf_type (hd (it_pos it'))) \<noteq> PB_LTYPE_EXTENSION
   | (False, it') \<Rightarrow> it' = it \<and> (\<forall>f \<in> set (table_fields fs). pf_tag f = tag \<longrightarrow> PB_LTYPE (pf_type f) = PB_LTYPE_EXTENSION)"
  using assms by (rule find_exact)

theorem pb_field_iter_find_exact_witness:
  "fst (pb_field_iter_find 2 (snd (pb_field_iter_begin timestamp_fields 96))) \<and>
   pf_tag (hd (it_pos (snd (pb_field_iter_find 2 (snd (pb_field_iter_begin timestamp_fields 96)))))) = 2"
proof -
  have fs: "\<not> last_field timestamp_fields" by (simp add: last_field_def timestamp_fields_def)
  have "fst (pb_field_iter_find 2 (snd (pb_field_iter_begin timestamp_fields 96)))" by code_simp
  then show ?thesis
    using pb_field_iter_find_exact [OF fs position_begin, of 96 2] by (simp split: prod.splits bool.splits)
qed

lemma encode_to_buffer:
  assumes "buffer_sink.honest env cbs" and "ref_message n env cbs mem fs src = Some w" and "length w \<le> length buf" and "length buf < 2 ^ 63"
  obtains out where "pb_encode n env mem fs src (pb_ostream_from_buffer buf (length buf)) = (Some (), out)"
    and "fst (os_state out) = w" and "os_bytes_written out = length w"
proof -
  let ?o = "pb_ostream_from_buffer buf (length buf)"
  have o: "buffer_sink.open_sink ?o" "os_bytes_written ?o = 0" "os_max_size ?o = length buf" "fst (os_state ?o) = []"
    using buffer_open [OF assms(4)] by (simp_all add: pb_ostream_from_buffer_def)
  have "buffer_sink.emits (pb_encode n env mem fs src) w"
    using buffer_sink.encodesD [of _ w] buffer_sink.encodes_message [OF assms(1), of n mem fs src] assms(2-4) by simp
  then obtain out where "pb_encode n env mem fs src ?o = (Some (), out)" "buffer_sink.extended w ?o out"
    using buffer_sink.emitsE [OF _ o(1)] o assms(3) by auto
  then show ?thesis using that o by (simp add: buffer_sink.extended_def)
qed

lemma timestamp_flat: "flat_table timestamp_fields" "flat_size timestamp_fields = 12" "length (table_fields timestamp_fields) = 2"
    "field_offset timestamp_fields 0 = 0" "field_offset timestamp_fields 1 = 8"
  by code_simp+

text \<open>C35. Messages round trip. Let \<open>fs\<close> describe a structure of singular scalar fields as proto3 has them: any number,
  types and sizes, with distinct tags, without has flags and without default values, and let the booleans of the
  structure hold 0 or 1; the decoder's own counter lies outside the structure. What \<open>pb_encode\<close> writes for such a structure, \<open>pb_decode\<close> accepts as a whole, and it stores
  the same bytes in every field of the structure it is given, whatever that held before; fields that were not
  encoded become zero.\<close>
theorem pb_message_roundtrip:
  assumes "flat_table fs" and "\<forall>k<length (table_fields fs). canonical mem (table_fields fs ! k) (src + field_offset fs k)"
    and "buffer_sink.honest env cbs" and "length buf < 2 ^ 63"
    and "pb_encode (Suc (Suc m)) env mem fs src (pb_ostream_from_buffer buf (length buf)) = (Some u, out)"
    and "local n + 4 \<le> dest \<or> dest + flat_size fs \<le> local n"
  shows "\<exists>s' h'. pb_decode (Suc n) denv local fs dest (pb_istream_from_buffer (fst (os_state out)) (os_bytes_written out), h) = (Some (), (s', h')) \<and>
    is_bytes_left s' = 0 \<and>
    (\<forall>k<length (table_fields fs). bytes_at (hp_mem h') (dest + field_offset fs k) (pf_data_size (table_fields fs ! k)) =
       bytes_at mem (src + field_offset fs k) (pf_data_size (table_fields fs ! k)))"
proof -
  obtain E where ref: "ref_message (Suc (Suc m)) env cbs mem fs src = Some (concat (map E [0..<length (table_fields fs)]))"
    and short: "length (concat (map E [0..<length (table_fields fs)])) < 2 ^ 63"
    and entry: "\<forall>k<length (table_fields fs).
      E k = [] \<and> bytes_at mem (src + field_offset fs k) (pf_data_size (table_fields fs ! k)) = zeros (pf_data_size (table_fields fs ! k)) \<or>
      (\<exists>wt v. E k = tag_bytes wt (pf_tag (table_fields fs ! k)) @ v \<and>
        unat wt < 8 \<and> ref_value (env_fields env) (ref_message (Suc m) env cbs mem) mem (table_fields fs ! k) (src + field_offset fs k) = Some v)"
    using flat_message [OF assms(1), of m env cbs mem src] by blast
  let ?w = "concat (map E [0..<length (table_fields fs)])"
  have emits: "buffer_sink.emits (pb_encode (Suc (Suc m)) env mem fs src) ?w"
    using buffer_sink.encodesD [OF _ short] buffer_sink.encodes_message [OF assms(3), of "Suc (Suc m)" mem fs src] ref by simp
  let ?o = "pb_ostream_from_buffer buf (length buf)"
  have o: "buffer_sink.open_sink ?o" "os_bytes_written ?o = 0" "os_max_size ?o = length buf" "fst (os_state ?o) = []"
    using buffer_open [OF assms(4)] by (simp_all add: pb_ostream_from_buffer_def)
  have "length ?w \<le> length buf" using buffer_sink.emits_full [OF emits o(1)] o assms(5) by fastforce
  then have out: "buffer_sink.extended ?w ?o out"
    using buffer_sink.emitsE [OF emits o(1)] o assms(5) by (metis add_0 prod.inject)
  let ?s = "pb_istream_from_buffer (fst (os_state out)) (os_bytes_written out)"
  have "fst (os_state out) = ?w" "os_bytes_written out = length ?w" using out o by (simp_all add: buffer_sink.extended_def)
  then have s: "buffer_source.ready ?s" "buffer_source.ahead ?s = ?w"
    by (simp_all add: buffer_source.ready_def buffer_source.ahead_def pb_istream_from_buffer_def)
  show ?thesis
    by (rule buffer_source.flat_decode [where E = E and local = local and n = n, OF assms(1) _ _ assms(6) s]) (use entry assms(2) in blast)+
qed

definition timestamp_memory :: memory where
  "timestamp_memory = (\<lambda>a. if a = 40 then 5 else if 48 \<le> a \<and> a < 52 then 0xff else 0)"

theorem pb_message_roundtrip_witness:
  "\<exists>s' h'. pb_decode 1 no_application (\<lambda>_. 200) timestamp_fields 96
      (pb_istream_from_buffer [8, 5, 0x10, 0xff, 0xff, 0xff, 0xff, 0xff, 0xff, 0xff, 0xff, 0xff, 1] 13, blank_heap) = (Some (), (s', h')) \<and>
    bytes_at (hp_mem h') 104 4 = [0xff, 0xff, 0xff, 0xff]"
proof -
  let ?w = "[8, 5, 0x10, 0xff, 0xff, 0xff, 0xff, 0xff, 0xff, 0xff, 0xff, 0xff, 1] :: byte list"
  have ref: "ref_message (Suc (Suc 0)) example_env example_refs timestamp_memory timestamp_fields 40 = Some ?w" by code_simp
  have len: "length (replicate 20 (0 :: byte)) < 2 ^ 63" "length ?w \<le> length (replicate 20 (0 :: byte))" "length ?w = 13" by simp_all
  obtain out where enc: "pb_encode (Suc (Suc 0)) example_env timestamp_memory timestamp_fields 40
      (pb_ostream_from_buffer (replicate 20 0) (length (replicate 20 (0 :: byte)))) = (Some (), out)"
    and out: "fst (os_state out) = ?w" "os_bytes_written out = 13"
    using encode_to_buffer [OF example_honest ref len(2,1)] unfolding len(3) by blast
  have "canonical timestamp_memory (table_fields timestamp_fields ! 0) 40" "canonical timestamp_memory (table_fields timestamp_fields ! 1) 48"
    by code_simp+
  then have can: "\<forall>k<length (table_fields timestamp_fields). canonical timestamp_memory (table_fields timestamp_fields ! k) (40 + field_offset timestamp_fields k)"
    unfolding timestamp_flat by (auto simp: less_2_cases_iff timestamp_flat [unfolded One_nat_def] simp del: field_offset.simps)
  have one: "pf_data_size (table_fields timestamp_fields ! 1) = 4" "bytes_at timestamp_memory 48 4 = [0xff, 0xff, 0xff, 0xff]"
    by code_simp+
  have room: "(200 :: nat) + 4 \<le> 96 \<or> 96 + flat_size timestamp_fields \<le> 200" by (simp add: timestamp_flat)
  obtain s' h' where run: "pb_decode (Suc 0) no_application (\<lambda>_. 200) timestamp_fields 96
      (pb_istream_from_buffer (fst (os_state out)) (os_bytes_written out), blank_heap) = (Some (), (s', h'))"
    and fields: "\<forall>k<length (table_fields timestamp_fields). bytes_at (hp_mem h') (96 + field_offset timestamp_fields k)
        (pf_data_size (table_fields timestamp_fields ! k)) =
      bytes_at timestamp_memory (40 + field_offset timestamp_fields k) (pf_data_size (table_fields timestamp_fields ! k))"
    using pb_message_roundtrip [where local = "\<lambda>_. 200" and n = 0 and dest = 96, OF timestamp_flat(1) can example_honest len(1) enc room] by blast
  have "bytes_at (hp_mem h') 104 4 = [0xff, 0xff, 0xff, 0xff]"
    using fields [rule_format, of 1] by (simp add: timestamp_flat one del: One_nat_def field_offset.simps)
  then show ?thesis using run unfolding out by auto
qed

section \<open>Properties of the dictionaries\<close>

text \<open>C36. The balanced trees are dictionaries. From the empty tree, every sequence of insertions and removals succeeds: no
  null pointer is dereferenced and no assertion fails, the one on the balance of every subtree included. Lookups
  then answer as in a function from keys to values in which the last operation on a key decides, where keys are equal
  if the vtable compares them as zero. The tree is as shallow as its number of entries asks.\<close>
theorem avl_refines_dictionary:
  assumes "good_vtable rank content vt u"
  shows "\<exists>t. run_ops (\<lambda>(k, v) s. grpc_avl_add s k v u) (\<lambda>k s. grpc_avl_remove s k u) ops (grpc_avl_create vt) = Some t \<and>
    (\<lambda>k. map_option content (grpc_avl_get t k u)) = spec_ops (\<lambda>a b. rank a = rank b) fst (\<lambda>(k, v). content v) ops (\<lambda>_. None) \<and>
    assert_invariants (avl_root t) = Some (avl_root t) \<and>
    2 ^ (nat (node_height (avl_root t)) div 2) \<le> length (entries rank content (avl_root t)) + 1"
proof -
  have none: "(\<lambda>k. map_option content (grpc_avl_get (grpc_avl_create vt) k u)) = (\<lambda>_. None)"
    by (simp add: grpc_avl_get_def grpc_avl_create_def fun_eq_iff)
  obtain t where t: "run_ops (\<lambda>(k, v) s. grpc_avl_add s k v u) (\<lambda>k s. grpc_avl_remove s k u) ops (grpc_avl_create vt) = Some t"
      "avl_ok rank content u t"
      "(\<lambda>k. map_option content (grpc_avl_get t k u)) = spec_ops (\<lambda>a b. rank a = rank b) fst (\<lambda>(k, v). content v) ops (\<lambda>_. None)"
    using avl_runs [OF create_ok [OF assms], of ops] unfolding none by blast
  then have "avl (avl_root t)" by (simp add: avl_ok_def)
  then show ?thesis using t avl_shallow [of "avl_root t" rank content] by auto
qed

definition int_vtable :: "(int, nat, unit) grpc_avl_vtable" where
  "int_vtable = \<lparr>copy_key = (\<lambda>k _. k), compare_keys = (\<lambda>a b _. a - b), copy_value = (\<lambda>v _. v)\<rparr>"

theorem avl_refines_dictionary_witness:
  "\<exists>t. run_ops (\<lambda>(k, v) s. grpc_avl_add s k v ()) (\<lambda>k s. grpc_avl_remove s k ()) [Store (1, 10), Store (2, 20), Store (3, 30), Remove 2, Store (1, 11)]
      (grpc_avl_create int_vtable) = Some t \<and>
    grpc_avl_get t 1 () = Some 11 \<and> grpc_avl_get t 2 () = None \<and> grpc_avl_get t 3 () = Some 30"
proof -
  have "good_vtable (\<lambda>k. k) (\<lambda>v. v) int_vtable ()" by (simp add: good_vtable_def int_vtable_def)
  from avl_refines_dictionary [OF this, of "[Store (1, 10), Store (2, 20), Store (3, 30), Remove 2, Store (1, 11)]"]
  show ?thesis by (auto simp: fun_eq_iff option.map_ident)
qed

text \<open>C37. The hash table is a dictionary, through every change of the number of buckets. After any sequence of insertions
  and deletions that the allocator lets succeed, a search answers as in a function in which the last operation on an
  identity decides, if data compares equal just when it has the same identity and then has the same hash value. If
  the allocator grants items, every such sequence succeeds, even if it refuses new bucket arrays.\<close>
theorem lh_refines_dictionary:
  assumes "lh_new env hsh cmp = Some lh" and "good_functions ident hsh cmp"
  shows "(\<forall>t. run_ops (lh_put env) (lh_del env) ops lh = Some t \<longrightarrow>
      lh_retrieve t = spec_ops (\<lambda>a b. ident a = ident b) (\<lambda>d. d) (\<lambda>d. d) ops (\<lambda>_. None)) \<and>
    (OPENSSL_malloc env sizeof_item \<noteq> None \<longrightarrow> (\<exists>t. run_ops (lh_put env) (lh_del env) ops lh = Some t))"
proof -
  have lh: "wf_lhash ident lh" "lh_retrieve lh = (\<lambda>_. None)" using lh_retrieve_new [OF assms] by simp_all
  show ?thesis
    using lh_dict.run_refines [OF lh(1), of env ops] lh_runs_total [OF _ lh(1)] by (auto simp: lh(2))
qed

definition pair_hash :: "nat \<times> nat \<Rightarrow> u32" where
  "pair_hash p = of_nat (fst p mod 3)"

definition pair_cmp :: "nat \<times> nat \<Rightarrow> nat \<times> nat \<Rightarrow> int" where
  "pair_cmp p q = int (fst p) - int (fst q)"

lemma pair_functions: "good_functions fst pair_hash pair_cmp"
  by (simp add: good_functions_def pair_hash_def pair_cmp_def)

lemma pair_table: "\<exists>lh. lh_new libc pair_hash pair_cmp = Some lh"
  by (simp add: lh_new_def sizeof_lhash_def sizeof_link_def kMinNumBuckets_def size_mod_def)

theorem lh_refines_dictionary_witness:
  "\<exists>lh t. lh_new libc pair_hash pair_cmp = Some lh \<and>
    run_ops (lh_put libc) (lh_del libc) [Store (1, 10), Store (4, 40), Store (1, 11), Remove (4, 0)] lh = Some t \<and>
    lh_retrieve t (1, 0) = Some (1, 11) \<and> lh_retrieve t (4, 0) = None"
proof -
  obtain lh where lh: "lh_new libc pair_hash pair_cmp = Some lh" using pair_table by blast
  have "OPENSSL_malloc libc sizeof_item \<noteq> None" by (simp add: sizeof_item_def)
  with lh_refines_dictionary [OF lh pair_functions, of "[Store (1, 10), Store (4, 40), Store (1, 11), Remove (4, 0)]"]
  obtain t where "run_ops (lh_put libc) (lh_del libc) [Store (1, 10), Store (4, 40), Store (1, 11), Remove (4, 0)] lh = Some t"
      "lh_retrieve t = spec_ops (\<lambda>a b. fst a = fst b) (\<lambda>d. d) (\<lambda>d. d) [Store (1, 10), Store (4, 40), Store (1, 11), Remove (4, 0)] (\<lambda>_. None)"
    by blast
  then show ?thesis using lh by auto
qed

text \<open>C38. Insertion stores the data and hands back what it replaces, or fails and changes nothing, which happens only if the
  allocator refuses the item; deletion hands back what it removes. A traversal calls the function on each data of the
  table exactly once and leaves the contents as they are.\<close>
theorem lh_operations_exact:
  assumes "wf_lhash ident lh"
  shows "(case lh_insert env d lh of ((r, old), lh') \<Rightarrow> wf_lhash ident lh' \<and> old = (if r = 1 then lh_retrieve lh d else None) \<and>
      (r = 1 \<and> lh_retrieve lh' d = Some d \<and> lh_data lh' = insert d (lh_data lh - set_option (lh_retrieve lh d)) \<or>
       r = 0 \<and> lh' = lh \<and> OPENSSL_malloc env sizeof_item = None)) \<and>
    (case lh_delete env d lh of (r, lh') \<Rightarrow> wf_lhash ident lh' \<and> r = lh_retrieve lh d \<and> lh_retrieve lh' d = None \<and>
      lh_data lh' = lh_data lh - set_option r) \<and>
    (\<exists>ds. fst (lh_doall_arg env func arg lh) = fold func ds arg \<and> distinct ds \<and> set ds = lh_data lh \<and>
      lh_data (snd (lh_doall_arg env func arg lh)) = lh_data lh)"
proof -
  have other: "{v \<in> lh_data lh. ident v \<noteq> ident d} = lh_data lh - set_option (lh_retrieve lh d)"
    using lh_retrieve_data [OF assms, of d] by (auto simp: elem_set)
  obtain r old s where ins: "lh_insert env d lh = ((r, old), s)" by (metis prod.exhaust)
  obtain r' t where del: "lh_delete env d lh = (r', t)" by (metis prod.exhaust)
  obtain a u where doall: "lh_doall_arg env func arg lh = (a, u)" by (metis prod.exhaust)
  note i = lh_insert_ok [OF assms ins] and e = lh_delete_ok [OF assms del] and a = lh_doall_ok [OF assms doall]
  have "distinct (map item_data (lh_items lh))"
    using wf_lhashD(6) [OF assms] by (auto simp: distinct_map inj_on_def)
  then have "\<exists>ds. fst (lh_doall_arg env func arg lh) = fold func ds arg \<and> distinct ds \<and> set ds = lh_data lh \<and>
      lh_data (snd (lh_doall_arg env func arg lh)) = lh_data lh"
    using a(1,3) doall by (intro exI [of _ "map item_data (lh_items lh)"]) (simp add: lh_data_def)
  moreover have "lh_retrieve s d = Some d" if "lh_data s = insert d {v \<in> lh_data lh. ident v \<noteq> ident d}"
    using retrieve_put [OF assms i(1) that, of d] by simp
  moreover have "lh_retrieve t d = None" using retrieve_del [OF assms e(1,4), of d] by simp
  ultimately show ?thesis using i e ins del unfolding other by auto
qed

theorem lh_operations_exact_witness:
  "\<exists>lh. lh_new libc pair_hash pair_cmp = Some lh \<and>
    lh_retrieve (snd (lh_insert libc (7, 70) lh)) (7, 70) = Some (7, 70) \<and> fst (lh_delete libc (7, 0) lh) = None"
proof -
  obtain lh where lh: "lh_new libc pair_hash pair_cmp = Some lh" using pair_table by blast
  have wf: "wf_lhash fst lh" "lh_retrieve lh = (\<lambda>_. None)" using lh_retrieve_new [OF lh pair_functions] by simp_all
  have m: "OPENSSL_malloc libc sizeof_item \<noteq> None" by (simp add: sizeof_item_def)
  obtain r old s where ins: "lh_insert libc (7, 70) lh = ((r, old), s)" by (metis prod.exhaust)
  have "lh_retrieve s (7, 70) = Some (7, 70)"
    using lh_operations_exact [OF wf(1), where env = libc and d = "(7, 70)", THEN conjunct1] m by (auto simp: ins)
  moreover obtain r' t where del: "lh_delete libc (7, 0) lh = (r', t)" by (metis prod.exhaust)
  have "r' = None"
    using lh_operations_exact [OF wf(1), where env = libc and d = "(7, 0)", THEN conjunct2, THEN conjunct1] wf(2) by (simp add: del)
  ultimately show ?thesis using lh ins del by simp
qed

section \<open>Properties of percent-encoding\<close>

text \<open>C39. The strict decoder accepts exactly the texts of unreserved bytes and escapes of two hexadecimal digits of
  either case, and returns the bytes they stand for; on everything else it returns false. (The header says that legal
  input contains no unreserved bytes; it is the reserved ones that legal input must not contain.) The permissive decoder
  returns the same bytes where the strict one succeeds, and never fails. No assertion of the three functions can fail
  and no read leaves the slice.\<close>
theorem percent_decoders_exact:
  "grpc_percent_encode_slice p table \<noteq> None \<and>
   (grpc_strict_percent_decode_slice p table = Some (True, out) \<longleftrightarrow> percent_text table p out) \<and>
   ((\<nexists>out. percent_text table p out) \<longleftrightarrow> grpc_strict_percent_decode_slice p table = Some (False, [])) \<and>
   (percent_text table p out \<longrightarrow> grpc_permissive_percent_decode_slice p = Some out) \<and>
   grpc_permissive_percent_decode_slice p \<noteq> None"
  using strict_slice_cases [of table p]
  by (auto simp: encode_slice_eq permissive_slice_eq strict_slice_exact [symmetric])

theorem percent_decoders_exact_witness:
  "grpc_permissive_percent_decode_slice [0x61, 0x25, 0x32, 0x46] = Some [0x61, 0x2f]"
proof -
  have "grpc_strict_percent_decode_slice [0x61, 0x25, 0x32, 0x46] grpc_url_percent_encoding_unreserved_bytes = Some (True, [0x61, 0x2f])"
    by code_simp
  then show ?thesis
    using percent_decoders_exact [of "[0x61, 0x25, 0x32, 0x46]" grpc_url_percent_encoding_unreserved_bytes "[0x61, 0x2f]"] by simp
qed

text \<open>C40. Percent-encoding round trips through both decoders, for every table in which the percent sign is reserved, as
  it is in the two tables of the code.\<close>
theorem percent_roundtrip:
  assumes "\<not> is_unreserved_character 0x25 table"
  shows "\<exists>e. grpc_percent_encode_slice s table = Some e \<and>
    grpc_strict_percent_decode_slice e table = Some (True, s) \<and> grpc_permissive_percent_decode_slice e = Some s"
  using strict_slice_escape [OF assms] by (simp add: encode_slice_eq)

theorem percent_roundtrip_witness:
  "(\<exists>e. grpc_percent_encode_slice [0x25, 0xc3, 0x41] grpc_compatible_percent_encoding_unreserved_bytes = Some e \<and>
      grpc_permissive_percent_decode_slice e = Some [0x25, 0xc3, 0x41]) \<and>
   (\<exists>e. grpc_percent_encode_slice [0x20] grpc_url_percent_encoding_unreserved_bytes = Some e \<and>
      grpc_permissive_percent_decode_slice e = Some [0x20])"
proof -
  have "\<not> is_unreserved_character 0x25 grpc_compatible_percent_encoding_unreserved_bytes"
    "\<not> is_unreserved_character 0x25 grpc_url_percent_encoding_unreserved_bytes" by code_simp+
  from this [THEN percent_roundtrip] show ?thesis by blast
qed

end
